(* ===== verification/Prelude.thy ===== *)
theory Prelude
  imports Main "HOL-Library.Word"
begin

text \<open>
  Shared vocabulary of the development: the machine integer types of \<open>src/kernel/types.h\<close>,
  the outcome of a run of kernel code (\<open>res\<close>), the sequencing of kernel statements
  (\<open>bind\<close>, \<open>for_each\<close>), byte-addressed memory, and the little-endian layout of C integers.
  The generic lemmas on bytes, lists and memory that the component theories share are here.
\<close>

unbundle bit_operations_syntax

section \<open>Machine integers\<close>

type_synonym byte = "8 word"
type_synonym u16 = "16 word"
type_synonym u32 = "32 word"
type_synonym u64 = "64 word"

text \<open>A C \<open>int\<close> that is read out of an unsigned register or word.\<close>

definition int_of_u64 :: "u64 \<Rightarrow> int" where
  "int_of_u64 w = sint (ucast w :: u32)"

definition u64_of_int :: "int \<Rightarrow> u64" where
  "u64_of_int i = word_of_int i"

section \<open>Outcomes of kernel code\<close>

text \<open>
  The kernel's spinlocks and sleep channels are addresses of C objects. The model names the
  objects. Array elements are named by their index and heap objects by their address.
\<close>

datatype lockid =
    PidLock
  | ProcLock nat
  | KmemLock
  | BcacheLock
  | BufLock nat
  | InodeLock nat
  | LogLock
  | IcacheLock
  | FtableLock
  | PipeLock u64
  | TicksLock
  | ConsLock
  | UartTxLock
  | PrLock
  | VdiskLock

datatype chan =
    ChanProc nat
  | ChanBufLock nat
  | ChanInodeLock nat
  | ChanLog
  | ChanBuf nat
  | ChanDiskFree
  | ChanPipeRead u64
  | ChanPipeWrite u64
  | ChanConsRead
  | ChanUartTx
  | ChanTicks

text \<open>
  Why a run of kernel code does not come back to its caller: it called \<open>panic\<close>; it did
  something the C standard leaves undefined (an index out of an array, a null pointer); it spins
  on a lock that another CPU holds; it gave up the CPU in \<open>swtch\<close>; or it entered a loop that
  nothing ends.
\<close>

datatype stop =
    Panic string
  | Undef string
  | Spin lockid
  | Switched
  | Hang string

datatype ('s, 'a) res = Ok 'a 's | Stop stop 's

definition return :: "'a \<Rightarrow> 's \<Rightarrow> ('s, 'a) res" where
  "return x s = Ok x s"

definition bind :: "('s \<Rightarrow> ('s, 'a) res) \<Rightarrow> ('a \<Rightarrow> 's \<Rightarrow> ('s, 'b) res) \<Rightarrow> 's \<Rightarrow> ('s, 'b) res" where
  "bind m f s = (case m s of Ok x t \<Rightarrow> f x t | Stop e t \<Rightarrow> Stop e t)"

definition seq :: "('s \<Rightarrow> ('s, 'a) res) \<Rightarrow> ('s \<Rightarrow> ('s, 'b) res) \<Rightarrow> 's \<Rightarrow> ('s, 'b) res" where
  "seq m n s = (case m s of Ok x t \<Rightarrow> n t | Stop e t \<Rightarrow> Stop e t)"

definition gets :: "('s \<Rightarrow> 'a) \<Rightarrow> 's \<Rightarrow> ('s, 'a) res" where
  "gets f s = Ok (f s) s"

definition modify :: "('s \<Rightarrow> 's) \<Rightarrow> 's \<Rightarrow> ('s, unit) res" where
  "modify f s = Ok () (f s)"

definition panic :: "string \<Rightarrow> 's \<Rightarrow> ('s, 'a) res" where
  "panic msg s = Stop (Panic msg) s"

definition undef :: "string \<Rightarrow> 's \<Rightarrow> ('s, 'a) res" where
  "undef msg s = Stop (Undef msg) s"

definition stop :: "stop \<Rightarrow> 's \<Rightarrow> ('s, 'a) res" where
  "stop e s = Stop e s"

definition whenever :: "bool \<Rightarrow> ('s \<Rightarrow> ('s, unit) res) \<Rightarrow> 's \<Rightarrow> ('s, unit) res" where
  "whenever b m = (if b then m else return ())"

fun for_each :: "'x list \<Rightarrow> ('x \<Rightarrow> 's \<Rightarrow> ('s, unit) res) \<Rightarrow> 's \<Rightarrow> ('s, unit) res" where
  "for_each [] f = return ()"
| "for_each (x # xs) f = seq (f x) (for_each xs f)"

lemma return_run [simp]: "return x s = Ok x s"
  by (simp add: return_def)

lemma bind_run [simp]: "bind m f s = (case m s of Ok x t \<Rightarrow> f x t | Stop e t \<Rightarrow> Stop e t)"
  by (simp add: bind_def)

lemma seq_run [simp]: "seq m n s = (case m s of Ok x t \<Rightarrow> n t | Stop e t \<Rightarrow> Stop e t)"
  by (simp add: seq_def)

lemma gets_run [simp]: "gets f s = Ok (f s) s"
  by (simp add: gets_def)

lemma modify_run [simp]: "modify f s = Ok () (f s)"
  by (simp add: modify_def)

lemma panic_run [simp]: "panic msg s = Stop (Panic msg) s"
  by (simp add: panic_def)

lemma undef_run [simp]: "undef msg s = Stop (Undef msg) s"
  by (simp add: undef_def)

lemma stop_run [simp]: "stop e s = Stop e s"
  by (simp add: stop_def)

lemma whenever_run [simp]: "whenever b m s = (if b then m s else Ok () s)"
  by (simp add: whenever_def)

lemma for_each_append:
  "for_each (xs @ ys) f s =
     (case for_each xs f s of Ok x t \<Rightarrow> for_each ys f t | Stop e t \<Rightarrow> Stop e t)"
  by (induction xs arbitrary: s) (auto split: res.splits)

text \<open>A property that every iteration keeps holds after the loop.\<close>

lemma for_each_invariant:
  assumes "P s" and "for_each xs f s = Ok u t"
    and "\<And>x a b v. x \<in> set xs \<Longrightarrow> P a \<Longrightarrow> f x a = Ok v b \<Longrightarrow> P b"
  shows "P t"
  using assms
proof (induction xs arbitrary: s)
  case Nil
  then show ?case by simp
next
  case (Cons x xs)
  from Cons.prems(2) obtain v b where b: "f x s = Ok v b" "for_each xs f b = Ok u t"
    by (auto split: res.splits)
  from Cons.prems(3) [OF _ Cons.prems(1) b(1)] have "P b" by simp
  then show ?case
    using b(2) Cons.prems(3) by (rule Cons.IH) auto
qed

text \<open>A loop whose iterations all return, returns.\<close>

lemma for_each_total:
  assumes "P s"
    and "\<And>x a. x \<in> set xs \<Longrightarrow> P a \<Longrightarrow> \<exists>b. f x a = Ok () b \<and> P b"
  shows "\<exists>t. for_each xs f s = Ok () t \<and> P t"
  using assms
proof (induction xs arbitrary: s)
  case Nil
  then show ?case by simp
next
  case (Cons x xs)
  from Cons.prems(2) [OF _ Cons.prems(1)] obtain b where b: "f x s = Ok () b" "P b"
    by auto
  from Cons.IH [OF b(2)] Cons.prems(2) obtain t where "for_each xs f b = Ok () t" "P t"
    by (metis list.set_intros(2))
  with b show ?case by simp
qed

lemma for_each_modify:
  "for_each xs (\<lambda>x. modify (f x)) s = Ok () (fold f xs s)"
  by (induction xs arbitrary: s) simp_all

section \<open>Bytes of machine words\<close>

text \<open>AArch64 stores integers little-endian.\<close>

fun le_bytes :: "nat \<Rightarrow> 'a::len word \<Rightarrow> byte list" where
  "le_bytes 0 w = []"
| "le_bytes (Suc n) w = ucast w # le_bytes n (drop_bit 8 w)"

fun le_word :: "byte list \<Rightarrow> 'a::len word" where
  "le_word [] = 0"
| "le_word (b # bs) = ucast b OR push_bit 8 (le_word bs)"

lemma length_le_bytes [simp]: "length (le_bytes n w) = n"
  by (induction n arbitrary: w) simp_all

lemma le_word_bytes_take: "le_word (le_bytes n w) = take_bit (8 * n) w"
proof (induction n arbitrary: w)
  case 0
  then show ?case by simp
next
  case (Suc n)
  have "ucast (ucast w :: byte) OR push_bit 8 (take_bit (8 * n) (drop_bit 8 w))
        = take_bit (8 + 8 * n) w"
    by (rule bit_eqI)
       (auto simp: bit_or_iff bit_ucast_iff bit_push_bit_iff bit_take_bit_iff bit_drop_bit_eq
          not_less intro: bit_imp_le_length)
  with Suc show ?case by (simp add: algebra_simps)
qed

lemma le_word_bytes:
  assumes "LENGTH('a::len) \<le> 8 * n"
  shows "le_word (le_bytes n (w :: 'a word)) = w"
  using assms by (simp add: le_word_bytes_take take_bit_word_eq_self)

lemma bit_le_word_high:
  "8 * length bs \<le> i \<Longrightarrow> \<not> bit (le_word bs :: 'a::len word) i"
proof (induction bs arbitrary: i)
  case Nil
  then show ?case by simp
next
  case (Cons b bs)
  then have "8 * length bs \<le> i - 8" by simp
  with Cons.IH have h: "\<not> bit (le_word bs :: 'a word) (i - 8)" by blast
  from Cons.prems have "\<not> bit b i" by (intro notI) (auto dest: bit_imp_le_length)
  with h Cons.prems show ?case
    by (auto simp: bit_or_iff bit_ucast_iff bit_push_bit_iff)
qed

lemma le_bytes_word:
  assumes "8 * length bs \<le> LENGTH('a::len)"
  shows "le_bytes (length bs) (le_word bs :: 'a word) = bs"
  using assms
proof (induction bs)
  case Nil
  then show ?case by simp
next
  case (Cons b bs)
  then have len: "8 + 8 * length bs \<le> LENGTH('a)" by simp
  have low: "ucast (ucast b OR push_bit 8 (le_word bs :: 'a word)) = b"
    by (rule bit_eqI) (use len in \<open>auto simp: bit_ucast_iff bit_or_iff bit_push_bit_iff\<close>)
  have high: "drop_bit 8 (ucast b OR push_bit 8 (le_word bs :: 'a word)) = le_word bs"
  proof (rule bit_word_eqI)
    fix i
    assume i: "i < LENGTH('a)"
    have "\<not> bit b (8 + i)" by (intro notI) (auto dest: bit_imp_le_length)
    moreover have "8 + i < LENGTH('a)" if "bit (le_word bs :: 'a word) i"
      using that len bit_le_word_high [of bs i, where 'a = 'a] by (cases "8 * length bs \<le> i") auto
    ultimately show "bit (drop_bit 8 (ucast b OR push_bit 8 (le_word bs :: 'a word))) i
        \<longleftrightarrow> bit (le_word bs :: 'a word) i"
      by (auto simp: bit_drop_bit_eq bit_or_iff bit_ucast_iff bit_push_bit_iff)
  qed
  from low high Cons show ?case by simp
qed

section \<open>Byte-addressed memory\<close>

type_synonym memory = "u64 \<Rightarrow> byte"

definition read_mem :: "memory \<Rightarrow> u64 \<Rightarrow> nat \<Rightarrow> byte list" where
  "read_mem m a n = map (\<lambda>i. m (a + of_nat i)) [0..<n]"

definition write_mem :: "memory \<Rightarrow> u64 \<Rightarrow> byte list \<Rightarrow> memory" where
  "write_mem m a bs = (\<lambda>x. if unat (x - a) < length bs then bs ! unat (x - a) else m x)"

definition read64 :: "memory \<Rightarrow> u64 \<Rightarrow> u64" where
  "read64 m a = le_word (read_mem m a 8)"

definition write64 :: "memory \<Rightarrow> u64 \<Rightarrow> u64 \<Rightarrow> memory" where
  "write64 m a v = write_mem m a (le_bytes 8 v)"

lemma length_read_mem [simp]: "length (read_mem m a n) = n"
  by (simp add: read_mem_def)

lemma nth_read_mem [simp]: "i < n \<Longrightarrow> read_mem m a n ! i = m (a + of_nat i)"
  by (simp add: read_mem_def)

lemma write_mem_apply:
  "write_mem m a bs x = (if unat (x - a) < length bs then bs ! unat (x - a) else m x)"
  by (simp add: write_mem_def)

lemma write_mem_Nil [simp]: "write_mem m a [] = m"
  by (simp add: write_mem_def)

lemma unat_of_nat_u64: "i < 2 ^ 64 \<Longrightarrow> unat (of_nat i :: u64) = i"
  by (simp add: unat_of_nat take_bit_nat_eq_self)

lemma read_write_mem_same:
  assumes "length bs \<le> 2 ^ 64" "n = length bs"
  shows "read_mem (write_mem m a bs) a n = bs"
  using assms by (intro nth_equalityI) (simp_all add: write_mem_apply unat_of_nat_u64)

lemma read_write_mem_other:
  assumes "\<And>i. i < n \<Longrightarrow> length bs \<le> unat (b + of_nat i - a)"
  shows "read_mem (write_mem m a bs) b n = read_mem m b n"
proof (rule nth_equalityI)
  fix i
  assume "i < length (read_mem (write_mem m a bs) b n)"
  then have i: "i < n" by simp
  with assms [OF i] show "read_mem (write_mem m a bs) b n ! i = read_mem m b n ! i"
    by (simp add: write_mem_apply)
qed simp

lemma read_write64_same [simp]: "read64 (write64 m a v) a = v"
  by (simp add: read64_def write64_def read_write_mem_same le_word_bytes)

end
