(* ===== verification/Cstring.thy ===== *)
theory Cstring
  imports Prelude
begin

text \<open>
  The kernel's string and memory routines (\<open>src/kernel/string.c\<close>) and the user library's copies
  of them (\<open>src/user/ulib.c\<close>). \<open>memset\<close>, \<open>memcmp\<close> and \<open>memmove\<close> work on the byte-addressed
  memory, since a claim about \<open>memmove\<close> depends on how source and destination overlap. The
  string routines read through a view of a pointer: \<open>p i\<close> is the byte \<open>p[i]\<close>. On AArch64 the
  type \<open>char\<close> is unsigned.
\<close>

type_synonym view = "nat \<Rightarrow> byte"

definition view_at :: "memory \<Rightarrow> u64 \<Rightarrow> view" where
  "view_at m a = (\<lambda>i. m (a + of_nat i))"

definition view_of :: "byte list \<Rightarrow> view" where
  "view_of bs = (\<lambda>i. if i < length bs then bs ! i else 0)"

section \<open>Memory routines\<close>

definition memset :: "memory \<Rightarrow> u64 \<Rightarrow> int \<Rightarrow> u32 \<Rightarrow> memory" where
  "memset m dst ch sz =
     fold (\<lambda>i m. m(dst + of_nat i := word_of_int ch)) [0..<unat sz] m"

fun memcmp_loop :: "memory \<Rightarrow> u64 \<Rightarrow> u64 \<Rightarrow> nat \<Rightarrow> int" where
  "memcmp_loop m s1 s2 0 = 0"
| "memcmp_loop m s1 s2 (Suc n) =
     (if m s1 \<noteq> m s2 then uint (m s1) - uint (m s2)
      else memcmp_loop m (s1 + 1) (s2 + 1) n)"

definition memcmp :: "memory \<Rightarrow> u64 \<Rightarrow> u64 \<Rightarrow> u32 \<Rightarrow> int" where
  "memcmp m v1 v2 n = memcmp_loop m v1 v2 (unat n)"

fun copy_up :: "memory \<Rightarrow> u64 \<Rightarrow> u64 \<Rightarrow> nat \<Rightarrow> memory" where
  "copy_up m d s 0 = m"
| "copy_up m d s (Suc n) = copy_up (m(d := m s)) (d + 1) (s + 1) n"

fun copy_down :: "memory \<Rightarrow> u64 \<Rightarrow> u64 \<Rightarrow> nat \<Rightarrow> memory" where
  "copy_down m d s 0 = m"
| "copy_down m d s (Suc n) = copy_down (m(d - 1 := m (s - 1))) (d - 1) (s - 1) n"

definition memmove :: "memory \<Rightarrow> u64 \<Rightarrow> u64 \<Rightarrow> u32 \<Rightarrow> memory" where
  "memmove m dst src n =
     (if src < dst \<and> src + ucast n > dst
      then copy_down m (dst + ucast n) (src + ucast n) (unat n)
      else copy_up m dst src (unat n))"

definition memcpy :: "memory \<Rightarrow> u64 \<Rightarrow> u64 \<Rightarrow> u32 \<Rightarrow> memory" where
  "memcpy m dst src n = memmove m dst src n"

section \<open>String routines\<close>

fun strncmp_loop :: "view \<Rightarrow> view \<Rightarrow> nat \<Rightarrow> nat \<Rightarrow> int" where
  "strncmp_loop p q i 0 = 0"
| "strncmp_loop p q i (Suc n) =
     (if p i \<noteq> 0 \<and> p i = q i then strncmp_loop p q (Suc i) n
      else uint (p i) - uint (q i))"

definition strncmp :: "view \<Rightarrow> view \<Rightarrow> u32 \<Rightarrow> int" where
  "strncmp p q n = strncmp_loop p q 0 (unat n)"

text \<open>The copying loop of \<open>strncpy\<close>: the buffer, the index of \<open>s\<close> and what is left of \<open>n\<close>.\<close>

fun strncpy_copy :: "view \<Rightarrow> view \<Rightarrow> nat \<Rightarrow> nat \<Rightarrow> view \<times> nat \<times> nat" where
  "strncpy_copy s t i 0 = (s, i, 0)"
| "strncpy_copy s t i (Suc n) =
     (if t i \<noteq> 0 then strncpy_copy (s(i := t i)) t (Suc i) n
      else (s(i := t i), Suc i, n))"

definition strncpy :: "view \<Rightarrow> view \<Rightarrow> int \<Rightarrow> view" where
  "strncpy s t n =
     (case strncpy_copy s t 0 (nat n) of
        (s', i, k) \<Rightarrow> fold (\<lambda>j s. s(i + j := 0)) [0..<k] s')"

definition safestrcpy :: "view \<Rightarrow> view \<Rightarrow> int \<Rightarrow> view" where
  "safestrcpy s t n =
     (if n \<le> 0 then s
      else case strncpy_copy s t 0 (nat (n - 1)) of (s', i, k) \<Rightarrow> s'(i := 0))"

partial_function (option) strlen_from :: "view \<Rightarrow> nat \<Rightarrow> nat option" where
  "strlen_from s n = (if s n \<noteq> 0 then strlen_from s (Suc n) else Some n)"

definition strlen :: "view \<Rightarrow> nat option" where
  "strlen s = strlen_from s 0"

section \<open>Facts about the memory routines\<close>

lemma memset_prefix:
  assumes "n \<le> 2 ^ 64"
  shows "fold (\<lambda>i m. m(dst + of_nat i := c)) [0..<n] m =
    write_mem m dst (replicate n (c :: byte))"
  using assms
proof (induction n)
  case 0
  then show ?case by simp
next
  case (Suc n)
  then have IH: "fold (\<lambda>i m. m(dst + of_nat i := c)) [0..<n] m =
      write_mem m dst (replicate n c)" by (intro Suc.IH) simp
  have "(write_mem m dst (replicate n c))(dst + of_nat n := c) =
      write_mem m dst (replicate (Suc n) c)"
  proof
    fix x
    have "x = dst + of_nat n \<longleftrightarrow> unat (x - dst) = n"
    proof
      assume "x = dst + of_nat n"
      then show "unat (x - dst) = n" using Suc.prems by (simp add: unat_of_nat_u64)
    next
      assume "unat (x - dst) = n"
      then have "of_nat n = x - dst" by (metis of_nat_unat ucast_id)
      then show "x = dst + of_nat n" by simp
    qed
    then show "((write_mem m dst (replicate n c))(dst + of_nat n := c)) x =
        write_mem m dst (replicate (Suc n) c) x"
      by (auto simp: write_mem_apply nth_append simp del: replicate_Suc
          simp add: replicate_append_same [symmetric] less_Suc_eq)
  qed
  with IH show ?case by (simp only: upt_Suc_append fold_append fold.simps comp_apply id_apply le0)
qed

lemma memset_write: "memset m dst ch sz = write_mem m dst (replicate (unat sz) (word_of_int ch))"
  unfolding memset_def
  by (rule memset_prefix) (use unsigned_less [of sz, where 'a = nat] in simp)

lemma offset_eq_iff: "n < 2 ^ 64 \<Longrightarrow> x = a + of_nat n \<longleftrightarrow> unat (x - a) = n" for x a :: u64
proof
  assume "n < 2 ^ 64" "x = a + of_nat n"
  then show "unat (x - a) = n" by (simp add: unat_of_nat_u64)
next
  assume "unat (x - a) = n"
  then have "of_nat n = x - a" by (metis of_nat_unat ucast_id)
  then show "x = a + of_nat n" by simp
qed

lemma write_mem_Cons:
  assumes "length bs < 2 ^ 64"
  shows "write_mem (m(a := b)) (a + 1) bs = write_mem m a (b # bs)"
proof
  fix x
  show "write_mem (m(a := b)) (a + 1) bs x = write_mem m a (b # bs) x"
  proof (cases "x = a")
    case True
    have "unat (- 1 :: u64) = 2 ^ 64 - 1" by (simp add: unsigned_minus_1_eq_mask mask_eq_exp_minus_1)
    with True assms show ?thesis by (simp add: write_mem_apply)
  next
    case False
    then have "x - a \<noteq> 0" by simp
    then have "unat (x - a) = Suc (unat (x - a - 1))"
      by (metis Suc_pred' unat_gt_0 unat_minus_one)
    with False show ?thesis by (simp add: write_mem_apply algebra_simps)
  qed
qed

lemma write_mem_snoc:
  assumes "length bs < 2 ^ 64"
  shows "write_mem (m(a + of_nat (length bs) := b)) a bs = write_mem m a (bs @ [b])"
proof
  fix x
  show "write_mem (m(a + of_nat (length bs) := b)) a bs x = write_mem m a (bs @ [b]) x"
    using offset_eq_iff [OF assms, of x a]
    by (auto simp: write_mem_apply nth_append less_Suc_eq)
qed

lemma read_mem_Suc: "read_mem m a (Suc n) = m a # read_mem m (a + 1) n"
  by (simp add: read_mem_def upt_conv_Cons map_Suc_upt [symmetric] del: upt_Suc)
     (simp add: add.assoc)

lemma read_mem_snoc: "read_mem m a (Suc n) = read_mem m a n @ [m (a + of_nat n)]"
  by (simp add: read_mem_def)

lemma read_mem_upd_other:
  "(\<And>i. i < n \<Longrightarrow> a + of_nat i \<noteq> d) \<Longrightarrow> read_mem (m(d := v)) a n = read_mem m a n"
  by (simp add: read_mem_def)

lemma copy_up_write:
  assumes "n \<le> 2 ^ 64" and "d = s \<or> n \<le> unat (d - s)"
  shows "copy_up m d s n = write_mem m d (read_mem m s n)"
  using assms
proof (induction n arbitrary: m d s)
  case 0
  then show ?case by (simp add: read_mem_def)
next
  case (Suc n)
  have other: "read_mem (m(d := m s)) (s + 1) n = read_mem m (s + 1) n"
  proof (cases "d = s")
    case True
    then show ?thesis by simp
  next
    case False
    with Suc.prems have far: "Suc n \<le> unat (d - s)" by simp
    show ?thesis
    proof (rule read_mem_upd_other)
      fix i
      assume "i < n"
      with Suc.prems(1) far offset_eq_iff [of "Suc i" d s]
      show "s + 1 + of_nat i \<noteq> d" by (auto simp: add.assoc)
    qed
  qed
  have "copy_up (m(d := m s)) (d + 1) (s + 1) n =
      write_mem (m(d := m s)) (d + 1) (read_mem (m(d := m s)) (s + 1) n)"
    using Suc.prems by (intro Suc.IH) auto
  also have "\<dots> = write_mem m d (m s # read_mem m (s + 1) n)"
    using Suc.prems(1) by (simp add: other write_mem_Cons)
  finally show ?case by (simp add: read_mem_Suc)
qed

lemma copy_down_write:
  assumes "n \<le> 2 ^ 64" and "d = s \<or> n \<le> unat (s - d)"
  shows "copy_down m (d + of_nat n) (s + of_nat n) n = write_mem m d (read_mem m s n)"
  using assms
proof (induction n arbitrary: m)
  case 0
  then show ?case by (simp add: read_mem_def)
next
  case (Suc n)
  let ?m = "m(d + of_nat n := m (s + of_nat n))"
  have other: "read_mem ?m s n = read_mem m s n"
  proof (cases "d = s")
    case True
    then show ?thesis by simp
  next
    case False
    with Suc.prems have far: "Suc n \<le> unat (s - d)" by simp
    show ?thesis
    proof (rule read_mem_upd_other)
      fix i
      assume i: "i < n"
      show "s + of_nat i \<noteq> d + of_nat n"
      proof
        assume "s + of_nat i = d + of_nat n"
        with i have "s - d = of_nat (n - i)" by (simp add: of_nat_diff algebra_simps)
        moreover have "unat (of_nat (n - i) :: u64) = n - i"
          using Suc.prems(1) by (intro unat_of_nat_u64) simp
        ultimately show False using far by simp
      qed
    qed
  qed
  have "copy_down m (d + of_nat (Suc n)) (s + of_nat (Suc n)) (Suc n) =
      copy_down ?m (d + of_nat n) (s + of_nat n) n"
    by (simp add: algebra_simps)
  also have "\<dots> = write_mem ?m d (read_mem ?m s n)"
    using Suc.prems by (intro Suc.IH) auto
  also have "\<dots> = write_mem m d (read_mem m s n @ [m (s + of_nat n)])"
    using Suc.prems(1) write_mem_snoc [of "read_mem m s n" m d] by (simp add: other)
  finally show ?case by (simp add: read_mem_snoc)
qed

text \<open>
  \<open>memmove\<close> copies as if through a temporary buffer, however source and destination overlap,
  as long as neither range runs past the end of the address space.
\<close>

lemma memmove_write:
  assumes "unat src + unat n < 2 ^ 64" and "unat dst + unat n \<le> 2 ^ 64"
  shows "memmove m dst src n = write_mem m dst (read_mem m src (unat n))"
proof -
  have cast: "(ucast n :: u64) = of_nat (unat n)" by simp
  have n64: "unat n < 2 ^ 64" using assms(1) by simp
  have sum: "unat (src + of_nat (unat n)) = unat src + unat n"
    using assms(1) n64 by (simp only: unat_word_ariths unat_of_nat_u64) simp
  show ?thesis
  proof (cases "src < dst \<and> src + ucast n > dst")
    case True
    then have "unat n \<le> unat (src - dst)"
      using assms by (simp add: cast sum word_less_nat_alt unat_sub_if_size word_size del: of_nat_unat)
    with True n64 show ?thesis
      by (simp add: memmove_def cast copy_down_write del: of_nat_unat)
  next
    case False
    then have "dst = src \<or> unat n \<le> unat (dst - src)"
      using assms
      by (auto simp: cast sum word_less_nat_alt unat_sub_if_size word_size not_less
          dest: unsigned_word_eqI simp del: of_nat_unat)
    then have "copy_up m dst src (unat n) = write_mem m dst (read_mem m src (unat n))"
      using n64 by (intro copy_up_write) simp_all
    with False show ?thesis unfolding memmove_def by (simp only: if_False)
  qed
qed

section \<open>Facts about the string routines\<close>

lemma strlen_from_scan:
  "n \<le> k \<Longrightarrow> s k = 0 \<Longrightarrow> (\<And>i. n \<le> i \<Longrightarrow> i < k \<Longrightarrow> s i \<noteq> 0) \<Longrightarrow> strlen_from s n = Some k"
proof (induction "k - n" arbitrary: n)
  case 0
  then show ?case by (simp add: strlen_from.simps)
next
  case (Suc d)
  then have "n < k" by simp
  with Suc.prems have "s n \<noteq> 0" by simp
  moreover have "strlen_from s (Suc n) = Some k"
    using Suc.prems \<open>n < k\<close> Suc.hyps(2) by (intro Suc.hyps(1)) auto
  ultimately show ?case by (simp add: strlen_from.simps)
qed

lemma strncmp_loop_zero:
  "strncmp_loop p q i n = 0 \<longleftrightarrow>
     (\<forall>k < n. (\<forall>j < k. p (i + j) \<noteq> 0) \<longrightarrow> p (i + k) = q (i + k))"
proof (induction n arbitrary: i)
  case 0
  then show ?case by simp
next
  case (Suc n)
  have split: "(\<forall>k < Suc n. P k) \<longleftrightarrow> P 0 \<and> (\<forall>k < n. P (Suc k))" for P
    by (metis Suc_less_eq gr0_conv_Suc not_gr_zero zero_less_Suc)
  have all: "(\<forall>j < Suc k. p (i + j) \<noteq> 0) \<longleftrightarrow> p i \<noteq> 0 \<and> (\<forall>j < k. p (Suc i + j) \<noteq> 0)" for k
    by (metis Suc_less_eq add_0_right add_Suc add_Suc_right gr0_conv_Suc not_gr_zero zero_less_Suc)
  show ?case
    unfolding split all using Suc [of "Suc i"]
    by (auto simp: unsigned_eq_0_iff dest: unsigned_word_eqI)
qed

text \<open>Agreeing up to the first NUL, as a condition on positions and as a common prefix.\<close>

lemma strncmp_prefix:
  "(\<forall>k < n. (\<forall>j < k. p j \<noteq> 0) \<longrightarrow> p k = q k) \<longleftrightarrow>
     (\<exists>k \<le> n. (\<forall>i < k. p i = q i) \<and> (k = n \<or> (0 < k \<and> p (k - 1) = 0)))"
  for p q :: view
proof (cases "\<exists>z < n. p z = 0")
  case True
  define z where "z = (LEAST z. p z = 0)"
  from True obtain y where y: "y < n" "p y = 0" by blast
  have z: "p z = 0" "z \<le> y" "\<And>j. j < z \<Longrightarrow> p j \<noteq> 0"
    unfolding z_def using y(2) by (auto intro: LeastI Least_le dest: not_less_Least)
  have "(\<forall>k < n. (\<forall>j < k. p j \<noteq> 0) \<longrightarrow> p k = q k) \<longleftrightarrow> (\<forall>k \<le> z. p k = q k)"
    using y z by (metis le_less_trans less_imp_le_nat not_le order_less_le_trans)
  moreover have "(\<forall>k \<le> z. p k = q k)"
    if k: "k \<le> n" "\<forall>i < k. p i = q i" "k = n \<or> (0 < k \<and> p (k - 1) = 0)" for k
  proof -
    have "z < k" using k(3) z y by (metis diff_less le_less_trans less_numeral_extra(1) not_le)
    with k(2) show ?thesis by simp
  qed
  moreover have "\<exists>k \<le> n. (\<forall>i < k. p i = q i) \<and> (k = n \<or> (0 < k \<and> p (k - 1) = 0))"
    if "\<forall>k \<le> z. p k = q k"
    using that y z by (intro exI [of _ "Suc z"]) auto
  ultimately show ?thesis by blast
next
  case False
  then show ?thesis
    by (auto intro!: exI [of _ n])
qed

lemma strncpy_copy_result:
  assumes "strncpy_copy s t i n = (s', j, k)"
  shows "i \<le> j \<and> j + k = i + n \<and> s' = (\<lambda>x. if i \<le> x \<and> x < j then t x else s x) \<and>
    ((k = 0 \<and> (\<forall>x. i \<le> x \<longrightarrow> x < j \<longrightarrow> t x \<noteq> 0)) \<or>
     (i < j \<and> t (j - 1) = 0 \<and> (\<forall>x. i \<le> x \<longrightarrow> x < j - 1 \<longrightarrow> t x \<noteq> 0)))"
  using assms
proof (induction n arbitrary: s i)
  case 0
  then show ?case by (auto simp: fun_eq_iff)
next
  case (Suc n)
  show ?case
  proof (cases "t i = 0")
    case True
    with Suc.prems have "s' = s(i := 0)" "j = Suc i" "k = n" by auto
    with True show ?thesis by (auto simp: fun_eq_iff less_Suc_eq)
  next
    case False
    with Suc.prems have "strncpy_copy (s(i := t i)) t (Suc i) n = (s', j, k)" by simp
    note IH = Suc.IH [OF this]
    have from_i: "(\<forall>x. i \<le> x \<longrightarrow> x < b \<longrightarrow> t x \<noteq> 0) \<longleftrightarrow> (\<forall>x. Suc i \<le> x \<longrightarrow> x < b \<longrightarrow> t x \<noteq> 0)" for b
      using False by (metis Suc_le_eq le_neq_implies_less less_imp_le_nat)
    have "s' = (\<lambda>x. if i \<le> x \<and> x < j then t x else s x)"
      using IH by (auto simp: fun_eq_iff)
    with IH show ?thesis unfolding from_i by auto
  qed
qed

text \<open>\<open>strncpy\<close> copies up to the NUL and pads with NULs, and writes nothing past \<open>n\<close> bytes.\<close>

lemma fold_zero_range:
  "fold (\<lambda>j s. s(i + j := 0)) [0..<k] s = (\<lambda>x. if i \<le> x \<and> x < i + k then 0 else s x)"
  for s :: view
  by (induction k) (auto simp: fun_eq_iff)

lemma strncpy_result:
  "strncpy s t n = (\<lambda>x. if int x < n then (if \<forall>y \<le> x. t y \<noteq> 0 then t x else 0) else s x)"
proof -
  obtain s' j k where c: "strncpy_copy s t 0 (nat n) = (s', j, k)"
    by (metis prod_cases3)
  from strncpy_copy_result [OF c]
  have j: "j + k = nat n" and s': "s' = (\<lambda>x. if x < j then t x else s x)"
    and e: "(k = 0 \<and> (\<forall>x < j. t x \<noteq> 0)) \<or> (0 < j \<and> t (j - 1) = 0 \<and> (\<forall>x < j - 1. t x \<noteq> 0))"
    by auto
  show ?thesis
  proof
    fix x
    have "int x < n \<longleftrightarrow> x < j + k" using j by auto
    moreover have "t x = 0" if "x < j" and y: "y \<le> x" "t y = 0" for y
    proof -
      have "t (j - 1) = 0" "\<not> y < j - 1" using e that by auto
      with that have "x = j - 1" by simp
      with \<open>t (j - 1) = 0\<close> show ?thesis by simp
    qed
    moreover have "\<not> (\<forall>y \<le> x. t y \<noteq> 0)" if "j \<le> x" "x < j + k"
      using e that by (metis add_cancel_left_right diff_le_self leD le_trans)
    ultimately show "strncpy s t n x =
        (if int x < n then (if \<forall>y \<le> x. t y \<noteq> 0 then t x else 0) else s x)"
      by (auto simp: strncpy_def c fold_zero_range s')
  qed
qed

text \<open>\<open>safestrcpy\<close> writes at most \<open>n\<close> bytes and leaves a NUL-terminated string in them.\<close>

lemma safestrcpy_result:
  assumes "0 < n"
  shows "\<exists>k < nat n. safestrcpy s t n k = 0 \<and> (\<forall>i < k. safestrcpy s t n i = t i \<and> t i \<noteq> 0) \<and>
    (Suc k < nat n \<longrightarrow> t k = 0) \<and> (\<forall>i. nat n \<le> i \<longrightarrow> safestrcpy s t n i = s i)"
proof -
  obtain s' j r where c: "strncpy_copy s t 0 (nat (n - 1)) = (s', j, r)"
    by (metis prod_cases3)
  from strncpy_copy_result [OF c]
  have j: "j + r = nat (n - 1)" and s': "s' = (\<lambda>x. if x < j then t x else s x)"
    and e: "(r = 0 \<and> (\<forall>x < j. t x \<noteq> 0)) \<or> (0 < j \<and> t (j - 1) = 0 \<and> (\<forall>x < j - 1. t x \<noteq> 0))"
    by auto
  have run: "safestrcpy s t n = s'(j := 0)" using assms by (simp add: safestrcpy_def c)
  have jn: "Suc j + r = nat n" using j assms by auto
  from e show ?thesis
  proof
    assume h: "r = 0 \<and> (\<forall>x < j. t x \<noteq> 0)"
    with jn show ?thesis unfolding run s' by (intro exI [of _ j]) auto
  next
    assume h: "0 < j \<and> t (j - 1) = 0 \<and> (\<forall>x < j - 1. t x \<noteq> 0)"
    with jn show ?thesis unfolding run s' by (intro exI [of _ "j - 1"]) auto
  qed
qed

section \<open>Properties\<close>

text \<open>
  C29: \<open>memmove\<close> stores at \<open>dst\<close> the \<open>n\<close> bytes that were at \<open>src\<close> before the call, and changes
  nothing else, however the two ranges overlap.
\<close>

theorem memmove_copies:
  assumes "unat src + unat n < 2 ^ 64" and "unat dst + unat n \<le> 2 ^ 64"
  shows "read_mem (memmove m dst src n) dst (unat n) = read_mem m src (unat n) \<and>
    (\<forall>x. unat n \<le> unat (x - dst) \<longrightarrow> memmove m dst src n x = m x)"
  using assms by (simp add: memmove_write read_write_mem_same write_mem_apply)

theorem memmove_copies_witness:
  "read_mem (memmove (\<lambda>a. ucast a) 102 100 4) 102 4 = [100, 101, 102, 103] \<and>
   memmove (\<lambda>a. ucast a) 102 100 4 106 = 106"
  using memmove_copies [of 100 4 102 "\<lambda>a. ucast a"]
  by (simp add: read_mem_def upt_conv_Cons)

text \<open>
  \<open>safestrcpy\<close> with a positive bound always leaves a NUL-terminated string that is a prefix
  of the source, whole if it fits, and writes no byte at or past the bound.
\<close>

theorem safestrcpy_terminates_string:
  assumes "0 < n"
  shows "\<exists>k < nat n. safestrcpy s t n k = 0 \<and> (\<forall>i < k. safestrcpy s t n i = t i \<and> t i \<noteq> 0) \<and>
    (Suc k < nat n \<longrightarrow> t k = 0) \<and> (\<forall>i. nat n \<le> i \<longrightarrow> safestrcpy s t n i = s i)"
  using assms by (rule safestrcpy_result)

theorem safestrcpy_terminates_string_witness:
  "let s = (\<lambda>_. 9); t = view_of [104, 105, 106] in
   \<exists>k < nat 3. safestrcpy s t 3 k = 0 \<and> (\<forall>i < k. safestrcpy s t 3 i = t i \<and> t i \<noteq> 0) \<and>
    (Suc k < nat 3 \<longrightarrow> t k = 0) \<and> (\<forall>i. nat 3 \<le> i \<longrightarrow> safestrcpy s t 3 i = s i)"
  unfolding Let_def by (rule safestrcpy_terminates_string) simp

text \<open>
  \<open>strncmp\<close> returns 0 exactly when the two strings agree on their first \<open>n\<close> bytes or up to
  and including the first NUL among them.
\<close>

theorem strncmp_zero_iff:
  "strncmp p q n = 0 \<longleftrightarrow>
     (\<exists>k \<le> unat n. (\<forall>i < k. p i = q i) \<and> (k = unat n \<or> (0 < k \<and> p (k - 1) = 0)))"
proof -
  have "strncmp p q n = 0 \<longleftrightarrow> (\<forall>k < unat n. (\<forall>j < k. p j \<noteq> 0) \<longrightarrow> p k = q k)"
    by (simp add: strncmp_def strncmp_loop_zero)
  also have "\<dots> \<longleftrightarrow> (\<exists>k \<le> unat n. (\<forall>i < k. p i = q i) \<and> (k = unat n \<or> (0 < k \<and> p (k - 1) = 0)))"
    by (rule strncmp_prefix)
  finally show ?thesis .
qed

theorem strncmp_zero_iff_witness:
  "strncmp (view_of [104, 105, 0, 7]) (view_of [104, 105, 0, 9]) 4 = 0 \<and>
   strncmp (view_of [104, 105, 0, 7]) (view_of [104, 106, 0, 7]) 4 \<noteq> 0"
proof -
  have "strncmp (view_of [104, 105, 0, 7]) (view_of [104, 105, 0, 9]) 4 = 0"
    unfolding strncmp_zero_iff by (intro exI [of _ 3]) (auto simp: view_of_def less_Suc_eq numeral_3_eq_3)
  moreover have "strncmp (view_of [104, 105, 0, 7]) (view_of [104, 106, 0, 7]) 4 \<noteq> 0"
    by code_simp
  ultimately show ?thesis ..
qed

end
