(* ===== verification/Spinlock.thy ===== *)
theory Spinlock
  imports Cstring
begin

text \<open>
  Spinlocks and interrupt masking: \<open>src/kernel/spinlock.c\<close>, \<open>src/kernel/spinlock.h\<close>, the
  \<open>cpu\<close> structure of \<open>src/kernel/proc.h\<close>, \<open>mycpu\<close> of \<open>src/kernel/proc.c\<close> and the
  register helpers of \<open>src/kernel/arm.h\<close>. The record \<open>mach\<close> is the part
  of the kernel state that the CPUs and the spinlocks make up.

  The record \<open>kbase\<close> holds the machine and the main memory; the components' records extend it,
  and \<open>on_hw\<close> runs a routine of the machine on such a state.

  The routines are written as one CPU runs them. A lock that is held by another CPU stops the
  run with \<open>Spin\<close>. What several CPUs do to one lock, step by step, is the relation \<open>lock_step\<close>.
\<close>

section \<open>State\<close>

record spinlock =
  locked :: bool
  lk_name :: string
  lk_cpu :: "nat option"

record cpu =
  cpu_proc :: "nat option"
  noff :: int
  intena :: bool

record mach =
  mpidr :: u64
  daif :: "nat \<Rightarrow> u64"
  cpus :: "nat \<Rightarrow> cpu"
  locks :: "lockid \<Rightarrow> spinlock"
  ttbr0 :: "nat \<Rightarrow> u64"

section \<open>Registers\<close>

definition DAIF_I :: u64 where
  "DAIF_I = push_bit 7 1"

definition cpuid :: "mach \<Rightarrow> nat" where
  "cpuid s = unat (mpidr s AND 3)"

definition cli :: "mach \<Rightarrow> (mach, unit) res" where
  "cli = modify (\<lambda>s. s\<lparr>daif := (daif s)(cpuid s := daif s (cpuid s) OR DAIF_I)\<rparr>)"

definition sti :: "mach \<Rightarrow> (mach, unit) res" where
  "sti = modify (\<lambda>s. s\<lparr>daif := (daif s)(cpuid s := daif s (cpuid s) AND NOT DAIF_I)\<rparr>)"

definition intr_get :: "mach \<Rightarrow> bool" where
  "intr_get s = (daif s (cpuid s) AND DAIF_I = 0)"

section \<open>Operations\<close>

definition mycpu :: "mach \<Rightarrow> cpu" where
  "mycpu s = cpus s (cpuid s)"

definition upd_mycpu :: "(cpu \<Rightarrow> cpu) \<Rightarrow> mach \<Rightarrow> mach" where
  "upd_mycpu f s = s\<lparr>cpus := (cpus s)(cpuid s := f (cpus s (cpuid s)))\<rparr>"

definition upd_lock :: "lockid \<Rightarrow> (spinlock \<Rightarrow> spinlock) \<Rightarrow> mach \<Rightarrow> mach" where
  "upd_lock lk f s = s\<lparr>locks := (locks s)(lk := f (locks s lk))\<rparr>"

definition initlock :: "lockid \<Rightarrow> string \<Rightarrow> mach \<Rightarrow> (mach, unit) res" where
  "initlock lk name =
     modify (upd_lock lk (\<lambda>l. l\<lparr>lk_name := name, locked := False, lk_cpu := None\<rparr>))"

definition push_off :: "mach \<Rightarrow> (mach, unit) res" where
  "push_off =
     bind (gets intr_get) (\<lambda>old.
     seq cli (
     bind (gets (\<lambda>s. noff (mycpu s))) (\<lambda>n.
     seq (whenever (n = 0) (modify (upd_mycpu (\<lambda>c. c\<lparr>intena := old\<rparr>))))
         (modify (upd_mycpu (\<lambda>c. c\<lparr>noff := noff c + 1\<rparr>))))))"

definition pop_off :: "mach \<Rightarrow> (mach, unit) res" where
  "pop_off =
     bind (gets intr_get) (\<lambda>on.
     if on then panic ''pop_off - interruptible'' else
     bind (gets (\<lambda>s. noff (mycpu s))) (\<lambda>n.
     if n < 1 then panic ''pop_off'' else
     seq (modify (upd_mycpu (\<lambda>c. c\<lparr>noff := noff c - 1\<rparr>))) (
     bind (gets mycpu) (\<lambda>c.
     whenever (noff c = 0 \<and> intena c) sti))))"

definition holding :: "lockid \<Rightarrow> mach \<Rightarrow> bool" where
  "holding lk s = (locked (locks s lk) \<and> lk_cpu (locks s lk) = Some (cpuid s))"

definition acquire :: "lockid \<Rightarrow> mach \<Rightarrow> (mach, unit) res" where
  "acquire lk =
     seq push_off (
     bind (gets (holding lk)) (\<lambda>h.
     if h then panic ''acquire'' else
     bind (gets (\<lambda>s. locked (locks s lk))) (\<lambda>l.
     if l then stop (Spin lk) else
     seq (modify (upd_lock lk (\<lambda>k. k\<lparr>locked := True\<rparr>)))
         (modify (\<lambda>s. upd_lock lk (\<lambda>k. k\<lparr>lk_cpu := Some (cpuid s)\<rparr>) s)))))"

definition release :: "lockid \<Rightarrow> mach \<Rightarrow> (mach, unit) res" where
  "release lk =
     bind (gets (holding lk)) (\<lambda>h.
     if \<not> h then panic ''release'' else
     seq (modify (upd_lock lk (\<lambda>k. k\<lparr>lk_cpu := None\<rparr>))) (
     seq (modify (upd_lock lk (\<lambda>k. k\<lparr>locked := False\<rparr>)))
         pop_off))"

section \<open>Critical sections\<close>

text \<open>
  \<open>cpu_ok\<close> is what the code keeps true of the running CPU outside \<open>push_off\<close> and \<open>pop_off\<close>:
  inside a nest of \<open>push_off\<close> interrupts are masked, and outside one \<open>intena\<close> is the current
  interrupt state (the value \<open>push_off\<close> would store).
\<close>

definition cpu_ok :: "mach \<Rightarrow> bool" where
  "cpu_ok s \<longleftrightarrow>
     0 \<le> noff (mycpu s) \<and>
     (0 < noff (mycpu s) \<longrightarrow> \<not> intr_get s) \<and>
     (noff (mycpu s) = 0 \<longrightarrow> intena (mycpu s) = intr_get s)"

definition lock_free :: "lockid \<Rightarrow> mach \<Rightarrow> bool" where
  "lock_free lk s \<longleftrightarrow> \<not> locked (locks s lk) \<and> lk_cpu (locks s lk) = None"

text \<open>The state right after \<open>push_off\<close>, and right after a free lock was acquired.\<close>

definition pushed :: "mach \<Rightarrow> mach" where
  "pushed s =
     s\<lparr>daif := (daif s)(cpuid s := daif s (cpuid s) OR DAIF_I),
       cpus := (cpus s)(cpuid s := (cpus s (cpuid s))\<lparr>
         intena := (if noff (mycpu s) = 0 then intr_get s else intena (mycpu s)),
         noff := noff (mycpu s) + 1\<rparr>)\<rparr>"

definition acq :: "lockid \<Rightarrow> mach \<Rightarrow> mach" where
  "acq lk s =
     (pushed s)\<lparr>locks := (locks s)(lk := (locks s lk)\<lparr>locked := True, lk_cpu := Some (cpuid s)\<rparr>)\<rparr>"

lemma bit_DAIF_I: "bit DAIF_I n \<longleftrightarrow> n = 7"
  by (simp only: DAIF_I_def bit_push_bit_iff bit_1_iff) auto

lemma daif_set_clear: "d AND DAIF_I = 0 \<Longrightarrow> (d OR DAIF_I) AND NOT DAIF_I = d"
proof -
  assume "d AND DAIF_I = 0"
  then have "bit (d AND DAIF_I) n = bit 0 n" for n by simp
  then have "\<not> (bit d n \<and> bit DAIF_I n)" for n by (simp add: bit_and_iff)
  then show ?thesis by (intro bit_word_eqI) (auto simp: bit_and_iff bit_or_iff bit_not_iff)
qed

lemma DAIF_I_nonzero [simp]: "DAIF_I \<noteq> 0"
  by (simp add: DAIF_I_def)

lemma daif_or_masked: "d AND DAIF_I \<noteq> 0 \<Longrightarrow> d OR DAIF_I = d"
proof -
  assume a: "d AND DAIF_I \<noteq> 0"
  have "bit d 7"
  proof (rule ccontr)
    assume "\<not> bit d 7"
    then have "d AND DAIF_I = 0"
      by (intro bit_word_eqI) (auto simp: bit_and_iff bit_DAIF_I)
    with a show False by simp
  qed
  then show ?thesis
    by (intro bit_word_eqI) (auto simp: bit_or_iff bit_DAIF_I)
qed

lemmas mach_defs = cpuid_def mycpu_def upd_mycpu_def upd_lock_def intr_get_def

lemma push_off_run: "push_off s = Ok () (pushed s)"
  by (simp add: push_off_def cli_def pushed_def mach_defs)

lemma cpuid_pushed [simp]: "cpuid (pushed s) = cpuid s"
  by (simp add: pushed_def cpuid_def)

lemma cpuid_acq [simp]: "cpuid (acq lk s) = cpuid s"
  by (simp add: acq_def pushed_def cpuid_def)

lemma locks_pushed [simp]: "locks (pushed s) = locks s"
  by (simp add: pushed_def)

lemma intr_get_pushed [simp]: "\<not> intr_get (pushed s)"
  by (simp add: pushed_def intr_get_def cpuid_def)

lemma mycpu_pushed:
  "mycpu (pushed s) = (mycpu s)\<lparr>
     intena := (if noff (mycpu s) = 0 then intr_get s else intena (mycpu s)),
     noff := noff (mycpu s) + 1\<rparr>"
  by (simp add: pushed_def mycpu_def cpuid_def)

lemma daif_pushed: "daif (pushed s) = (daif s)(cpuid s := daif s (cpuid s) OR DAIF_I)"
  by (simp add: pushed_def)

lemma cpus_pushed: "cpus (pushed s) = (cpus s)(cpuid s := mycpu (pushed s))"
  by (simp add: pushed_def mycpu_def cpuid_def)

lemma mach_eqI:
  fixes s t :: "mach"
  assumes "mpidr s = mpidr t" "daif s = daif t" "cpus s = cpus t" "locks s = locks t"
    "ttbr0 s = ttbr0 t" "mach.more s = mach.more t"
  shows "s = t"
  using assms by simp

text \<open>\<open>pop_off\<close> undoes \<open>push_off\<close>.\<close>

lemma pop_off_pushed:
  assumes "cpu_ok s"
  shows "pop_off (pushed s) = Ok () s"
proof -
  let ?c = "cpus s (cpuid s)"
  have c: "0 \<le> noff ?c" "0 < noff ?c \<longrightarrow> daif s (cpuid s) AND DAIF_I \<noteq> 0"
      "noff ?c = 0 \<longrightarrow> intena ?c = (daif s (cpuid s) AND DAIF_I = 0)"
    using assms by (auto simp: cpu_ok_def mycpu_def intr_get_def)
  show ?thesis
  proof (cases "daif s (cpuid s) AND DAIF_I = 0")
    case True
    with c have "noff ?c = 0" "intena ?c" by auto
    with True show ?thesis
      by (simp add: pop_off_def mycpu_pushed mach_defs sti_def)
         (simp add: pushed_def mach_defs fun_eq_iff daif_set_clear)
  next
    case False
    then have d: "daif s (cpuid s) OR DAIF_I = daif s (cpuid s)" by (rule daif_or_masked)
    show ?thesis
      using c False
      by (auto simp: pop_off_def pushed_def mach_defs d [unfolded cpuid_def] fun_eq_iff
          intro!: mach_eqI)
  qed
qed

lemma mach_frame [simp]:
  "cpuid (s\<lparr>locks := l\<rparr>) = cpuid s"
  "cpuid (s\<lparr>cpus := c\<rparr>) = cpuid s"
  "cpuid (s\<lparr>daif := d\<rparr>) = cpuid s"
  "mycpu (s\<lparr>locks := l\<rparr>) = mycpu s"
  "mycpu (s\<lparr>daif := d\<rparr>) = mycpu s"
  "intr_get (s\<lparr>locks := l\<rparr>) = intr_get s"
  "intr_get (s\<lparr>cpus := c\<rparr>) = intr_get s"
  by (simp_all add: mach_defs)

lemma cpu_ok_pushed [simp]: "cpu_ok s \<Longrightarrow> cpu_ok (pushed s)"
  by (auto simp: cpu_ok_def mycpu_pushed)

lemma acquire_run: "\<not> locked (locks s lk) \<Longrightarrow> acquire lk s = Ok () (acq lk s)"
  by (simp add: acquire_def push_off_run holding_def upd_lock_def acq_def)

lemma acquire_held: "holding lk s \<Longrightarrow> acquire lk s = Stop (Panic ''acquire'') (pushed s)"
  by (simp add: acquire_def push_off_run holding_def)

lemma acquire_other:
  "locked (locks s lk) \<Longrightarrow> \<not> holding lk s \<Longrightarrow> acquire lk s = Stop (Spin lk) (pushed s)"
  by (simp add: acquire_def push_off_run holding_def)

lemma acquire_free [simp]: "lock_free lk s \<Longrightarrow> acquire lk s = Ok () (acq lk s)"
  by (simp add: acquire_run lock_free_def)

lemma locks_acq:
  "locks (acq lk s) = (locks s)(lk := (locks s lk)\<lparr>locked := True, lk_cpu := Some (cpuid s)\<rparr>)"
  by (simp add: acq_def)

lemma holding_acq [simp]: "holding lk (acq lk s)"
  by (simp add: holding_def locks_acq)

lemma lock_free_acq [simp]: "lock_free lk' (acq lk s) \<longleftrightarrow> lk' \<noteq> lk \<and> lock_free lk' s"
  by (auto simp: lock_free_def locks_acq)

lemma intr_get_acq [simp]: "\<not> intr_get (acq lk s)"
  by (simp add: acq_def pushed_def intr_get_def cpuid_def)

lemma noff_acq [simp]: "noff (mycpu (acq lk s)) = noff (mycpu s) + 1"
  by (simp add: acq_def pushed_def mycpu_def cpuid_def)

lemma cpu_proc_acq [simp]: "cpu_proc (mycpu (acq lk s)) = cpu_proc (mycpu s)"
  by (simp add: acq_def pushed_def mycpu_def cpuid_def)

lemma cpu_ok_acq [simp]: "cpu_ok s \<Longrightarrow> cpu_ok (acq lk s)"
  by (auto simp: cpu_ok_def)

lemma not_holding_free [simp]: "lock_free lk s \<Longrightarrow> \<not> holding lk s"
  by (simp add: holding_def lock_free_def)

lemma release_acq [simp]:
  assumes "cpu_ok s" and "lock_free lk s"
  shows "release lk (acq lk s) = Ok () s"
proof -
  have "upd_lock lk (\<lambda>k. k\<lparr>locked := False\<rparr>) (upd_lock lk (\<lambda>k. k\<lparr>lk_cpu := None\<rparr>) (acq lk s))
      = pushed s"
    using assms(2) by (intro mach_eqI) (simp_all add: upd_lock_def acq_def lock_free_def fun_eq_iff)
  then show ?thesis
    using pop_off_pushed [OF assms(1)] by (simp add: release_def)
qed

section \<open>Machine routines on the kernel state\<close>

record kbase =
  hw :: mach
  mem :: memory

definition on_hw :: "(mach \<Rightarrow> (mach, 'a) res) \<Rightarrow> 'z kbase_scheme \<Rightarrow> ('z kbase_scheme, 'a) res" where
  "on_hw m s = (case m (hw s) of
     Ok x h \<Rightarrow> Ok x (s\<lparr>hw := h\<rparr>)
   | Stop e h \<Rightarrow> Stop e (s\<lparr>hw := h\<rparr>))"

abbreviation lock :: "lockid \<Rightarrow> 'z kbase_scheme \<Rightarrow> ('z kbase_scheme, unit) res" where
  "lock lk \<equiv> on_hw (acquire lk)"

abbreviation unlock :: "lockid \<Rightarrow> 'z kbase_scheme \<Rightarrow> ('z kbase_scheme, unit) res" where
  "unlock lk \<equiv> on_hw (release lk)"

text \<open>The kernel state inside the critical section of a lock that was free.\<close>

definition held :: "lockid \<Rightarrow> 'z kbase_scheme \<Rightarrow> 'z kbase_scheme" where
  "held lk s = s\<lparr>hw := acq lk (hw s)\<rparr>"

lemma hw_held [simp]: "hw (held lk s) = acq lk (hw s)"
  by (simp add: held_def)

lemma mem_held [simp]:
  "mem (held lk s) = mem s"
  "mem_update f (held lk s) = held lk (mem_update f s)"
  by (simp_all add: held_def)

lemma lock_run [simp]: "lock_free lk (hw s) \<Longrightarrow> lock lk s = Ok () (held lk s)"
  by (simp add: on_hw_def held_def)

lemma unlock_run [simp]:
  "cpu_ok (hw s) \<Longrightarrow> lock_free lk (hw s) \<Longrightarrow> unlock lk (held lk s) = Ok () s"
  by (simp add: on_hw_def held_def)

section \<open>Several CPUs and one lock\<close>

text \<open>
  Where a CPU is inside \<open>acquire\<close> and \<open>release\<close> of one lock. Each constructor is a point
  between two accesses to the lock: \<open>Entered\<close> after \<open>push_off\<close>, \<open>Trying\<close> in the test-and-set
  loop, \<open>Taken\<close> after the test-and-set that found the lock free, \<open>Inside\<close> after \<open>lk->cpu\<close>
  was set, \<open>Leaving\<close> after \<open>release\<close> cleared \<open>lk->cpu\<close>, \<open>Dropped\<close> after it cleared
  \<open>lk->locked\<close>. \<open>Panicked\<close> is the panic of either routine.
\<close>

datatype lock_pc = Outside | Entered | Trying | Taken | Inside | Leaving | Dropped | Panicked

record lock_sys =
  lpc :: "nat \<Rightarrow> lock_pc"
  lword :: spinlock

definition holds :: "lock_sys \<Rightarrow> nat \<Rightarrow> bool" where
  "holds s i = (locked (lword s) \<and> lk_cpu (lword s) = Some i)"

inductive lock_step :: "lock_sys \<Rightarrow> lock_sys \<Rightarrow> bool" where
  enter: "lpc s i = Outside \<Longrightarrow> lock_step s (s\<lparr>lpc := (lpc s)(i := Entered)\<rparr>)"
| check_held: "lpc s i = Entered \<Longrightarrow> holds s i \<Longrightarrow>
     lock_step s (s\<lparr>lpc := (lpc s)(i := Panicked)\<rparr>)"
| check_free: "lpc s i = Entered \<Longrightarrow> \<not> holds s i \<Longrightarrow>
     lock_step s (s\<lparr>lpc := (lpc s)(i := Trying)\<rparr>)"
| spin: "lpc s i = Trying \<Longrightarrow> locked (lword s) \<Longrightarrow>
     lock_step s (s\<lparr>lword := (lword s)\<lparr>locked := True\<rparr>\<rparr>)"
| take_lock: "lpc s i = Trying \<Longrightarrow> \<not> locked (lword s) \<Longrightarrow>
     lock_step s (s\<lparr>lpc := (lpc s)(i := Taken), lword := (lword s)\<lparr>locked := True\<rparr>\<rparr>)"
| set_cpu: "lpc s i = Taken \<Longrightarrow>
     lock_step s (s\<lparr>lpc := (lpc s)(i := Inside), lword := (lword s)\<lparr>lk_cpu := Some i\<rparr>\<rparr>)"
| release_bad: "lpc s i = Inside \<Longrightarrow> \<not> holds s i \<Longrightarrow>
     lock_step s (s\<lparr>lpc := (lpc s)(i := Panicked)\<rparr>)"
| clear_cpu: "lpc s i = Inside \<Longrightarrow> holds s i \<Longrightarrow>
     lock_step s (s\<lparr>lpc := (lpc s)(i := Leaving), lword := (lword s)\<lparr>lk_cpu := None\<rparr>\<rparr>)"
| drop_lock: "lpc s i = Leaving \<Longrightarrow>
     lock_step s (s\<lparr>lpc := (lpc s)(i := Dropped), lword := (lword s)\<lparr>locked := False\<rparr>\<rparr>)"
| leave: "lpc s i = Dropped \<Longrightarrow> lock_step s (s\<lparr>lpc := (lpc s)(i := Outside)\<rparr>)"

definition lock_init :: "string \<Rightarrow> lock_sys" where
  "lock_init name =
     \<lparr>lpc = (\<lambda>_. Outside), lword = \<lparr>locked = False, lk_name = name, lk_cpu = None\<rparr>\<rparr>"

inductive lock_reachable :: "string \<Rightarrow> lock_sys \<Rightarrow> bool" for name where
  start: "lock_reachable name (lock_init name)"
| step: "lock_reachable name s \<Longrightarrow> lock_step s t \<Longrightarrow> lock_reachable name t"

text \<open>
  The invariant: \<open>locked\<close> is set exactly while one CPU is between its successful test-and-set
  and the clearing of \<open>locked\<close>, and \<open>lk->cpu\<close> names a CPU exactly while that CPU is inside.
\<close>

fun owner_pc :: "lock_pc \<Rightarrow> bool" where
  "owner_pc Taken = True"
| "owner_pc Inside = True"
| "owner_pc Leaving = True"
| "owner_pc _ = False"

definition lock_own :: "nat option \<Rightarrow> lock_sys \<Rightarrow> bool" where
  "lock_own own s \<longleftrightarrow>
     (\<forall>i. owner_pc (lpc s i) \<longleftrightarrow> own = Some i) \<and>
     (locked (lword s) \<longleftrightarrow> own \<noteq> None) \<and>
     (\<forall>i. lk_cpu (lword s) = Some i \<longleftrightarrow> lpc s i = Inside) \<and>
     (\<forall>i. lpc s i \<noteq> Panicked)"

definition lock_inv :: "lock_sys \<Rightarrow> bool" where
  "lock_inv s \<longleftrightarrow> (\<exists>own. lock_own own s)"

lemma lock_inv_init: "lock_inv (lock_init name)"
  by (simp add: lock_inv_def lock_own_def lock_init_def)

text \<open>What a step of CPU \<open>i\<close> does to the owner when it moves to \<open>p\<close> and rewrites the lock.\<close>

lemma lock_own_move:
  assumes "lock_own own s" and "p \<noteq> Panicked"
    and "\<And>j. j \<noteq> i \<Longrightarrow> own = Some j \<longleftrightarrow> own' = Some j" and "owner_pc p \<longleftrightarrow> own' = Some i"
    and "locked l \<longleftrightarrow> own' \<noteq> None"
    and "\<And>j. lk_cpu l = Some j \<longleftrightarrow> (if j = i then p = Inside else lpc s j = Inside)"
  shows "lock_own own' (s\<lparr>lpc := (lpc s)(i := p), lword := l\<rparr>)"
  using assms unfolding lock_own_def by simp

lemma lock_own_step:
  assumes "lock_step s t" and own: "lock_own own s"
  shows "\<exists>own'. lock_own own' t"
proof -
  have lpc: "owner_pc (lpc s i) \<longleftrightarrow> own = Some i"
      and cpu: "lk_cpu (lword s) = Some i \<longleftrightarrow> lpc s i = Inside"
      and lkd: "locked (lword s) \<longleftrightarrow> own \<noteq> None" for i
    using own by (simp_all add: lock_own_def)
  show ?thesis
    using assms(1)
  proof cases
    case (enter i)
    have "own \<noteq> Some i" using lpc [of i] enter by simp
    then have "lock_own own (s\<lparr>lpc := (lpc s)(i := Entered), lword := lword s\<rparr>)"
      using enter by (intro lock_own_move [OF own]) (auto simp: cpu lkd)
    with enter show ?thesis by auto
  next
    case (check_held i)
    then have False using cpu [of i] by (simp add: holds_def)
    then show ?thesis ..
  next
    case (check_free i)
    have "own \<noteq> Some i" using lpc [of i] check_free by simp
    then have "lock_own own (s\<lparr>lpc := (lpc s)(i := Trying), lword := lword s\<rparr>)"
      using check_free by (intro lock_own_move [OF own]) (auto simp: cpu lkd)
    with check_free show ?thesis by auto
  next
    case (spin i)
    with own show ?thesis by (intro exI [of _ own]) (simp add: lock_own_def)
  next
    case (take_lock i)
    have "own = None" using take_lock lkd by simp
    then have "lock_own (Some i) (s\<lparr>lpc := (lpc s)(i := Taken), lword := (lword s)\<lparr>locked := True\<rparr>\<rparr>)"
      using take_lock by (intro lock_own_move [OF own]) (auto simp: cpu)
    with take_lock show ?thesis by auto
  next
    case (set_cpu i)
    have o: "own = Some i" using lpc [of i] set_cpu by simp
    have "lpc s j \<noteq> Inside" if "j \<noteq> i" for j using lpc [of j] o that by auto
    with o have "lock_own own (s\<lparr>lpc := (lpc s)(i := Inside), lword := (lword s)\<lparr>lk_cpu := Some i\<rparr>\<rparr>)"
      using set_cpu by (intro lock_own_move [OF own]) (auto simp: lkd)
    with set_cpu show ?thesis by auto
  next
    case (release_bad i)
    then have False using cpu [of i] lpc [of i] lkd by (simp add: holds_def)
    then show ?thesis ..
  next
    case (clear_cpu i)
    have o: "own = Some i" using lpc [of i] clear_cpu by simp
    have "lpc s j \<noteq> Inside" if "j \<noteq> i" for j using lpc [of j] o that by auto
    with o have "lock_own own (s\<lparr>lpc := (lpc s)(i := Leaving), lword := (lword s)\<lparr>lk_cpu := None\<rparr>\<rparr>)"
      using clear_cpu by (intro lock_own_move [OF own]) (auto simp: lkd)
    with clear_cpu show ?thesis by auto
  next
    case (drop_lock i)
    have o: "own = Some i" using lpc [of i] drop_lock by simp
    have "lk_cpu (lword s) = Some j \<longleftrightarrow> (if j = i then Dropped = Inside else lpc s j = Inside)" for j
      using cpu [of j] drop_lock by auto
    with o have "lock_own None (s\<lparr>lpc := (lpc s)(i := Dropped), lword := (lword s)\<lparr>locked := False\<rparr>\<rparr>)"
      by (intro lock_own_move [OF own]) auto
    with drop_lock show ?thesis by auto
  next
    case (leave i)
    have "own \<noteq> Some i" using lpc [of i] leave by simp
    then have "lock_own own (s\<lparr>lpc := (lpc s)(i := Outside), lword := lword s\<rparr>)"
      using leave by (intro lock_own_move [OF own]) (auto simp: cpu lkd)
    with leave show ?thesis by auto
  qed
qed

lemma lock_reachable_inv: "lock_reachable name s \<Longrightarrow> lock_inv s"
proof (induction rule: lock_reachable.induct)
  case start
  show ?case by (rule lock_inv_init)
next
  case (step s t)
  then show ?case unfolding lock_inv_def by (blast dest: lock_own_step)
qed

section \<open>Properties\<close>

text \<open>A machine with one idle CPU and no lock held, at which the properties are instantiated.\<close>

definition idle_mach :: mach where
  "idle_mach = \<lparr>mpidr = 0, daif = (\<lambda>_. 0),
     cpus = (\<lambda>_. \<lparr>cpu_proc = Some 0, noff = 0, intena = True\<rparr>),
     locks = (\<lambda>_. \<lparr>locked = False, lk_name = [], lk_cpu = None\<rparr>),
     ttbr0 = (\<lambda>_. 0)\<rparr>"

lemma idle_mach_ok [simp]: "cpu_ok idle_mach" "lock_free lk idle_mach" "cpuid idle_mach = 0"
  by (simp_all add: idle_mach_def cpu_ok_def lock_free_def mach_defs)

text \<open>
  C13: However the CPUs interleave their steps of \<open>acquire\<close> and \<open>release\<close>, at most one CPU is
  between the test-and-set that took the lock and the store that frees it, \<open>holding\<close> is true for
  a CPU exactly while it is inside the critical section, and neither routine panics.
\<close>

theorem spinlock_mutual_exclusion:
  assumes "lock_reachable name s"
  shows "\<exists>own. (\<forall>i. owner_pc (lpc s i) \<longleftrightarrow> own = Some i) \<and>
    (\<forall>i. holds s i \<longleftrightarrow> lpc s i = Inside) \<and> (\<forall>i. lpc s i \<noteq> Panicked)"
proof -
  from lock_reachable_inv [OF assms] obtain own where "lock_own own s"
    by (auto simp: lock_inv_def)
  then have "\<forall>i. owner_pc (lpc s i) \<longleftrightarrow> own = Some i" "\<forall>i. holds s i \<longleftrightarrow> lpc s i = Inside"
      "\<forall>i. lpc s i \<noteq> Panicked"
    by (auto simp: lock_own_def holds_def) (metis option.distinct(1) owner_pc.simps(2))+
  then show ?thesis by blast
qed

lemma lock_reachable_two_contend:
  "lock_reachable ''kmem''
     \<lparr>lpc = (\<lambda>_. Outside)(0 := Inside, 1 := Trying),
      lword = \<lparr>locked = True, lk_name = ''kmem'', lk_cpu = Some 0\<rparr>\<rparr>"
proof -
  let ?l = "\<lambda>b c. \<lparr>locked = b, lk_name = ''kmem'', lk_cpu = c\<rparr>"
  let ?s = "\<lambda>p q b c. \<lparr>lpc = (\<lambda>_. Outside)(0 := p, 1 := q), lword = ?l b c\<rparr>"
  have r0: "lock_reachable ''kmem'' (?s Outside Outside False None)"
    using lock_reachable.start [of "''kmem''"] by (simp add: lock_init_def fun_upd_idem)
  have r1: "lock_reachable ''kmem'' (?s Entered Outside False None)"
    using lock_reachable.step [OF r0 lock_step.enter [of _ 0]] by (simp add: fun_upd_twist)
  have r2: "lock_reachable ''kmem'' (?s Trying Outside False None)"
    using lock_reachable.step [OF r1 lock_step.check_free [of _ 0]]
    by (simp add: fun_upd_twist holds_def)
  have r3: "lock_reachable ''kmem'' (?s Taken Outside True None)"
    using lock_reachable.step [OF r2 lock_step.take_lock [of _ 0]] by (simp add: fun_upd_twist)
  have r4: "lock_reachable ''kmem'' (?s Inside Outside True (Some 0))"
    using lock_reachable.step [OF r3 lock_step.set_cpu [of _ 0]] by (simp add: fun_upd_twist)
  have r5: "lock_reachable ''kmem'' (?s Inside Entered True (Some 0))"
    using lock_reachable.step [OF r4 lock_step.enter [of _ 1]] by (simp add: fun_upd_twist)
  show ?thesis
    using lock_reachable.step [OF r5 lock_step.check_free [of _ 1]]
    by (simp add: fun_upd_twist holds_def)
qed

theorem spinlock_mutual_exclusion_witness:
  "\<exists>s. lock_reachable ''kmem'' s \<and> lpc s 0 = Inside \<and> lpc s 1 = Trying \<and>
     (\<exists>own. (\<forall>i. owner_pc (lpc s i) \<longleftrightarrow> own = Some i) \<and>
        (\<forall>i. holds s i \<longleftrightarrow> lpc s i = Inside) \<and> (\<forall>i. lpc s i \<noteq> Panicked))"
proof -
  let ?s = "\<lparr>lpc = (\<lambda>_. Outside)(0 := Inside, 1 := Trying),
    lword = \<lparr>locked = True, lk_name = ''kmem'', lk_cpu = Some 0\<rparr>\<rparr>"
  have "lpc ?s 0 = Inside" "lpc ?s 1 = Trying" by simp_all
  with lock_reachable_two_contend spinlock_mutual_exclusion [OF lock_reachable_two_contend]
  show ?thesis by blast
qed



end
