(* ===== verification/Layout.thy ===== *)
theory Layout
  imports Spinlock
begin

text \<open>
  The constants and address macros of \<open>src/kernel/param.h\<close>, \<open>src/kernel/mmu.h\<close>,
  \<open>src/kernel/memlayout.h\<close> and \<open>src/kernel/arm_virt.h\<close>, and the lemmas on pages that the memory
  components share: an aligned page is the set of addresses that round down to it, so two
  different pages do not meet.
\<close>

section \<open>Sizes (param.h)\<close>

definition NPROC :: nat where "NPROC = 64"
definition KSTACKSIZE :: nat where "KSTACKSIZE = 4096"
definition NCPU :: nat where "NCPU = 8"
definition NOFILE :: nat where "NOFILE = 16"
definition NFILE :: nat where "NFILE = 100"
definition MAXOPBLOCKS :: nat where "MAXOPBLOCKS = 10"
definition LOGSIZE :: nat where "LOGSIZE = MAXOPBLOCKS * 3"
definition NBUF :: nat where "NBUF = MAXOPBLOCKS * 3"
definition NINODE :: nat where "NINODE = 50"
definition NDEV :: nat where "NDEV = 10"
definition ROOTDEV :: u32 where "ROOTDEV = 1"
definition MAXARG :: nat where "MAXARG = 32"
definition FSSIZE :: nat where "FSSIZE = 1000"
definition MAXPATH :: nat where "MAXPATH = 128"

section \<open>Page table entries (mmu.h)\<close>

definition ENTRY_VALID :: u64 where "ENTRY_VALID = 1"
definition ENTRY_BLOCK :: u64 where "ENTRY_BLOCK = 0"
definition ENTRY_PAGE :: u64 where "ENTRY_PAGE = 2"
definition ENTRY_TABLE :: u64 where "ENTRY_TABLE = 2"

definition MEM_ATTR_IDX :: "u64 \<Rightarrow> u64" where "MEM_ATTR_IDX x = push_bit 2 x"
definition ENTRY_NS :: u64 where "ENTRY_NS = push_bit 5 1"
definition AP_0 :: u64 where "AP_0 = push_bit 6 0"
definition AP_1 :: u64 where "AP_1 = push_bit 6 1"
definition AP_MASK :: u64 where "AP_MASK = push_bit 6 3"
definition SH_IN_SH :: u64 where "SH_IN_SH = push_bit 8 3"
definition ACCESS_FLAG :: u64 where "ACCESS_FLAG = push_bit 10 1"
definition UXN :: u64 where "UXN = push_bit 54 1"

definition PMD_SZ :: u64 where "PMD_SZ = push_bit 21 1"
definition PMD_MASK :: u64 where "PMD_MASK = NOT (PMD_SZ - 1)"

definition PGD_IDX :: "u64 \<Rightarrow> u64" where "PGD_IDX va = drop_bit 30 va AND (4 - 1)"
definition PMD_IDX :: "u64 \<Rightarrow> u64" where "PMD_IDX va = drop_bit 21 va AND (push_bit 9 1 - 1)"
definition PTE_IDX :: "u64 \<Rightarrow> u64" where "PTE_IDX va = drop_bit 12 va AND (push_bit 9 1 - 1)"

definition PG_ADDR_MASK :: u64 where "PG_ADDR_MASK = 0xFFFFFFFFF000"
definition PGSIZE :: u64 where "PGSIZE = 4096"
definition PGROUNDUP :: "u64 \<Rightarrow> u64" where "PGROUNDUP sz = (sz + PGSIZE - 1) AND NOT (PGSIZE - 1)"
definition PGROUNDDOWN :: "u64 \<Rightarrow> u64" where "PGROUNDDOWN a = a AND NOT (PGSIZE - 1)"

section \<open>Address space (memlayout.h, arm_virt.h)\<close>

definition PHYSTART :: u64 where "PHYSTART = 0x40000000"
definition PHYSTOP :: u64 where "PHYSTOP = 0x08000000 + PHYSTART"
definition GICBASE :: u64 where "GICBASE = 0x08000000"
definition UARTBASE :: u64 where "UARTBASE = 0x09000000"
definition VIRTIOBASE :: u64 where "VIRTIOBASE = 0x0a000000"
definition DEV_SZ :: u64 where "DEV_SZ = 0x01000000"
definition KERNBASE :: u64 where "KERNBASE = 0xFFFFFFFF00000000"
definition KERN_SZ :: u64 where "KERN_SZ = 0x200000"
definition INIT_KERNTOP :: u64 where "INIT_KERNTOP = KERN_SZ + PHYSTART"
definition V2P :: "u64 \<Rightarrow> u64" where "V2P va = va - KERNBASE"
definition P2V :: "u64 \<Rightarrow> u64" where "P2V pa = pa + KERNBASE"

lemma V2P_P2V [simp]: "V2P (P2V pa) = pa"
  by (simp add: V2P_def P2V_def)

lemma P2V_V2P [simp]: "P2V (V2P va) = va"
  by (simp add: V2P_def P2V_def)

section \<open>Pages\<close>

abbreviation pg :: nat where
  "pg \<equiv> 4096"

definition page_aligned :: "u64 \<Rightarrow> bool" where
  "page_aligned a \<longleftrightarrow> a mod PGSIZE = 0"

lemma PGSIZE_mask: "PGSIZE - 1 = mask 12"
  by (simp add: PGSIZE_def mask_eq_exp_minus_1)

lemma PGROUNDDOWN_diff: "PGROUNDDOWN a = a - a mod PGSIZE"
proof -
  have "a mod PGSIZE = take_bit 12 a"
    by (simp add: PGSIZE_def take_bit_eq_mod)
  moreover have "(a AND NOT (mask 12)) + take_bit 12 a = a"
    by (simp add: take_bit_eq_mask disjunctive_add bit_simps) (rule bit_word_eqI, auto simp: bit_simps)
  ultimately show ?thesis
    by (simp add: PGROUNDDOWN_def PGSIZE_mask algebra_simps)
qed

lemma unat_mod_PGSIZE: "unat (a mod PGSIZE) = unat a mod pg"
  by (simp add: unat_mod_distrib PGSIZE_def)

lemma unat_PGROUNDDOWN: "unat (PGROUNDDOWN a) = unat a div pg * pg"
proof -
  have "a mod PGSIZE \<le> a"
    by (simp add: word_le_nat_alt unat_mod_PGSIZE)
  then have "unat (PGROUNDDOWN a) = unat a - unat a mod pg"
    by (simp add: PGROUNDDOWN_diff unat_sub unat_mod_PGSIZE)
  then show ?thesis by (simp add: minus_mod_eq_div_mult)
qed

lemma page_aligned_unat: "page_aligned a \<longleftrightarrow> unat a mod pg = 0"
  unfolding page_aligned_def by (metis unat_mod_PGSIZE unsigned_0 unsigned_word_eqI)

lemma in_page:
  assumes "page_aligned p"
  shows "unat (x - p) < pg \<longleftrightarrow> PGROUNDDOWN x = p"
proof -
  obtain k where k: "unat p = k * pg"
    using assms page_aligned_unat by (metis dvd_def mod_0_imp_dvd mult.commute)
  have x: "unat x = unat x div pg * pg + unat x mod pg" by simp
  have bx: "unat x < 2 ^ 64" and bp: "unat p < 2 ^ 64"
    using unsigned_less [of x, where 'a = nat] unsigned_less [of p, where 'a = nat] by simp_all
  then have kb: "k * pg + pg \<le> 2 ^ 64" using k by simp
  have "PGROUNDDOWN x = p \<longleftrightarrow> unat x div pg * pg = k * pg"
    by (metis k unat_PGROUNDDOWN unsigned_word_eqI)
  also have "\<dots> \<longleftrightarrow> k * pg \<le> unat x \<and> unat x < k * pg + pg"
    by auto
  also have "\<dots> \<longleftrightarrow> unat (x - p) < pg"
    using kb bx by (auto simp: unat_sub_if_size word_size k)
  finally show ?thesis by blast
qed

lemma page_aligned_PGROUNDDOWN [simp]: "page_aligned (PGROUNDDOWN a)"
  by (simp add: page_aligned_unat unat_PGROUNDDOWN)

lemma page_offset:
  assumes "page_aligned p" and "i < pg"
  shows "PGROUNDDOWN (p + of_nat i) = p"
  using assms by (simp add: in_page [symmetric] unat_of_nat_u64)

lemma PGROUNDDOWN_aligned [simp]: "page_aligned p \<Longrightarrow> PGROUNDDOWN p = p"
  using page_offset [of p 0] by simp

text \<open>A write that stays inside one page does not change what another page holds.\<close>

definition same_page :: "u64 \<Rightarrow> memory \<Rightarrow> memory \<Rightarrow> bool" where
  "same_page p m m' \<longleftrightarrow> (\<forall>x. PGROUNDDOWN x = p \<longrightarrow> m' x = m x)"

lemma write_mem_other_page:
  assumes "page_aligned p" and "length bs \<le> pg" and "PGROUNDDOWN x \<noteq> p"
  shows "write_mem m p bs x = m x"
  using assms in_page [of p x] by (simp add: write_mem_apply)

lemma memset_page:
  "page_aligned p \<Longrightarrow> memset m p c 4096 =
     (\<lambda>x. if PGROUNDDOWN x = p then word_of_int c else m x)"
  by (auto simp: memset_write write_mem_def fun_eq_iff in_page)

lemma read64_same_page:
  assumes "page_aligned p" and "o' + 8 \<le> pg" and "same_page p m m'"
  shows "read64 m' (p + of_nat o') = read64 m (p + of_nat o')"
proof -
  have "read_mem m' (p + of_nat o') 8 = read_mem m (p + of_nat o') 8"
  proof (rule nth_equalityI)
    fix i
    assume "i < length (read_mem m' (p + of_nat o') 8)"
    then have i: "i < 8" by simp
    have "PGROUNDDOWN (p + of_nat (o' + i)) = p"
      using assms(1,2) i by (intro page_offset) auto
    with assms(3) i show "read_mem m' (p + of_nat o') 8 ! i = read_mem m (p + of_nat o') 8 ! i"
      by (simp add: same_page_def add.assoc)
  qed simp
  then show ?thesis by (simp add: read64_def)
qed

end
