(* ===== verification/Kalloc.thy ===== *)
theory Kalloc
  imports Layout
begin

text \<open>
  The physical page allocator, \<open>src/kernel/kalloc.c\<close>. Free pages form a list that is threaded
  through the pages themselves: the first eight bytes of a free page hold the address of the
  next one. The model keeps that: \<open>freelist\<close> is an address and the links are in memory.
\<close>

record kmem = kbase +
  freelist :: u64

definition kfree :: "u64 \<Rightarrow> 'z kmem_scheme \<Rightarrow> ('z kmem_scheme, unit) res" where
  "kfree pa =
     (if pa mod PGSIZE \<noteq> 0 then panic ''kfree'' else
      seq (modify (\<lambda>s. s\<lparr>mem := memset (mem s) pa 1 (ucast PGSIZE)\<rparr>)) (
      seq (lock KmemLock) (
      seq (modify (\<lambda>s. s\<lparr>mem := write64 (mem s) pa (freelist s)\<rparr>)) (
      seq (modify (\<lambda>s. s\<lparr>freelist := pa\<rparr>))
          (unlock KmemLock)))))"

definition kalloc :: "'z kmem_scheme \<Rightarrow> ('z kmem_scheme, u64) res" where
  "kalloc =
     seq (lock KmemLock) (
     bind (gets freelist) (\<lambda>r.
     seq (whenever (r \<noteq> 0) (modify (\<lambda>s. s\<lparr>freelist := read64 (mem s) r\<rparr>))) (
     seq (unlock KmemLock) (
     seq (whenever (r \<noteq> 0) (modify (\<lambda>s. s\<lparr>mem := memset (mem s) r 0 (ucast PGSIZE)\<rparr>)))
         (return r)))))"

text \<open>
  The loops over a range of pages. The pointer steps through at most \<open>2 ^ 52\<close> pages before it is
  back where it started, so a loop that uses up that fuel never ends.
\<close>

definition page_fuel :: nat where
  "page_fuel = 2 ^ 52"

fun free_below :: "nat \<Rightarrow> u64 \<Rightarrow> u64 \<Rightarrow> 'z kmem_scheme \<Rightarrow> ('z kmem_scheme, unit) res" where
  "free_below fuel p e =
     (if fuel = 0 then stop (Hang ''pre_free4kpt'')
      else if p < e then seq (kfree p) (free_below (fuel - 1) (p + PGSIZE) e)
      else return ())"

definition pre_free4kpt :: "u64 \<Rightarrow> u64 \<Rightarrow> 'z kmem_scheme \<Rightarrow> ('z kmem_scheme, unit) res" where
  "pre_free4kpt va_start va_end =
     seq (on_hw (initlock KmemLock ''kmem''))
         (free_below page_fuel (PGROUNDUP va_start) va_end)"

fun free_whole :: "nat \<Rightarrow> u64 \<Rightarrow> u64 \<Rightarrow> 'z kmem_scheme \<Rightarrow> ('z kmem_scheme, unit) res" where
  "free_whole fuel p e =
     (if fuel = 0 then stop (Hang ''freerange'')
      else if p + PGSIZE \<le> e then seq (kfree p) (free_whole (fuel - 1) (p + PGSIZE) e)
      else return ())"

definition freerange :: "u64 \<Rightarrow> u64 \<Rightarrow> 'z kmem_scheme \<Rightarrow> ('z kmem_scheme, unit) res" where
  "freerange pa_start pa_end = free_whole page_fuel (PGROUNDUP pa_start) pa_end"

definition kinit :: "'z kmem_scheme \<Rightarrow> ('z kmem_scheme, unit) res" where
  "kinit = freerange (P2V INIT_KERNTOP) (P2V PHYSTOP)"

declare free_below.simps [simp del] free_whole.simps [simp del]

section \<open>The free list as a list\<close>

fun free_chain :: "memory \<Rightarrow> u64 \<Rightarrow> u64 list \<Rightarrow> bool" where
  "free_chain m p [] = (p = 0)"
| "free_chain m p (a # as) =
     (p = a \<and> a \<noteq> 0 \<and> page_aligned a \<and> free_chain m (read64 m a) as)"

text \<open>\<open>kmem_pages s ps\<close>: the free pages of \<open>s\<close> are \<open>ps\<close>, in this order, each once.\<close>

definition kmem_pages :: "'z kmem_scheme \<Rightarrow> u64 list \<Rightarrow> bool" where
  "kmem_pages s ps \<longleftrightarrow> free_chain (mem s) (freelist s) ps \<and> distinct ps"

definition kmem_ready :: "'z kmem_scheme \<Rightarrow> bool" where
  "kmem_ready s \<longleftrightarrow> cpu_ok (hw s) \<and> lock_free KmemLock (hw s)"

lemma freelist_held [simp]:
  "freelist (held lk s) = freelist s"
  "freelist_update f (held lk s) = held lk (freelist_update f s)"
  by (simp_all add: held_def)

lemma free_chain_aligned: "free_chain m p ps \<Longrightarrow> a \<in> set ps \<Longrightarrow> page_aligned a \<and> a \<noteq> 0"
  by (induction ps arbitrary: p) auto

lemma free_chain_frame:
  assumes "free_chain m p ps" and "\<And>a. a \<in> set ps \<Longrightarrow> same_page a m m'"
  shows "free_chain m' p ps"
  using assms
proof (induction ps arbitrary: p)
  case Nil
  then show ?case by simp
next
  case (Cons a ps)
  then have "read64 m' (a + of_nat 0) = read64 m (a + of_nat 0)"
    by (intro read64_same_page) auto
  with Cons show ?case by auto
qed

text \<open>What the two operations do when the allocator's lock is free.\<close>

lemma kalloc_run:
  "kmem_ready s \<Longrightarrow> kalloc s =
     (if freelist s = 0 then Ok 0 s
      else Ok (freelist s)
        (s\<lparr>freelist := read64 (mem s) (freelist s), mem := memset (mem s) (freelist s) 0 4096\<rparr>))"
  by (simp add: kalloc_def kmem_ready_def PGSIZE_def)

lemma kfree_run:
  "kmem_ready s \<Longrightarrow> page_aligned pa \<Longrightarrow> kfree pa s =
     Ok () (s\<lparr>mem := write64 (memset (mem s) pa 1 4096) pa (freelist s), freelist := pa\<rparr>)"
  by (simp add: kfree_def kmem_ready_def page_aligned_def PGSIZE_def)

lemma kfree_unaligned: "\<not> page_aligned pa \<Longrightarrow> kfree pa s = Stop (Panic ''kfree'') s"
  by (simp add: kfree_def page_aligned_def)

section \<open>The allocator's contract\<close>

text \<open>
  What a client of the allocator relies on: the free pages behave as a stack, an allocated page
  is zero, and neither operation touches another page.
\<close>

locale page_allocator =
  fixes alloc :: "'s \<Rightarrow> ('s, u64) res"
    and dealloc :: "u64 \<Rightarrow> 's \<Rightarrow> ('s, unit) res"
    and ready :: "'s \<Rightarrow> bool"
    and pages :: "'s \<Rightarrow> u64 list \<Rightarrow> bool"
    and store :: "'s \<Rightarrow> memory"
  assumes pages_sound: "pages s ps \<Longrightarrow> distinct ps \<and> (\<forall>p \<in> set ps. p \<noteq> 0 \<and> page_aligned p)"
    and alloc_Nil: "ready s \<Longrightarrow> pages s [] \<Longrightarrow> alloc s = Ok 0 s"
    and alloc_Cons: "ready s \<Longrightarrow> pages s (p # ps) \<Longrightarrow>
      \<exists>t. alloc s = Ok p t \<and> ready t \<and> pages t ps \<and>
          store t = (\<lambda>x. if PGROUNDDOWN x = p then 0 else store s x)"
    and dealloc_page: "ready s \<Longrightarrow> pages s ps \<Longrightarrow> page_aligned p \<Longrightarrow> p \<noteq> 0 \<Longrightarrow> p \<notin> set ps \<Longrightarrow>
      \<exists>t. dealloc p s = Ok () t \<and> ready t \<and> pages t (p # ps) \<and>
          (\<forall>x. PGROUNDDOWN x \<noteq> p \<longrightarrow> store t x = store s x)"
begin

lemma alloc_total: "ready s \<Longrightarrow> pages s ps \<Longrightarrow> \<exists>p t. alloc s = Ok p t \<and> ready t"
  by (cases ps) (auto dest: alloc_Nil alloc_Cons)

lemma alloc_zero_iff: "ready s \<Longrightarrow> pages s ps \<Longrightarrow> alloc s = Ok p t \<Longrightarrow> p = 0 \<longleftrightarrow> ps = []"
proof (cases ps)
  case Nil
  then show "ready s \<Longrightarrow> pages s ps \<Longrightarrow> alloc s = Ok p t \<Longrightarrow> ?thesis"
    by (simp add: alloc_Nil)
next
  case (Cons a as)
  assume "ready s" "pages s ps" "alloc s = Ok p t"
  with Cons alloc_Cons [of s a as] pages_sound [of s ps] show ?thesis by auto
qed

text \<open>Freeing a page and allocating again gives the same page, zeroed.\<close>

lemma dealloc_alloc:
  assumes "ready s" "pages s ps" "page_aligned p" "p \<noteq> 0" "p \<notin> set ps"
  shows "\<exists>t u. dealloc p s = Ok () t \<and> alloc t = Ok p u \<and> pages u ps \<and>
    store u = (\<lambda>x. if PGROUNDDOWN x = p then 0 else store s x)"
proof -
  from dealloc_page [OF assms] obtain t where t: "dealloc p s = Ok () t" "ready t"
    "pages t (p # ps)" "\<forall>x. PGROUNDDOWN x \<noteq> p \<longrightarrow> store t x = store s x" by blast
  from alloc_Cons [OF t(2,3)] obtain u where u: "alloc t = Ok p u" "pages u ps"
    "store u = (\<lambda>x. if PGROUNDDOWN x = p then 0 else store t x)" by blast
  from t(4) u(3) have "store u = (\<lambda>x. if PGROUNDDOWN x = p then 0 else store s x)"
    by (auto simp: fun_eq_iff)
  with t(1) u(1,2) show ?thesis by blast
qed

text \<open>Two allocations in a row that both succeed give different pages.\<close>

lemma alloc_alloc_distinct:
  assumes "ready s" "pages s ps" "alloc s = Ok p t" "alloc t = Ok q u" "q \<noteq> 0"
  shows "p \<noteq> q"
proof (cases ps)
  case Nil
  with assms alloc_Nil have "p = 0" by force
  with assms(5) show ?thesis by simp
next
  case (Cons a as)
  from alloc_Cons [OF assms(1) assms(2) [unfolded Cons]] assms(3)
  have a: "p = a" "ready t" "pages t as" by auto
  show ?thesis
  proof (cases as)
    case Nil
    with a alloc_Nil [of t] assms(4,5) show ?thesis by simp
  next
    case (Cons b bs)
    with a alloc_Cons [of t b bs] assms(4) have "q = b" by auto
    with pages_sound [OF assms(2)] \<open>ps = a # as\<close> Cons a(1) show ?thesis by auto
  qed
qed

end

lemma write64_other_page:
  assumes "page_aligned p" "PGROUNDDOWN x \<noteq> p"
  shows "write64 m p v x = m x"
  using assms by (simp add: write64_def write_mem_other_page)

lemma kalloc_Cons:
  assumes "kmem_ready s" "kmem_pages s (p # ps)"
  shows "\<exists>t. kalloc s = Ok p t \<and> kmem_ready t \<and> kmem_pages t ps \<and>
    mem t = (\<lambda>x. if PGROUNDDOWN x = p then 0 else mem s x) \<and>
    t = s\<lparr>freelist := read64 (mem s) p, mem := mem t\<rparr>"
proof -
  from assms(2) have p: "freelist s = p" "p \<noteq> 0" "page_aligned p" "p \<notin> set ps" "distinct ps"
      "free_chain (mem s) (read64 (mem s) p) ps"
    by (auto simp: kmem_pages_def)
  let ?m = "\<lambda>x. if PGROUNDDOWN x = p then 0 else mem s x"
  have "free_chain ?m (read64 (mem s) p) ps"
    using p(4) by (intro free_chain_frame [OF p(6)]) (auto simp: same_page_def)
  moreover have "memset (mem s) p 0 4096 = ?m"
    using p(3) by (simp add: memset_page fun_eq_iff)
  ultimately show ?thesis
    using assms(1) p by (auto simp: kalloc_run kmem_pages_def kmem_ready_def)
qed

lemma kfree_page:
  assumes "kmem_ready s" "kmem_pages s ps" "page_aligned p" "p \<noteq> 0" "p \<notin> set ps"
  shows "\<exists>t. kfree p s = Ok () t \<and> kmem_ready t \<and> kmem_pages t (p # ps) \<and>
    (\<forall>x. PGROUNDDOWN x \<noteq> p \<longrightarrow> mem t x = mem s x) \<and>
    t = s\<lparr>mem := mem t, freelist := p\<rparr>"
proof -
  let ?m = "write64 (memset (mem s) p 1 4096) p (freelist s)"
  have other: "PGROUNDDOWN x \<noteq> p \<Longrightarrow> ?m x = mem s x" for x
    using assms(3) by (simp add: write64_other_page memset_page)
  have same: "same_page a (mem s) ?m" if "a \<in> set ps" for a
    unfolding same_page_def
  proof (intro allI impI)
    fix x
    assume "PGROUNDDOWN x = a"
    with that assms(5) have "PGROUNDDOWN x \<noteq> p" by blast
    then show "?m x = mem s x" by (rule other)
  qed
  have "free_chain (mem s) (freelist s) ps"
    using assms(2) by (simp add: kmem_pages_def)
  then have "free_chain ?m (freelist s) ps"
    by (rule free_chain_frame) (rule same)
  then have "kmem_pages (s\<lparr>mem := ?m, freelist := p\<rparr>) (p # ps)"
    using assms by (simp add: kmem_pages_def)
  moreover have "kfree p s = Ok () (s\<lparr>mem := ?m, freelist := p\<rparr>)"
    using assms by (simp add: kfree_run)
  ultimately show ?thesis
    using assms(1) other
    by (intro exI [of _ "s\<lparr>mem := ?m, freelist := p\<rparr>"]) (simp add: kmem_ready_def)
qed

interpretation kmem: page_allocator kalloc kfree kmem_ready kmem_pages mem
proof
  show "distinct ps \<and> (\<forall>p \<in> set ps. p \<noteq> 0 \<and> page_aligned p)"
    if "kmem_pages s ps" for s :: "'a kmem_scheme" and ps
    using that by (auto simp: kmem_pages_def dest: free_chain_aligned)
  show "kalloc s = Ok 0 s" if "kmem_ready s" "kmem_pages s []" for s :: "'a kmem_scheme"
    using that by (simp add: kalloc_run kmem_pages_def)
  show "\<exists>t. kalloc s = Ok p t \<and> kmem_ready t \<and> kmem_pages t ps \<and>
      mem t = (\<lambda>x. if PGROUNDDOWN x = p then 0 else mem s x)"
    if "kmem_ready s" "kmem_pages s (p # ps)" for s :: "'a kmem_scheme" and p ps
    using kalloc_Cons [OF that] by blast
  show "\<exists>t. kfree p s = Ok () t \<and> kmem_ready t \<and> kmem_pages t (p # ps) \<and>
      (\<forall>x. PGROUNDDOWN x \<noteq> p \<longrightarrow> mem t x = mem s x)"
    if "kmem_ready s" "kmem_pages s ps" "page_aligned p" "p \<noteq> 0" "p \<notin> set ps"
    for s :: "'a kmem_scheme" and p ps
    using kfree_page [OF that] by blast
qed

section \<open>Freeing a range\<close>

text \<open>The pages of a range, in the order the loops reach them.\<close>

definition page_run :: "u64 \<Rightarrow> nat \<Rightarrow> u64 list" where
  "page_run p k = map (\<lambda>i. p + of_nat (i * pg)) [0..<k]"

lemma page_run_Suc: "page_run p (Suc k) = p # page_run (p + PGSIZE) k"
  by (simp add: page_run_def upt_conv_Cons map_Suc_upt [symmetric] PGSIZE_def algebra_simps
      del: upt_Suc)

lemma unat_step:
  assumes "unat p + pg < 2 ^ 64"
  shows "unat (p + PGSIZE) = unat p + pg"
  using assms by (simp add: PGSIZE_def unat_word_ariths)

lemma free_whole_pages:
  assumes "kmem_ready s" "kmem_pages s ps" "page_aligned p" "p \<noteq> 0"
    and "unat p + k * pg \<le> unat e" "unat e < unat p + k * pg + pg" "unat p + k * pg + pg < 2 ^ 64"
    and "k < fuel" and "set ps \<inter> set (page_run p k) = {}"
  shows "\<exists>t. free_whole fuel p e s = Ok () t \<and> kmem_ready t \<and>
    kmem_pages t (rev (page_run p k) @ ps)"
  using assms
proof (induction k arbitrary: s ps p fuel)
  case 0
  have "unat (p + PGSIZE) = unat p + pg" using 0 by (intro unat_step) simp
  with 0 have "\<not> p + PGSIZE \<le> e" by (simp add: word_le_nat_alt)
  with 0 show ?case by (simp add: free_whole.simps page_run_def)
next
  case (Suc k)
  have step: "unat (p + PGSIZE) = unat p + pg" using Suc.prems by (intro unat_step) simp
  have "p + PGSIZE \<le> e" using Suc.prems(5) by (simp add: word_le_nat_alt step)
  have "p \<notin> set ps" using Suc.prems(9) by (simp add: page_run_Suc)
  from kfree_page [OF Suc.prems(1-4) this] obtain t where
    t: "kfree p s = Ok () t" "kmem_ready t" "kmem_pages t (p # ps)" by blast
  have "page_aligned (p + PGSIZE)"
    using Suc.prems(3) by (simp add: page_aligned_unat step)
  moreover have "p + PGSIZE \<noteq> 0"
    using step by (metis add_is_0 numeral_eq_iff unsigned_0 zero_neq_numeral)
  moreover have "p \<notin> set (page_run (p + PGSIZE) k)"
  proof
    assume "p \<in> set (page_run (p + PGSIZE) k)"
    then obtain i where i: "i < k" "p = p + PGSIZE + of_nat (i * pg)"
      by (auto simp: page_run_def)
    then have "(of_nat (pg + i * pg) :: u64) = 0" by (simp add: PGSIZE_def add.assoc)
    moreover have "unat (of_nat (pg + i * pg) :: u64) = pg + i * pg"
      using i(1) Suc.prems(7) by (intro unat_of_nat_u64) (auto simp: algebra_simps intro: le_less_trans)
    ultimately show False by simp
  qed
  ultimately have "\<exists>u. free_whole (fuel - 1) (p + PGSIZE) e t = Ok () u \<and> kmem_ready u \<and>
      kmem_pages u (rev (page_run (p + PGSIZE) k) @ p # ps)"
    using t(2,3) Suc.prems step by (intro Suc.IH) (auto simp: page_run_Suc)
  with t(1) \<open>p + PGSIZE \<le> e\<close> Suc.prems(8) show ?case
    by (auto simp: free_whole.simps [of fuel] page_run_Suc)
qed

lemma kinit_range:
  "PGROUNDUP (P2V INIT_KERNTOP) = 0xFFFFFFFF40200000" "P2V PHYSTOP = 0xFFFFFFFF48000000"
  by (simp_all add: PGROUNDUP_def P2V_def INIT_KERNTOP_def KERN_SZ_def PHYSTART_def PHYSTOP_def
      KERNBASE_def PGSIZE_def)

section \<open>Properties\<close>

definition empty_kmem :: kmem where
  "empty_kmem = \<lparr>hw = idle_mach, mem = (\<lambda>_. 0), freelist = 0\<rparr>"

lemma empty_kmem_ready: "kmem_ready empty_kmem" "kmem_pages empty_kmem []"
  by (simp_all add: empty_kmem_def kmem_ready_def kmem_pages_def)

text \<open>
  C19: \<open>kalloc\<close> pops the first page of the free list: it returns that page filled with zeros,
  leaves the rest of the list free and every other page of memory as it was, and gives the lock
  back.
\<close>

theorem kalloc_pops:
  assumes "kmem_ready s" and "kmem_pages s (p # ps)"
  shows "\<exists>t. kalloc s = Ok p t \<and> kmem_ready t \<and> kmem_pages t ps \<and>
    mem t = (\<lambda>x. if PGROUNDDOWN x = p then 0 else mem s x)"
  using assms by (rule kmem.alloc_Cons)

definition one_page_kmem :: kmem where
  "one_page_kmem = \<lparr>hw = idle_mach, mem = write64 (\<lambda>_. 7) 0x3000 0, freelist = 0x3000\<rparr>"

lemma one_page_kmem_ready: "kmem_ready one_page_kmem" "kmem_pages one_page_kmem [0x3000]"
  by (simp_all add: one_page_kmem_def kmem_ready_def kmem_pages_def page_aligned_def PGSIZE_def)

theorem kalloc_pops_witness:
  "kmem_ready one_page_kmem \<and> kmem_pages one_page_kmem [0x3000] \<and>
   (\<exists>t. kalloc one_page_kmem = Ok 0x3000 t \<and> kmem_ready t \<and> kmem_pages t [] \<and>
     mem t = (\<lambda>x. if PGROUNDDOWN x = 0x3000 then 0 else mem one_page_kmem x))"
  using one_page_kmem_ready kalloc_pops [OF one_page_kmem_ready] by blast

text \<open>
  C20: Freeing a page and allocating again returns that page, cleared, with the free list and all
  other pages as before.
\<close>

theorem kfree_kalloc_roundtrip:
  assumes "kmem_ready s" and "kmem_pages s ps" and "page_aligned p" and "p \<noteq> 0" and "p \<notin> set ps"
  shows "\<exists>t u. kfree p s = Ok () t \<and> kalloc t = Ok p u \<and> kmem_pages u ps \<and>
    mem u = (\<lambda>x. if PGROUNDDOWN x = p then 0 else mem s x)"
  using assms by (rule kmem.dealloc_alloc)

theorem kfree_kalloc_roundtrip_witness:
  "\<exists>t u. kfree 0x5000 one_page_kmem = Ok () t \<and> kalloc t = Ok 0x5000 u \<and>
     kmem_pages u [0x3000] \<and> mem u = (\<lambda>x. if PGROUNDDOWN x = 0x5000 then 0 else mem one_page_kmem x)"
  by (rule kfree_kalloc_roundtrip [OF one_page_kmem_ready])
     (simp_all add: page_aligned_def PGSIZE_def)

text \<open>
  C21: \<open>kinit\<close> ends and has put each of the 32256 pages between the end of the boot image and
  the end of physical memory on the free list, exactly once and on top of what was free.
\<close>

theorem kinit_frees_physical_memory:
  assumes "kmem_ready s" and "kmem_pages s ps"
    and "set ps \<inter> set (page_run 0xFFFFFFFF40200000 32256) = {}"
  shows "\<exists>t. kinit s = Ok () t \<and> kmem_ready t \<and>
    kmem_pages t (rev (page_run 0xFFFFFFFF40200000 32256) @ ps)"
  unfolding kinit_def freerange_def kinit_range page_fuel_def
  using assms by (intro free_whole_pages) (simp_all add: page_aligned_def PGSIZE_def)

theorem kinit_frees_physical_memory_witness:
  "\<exists>t. kinit empty_kmem = Ok () t \<and> kmem_ready t \<and>
    kmem_pages t (rev (page_run 0xFFFFFFFF40200000 32256) @ [])"
  by (rule kinit_frees_physical_memory [OF empty_kmem_ready]) simp

end
