(* ===== verification/Vm.thy ===== *)
theory Vm
  imports Kalloc
begin

text \<open>
  Page tables and user memory, \<open>src/kernel/vm.c\<close>. A page table is three levels of tables in
  memory, as the MMU reads them: the entry for \<open>va\<close> in a table is the 64-bit word at
  \<open>table + 8 * index\<close>. \<open>copyout\<close>, \<open>copyin\<close> and \<open>copyinstr\<close> move bytes between user pages and
  a kernel object. The kernel object is a list of bytes here: \<open>copyin\<close> and \<open>copyinstr\<close> return what
  they stored at \<open>dst\<close>, and it is up to the caller where that is. User pages and kernel objects
  do not overlap.
\<close>

section \<open>Memory accesses\<close>

definition load64 :: "u64 \<Rightarrow> 'z kmem_scheme \<Rightarrow> ('z kmem_scheme, u64) res" where
  "load64 a = gets (\<lambda>s. read64 (mem s) a)"

definition store64 :: "u64 \<Rightarrow> u64 \<Rightarrow> 'z kmem_scheme \<Rightarrow> ('z kmem_scheme, unit) res" where
  "store64 a v = modify (\<lambda>s. s\<lparr>mem := write64 (mem s) a v\<rparr>)"

definition clear_page :: "u64 \<Rightarrow> 'z kmem_scheme \<Rightarrow> ('z kmem_scheme, unit) res" where
  "clear_page p = modify (\<lambda>s. s\<lparr>mem := memset (mem s) p 0 (ucast PGSIZE)\<rparr>)"

lemma load64_run [simp]: "load64 a s = Ok (read64 (mem s) a) s"
  by (simp add: load64_def)

lemma store64_run [simp]: "store64 a v s = Ok () (s\<lparr>mem := write64 (mem s) a v\<rparr>)"
  by (simp add: store64_def)

lemma clear_page_run [simp]: "clear_page p s = Ok () (s\<lparr>mem := memset (mem s) p 0 4096\<rparr>)"
  by (simp add: clear_page_def PGSIZE_def)

section \<open>Page table walks\<close>

definition pte_at :: "u64 \<Rightarrow> u64 \<Rightarrow> u64" where
  "pte_at table idx = table + 8 * idx"

definition entry_table :: "u64 \<Rightarrow> u64" where
  "entry_table e = P2V (PG_ADDR_MASK AND e)"

text \<open>
  The step from an entry to the table it points to. Only the second level clears the new table
  once more. \<open>None\<close> is the early return of a null pointer.
\<close>

definition walk_next :: "bool \<Rightarrow> u64 \<Rightarrow> bool \<Rightarrow> 'z kmem_scheme \<Rightarrow> ('z kmem_scheme, u64 option) res" where
  "walk_next clear entry alloc =
     bind (load64 entry) (\<lambda>e.
     if e AND (ENTRY_VALID OR ENTRY_TABLE) \<noteq> 0 then return (Some (entry_table e))
     else if \<not> alloc then return None
     else bind kalloc (\<lambda>t.
       if t = 0 then return None
       else seq (whenever clear (clear_page t))
           (seq (store64 entry (V2P t OR ENTRY_TABLE OR ENTRY_VALID))
                (return (Some t)))))"

definition walk :: "u64 \<Rightarrow> u64 \<Rightarrow> bool \<Rightarrow> 'z kmem_scheme \<Rightarrow> ('z kmem_scheme, u64) res" where
  "walk pagetable va alloc =
     bind (walk_next False (pte_at pagetable (PGD_IDX va)) alloc) (\<lambda>pmdtb.
     case pmdtb of None \<Rightarrow> return 0 | Some pmdtb \<Rightarrow>
     bind (walk_next True (pte_at pmdtb (PMD_IDX va)) alloc) (\<lambda>ptetb.
     case ptetb of None \<Rightarrow> return 0 | Some ptetb \<Rightarrow>
     return (pte_at ptetb (PTE_IDX va))))"

definition walkaddr :: "u64 \<Rightarrow> u64 \<Rightarrow> 'z kmem_scheme \<Rightarrow> ('z kmem_scheme, u64) res" where
  "walkaddr pagetable va =
     bind (walk pagetable va False) (\<lambda>pte.
     if pte = 0 then return 0 else
     bind (load64 pte) (\<lambda>e.
     if e AND (ENTRY_PAGE OR ENTRY_VALID) = 0 then return 0
     else return (e AND PG_ADDR_MASK)))"

section \<open>Mapping and unmapping\<close>

definition leaf_entry :: "u64 \<Rightarrow> u64 \<Rightarrow> u64" where
  "leaf_entry pa AP = pa OR ACCESS_FLAG OR SH_IN_SH OR AP OR ENTRY_NS OR MEM_ATTR_IDX 4
     OR ENTRY_PAGE OR ENTRY_VALID"

fun mappages_loop ::
  "nat \<Rightarrow> u64 \<Rightarrow> u64 \<Rightarrow> u64 \<Rightarrow> u64 \<Rightarrow> u64 \<Rightarrow> 'z kmem_scheme \<Rightarrow> ('z kmem_scheme, int) res" where
  "mappages_loop fuel pagetable a lastpg pa AP =
     (if fuel = 0 then stop (Hang ''mappages'') else
      bind (walk pagetable a True) (\<lambda>pte.
      if pte = 0 then return (- 1) else
      bind (load64 pte) (\<lambda>e.
      if e AND (ENTRY_PAGE OR ENTRY_VALID) \<noteq> 0 then panic ''remap'' else
      seq (store64 pte (leaf_entry pa AP)) (
      if a = lastpg then return 0
      else mappages_loop (fuel - 1) pagetable (a + PGSIZE) lastpg (pa + PGSIZE) AP))))"

definition mappages ::
  "u64 \<Rightarrow> u64 \<Rightarrow> u64 \<Rightarrow> u64 \<Rightarrow> u64 \<Rightarrow> 'z kmem_scheme \<Rightarrow> ('z kmem_scheme, int) res" where
  "mappages pagetable va sz pa AP =
     mappages_loop page_fuel pagetable (PGROUNDDOWN va) (PGROUNDDOWN (va + sz - 1)) pa AP"

definition page_init :: "u64 \<Rightarrow> 'z kmem_scheme \<Rightarrow> ('z kmem_scheme, unit) res" where
  "page_init kernel_pgtbl =
     bind (mappages kernel_pgtbl (P2V INIT_KERNTOP) (PHYSTOP - INIT_KERNTOP) INIT_KERNTOP AP_1)
          (\<lambda>_. return ())"

definition unmap_page :: "u64 \<Rightarrow> u64 \<Rightarrow> bool \<Rightarrow> 'z kmem_scheme \<Rightarrow> ('z kmem_scheme, unit) res" where
  "unmap_page pagetable a do_free =
     bind (walk pagetable a False) (\<lambda>pte.
     if pte = 0 then panic ''uvmunmap: walk'' else
     bind (load64 pte) (\<lambda>e.
     if e AND ENTRY_VALID = 0 then panic ''uvmunmap: not mapped'' else
     if e AND ENTRY_PAGE = 0 then panic ''uvmunmap: not a page'' else
     seq (whenever do_free (kfree (P2V (e AND PG_ADDR_MASK))))
         (store64 pte 0)))"

fun uvmunmap_loop ::
  "nat \<Rightarrow> u64 \<Rightarrow> u64 \<Rightarrow> u64 \<Rightarrow> bool \<Rightarrow> 'z kmem_scheme \<Rightarrow> ('z kmem_scheme, unit) res" where
  "uvmunmap_loop fuel pagetable a e do_free =
     (if fuel = 0 then stop (Hang ''uvmunmap'')
      else if a < e
      then seq (unmap_page pagetable a do_free)
               (uvmunmap_loop (fuel - 1) pagetable (a + PGSIZE) e do_free)
      else return ())"

definition uvmunmap ::
  "u64 \<Rightarrow> u64 \<Rightarrow> u64 \<Rightarrow> bool \<Rightarrow> 'z kmem_scheme \<Rightarrow> ('z kmem_scheme, unit) res" where
  "uvmunmap pagetable va npages do_free =
     (if va mod PGSIZE \<noteq> 0 then panic ''uvmunmap: not aligned''
      else uvmunmap_loop page_fuel pagetable va (va + npages * PGSIZE) do_free)"

section \<open>User address spaces\<close>

definition uvmcreate :: "'z kmem_scheme \<Rightarrow> ('z kmem_scheme, u64) res" where
  "uvmcreate =
     bind kalloc (\<lambda>pagetable.
     if pagetable = 0 then return 0
     else seq (clear_page pagetable) (return pagetable))"

definition uvminit :: "u64 \<Rightarrow> byte list \<Rightarrow> u32 \<Rightarrow> 'z kmem_scheme \<Rightarrow> ('z kmem_scheme, unit) res" where
  "uvminit pagetable src sz =
     (if ucast sz \<ge> PGSIZE then panic ''uvminit: more than a page'' else
      bind kalloc (\<lambda>p.
      if p = 0 then undef ''uvminit: memset of a null pointer'' else
      seq (clear_page p) (
      bind (mappages pagetable 0 PGSIZE (V2P p) AP_1) (\<lambda>_.
      modify (\<lambda>s. s\<lparr>mem := write_mem (mem s) p (take (unat sz) src)\<rparr>)))))"

definition uvmdealloc :: "u64 \<Rightarrow> u64 \<Rightarrow> u64 \<Rightarrow> 'z kmem_scheme \<Rightarrow> ('z kmem_scheme, u64) res" where
  "uvmdealloc pagetable oldsz newsz =
     (if newsz \<ge> oldsz then return oldsz else
      seq (whenever (PGROUNDUP newsz < PGROUNDUP oldsz)
            (let npages = int_of_u64 ((PGROUNDUP oldsz - PGROUNDUP newsz) div PGSIZE)
             in uvmunmap pagetable (PGROUNDUP newsz) (u64_of_int npages) True))
          (return newsz))"

fun uvmalloc_loop ::
  "nat \<Rightarrow> u64 \<Rightarrow> u64 \<Rightarrow> u64 \<Rightarrow> u64 \<Rightarrow> 'z kmem_scheme \<Rightarrow> ('z kmem_scheme, u64) res" where
  "uvmalloc_loop fuel pagetable a oldsz newsz =
     (if fuel = 0 then stop (Hang ''uvmalloc'')
      else if \<not> a < newsz then return newsz
      else bind kalloc (\<lambda>p.
        if p = 0 then seq (uvmdealloc pagetable a oldsz) (return 0) else
        seq (clear_page p) (
        bind (mappages pagetable a PGSIZE (V2P p) AP_1) (\<lambda>r.
        if r \<noteq> 0 then seq (kfree p) (seq (uvmdealloc pagetable a oldsz) (return 0))
        else uvmalloc_loop (fuel - 1) pagetable (a + PGSIZE) oldsz newsz))))"

definition uvmalloc :: "u64 \<Rightarrow> u64 \<Rightarrow> u64 \<Rightarrow> 'z kmem_scheme \<Rightarrow> ('z kmem_scheme, u64) res" where
  "uvmalloc pagetable oldsz newsz =
     (if newsz < oldsz then return oldsz
      else uvmalloc_loop page_fuel pagetable (PGROUNDUP oldsz) (PGROUNDUP oldsz) newsz)"

definition is_table :: "u64 \<Rightarrow> bool" where
  "is_table e \<longleftrightarrow> e AND ENTRY_VALID \<noteq> 0 \<and> e AND ENTRY_TABLE \<noteq> 0"

definition freewalk_pte :: "u64 \<Rightarrow> nat \<Rightarrow> 'z kmem_scheme \<Rightarrow> ('z kmem_scheme, unit) res" where
  "freewalk_pte ptetb k =
     bind (load64 (pte_at ptetb (of_nat k))) (\<lambda>pte.
     whenever (pte AND (ENTRY_VALID OR ENTRY_PAGE) \<noteq> 0) (panic ''freewalk: leaf''))"

definition freewalk_pmd :: "u64 \<Rightarrow> nat \<Rightarrow> 'z kmem_scheme \<Rightarrow> ('z kmem_scheme, unit) res" where
  "freewalk_pmd pmdtb j =
     bind (load64 (pte_at pmdtb (of_nat j))) (\<lambda>pmd.
     whenever (is_table pmd)
       (seq (for_each [0..<512] (freewalk_pte (P2V (pmd AND PG_ADDR_MASK))))
            (kfree (P2V (pmd AND PG_ADDR_MASK)))))"

definition freewalk_pgd :: "u64 \<Rightarrow> nat \<Rightarrow> 'z kmem_scheme \<Rightarrow> ('z kmem_scheme, unit) res" where
  "freewalk_pgd pagetable i =
     bind (load64 (pte_at pagetable (of_nat i))) (\<lambda>pgd.
     whenever (is_table pgd)
       (seq (for_each [0..<512] (freewalk_pmd (P2V (pgd AND PG_ADDR_MASK))))
            (kfree (P2V (pgd AND PG_ADDR_MASK)))))"

definition freewalk :: "u64 \<Rightarrow> 'z kmem_scheme \<Rightarrow> ('z kmem_scheme, unit) res" where
  "freewalk pagetable =
     seq (for_each [0..<4] (freewalk_pgd pagetable)) (kfree pagetable)"

definition uvmfree :: "u64 \<Rightarrow> u64 \<Rightarrow> 'z kmem_scheme \<Rightarrow> ('z kmem_scheme, unit) res" where
  "uvmfree pagetable sz =
     seq (whenever (sz > 0) (uvmunmap pagetable 0 (PGROUNDUP sz div PGSIZE) True))
         (freewalk pagetable)"

text \<open>The loop of \<open>uvmcopy\<close>; the label \<open>bad\<close> is \<open>uvmcopy_bad\<close>.\<close>

definition uvmcopy_bad :: "u64 \<Rightarrow> u64 \<Rightarrow> 'z kmem_scheme \<Rightarrow> ('z kmem_scheme, int) res" where
  "uvmcopy_bad new i = seq (uvmunmap new 0 (i div PGSIZE) True) (return 0)"

fun uvmcopy_loop ::
  "nat \<Rightarrow> u64 \<Rightarrow> u64 \<Rightarrow> u64 \<Rightarrow> u64 \<Rightarrow> 'z kmem_scheme \<Rightarrow> ('z kmem_scheme, int) res" where
  "uvmcopy_loop fuel old new i sz =
     (if fuel = 0 then stop (Hang ''uvmcopy'')
      else if \<not> i < sz then return 0 else
      bind (walk old i False) (\<lambda>pte.
      if pte = 0 then panic ''uvmcopy: pte should exist'' else
      bind (load64 pte) (\<lambda>e.
      if e AND ENTRY_VALID = 0 then panic ''uvmcopy: page not present'' else
      bind kalloc (\<lambda>p.
      if p = 0 then uvmcopy_bad new i else
      seq (modify (\<lambda>s. s\<lparr>mem := memmove (mem s) p (P2V (e AND PG_ADDR_MASK)) (ucast PGSIZE)\<rparr>)) (
      bind (mappages new i PGSIZE (V2P p) (e AND push_bit 6 3)) (\<lambda>r.
      if r \<noteq> 0 then seq (kfree p) (uvmcopy_bad new i)
      else uvmcopy_loop (fuel - 1) old new (i + PGSIZE) sz))))))"

definition uvmcopy :: "u64 \<Rightarrow> u64 \<Rightarrow> u64 \<Rightarrow> 'z kmem_scheme \<Rightarrow> ('z kmem_scheme, int) res" where
  "uvmcopy old new sz = uvmcopy_loop page_fuel old new 0 sz"

definition uvmclear :: "u64 \<Rightarrow> u64 \<Rightarrow> 'z kmem_scheme \<Rightarrow> ('z kmem_scheme, unit) res" where
  "uvmclear pagetable va =
     bind (walk pagetable va False) (\<lambda>pte.
     if pte = 0 then panic ''uvmclear'' else
     bind (load64 pte) (\<lambda>e. store64 pte (e AND NOT (push_bit 6 3))))"

section \<open>Copying between kernel and user\<close>

definition chunk_len :: "u64 \<Rightarrow> u64 \<Rightarrow> u64" where
  "chunk_len va len =
     (let n = PGSIZE - (va - PGROUNDDOWN va) in if n > len then len else n)"

text \<open>
  The loops take at least one byte in every round, so a fuel of one more than the length is
  enough.
\<close>

fun copyout_loop :: "nat \<Rightarrow> u64 \<Rightarrow> u64 \<Rightarrow> byte list \<Rightarrow> u64 \<Rightarrow> 'z kmem_scheme \<Rightarrow> ('z kmem_scheme, int) res" where
  "copyout_loop fuel pagetable dstva src len =
     (if fuel = 0 then stop (Hang ''copyout'')
      else if len = 0 then return 0 else
      bind (walkaddr pagetable (PGROUNDDOWN dstva)) (\<lambda>pa0.
      if pa0 = 0 then return (- 1) else
      (let n = chunk_len dstva len in
      seq (modify (\<lambda>s. s\<lparr>mem := write_mem (mem s) (P2V (pa0 + (dstva - PGROUNDDOWN dstva)))
             (take (unat n) src)\<rparr>))
          (copyout_loop (fuel - 1) pagetable (PGROUNDDOWN dstva + PGSIZE) (drop (unat n) src)
             (len - n)))))"

definition copyout :: "u64 \<Rightarrow> u64 \<Rightarrow> byte list \<Rightarrow> u64 \<Rightarrow> 'z kmem_scheme \<Rightarrow> ('z kmem_scheme, int) res" where
  "copyout pagetable dstva src len = copyout_loop (Suc (unat len)) pagetable dstva src len"

fun copyin_loop ::
  "nat \<Rightarrow> u64 \<Rightarrow> u64 \<Rightarrow> u64 \<Rightarrow> byte list \<Rightarrow> 'z kmem_scheme \<Rightarrow> ('z kmem_scheme, int \<times> byte list) res" where
  "copyin_loop fuel pagetable srcva len dst =
     (if fuel = 0 then stop (Hang ''copyin'')
      else if len = 0 then return (0, dst) else
      bind (walkaddr pagetable (PGROUNDDOWN srcva)) (\<lambda>pa0.
      if pa0 = 0 then return (- 1, dst) else
      (let n = chunk_len srcva len in
      bind (gets (\<lambda>s. read_mem (mem s) (P2V (pa0 + (srcva - PGROUNDDOWN srcva))) (unat n))) (\<lambda>bs.
      copyin_loop (fuel - 1) pagetable (PGROUNDDOWN srcva + PGSIZE) (len - n) (dst @ bs)))))"

definition copyin :: "u64 \<Rightarrow> u64 \<Rightarrow> u64 \<Rightarrow> 'z kmem_scheme \<Rightarrow> ('z kmem_scheme, int \<times> byte list) res" where
  "copyin pagetable srcva len = copyin_loop (Suc (unat len)) pagetable srcva len []"

text \<open>The inner loop of \<open>copyinstr\<close>: whether it met the NUL, the bytes it stored, what is left of
  \<open>max\<close>.\<close>

fun copyinstr_chunk :: "memory \<Rightarrow> u64 \<Rightarrow> nat \<Rightarrow> u64 \<Rightarrow> byte list \<Rightarrow> bool \<times> byte list \<times> u64" where
  "copyinstr_chunk m p 0 maxlen dst = (False, dst, maxlen)"
| "copyinstr_chunk m p (Suc n) maxlen dst =
     (if m p = 0 then (True, dst @ [0], maxlen)
      else copyinstr_chunk m (p + 1) n (maxlen - 1) (dst @ [m p]))"

fun copyinstr_loop ::
  "nat \<Rightarrow> u64 \<Rightarrow> u64 \<Rightarrow> u64 \<Rightarrow> byte list \<Rightarrow> 'z kmem_scheme \<Rightarrow> ('z kmem_scheme, int \<times> byte list) res" where
  "copyinstr_loop fuel pagetable srcva maxlen dst =
     (if fuel = 0 then stop (Hang ''copyinstr'')
      else if maxlen = 0 then return (- 1, dst) else
      bind (walkaddr pagetable (PGROUNDDOWN srcva)) (\<lambda>pa0.
      if pa0 = 0 then return (- 1, dst) else
      bind (gets mem) (\<lambda>m.
      case copyinstr_chunk m (P2V (pa0 + (srcva - PGROUNDDOWN srcva)))
             (unat (chunk_len srcva maxlen)) maxlen dst of
        (got_null, dst', maxlen') \<Rightarrow>
          if got_null then return (0, dst')
          else copyinstr_loop (fuel - 1) pagetable (PGROUNDDOWN srcva + PGSIZE) maxlen' dst')))"

definition copyinstr :: "u64 \<Rightarrow> u64 \<Rightarrow> u64 \<Rightarrow> 'z kmem_scheme \<Rightarrow> ('z kmem_scheme, int \<times> byte list) res" where
  "copyinstr pagetable srcva maxlen = copyinstr_loop (Suc (unat maxlen)) pagetable srcva maxlen []"

declare mappages_loop.simps [simp del] uvmunmap_loop.simps [simp del] uvmalloc_loop.simps [simp del]
  uvmcopy_loop.simps [simp del] copyout_loop.simps [simp del] copyin_loop.simps [simp del]
  copyinstr_loop.simps [simp del]

section \<open>Entries of a table\<close>

lemma PGD_IDX_less: "PGD_IDX va < 4"
proof -
  have "PGD_IDX va = take_bit 2 (drop_bit 30 va)"
    by (simp add: PGD_IDX_def take_bit_eq_mask mask_eq_exp_minus_1)
  then show ?thesis by (simp add: take_bit_eq_mod word_less_nat_alt unat_mod_distrib)
qed

lemma idx_less: "PMD_IDX va < 512" "PTE_IDX va < 512"
proof -
  have "PMD_IDX va = take_bit 9 (drop_bit 21 va)" "PTE_IDX va = take_bit 9 (drop_bit 12 va)"
    by (simp_all add: PMD_IDX_def PTE_IDX_def take_bit_eq_mask mask_eq_exp_minus_1)
  then show "PMD_IDX va < 512" "PTE_IDX va < 512"
    by (simp_all add: take_bit_eq_mod word_less_nat_alt unat_mod_distrib)
qed

lemma pte_at_nat: "i < 512 \<Longrightarrow> pte_at t i = t + of_nat (8 * unat i)"
  by (simp add: pte_at_def)

lemma read64_nth_cong:
  "(\<And>k. k < 8 \<Longrightarrow> m' (a + of_nat k) = m (a + of_nat k)) \<Longrightarrow> read64 m' a = read64 m a"
  unfolding read64_def read_mem_def by (intro arg_cong [of _ _ le_word] map_cong) auto

lemma of_nat_u64_inj:
  "(of_nat a :: u64) = of_nat b \<Longrightarrow> a < 2 ^ 64 \<Longrightarrow> b < 2 ^ 64 \<Longrightarrow> a = b"
  by (metis unat_of_nat_u64)

text \<open>Two entries, of the same or of different tables, are the same word or do not overlap.\<close>

lemma entry_byte:
  assumes "page_aligned t" "page_aligned u" "i < 512" "j < 512" "k < 8"
  shows "unat (pte_at u j + of_nat k - pte_at t i) < 8 \<longleftrightarrow> t = u \<and> i = j"
proof
  assume l: "unat (pte_at u j + of_nat k - pte_at t i) < 8"
  define d where "d = unat (pte_at u j + of_nat k - pte_at t i)"
  have i: "unat i < 512" and j: "unat j < 512" using assms by (simp_all add: word_less_nat_alt)
  have "of_nat d = pte_at u j + of_nat k - pte_at t i" unfolding d_def by simp
  then have eq: "u + of_nat (8 * unat j + k) = t + of_nat (8 * unat i + d)"
    using assms(3,4) by (simp add: pte_at_nat algebra_simps)
  have d8: "d < 8" using l by (simp add: d_def)
  have "PGROUNDDOWN (u + of_nat (8 * unat j + k)) = u"
    using assms(2) j \<open>k < 8\<close> by (intro page_offset) auto
  moreover have "PGROUNDDOWN (t + of_nat (8 * unat i + d)) = t"
    using assms(1) i d8 by (intro page_offset) auto
  ultimately have "t = u" using eq by simp
  moreover have "8 * unat j + k = 8 * unat i + d"
  proof -
    have "(of_nat (8 * unat j + k) :: u64) = of_nat (8 * unat i + d)" using eq \<open>t = u\<close> by simp
    then show ?thesis using i j d8 \<open>k < 8\<close> by (intro of_nat_u64_inj) auto
  qed
  moreover from this d8 \<open>k < 8\<close> have "unat i = unat j" by presburger
  ultimately show "t = u \<and> i = j" by (auto intro: unsigned_word_eqI)
next
  assume "t = u \<and> i = j"
  then show "unat (pte_at u j + of_nat k - pte_at t i) < 8" using assms(5) by (simp add: unat_of_nat_u64)
qed

lemma read_write_entry:
  assumes "page_aligned t" "page_aligned u" "i < 512" "j < 512"
  shows "read64 (write64 m (pte_at t i) v) (pte_at u j) =
    (if t = u \<and> i = j then v else read64 m (pte_at u j))"
proof (cases "t = u \<and> i = j")
  case True
  then show ?thesis by simp
next
  case False
  have "read64 (write64 m (pte_at t i) v) (pte_at u j) = read64 m (pte_at u j)"
  proof (rule read64_nth_cong)
    fix k :: nat
    assume "k < 8"
    from entry_byte [OF assms this] False
    show "write64 m (pte_at t i) v (pte_at u j + of_nat k) = m (pte_at u j + of_nat k)"
      by (simp add: write64_def write_mem_apply)
  qed
  then show ?thesis by (simp only: False if_False)
qed

lemma pte_at_page:
  assumes "page_aligned t" "i < 512" "k < 8"
  shows "PGROUNDDOWN (pte_at t i + of_nat k) = t"
proof -
  have "PGROUNDDOWN (t + of_nat (8 * unat i + k)) = t"
    using assms by (intro page_offset) (auto simp: word_less_nat_alt)
  then show ?thesis using assms(2) by (simp add: pte_at_nat add.assoc)
qed

text \<open>An entry of another page is not changed, and the entries of a cleared page are zero.\<close>

lemma read_entry_other:
  assumes "page_aligned u" "j < 512" "\<And>x. PGROUNDDOWN x = u \<Longrightarrow> m' x = m x"
  shows "read64 m' (pte_at u j) = read64 m (pte_at u j)"
  using assms by (intro read64_nth_cong) (simp add: pte_at_page)

lemma read64_zero: "read64 (\<lambda>_. 0) a = 0"
  by (simp add: read64_def read_mem_def numeral_eq_Suc)

lemma read_entry_cleared:
  assumes "page_aligned u" "j < 512" "\<And>x. PGROUNDDOWN x = u \<Longrightarrow> m x = 0"
  shows "read64 m (pte_at u j) = 0"
  using read_entry_other [of u j m "\<lambda>_. 0"] assms by (simp add: read64_zero)

lemma write_entry_other_page:
  assumes "page_aligned t" "i < 512" "PGROUNDDOWN x \<noteq> t"
  shows "write64 m (pte_at t i) v x = m x"
proof -
  have "\<not> unat (x - pte_at t i) < 8"
  proof
    assume l: "unat (x - pte_at t i) < 8"
    have "x = pte_at t i + of_nat (unat (x - pte_at t i))" by simp
    with pte_at_page [OF assms(1,2) l] assms(3) show False by metis
  qed
  then show ?thesis by (simp add: write64_def write_mem_apply)
qed

section \<open>Contents of an entry\<close>

definition pte_valid :: "u64 \<Rightarrow> bool" where
  "pte_valid e \<longleftrightarrow> e AND 3 \<noteq> 0"

definition kpage :: "u64 \<Rightarrow> bool" where
  "kpage p \<longleftrightarrow> page_aligned p \<and> KERNBASE \<le> p"

lemma entry_bits [simp]: "ENTRY_VALID OR ENTRY_TABLE = 3" "ENTRY_PAGE OR ENTRY_VALID = 3"
    "ENTRY_VALID OR ENTRY_PAGE = 3"
  by (simp_all add: ENTRY_VALID_def ENTRY_TABLE_def ENTRY_PAGE_def)

lemma and_zero_bit:
  assumes "a AND b = (0 :: u64)" "bit a n"
  shows "\<not> bit b n"
proof -
  have "bit (a AND b) n \<longleftrightarrow> bit (0 :: u64) n" by (simp only: assms(1))
  with assms(2) show ?thesis by (simp add: bit_and_iff)
qed

lemma addr_mask_bits: "bit PG_ADDR_MASK n \<longleftrightarrow> 12 \<le> n \<and> n < 48"
proof -
  have eq: "PG_ADDR_MASK = push_bit 12 (mask 36)"
    by (simp add: PG_ADDR_MASK_def mask_eq_exp_minus_1)
  show ?thesis unfolding eq by (simp only: bit_push_bit_iff bit_mask_iff) auto
qed

lemma aligned_low_bits: "page_aligned p \<Longrightarrow> n < 12 \<Longrightarrow> \<not> bit p n"
proof -
  assume p: "page_aligned p" and n: "n < 12"
  have "take_bit 12 p = 0" using p by (simp add: page_aligned_def take_bit_eq_mod PGSIZE_def)
  then have "\<not> bit (take_bit 12 p) n" by simp
  with n show ?thesis by (simp add: bit_take_bit_iff)
qed

lemma small_high_bits: "p < 2 ^ 48 \<Longrightarrow> 48 \<le> n \<Longrightarrow> \<not> bit p n" for p :: u64
proof -
  assume p: "p < 2 ^ 48" and n: "48 \<le> n"
  have "take_bit 48 p = p" 
    using p by (intro unsigned_word_eqI [where 'a = nat])
      (simp add: take_bit_eq_mod unat_mod_distrib word_less_nat_alt)
  then show ?thesis using n by (metis bit_take_bit_iff not_le)
qed

text \<open>The address bits of an entry that holds an address below \<open>2 ^ 48\<close> and low bits of its own.\<close>

lemma addr_of_entry:
  assumes "page_aligned pa" "pa < 2 ^ 48" "PG_ADDR_MASK AND b = 0"
  shows "PG_ADDR_MASK AND (pa OR b) = pa"
proof (rule bit_word_eqI)
  fix n
  have "\<not> (bit PG_ADDR_MASK n \<and> bit b n)" using and_zero_bit [OF assms(3)] by blast
  then show "bit (PG_ADDR_MASK AND (pa OR b)) n \<longleftrightarrow> bit pa n"
    using aligned_low_bits [OF assms(1)] small_high_bits [OF assms(2)]
    by (auto simp: bit_and_iff bit_or_iff addr_mask_bits not_le [symmetric] not_less)
qed

lemma V2P_kpage: "kpage p \<Longrightarrow> page_aligned (V2P p) \<and> V2P p < 2 ^ 48"
proof -
  assume p: "kpage p"
  then have le: "KERNBASE \<le> p" and al: "unat p mod pg = 0" by (simp_all add: kpage_def page_aligned_unat)
  have u: "unat (V2P p) = unat p - unat KERNBASE" using le by (simp add: V2P_def unat_sub)
  have "unat p < 2 ^ 64" using unsigned_less [of p, where 'a = nat] by simp
  moreover have k: "unat KERNBASE = 0xFFFFFFFF00000000" by (simp add: KERNBASE_def)
  ultimately have "unat (V2P p) < 2 ^ 48" using u by simp
  moreover have "unat (V2P p) mod pg = 0"
  proof -
    have "pg dvd unat p" using al by auto
    moreover have "pg dvd unat KERNBASE" unfolding k by (intro dvdI [of _ _ "0xFFFFFFFF00000"]) simp
    ultimately show ?thesis unfolding u by (simp add: dvd_diff_nat)
  qed
  ultimately show ?thesis by (simp add: page_aligned_unat word_less_nat_alt)
qed

lemma entry_table_new: "kpage p \<Longrightarrow> entry_table (V2P p OR ENTRY_TABLE OR ENTRY_VALID) = p"
proof -
  assume "kpage p"
  then have "PG_ADDR_MASK AND (V2P p OR 3) = V2P p"
    using V2P_kpage by (intro addr_of_entry) (auto simp: PG_ADDR_MASK_def)
  then show ?thesis by (simp add: entry_table_def ENTRY_VALID_def ENTRY_TABLE_def or.assoc)
qed

lemma valid_or3: "pte_valid (x OR 3)"
proof -
  have "bit (x OR 3 AND 3) 0" by (simp add: bit_simps)
  then show ?thesis unfolding pte_valid_def by (auto simp: bit_simps)
qed

lemma valid_new: "pte_valid (x OR ENTRY_TABLE OR ENTRY_VALID)"
  using valid_or3 [of x] by (simp add: ENTRY_VALID_def ENTRY_TABLE_def or.assoc)

lemma valid_0 [simp]: "\<not> pte_valid 0"
  by (simp add: pte_valid_def)

definition ap_ok :: "u64 \<Rightarrow> bool" where
  "ap_ok AP \<longleftrightarrow> AP AND NOT AP_MASK = 0"

lemma leaf_entry_split:
  "leaf_entry pa AP = pa OR (AP OR 0x733)"
  by (simp add: leaf_entry_def ACCESS_FLAG_def SH_IN_SH_def ENTRY_NS_def MEM_ATTR_IDX_def
      ENTRY_PAGE_def ENTRY_VALID_def or.assoc or.left_commute or.commute)

lemma leaf_entry_valid: "pte_valid (leaf_entry pa AP)"
  unfolding leaf_entry_def using valid_or3 [of "pa OR ACCESS_FLAG OR SH_IN_SH OR AP OR ENTRY_NS OR MEM_ATTR_IDX 4"]
  by (simp add: ENTRY_PAGE_def ENTRY_VALID_def or.assoc)

lemma leaf_entry_addr:
  assumes "page_aligned pa" "pa < 2 ^ 48" "ap_ok AP"
  shows "leaf_entry pa AP AND PG_ADDR_MASK = pa"
proof -
  have disj: "AP_MASK AND PG_ADDR_MASK = 0" "(0x733 :: u64) AND PG_ADDR_MASK = 0"
    by (simp_all add: AP_MASK_def PG_ADDR_MASK_def)
  have "PG_ADDR_MASK AND (AP OR 0x733) = 0"
  proof (rule bit_word_eqI)
    fix n
    assume "n < LENGTH(64)"
    then have "bit AP n \<Longrightarrow> bit AP_MASK n"
      using assms(3) and_zero_bit [of AP "NOT AP_MASK" n] by (simp add: ap_ok_def bit_not_iff)
    then show "bit (PG_ADDR_MASK AND (AP OR 0x733)) n \<longleftrightarrow> bit (0 :: u64) n"
      using and_zero_bit [OF disj(1), of n] and_zero_bit [OF disj(2), of n]
      by (auto simp: bit_and_iff bit_or_iff simp del: bit_numeral_iff)
  qed
  then have "PG_ADDR_MASK AND (pa OR (AP OR 0x733)) = pa"
    using assms by (intro addr_of_entry)
  then show ?thesis by (simp add: leaf_entry_split and.commute)
qed

section \<open>The tree of tables\<close>

text \<open>
  \<open>pt_node m pt q\<close> is the table that the walk along the indices \<open>q\<close> reaches. In a well-formed page
  table every path reaches a page of its own, and none of these pages is free.
\<close>

fun pt_node :: "memory \<Rightarrow> u64 \<Rightarrow> u64 list \<Rightarrow> u64 option" where
  "pt_node m pt [] = Some pt"
| "pt_node m pt (i # q) =
     (let e = read64 m (pte_at pt i) in if pte_valid e then pt_node m (entry_table e) q else None)"

definition pt_path :: "u64 list \<Rightarrow> bool" where
  "pt_path q \<longleftrightarrow> length q \<le> 2 \<and> (\<forall>i \<in> set q. i < 512)"

definition pt_inv :: "memory \<Rightarrow> u64 \<Rightarrow> u64 set \<Rightarrow> bool" where
  "pt_inv m pt F \<longleftrightarrow>
     (\<forall>p \<in> F. kpage p) \<and>
     (\<forall>q p. pt_path q \<longrightarrow> pt_node m pt q = Some p \<longrightarrow> kpage p \<and> p \<notin> F) \<and>
     (\<forall>q q' p. pt_path q \<longrightarrow> pt_path q' \<longrightarrow> pt_node m pt q = Some p \<longrightarrow> pt_node m pt q' = Some p \<longrightarrow> q = q')"

text \<open>The mapping that the page table represents: the leaf entry of an address, if it is valid.\<close>

definition pt_map :: "memory \<Rightarrow> u64 \<Rightarrow> u64 \<Rightarrow> u64 option" where
  "pt_map m pt va =
     (case pt_node m pt [PGD_IDX va, PMD_IDX va] of
        None \<Rightarrow> None
      | Some t \<Rightarrow> let e = read64 m (pte_at t (PTE_IDX va)) in if pte_valid e then Some e else None)"

lemma kpage_aligned [simp]: "kpage p \<Longrightarrow> page_aligned p"
  by (simp add: kpage_def)

lemma PGD_IDX_less_512: "PGD_IDX va < 512"
  using PGD_IDX_less [of va] by (rule less_trans) simp

lemma path_idx [simp]: "pt_path [PGD_IDX va]" "pt_path [PGD_IDX va, PMD_IDX va]" "pt_path []"
  by (simp_all add: pt_path_def idx_less PGD_IDX_less_512)

lemma pte_at_nonzero:
  assumes "kpage t" "i < 512"
  shows "pte_at t i \<noteq> 0"
proof
  assume "pte_at t i = 0"
  then have "PGROUNDDOWN 0 = t" using pte_at_page [of t i 0] assms by simp
  then show False using assms(1) by (simp add: PGROUNDDOWN_def kpage_def KERNBASE_def)
qed

text \<open>A walk that does not allocate reads the tree.\<close>

lemma walk_lookup:
  assumes "pt_inv (mem s) pt F"
  shows "walk pt va False s =
    Ok (case pt_node (mem s) pt [PGD_IDX va, PMD_IDX va] of None \<Rightarrow> 0
        | Some t \<Rightarrow> pte_at t (PTE_IDX va)) s"
  by (simp add: walk_def walk_next_def pte_valid_def Let_def)

lemma pt_inv_kpage: "pt_inv m pt F \<Longrightarrow> pt_path q \<Longrightarrow> pt_node m pt q = Some p \<Longrightarrow> kpage p"
  by (auto simp: pt_inv_def)

lemma walkaddr_lookup:
  assumes "pt_inv (mem s) pt F"
  shows "walkaddr pt va s =
    Ok (case pt_map (mem s) pt va of None \<Rightarrow> 0 | Some e \<Rightarrow> e AND PG_ADDR_MASK) s"
proof (cases "pt_node (mem s) pt [PGD_IDX va, PMD_IDX va]")
  case None
  then show ?thesis by (simp add: walkaddr_def walk_lookup [OF assms] pt_map_def)
next
  case (Some t)
  then have "pte_at t (PTE_IDX va) \<noteq> 0"
    using pt_inv_kpage [OF assms path_idx(2)] idx_less by (intro pte_at_nonzero) blast+
  then show ?thesis
    using Some by (simp add: walkaddr_def walk_lookup [OF assms] pt_map_def pte_valid_def Let_def del: pt_node.simps)
qed

lemma node_snoc:
  "pt_node m pt (q @ [i]) = (case pt_node m pt q of None \<Rightarrow> None
     | Some t \<Rightarrow> let e = read64 m (pte_at t i) in if pte_valid e then Some (entry_table e) else None)"
  by (induction q arbitrary: pt) (auto simp: Let_def)

lemma path_snoc: "pt_path (q @ [i]) \<longleftrightarrow> length q < 2 \<and> (\<forall>j \<in> set q. j < 512) \<and> i < 512"
  by (auto simp: pt_path_def)

lemma path_prefix: "pt_path (q @ [i]) \<Longrightarrow> pt_path q \<and> i < 512"
  by (auto simp: pt_path_def)

lemma pt_inv_inj:
  "pt_inv m pt F \<Longrightarrow> pt_path q \<Longrightarrow> pt_path q' \<Longrightarrow> pt_node m pt q = Some p \<Longrightarrow> pt_node m pt q' = Some p \<Longrightarrow> q = q'"
  unfolding pt_inv_def by blast

lemma pt_inv_not_free: "pt_inv m pt F \<Longrightarrow> pt_path q \<Longrightarrow> pt_node m pt q = Some p \<Longrightarrow> p \<notin> F"
  unfolding pt_inv_def by blast

text \<open>Linking a cleared free page into an empty entry adds one node and changes no mapping.\<close>

definition link_step :: "memory \<Rightarrow> u64 \<Rightarrow> u64 set \<Rightarrow> u64 list \<Rightarrow> u64 \<Rightarrow> u64 \<Rightarrow> u64 \<Rightarrow> memory \<Rightarrow> bool" where
  "link_step m pt F q i t p m' \<longleftrightarrow>
     pt_inv m pt F \<and> pt_path (q @ [i]) \<and> pt_node m pt q = Some t \<and> \<not> pte_valid (read64 m (pte_at t i)) \<and>
     p \<in> F \<and> m' = write64 (\<lambda>x. if PGROUNDDOWN x = p then 0 else m x) (pte_at t i)
       (V2P p OR ENTRY_TABLE OR ENTRY_VALID)"

lemma link_entry:
  assumes "link_step m pt F q i t p m'" "kpage u" "j < 512"
  shows "read64 m' (pte_at u j) =
    (if u = t \<and> j = i then V2P p OR ENTRY_TABLE OR ENTRY_VALID
     else if u = p then 0 else read64 m (pte_at u j))"
proof -
  have l: "kpage t" "i < 512" "p \<in> F" "t \<noteq> p" "kpage p"
    using assms(1) path_prefix [of q i] pt_inv_kpage [of m pt F q t] pt_inv_not_free [of m pt F q t]
    by (auto simp: link_step_def pt_inv_def)
  let ?m = "\<lambda>x. if PGROUNDDOWN x = p then 0 else m x"
  have "read64 ?m (pte_at u j) = (if u = p then 0 else read64 m (pte_at u j))"
  proof (cases "u = p")
    case True
    then show ?thesis using l assms(2,3) by (simp add: read_entry_cleared)
  next
    case False
    then have "read64 ?m (pte_at u j) = read64 m (pte_at u j)"
      using assms(2,3) by (intro read_entry_other) auto
    with False show ?thesis by simp
  qed
  with l assms show ?thesis by (auto simp: link_step_def read_write_entry)
qed

lemma link_node:
  assumes l: "link_step m pt F q i t p m'" and "pt_path q'"
  shows "pt_node m' pt q' = (if q' = q @ [i] then Some p else pt_node m pt q')"
  using assms(2)
proof (induction q' rule: rev_induct)
  case Nil
  then show ?case by simp
next
  case (snoc j q')
  have j: "pt_path q'" "j < 512" using snoc.prems path_prefix by auto
  note IH = snoc.IH [OF j(1)]
  have inv: "pt_inv m pt F" and qi: "pt_path (q @ [i])" and t: "pt_node m pt q = Some t"
    and empty: "\<not> pte_valid (read64 m (pte_at t i))" and p: "p \<in> F" "kpage p"
    using l by (auto simp: link_step_def pt_inv_def)
  have none: "pt_node m pt (q @ [i]) = None" using t empty by (simp add: node_snoc Let_def)
  show ?case
  proof (cases "q' = q @ [i]")
    case True
    have "t \<noteq> p" using pt_inv_not_free [OF inv _ t] path_prefix [OF qi] p by auto
    then have "read64 m' (pte_at p j) = 0" using link_entry [OF l p(2) j(2)] by auto
    then have "pt_node m' pt (q' @ [j]) = None"
      using IH True unfolding node_snoc [of m' pt q' j] by (simp add: Let_def)
    moreover have "pt_node m pt (q' @ [j]) = None" using none True node_snoc [of m pt q' j] by simp
    ultimately show ?thesis using True by simp
  next
    case False
    show ?thesis
    proof (cases "pt_node m pt q'")
      case None
      then have "q' \<noteq> q" using t by auto
      then show ?thesis using None IH False by (simp add: node_snoc)
    next
      case (Some u)
      have u: "kpage u" "u \<noteq> p"
        using pt_inv_kpage [OF inv j(1) Some] pt_inv_not_free [OF inv j(1) Some] p by auto
      have "u = t \<longleftrightarrow> q' = q"
        using pt_inv_inj [OF inv j(1) _ Some, of q] path_prefix [OF qi] t Some by auto
      then show ?thesis
        using Some IH False link_entry [OF l u(1) j(2)] u(2) entry_table_new [OF p(2)] valid_new
        by (auto simp: node_snoc Let_def)
    qed
  qed
qed

lemma link_inv:
  assumes l: "link_step m pt F q i t p m'"
  shows "pt_inv m' pt (F - {p})"
proof -
  have inv: "pt_inv m pt F" and qi: "pt_path (q @ [i])" and p: "p \<in> F" "kpage p"
    using l by (auto simp: link_step_def pt_inv_def)
  show ?thesis
    unfolding pt_inv_def
  proof (intro conjI allI impI ballI)
    show "kpage x" if "x \<in> F - {p}" for x using that inv by (auto simp: pt_inv_def)
    show "kpage x" "x \<notin> F - {p}" if "pt_path q'" "pt_node m' pt q' = Some x" for q' x
      using that link_node [OF l that(1)] pt_inv_kpage [OF inv that(1)] pt_inv_not_free [OF inv that(1)] p
      by (auto split: if_splits)
    show "q1 = q2" if "pt_path q1" "pt_path q2" "pt_node m' pt q1 = Some x" "pt_node m' pt q2 = Some x" for q1 q2 x
      using that link_node [OF l that(1)] link_node [OF l that(2)] p(1)
        pt_inv_inj [OF inv that(1,2)] pt_inv_not_free [OF inv that(1)] pt_inv_not_free [OF inv that(2)]
      by (auto split: if_splits)
  qed
qed

lemma link_map:
  assumes l: "link_step m pt F q i t p m'"
  shows "pt_map m' pt va = pt_map m pt va"
proof -
  have inv: "pt_inv m pt F" and qi: "pt_path (q @ [i])" and t: "pt_node m pt q = Some t"
    and empty: "\<not> pte_valid (read64 m (pte_at t i))" and p: "p \<in> F" "kpage p"
    using l by (auto simp: link_step_def pt_inv_def)
  let ?v = "[PGD_IDX va, PMD_IDX va]"
  note node' = link_node [OF l path_idx(2), of va]
  show ?thesis
  proof (cases "?v = q @ [i]")
    case True
    have "t \<noteq> p" using pt_inv_not_free [OF inv _ t] path_prefix [OF qi] p by auto
    then have "read64 m' (pte_at p (PTE_IDX va)) = 0" using link_entry [OF l p(2) idx_less(2)] by auto
    moreover have "pt_node m pt (q @ [i]) = None" using t empty by (simp add: node_snoc Let_def)
    ultimately show ?thesis
      using node' unfolding pt_map_def True by (simp add: Let_def)
  next
    case False
    show ?thesis
    proof (cases "pt_node m pt ?v")
      case None
      then show ?thesis using node' False unfolding pt_map_def by (simp del: pt_node.simps)
    next
      case (Some u)
      have "?v \<noteq> q" using qi by (auto simp: path_snoc)
      then have "u \<noteq> t" using pt_inv_inj [OF inv path_idx(2) _ Some, of q] path_prefix [OF qi] t by auto
      moreover have "kpage u" "u \<noteq> p"
        using pt_inv_kpage [OF inv path_idx(2) Some] pt_inv_not_free [OF inv path_idx(2) Some] p by auto
      ultimately have "read64 m' (pte_at u (PTE_IDX va)) = read64 m (pte_at u (PTE_IDX va))"
        using link_entry [OF l _ idx_less(2)] by auto
      then show ?thesis using node' False Some unfolding pt_map_def by (simp del: pt_node.simps)
    qed
  qed
qed

text \<open>Writing a leaf entry changes the mapping of its page and nothing else of the tree.\<close>

definition leaf_step :: "memory \<Rightarrow> u64 \<Rightarrow> u64 set \<Rightarrow> u64 \<Rightarrow> u64 \<Rightarrow> u64 \<Rightarrow> memory \<Rightarrow> bool" where
  "leaf_step m pt F va t v m' \<longleftrightarrow>
     pt_inv m pt F \<and> pt_node m pt [PGD_IDX va, PMD_IDX va] = Some t \<and>
     m' = write64 m (pte_at t (PTE_IDX va)) v"

definition same_vpn :: "u64 \<Rightarrow> u64 \<Rightarrow> bool" where
  "same_vpn a b \<longleftrightarrow> PGD_IDX a = PGD_IDX b \<and> PMD_IDX a = PMD_IDX b \<and> PTE_IDX a = PTE_IDX b"

lemma leaf_node:
  assumes l: "leaf_step m pt F va t v m'" and "pt_path q"
  shows "pt_node m' pt q = pt_node m pt q"
  using assms(2)
proof (induction q rule: rev_induct)
  case Nil
  then show ?case by simp
next
  case (snoc j q)
  have j: "pt_path q" "j < 512" "length q < 2" using snoc.prems by (auto simp: path_snoc pt_path_def)
  have inv: "pt_inv m pt F" and t: "pt_node m pt [PGD_IDX va, PMD_IDX va] = Some t"
      and m': "m' = write64 m (pte_at t (PTE_IDX va)) v"
    using l unfolding leaf_step_def by blast+
  show ?case
  proof (cases "pt_node m pt q")
    case None
    then show ?thesis using snoc.IH [OF j(1)] by (simp add: node_snoc)
  next
    case (Some u)
    have "u \<noteq> t" using pt_inv_inj [OF inv j(1) path_idx(2) _ t] Some j(3) by force
    then have "read64 m' (pte_at u j) = read64 m (pte_at u j)"
      using pt_inv_kpage [OF inv j(1) Some] pt_inv_kpage [OF inv path_idx(2) t] j(2) idx_less
      by (simp add: m' read_write_entry)
    then show ?thesis using snoc.IH [OF j(1)] Some by (simp add: node_snoc)
  qed
qed

lemma leaf_inv: "leaf_step m pt F va t v m' \<Longrightarrow> pt_inv m' pt F"
proof -
  assume l: "leaf_step m pt F va t v m'"
  then have inv: "pt_inv m pt F" by (simp add: leaf_step_def)
  show ?thesis
    unfolding pt_inv_def
  proof (intro conjI allI impI ballI)
    show "kpage x" if "x \<in> F" for x using that inv by (auto simp: pt_inv_def)
    show "kpage x" "x \<notin> F" if "pt_path q" "pt_node m' pt q = Some x" for q x
      using that leaf_node [OF l that(1)] pt_inv_kpage [OF inv that(1)] pt_inv_not_free [OF inv that(1)]
      by auto
    show "q1 = q2" if "pt_path q1" "pt_path q2" "pt_node m' pt q1 = Some x" "pt_node m' pt q2 = Some x" for q1 q2 x
      using that leaf_node [OF l that(1)] leaf_node [OF l that(2)] pt_inv_inj [OF inv that(1,2)] by auto
  qed
qed

lemma leaf_map:
  assumes l: "leaf_step m pt F va t v m'"
  shows "pt_map m' pt = (\<lambda>a. if same_vpn a va then (if pte_valid v then Some v else None) else pt_map m pt a)"
proof
  fix a
  have inv: "pt_inv m pt F" and t: "pt_node m pt [PGD_IDX va, PMD_IDX va] = Some t"
      and m': "m' = write64 m (pte_at t (PTE_IDX va)) v"
    using l unfolding leaf_step_def by blast+
  let ?a = "[PGD_IDX a, PMD_IDX a]"
  have node': "pt_node m' pt ?a = pt_node m pt ?a" using leaf_node [OF l path_idx(2)] .
  show "pt_map m' pt a = (if same_vpn a va then (if pte_valid v then Some v else None) else pt_map m pt a)"
  proof (cases "pt_node m pt ?a")
    case None
    then have "\<not> same_vpn a va" using t by (auto simp: same_vpn_def simp del: pt_node.simps)
    then show ?thesis using node' None unfolding pt_map_def by (simp del: pt_node.simps)
  next
    case (Some u)
    have "u = t \<longleftrightarrow> PGD_IDX a = PGD_IDX va \<and> PMD_IDX a = PMD_IDX va"
      using pt_inv_inj [OF inv path_idx(2) path_idx(2), of a u va] Some t by (auto simp del: pt_node.simps)
    moreover have "read64 m' (pte_at u (PTE_IDX a)) =
        (if u = t \<and> PTE_IDX a = PTE_IDX va then v else read64 m (pte_at u (PTE_IDX a)))"
      using pt_inv_kpage [OF inv path_idx(2) Some] pt_inv_kpage [OF inv path_idx(2) t] idx_less
      by (auto simp: m' read_write_entry)
    ultimately show ?thesis
      using node' Some unfolding pt_map_def same_vpn_def by (auto simp: Let_def simp del: pt_node.simps)
  qed
qed

section \<open>Walks that allocate\<close>

definition vm_ok :: "'z kmem_scheme \<Rightarrow> u64 \<Rightarrow> u64 list \<Rightarrow> bool" where
  "vm_ok s pt F \<longleftrightarrow> kmem_ready s \<and> kmem_pages s F \<and> pt_inv (mem s) pt (set F)"

lemma kmem_ready_mem [simp]: "kmem_ready (s\<lparr>mem := m\<rparr>) = kmem_ready s"
    "kmem_ready (s\<lparr>freelist := f\<rparr>) = kmem_ready s"
  by (simp_all add: kmem_ready_def)

lemma kmem_pages_write:
  assumes "kmem_pages s ps" "page_aligned t" "t \<notin> set ps" "i < 512"
  shows "kmem_pages (s\<lparr>mem := write64 (mem s) (pte_at t i) v\<rparr>) ps"
proof -
  have "same_page a (mem s) (write64 (mem s) (pte_at t i) v)" if "a \<in> set ps" for a
    unfolding same_page_def
  proof (intro allI impI)
    fix x
    assume "PGROUNDDOWN x = a"
    with that assms(3) have "PGROUNDDOWN x \<noteq> t" by blast
    with assms show "write64 (mem s) (pte_at t i) v x = mem s x"
      by (intro write_entry_other_page)
  qed
  then have "free_chain (write64 (mem s) (pte_at t i) v) (freelist s) ps"
    using assms(1) unfolding kmem_pages_def by (blast intro: free_chain_frame)
  with assms(1) show ?thesis by (simp add: kmem_pages_def)
qed

text \<open>What one step of a walk keeps: the nodes there were, the mapping, and the other pages.\<close>

definition pt_grows :: "'z kmem_scheme \<Rightarrow> u64 \<Rightarrow> u64 list \<Rightarrow> 'z kmem_scheme \<Rightarrow> u64 list \<Rightarrow> bool" where
  "pt_grows s pt F u F' \<longleftrightarrow>
     vm_ok u pt F' \<and> set F' \<subseteq> set F \<and> pt_map (mem u) pt = pt_map (mem s) pt \<and>
     (\<forall>q p. pt_path q \<longrightarrow> pt_node (mem s) pt q = Some p \<longrightarrow> pt_node (mem u) pt q = Some p) \<and>
     (\<forall>q p. pt_path q \<longrightarrow> pt_node (mem u) pt q = Some p \<longrightarrow> pt_node (mem s) pt q = Some p \<or> p \<in> set F) \<and>
     (\<forall>x. PGROUNDDOWN x \<notin> set F \<longrightarrow> (\<forall>q. pt_path q \<longrightarrow> pt_node (mem s) pt q \<noteq> Some (PGROUNDDOWN x)) \<longrightarrow>
        mem u x = mem s x)"

lemma grows_refl: "vm_ok s pt F \<Longrightarrow> pt_grows s pt F s F"
  by (simp add: pt_grows_def)

lemma clear_cleared:
  assumes "page_aligned p"
  shows "memset (\<lambda>x. if PGROUNDDOWN x = p then 0 else m x) p 0 4096 =
    (\<lambda>x. if PGROUNDDOWN x = p then 0 else m x)"
  using assms by (auto simp: memset_page fun_eq_iff)

lemma walk_next_alloc:
  assumes ok: "vm_ok s pt F" and qi: "pt_path (q @ [i])" and t: "pt_node (mem s) pt q = Some t"
  shows "\<exists>r u F'. walk_next c (pte_at t i) True s = Ok r u \<and> pt_grows s pt F u F' \<and>
    length F \<le> Suc (length F') \<and>
    (case r of None \<Rightarrow> F = [] | Some p \<Rightarrow> pt_node (mem u) pt (q @ [i]) = Some p)"
proof (cases "pte_valid (read64 (mem s) (pte_at t i))")
  case True
  then show ?thesis
    using t grows_refl [OF ok] by (auto simp: walk_next_def pte_valid_def node_snoc Let_def)
next
  case empty: False
  show ?thesis
  proof (cases F)
    case Nil
    then have "kalloc s = Ok 0 s" using ok by (auto simp: vm_ok_def intro: kmem.alloc_Nil)
    with empty Nil show ?thesis
      using grows_refl [OF ok] by (auto simp: walk_next_def pte_valid_def)
  next
    case (Cons p ps)
    have ready: "kmem_ready s" and pages: "kmem_pages s (p # ps)" and inv: "pt_inv (mem s) pt (set F)"
      using ok Cons by (auto simp: vm_ok_def)
    obtain u where u: "kalloc s = Ok p u" "kmem_ready u" "kmem_pages u ps"
        "mem u = (\<lambda>x. if PGROUNDDOWN x = p then 0 else mem s x)"
      using kmem.alloc_Cons [OF ready pages] by blast
    let ?w = "u\<lparr>mem := write64 (mem u) (pte_at t i) (V2P p OR ENTRY_TABLE OR ENTRY_VALID)\<rparr>"
    have l: "link_step (mem s) pt (set F) q i t p (mem ?w)"
      using inv qi t empty Cons u(4) by (simp add: link_step_def)
    have pp: "p \<noteq> 0" "page_aligned p" "distinct (p # ps)"
      using kmem.pages_sound [OF pages] by auto
    have t': "kpage t" "t \<notin> set F" "i < 512"
      using pt_inv_kpage [OF inv _ t] pt_inv_not_free [OF inv _ t] path_prefix [OF qi] by auto
    have "walk_next c (pte_at t i) True s = Ok (Some p) ?w"
      using empty u(1,4) pp by (simp add: walk_next_def pte_valid_def clear_cleared)
    moreover have "pt_grows s pt F ?w ps"
      unfolding pt_grows_def
    proof (intro conjI allI impI)
      have "set F - {p} = set ps" using Cons pp by auto
      then show "vm_ok ?w pt ps"
        using link_inv [OF l] u(2,3) t' Cons by (simp add: vm_ok_def kmem_pages_write)
      show "pt_map (mem ?w) pt = pt_map (mem s) pt" using link_map [OF l] by blast
      show "set ps \<subseteq> set F" using Cons by auto
      show "pt_node (mem ?w) pt q' = Some x" if "pt_path q'" "pt_node (mem s) pt q' = Some x" for q' x
      proof -
        have "pt_node (mem s) pt (q @ [i]) = None" using t empty by (simp add: node_snoc Let_def)
        with that link_node [OF l that(1)] show ?thesis by auto
      qed
      show "pt_node (mem s) pt q' = Some x \<or> x \<in> set F" if "pt_path q'" "pt_node (mem ?w) pt q' = Some x" for q' x
        using that link_node [OF l that(1)] Cons by (auto split: if_splits)
      show "mem ?w x = mem s x"
        if "PGROUNDDOWN x \<notin> set F" "\<forall>q. pt_path q \<longrightarrow> pt_node (mem s) pt q \<noteq> Some (PGROUNDDOWN x)" for x
      proof -
        have "PGROUNDDOWN x \<noteq> t" using that(2) t path_prefix [OF qi] by auto
        then show ?thesis using that(1) t' u(4) Cons by (simp add: write_entry_other_page)
      qed
    qed
    moreover have "pt_node (mem ?w) pt (q @ [i]) = Some p" using link_node [OF l qi] by simp
    ultimately show ?thesis
      using Cons by (intro exI [of _ "Some p"] exI [of _ ?w] exI [of _ ps]) simp
  qed
qed


lemma grows_trans:
  assumes a: "pt_grows s pt F u F'" and b: "pt_grows u pt F' w F''"
  shows "pt_grows s pt F w F''"
  unfolding pt_grows_def
proof (intro conjI allI impI)
  show "vm_ok w pt F''" "set F'' \<subseteq> set F" "pt_map (mem w) pt = pt_map (mem s) pt"
    using a b by (auto simp: pt_grows_def)
  show "pt_node (mem w) pt q = Some p" if "pt_path q" "pt_node (mem s) pt q = Some p" for q p
    using a b that by (auto simp: pt_grows_def)
  show "pt_node (mem s) pt q = Some p \<or> p \<in> set F" if "pt_path q" "pt_node (mem w) pt q = Some p" for q p
    using a b that unfolding pt_grows_def by blast
  show "mem w x = mem s x"
    if x: "PGROUNDDOWN x \<notin> set F" "\<forall>q. pt_path q \<longrightarrow> pt_node (mem s) pt q \<noteq> Some (PGROUNDDOWN x)" for x
  proof -
    have "PGROUNDDOWN x \<notin> set F'" "\<forall>q. pt_path q \<longrightarrow> pt_node (mem u) pt q \<noteq> Some (PGROUNDDOWN x)"
      using a x unfolding pt_grows_def by blast+
    then have "mem w x = mem u x" using b unfolding pt_grows_def by blast
    also have "mem u x = mem s x" using a x unfolding pt_grows_def by blast
    finally show ?thesis .
  qed
qed

lemma walk_alloc:
  assumes ok: "vm_ok s pt F"
  shows "\<exists>pte u F'. walk pt va True s = Ok pte u \<and> pt_grows s pt F u F' \<and>
    (pte = 0 \<and> length F < 2 \<or>
     (\<exists>t. pt_node (mem u) pt [PGD_IDX va, PMD_IDX va] = Some t \<and> pte = pte_at t (PTE_IDX va)))"
proof -
  obtain r u F1 where 1: "walk_next False (pte_at pt (PGD_IDX va)) True s = Ok r u" "pt_grows s pt F u F1"
      "length F \<le> Suc (length F1)" "case r of None \<Rightarrow> F = [] | Some p \<Rightarrow> pt_node (mem u) pt [PGD_IDX va] = Some p"
    using walk_next_alloc [OF ok _ pt_node.simps(1), of "PGD_IDX va" False, unfolded append_Nil] path_idx(1)
    by blast
  show ?thesis
  proof (cases r)
    case None
    with 1 show ?thesis by (auto simp: walk_def)
  next
    case (Some q)
    then have q: "pt_node (mem u) pt [PGD_IDX va] = Some q" using 1 by simp
    have u: "vm_ok u pt F1" using 1(2) by (simp add: pt_grows_def)
    obtain r2 w F2 where 2: "walk_next True (pte_at q (PMD_IDX va)) True u = Ok r2 w" "pt_grows u pt F1 w F2"
        "case r2 of None \<Rightarrow> F1 = [] | Some p \<Rightarrow> pt_node (mem w) pt [PGD_IDX va, PMD_IDX va] = Some p"
      using walk_next_alloc [OF u _ q, of "PMD_IDX va" True, unfolded append_Nil append_Cons] path_idx(2)
      by blast
    have g: "pt_grows s pt F w F2" using grows_trans [OF 1(2) 2(2)] .
    show ?thesis
    proof (cases r2)
      case None
      with 1 2 g \<open>r = Some q\<close> show ?thesis by (auto simp: walk_def)
    next
      case (Some t)
      with 1 2 g \<open>r = Some q\<close> show ?thesis by (auto simp: walk_def simp del: pt_node.simps)
    qed
  qed
qed

text \<open>Mapping one page.\<close>

lemma page_fuel_nonzero [simp]: "page_fuel \<noteq> 0"
  by (simp add: page_fuel_def)

lemma page_last:
  assumes "page_aligned va"
  shows "PGROUNDDOWN (va + PGSIZE - 1) = va"
  using page_offset [OF assms, of 4095] by (simp add: PGSIZE_def algebra_simps)

lemma kmem_pages_not_free:
  "vm_ok s pt F \<Longrightarrow> pt_path q \<Longrightarrow> pt_node (mem s) pt q = Some t \<Longrightarrow> kpage t \<and> t \<notin> set F"
  by (auto simp: vm_ok_def dest: pt_inv_kpage pt_inv_not_free)

text \<open>Storing a leaf entry of a well-formed page table.\<close>

lemma store_leaf:
  assumes ok: "vm_ok s pt F" and t: "pt_node (mem s) pt [PGD_IDX va, PMD_IDX va] = Some t"
  shows "vm_ok (s\<lparr>mem := write64 (mem s) (pte_at t (PTE_IDX va)) v\<rparr>) pt F"
    "pt_map (write64 (mem s) (pte_at t (PTE_IDX va)) v) pt =
      (\<lambda>a. if same_vpn a va then (if pte_valid v then Some v else None) else pt_map (mem s) pt a)"
proof -
  let ?m = "write64 (mem s) (pte_at t (PTE_IDX va)) v"
  have l: "leaf_step (mem s) pt (set F) va t v ?m"
    using ok t unfolding leaf_step_def vm_ok_def by blast
  show "pt_map ?m pt =
      (\<lambda>a. if same_vpn a va then (if pte_valid v then Some v else None) else pt_map (mem s) pt a)"
    by (rule leaf_map [OF l])
  have "kmem_pages (s\<lparr>mem := ?m\<rparr>) F"
    using kmem_pages_not_free [OF ok path_idx(2) t] ok idx_less
    by (intro kmem_pages_write) (auto simp: vm_ok_def)
  then show "vm_ok (s\<lparr>mem := ?m\<rparr>) pt F"
    using ok leaf_inv [OF l] by (simp add: vm_ok_def)
qed

lemma pte_address_nonzero:
  "vm_ok s pt F \<Longrightarrow> pt_node (mem s) pt [PGD_IDX va, PMD_IDX va] = Some t \<Longrightarrow> pte_at t (PTE_IDX va) \<noteq> 0"
  using kmem_pages_not_free [OF _ path_idx(2), of s pt F va t] idx_less(2) [of va] pte_at_nonzero by blast

lemma mappages_page:
  assumes ok: "vm_ok s pt F" and "page_aligned va" and free: "pt_map (mem s) pt va = None"
  shows "\<exists>r u F'. mappages pt va PGSIZE pa AP s = Ok r u \<and> vm_ok u pt F' \<and> set F' \<subseteq> set F \<and>
    (r = - 1 \<and> length F < 2 \<and> pt_map (mem u) pt = pt_map (mem s) pt \<or>
     r = 0 \<and> pt_map (mem u) pt =
       (\<lambda>a. if same_vpn a va then Some (leaf_entry pa AP) else pt_map (mem s) pt a))"
proof -
  from walk_alloc [OF ok, of va] obtain pte u F' where
    w: "walk pt va True s = Ok pte u" and g: "pt_grows s pt F u F'" and
    r: "pte = 0 \<and> length F < 2 \<or>
      (\<exists>t. pt_node (mem u) pt [PGD_IDX va, PMD_IDX va] = Some t \<and> pte = pte_at t (PTE_IDX va))"
    by blast
  have u: "vm_ok u pt F'" "set F' \<subseteq> set F" "pt_map (mem u) pt = pt_map (mem s) pt"
    using g by (simp_all add: pt_grows_def)
  have start: "mappages pt va PGSIZE pa AP s = mappages_loop page_fuel pt va va pa AP s"
    using assms(2) by (simp add: mappages_def page_last)
  from r show ?thesis
  proof
    assume "pte = 0 \<and> length F < 2"
    with w u show ?thesis
      by (intro exI [of _ "- 1"] exI [of _ u] exI [of _ F'])
         (simp add: start mappages_loop.simps [of page_fuel])
  next
    assume "\<exists>t. pt_node (mem u) pt [PGD_IDX va, PMD_IDX va] = Some t \<and> pte = pte_at t (PTE_IDX va)"
    then obtain t where t: "pt_node (mem u) pt [PGD_IDX va, PMD_IDX va] = Some t"
        "pte = pte_at t (PTE_IDX va)" by blast
    let ?w = "u\<lparr>mem := write64 (mem u) pte (leaf_entry pa AP)\<rparr>"
    have "pt_map (mem u) pt va = None" using free u(3) by simp
    then have "\<not> pte_valid (read64 (mem u) pte)"
      using t unfolding pt_map_def by (simp add: Let_def del: pt_node.simps split: if_splits)
    then have "mappages pt va PGSIZE pa AP s = Ok 0 ?w"
      using w t pte_address_nonzero [OF u(1) t(1)]
      by (simp add: start mappages_loop.simps [of page_fuel] pte_valid_def)
    moreover have "vm_ok ?w pt F'" using store_leaf [OF u(1) t(1)] t(2) by blast
    moreover have "pt_map (mem ?w) pt =
       (\<lambda>a. if same_vpn a va then Some (leaf_entry pa AP) else pt_map (mem s) pt a)"
      using store_leaf(2) [OF u(1) t(1), of "leaf_entry pa AP"]
      unfolding u(3) t(2) by (simp add: leaf_entry_valid)
    ultimately show ?thesis
      using u(2) by (intro exI [of _ 0] exI [of _ ?w] exI [of _ F']) blast
  qed
qed


section \<open>Properties\<close>

text \<open>
  C16: On a well-formed page table, \<open>mappages\<close> of one unmapped page returns 0 or, only when fewer
  than two pages are free, -1, and the table stays well-formed. After it \<open>walkaddr\<close> finds exactly
  the new physical page at the mapped page, and at every other address what it found before.
\<close>

theorem mappages_walkaddr:
  assumes "vm_ok s pt F" and "page_aligned va" and "pt_map (mem s) pt va = None"
    and "page_aligned pa" and "pa < 2 ^ 48" and "ap_ok AP"
  shows "\<exists>r t F'. mappages pt va PGSIZE pa AP s = Ok r t \<and> vm_ok t pt F' \<and>
    (r = 0 \<or> r = - 1 \<and> length F < 2) \<and>
    (\<forall>a. walkaddr pt a t =
       (if r = 0 \<and> same_vpn a va then Ok pa t
        else case walkaddr pt a s of Ok x _ \<Rightarrow> Ok x t | Stop e _ \<Rightarrow> Stop e t))"
proof -
  obtain r t F' where t: "mappages pt va PGSIZE pa AP s = Ok r t" "vm_ok t pt F'"
    "r = - 1 \<and> length F < 2 \<and> pt_map (mem t) pt = pt_map (mem s) pt \<or>
     r = 0 \<and> pt_map (mem t) pt =
       (\<lambda>a. if same_vpn a va then Some (leaf_entry pa AP) else pt_map (mem s) pt a)"
    using mappages_page [OF assms(1-3), of pa AP] by blast
  have inv: "pt_inv (mem s) pt (set F)" "pt_inv (mem t) pt (set F')"
    using assms(1) t(2) by (simp_all add: vm_ok_def)
  show ?thesis
    using t leaf_entry_addr [OF assms(4-6)]
    by (intro exI [of _ r] exI [of _ t] exI [of _ F'])
       (auto simp: walkaddr_lookup [OF inv(1)] walkaddr_lookup [OF inv(2)] split: if_splits)
qed

text \<open>A state with an empty page table and two free pages.\<close>

definition vm_example :: kmem where
  "vm_example = \<lparr>hw = idle_mach,
     mem = write64 (\<lambda>_. 0) (pte_at 0xFFFFFFFF40003000 0) 0xFFFFFFFF40004000,
     freelist = 0xFFFFFFFF40003000\<rparr>"

lemma vm_example_entry:
  assumes "page_aligned p" "i < 512"
  shows "read64 (mem vm_example) (pte_at p i) =
    (if p = 0xFFFFFFFF40003000 \<and> i = 0 then 0xFFFFFFFF40004000 else 0)"
proof -
  have "page_aligned 0xFFFFFFFF40003000" by (simp add: page_aligned_def PGSIZE_def)
  with assms show ?thesis by (auto simp: vm_example_def read_write_entry read64_zero)
qed

lemma vm_example_ok: "vm_ok vm_example 0xFFFFFFFF40005000 [0xFFFFFFFF40003000, 0xFFFFFFFF40004000]"
proof -
  have al: "page_aligned 0xFFFFFFFF40003000" "page_aligned 0xFFFFFFFF40004000" "page_aligned 0xFFFFFFFF40005000"
    by (simp_all add: page_aligned_def PGSIZE_def)
  have e: "read64 (mem vm_example) 0xFFFFFFFF40003000 = 0xFFFFFFFF40004000"
      "read64 (mem vm_example) 0xFFFFFFFF40004000 = 0"
    using vm_example_entry [OF al(1), of 0] vm_example_entry [OF al(2), of 0] by (simp_all add: pte_at_def)
  have n: "pt_node (mem vm_example) 0xFFFFFFFF40005000 q = (if q = [] then Some 0xFFFFFFFF40005000 else None)"
    if "pt_path q" for q
    using that vm_example_entry [OF al(3)] by (cases q) (auto simp: pt_path_def Let_def)
  have k: "kpage 0xFFFFFFFF40003000" "kpage 0xFFFFFFFF40004000" "kpage 0xFFFFFFFF40005000"
    using al by (simp_all add: kpage_def KERNBASE_def)
  have ne: "(0xFFFFFFFF40005000 :: u64) \<noteq> 0xFFFFFFFF40003000" "(0xFFFFFFFF40005000 :: u64) \<noteq> 0xFFFFFFFF40004000"
    by simp_all
  have "pt_inv (mem vm_example) 0xFFFFFFFF40005000 {0xFFFFFFFF40003000, 0xFFFFFFFF40004000}"
    unfolding pt_inv_def
  proof (intro conjI allI impI)
    show "\<forall>p \<in> {0xFFFFFFFF40003000, 0xFFFFFFFF40004000}. kpage p" using k by blast
    show "kpage p" "p \<notin> {0xFFFFFFFF40003000, 0xFFFFFFFF40004000}"
      if "pt_path q" "pt_node (mem vm_example) 0xFFFFFFFF40005000 q = Some p" for q p
    proof -
      have "p = 0xFFFFFFFF40005000" using that n by (metis option.distinct(1) option.inject)
      then show "kpage p" "p \<notin> {0xFFFFFFFF40003000, 0xFFFFFFFF40004000}"
        using k(3) ne by (simp_all only: insert_iff empty_iff simp_thms)
    qed
    show "q = q'" if "pt_path q" "pt_path q'" "pt_node (mem vm_example) 0xFFFFFFFF40005000 q = Some p"
        "pt_node (mem vm_example) 0xFFFFFFFF40005000 q' = Some p" for q q' p
      using that n by (metis option.distinct(1))
  qed
  moreover have "kmem_ready vm_example" by (simp add: vm_example_def kmem_ready_def)
  moreover have "freelist vm_example = 0xFFFFFFFF40003000" by (simp add: vm_example_def)
  ultimately show ?thesis using al e by (simp add: vm_ok_def kmem_pages_def)
qed

theorem mappages_walkaddr_witness:
  "\<exists>r t F'. mappages 0xFFFFFFFF40005000 0x7000 PGSIZE 0x40100000 AP_1 vm_example = Ok r t \<and>
     vm_ok t 0xFFFFFFFF40005000 F' \<and> r = 0 \<and> walkaddr 0xFFFFFFFF40005000 0x7123 t = Ok 0x40100000 t"
proof -
  have al: "page_aligned 0x7000" "page_aligned 0x40100000" "page_aligned 0xFFFFFFFF40005000"
    by (simp_all add: page_aligned_def PGSIZE_def)
  have "pt_map (mem vm_example) 0xFFFFFFFF40005000 0x7000 = None"
    using vm_example_entry [OF al(3) PGD_IDX_less_512] by (simp add: pt_map_def Let_def)
  from mappages_walkaddr [OF vm_example_ok al(1) this al(2), of AP_1]
  obtain r t F' where t: "mappages 0xFFFFFFFF40005000 0x7000 PGSIZE 0x40100000 AP_1 vm_example = Ok r t"
    "vm_ok t 0xFFFFFFFF40005000 F'" "r = 0"
    "\<forall>a. walkaddr 0xFFFFFFFF40005000 a t =
       (if r = 0 \<and> same_vpn a 0x7000 then Ok 0x40100000 t
        else case walkaddr 0xFFFFFFFF40005000 a vm_example of Ok x _ \<Rightarrow> Ok x t | Stop e _ \<Rightarrow> Stop e t)"
    by (auto simp: ap_ok_def AP_1_def AP_MASK_def)
  moreover have "same_vpn 0x7123 0x7000"
    by (simp add: same_vpn_def PGD_IDX_def PMD_IDX_def PTE_IDX_def)
  ultimately show ?thesis by auto
qed

end
