(* ===== verification/Sched.thy ===== *)
theory Sched
  imports Vm
begin

text \<open>
  Processes and the scheduler: the part of \<open>src/kernel/proc.c\<close> that does not reach the file
  system, \<open>src/kernel/proc.h\<close>, and \<open>uvmswitch\<close> of \<open>src/kernel/vm.c\<close>. A process is named by its
  index in the table \<open>procs\<close>. Its trap frame and its saved context are words of its kernel stack
  in memory.

  A thread gives up its CPU in \<open>swtch\<close>. The model cuts the code there: \<open>sched\<close> and the routines
  that call it stop with \<open>Switched\<close>, and what they do when the scheduler comes back to them is a
  definition of its own (\<open>sleep_finish\<close>, \<open>yield_finish\<close>). In the same way the scheduler is cut
  into \<open>scheduler_from\<close>, which ends with the switch to a process, and \<open>scheduler_back\<close>.
\<close>

section \<open>State\<close>

datatype procstate = UNUSED | SLEEPING | RUNNABLE | RUNNING | ZOMBIE

record proc =
  p_state :: procstate
  p_parent :: "nat option"
  p_chan :: "chan option"
  p_killed :: int
  p_xstate :: int
  p_pid :: int
  p_kstack :: u64
  p_sz :: u64
  p_pagetable :: u64
  p_trapframe :: u64
  p_context :: u64
  p_ofile :: "nat \<Rightarrow> nat option"
  p_cwd :: "nat option"
  p_name :: view

record ktable = kmem +
  procs :: "nat \<Rightarrow> proc"
  initproc :: "nat option"
  nextpid :: int
  fork_first :: bool

definition upd_proc :: "nat \<Rightarrow> (proc \<Rightarrow> proc) \<Rightarrow> 'z ktable_scheme \<Rightarrow> 'z ktable_scheme" where
  "upd_proc i f s = s\<lparr>procs := (procs s)(i := f (procs s i))\<rparr>"

definition modify_proc :: "nat \<Rightarrow> (proc \<Rightarrow> proc) \<Rightarrow> 'z ktable_scheme \<Rightarrow> ('z ktable_scheme, unit) res" where
  "modify_proc i f = modify (upd_proc i f)"

definition get_proc :: "nat \<Rightarrow> 'z ktable_scheme \<Rightarrow> ('z ktable_scheme, proc) res" where
  "get_proc i = gets (\<lambda>s. procs s i)"

abbreviation all_procs :: "nat list" where
  "all_procs \<equiv> [0..<NPROC]"

text \<open>A pointer that the code follows without a check.\<close>

definition deref :: "string \<Rightarrow> 'a option \<Rightarrow> 's \<Rightarrow> ('s, 'a) res" where
  "deref what p = (case p of None \<Rightarrow> undef what | Some x \<Rightarrow> return x)"

section \<open>Trap frames\<close>

text \<open>\<open>struct trapframe\<close>: x0 to x30, then sp, elr and spsr, each eight bytes.\<close>

definition TF_SP :: nat where "TF_SP = 31"
definition TF_ELR :: nat where "TF_ELR = 32"
definition TF_SPSR :: nat where "TF_SPSR = 33"
definition TRAPFRAME_SIZE :: u64 where "TRAPFRAME_SIZE = 272"

text \<open>\<open>struct context\<close>: x4 to x29, then the link register.\<close>

definition CONTEXT_SIZE :: u64 where "CONTEXT_SIZE = 216"
definition CTX_LR :: nat where "CTX_LR = 26"

definition tf_get :: "nat \<Rightarrow> nat \<Rightarrow> 'z ktable_scheme \<Rightarrow> ('z ktable_scheme, u64) res" where
  "tf_get p r = gets (\<lambda>s. read64 (mem s) (p_trapframe (procs s p) + 8 * of_nat r))"

definition tf_set :: "nat \<Rightarrow> nat \<Rightarrow> u64 \<Rightarrow> 'z ktable_scheme \<Rightarrow> ('z ktable_scheme, unit) res" where
  "tf_set p r v =
     modify (\<lambda>s. s\<lparr>mem := write64 (mem s) (p_trapframe (procs s p) + 8 * of_nat r) v\<rparr>)"

section \<open>The running process\<close>

definition myproc :: "'z ktable_scheme \<Rightarrow> ('z ktable_scheme, nat option) res" where
  "myproc =
     seq (on_hw push_off) (
     bind (gets (\<lambda>s. cpu_proc (mycpu (hw s)))) (\<lambda>p.
     seq (on_hw pop_off) (return p)))"

definition curproc :: "'z ktable_scheme \<Rightarrow> ('z ktable_scheme, nat) res" where
  "curproc = bind myproc (deref ''myproc'')"

definition set_cpu_proc :: "nat option \<Rightarrow> 'z ktable_scheme \<Rightarrow> ('z ktable_scheme, unit) res" where
  "set_cpu_proc p = on_hw (modify (upd_mycpu (\<lambda>c. c\<lparr>cpu_proc := p\<rparr>)))"

definition uvmswitch :: "nat \<Rightarrow> 'z ktable_scheme \<Rightarrow> ('z ktable_scheme, unit) res" where
  "uvmswitch p =
     seq (on_hw push_off) (
     bind (get_proc p) (\<lambda>pr.
     if p_pagetable pr = 0 then panic ''uvmswitch: no pagetable'' else
     seq (on_hw (modify (\<lambda>h. h\<lparr>ttbr0 := (ttbr0 h)(cpuid h := V2P (p_pagetable pr))\<rparr>)))
         (on_hw pop_off)))"

section \<open>Allocation\<close>

definition allocpid :: "'z ktable_scheme \<Rightarrow> ('z ktable_scheme, int) res" where
  "allocpid =
     seq (lock PidLock) (
     bind (gets nextpid) (\<lambda>pid.
     if pid = 2 ^ 31 - 1 then undef ''nextpid overflow'' else
     seq (modify (\<lambda>s. s\<lparr>nextpid := pid + 1\<rparr>)) (
     seq (unlock PidLock) (return pid))))"

definition procinit :: "'z ktable_scheme \<Rightarrow> ('z ktable_scheme, unit) res" where
  "procinit =
     seq (on_hw (initlock PidLock ''nextpid''))
         (for_each all_procs (\<lambda>p.
            seq (on_hw (initlock (ProcLock p) ''proc''))
                (bind kalloc (\<lambda>k. modify_proc p (\<lambda>pr. pr\<lparr>p_kstack := k\<rparr>)))))"

definition proc_pagetable :: "nat \<Rightarrow> 'z ktable_scheme \<Rightarrow> ('z ktable_scheme, u64) res" where
  "proc_pagetable p = bind uvmcreate (\<lambda>pagetable. if pagetable = 0 then return 0 else return pagetable)"

definition proc_freepagetable :: "u64 \<Rightarrow> u64 \<Rightarrow> 'z ktable_scheme \<Rightarrow> ('z ktable_scheme, unit) res" where
  "proc_freepagetable pagetable sz = uvmfree pagetable sz"

definition freeproc :: "nat \<Rightarrow> 'z ktable_scheme \<Rightarrow> ('z ktable_scheme, unit) res" where
  "freeproc p =
     seq (modify_proc p (\<lambda>pr. pr\<lparr>p_trapframe := 0\<rparr>)) (
     bind (get_proc p) (\<lambda>pr.
     seq (whenever (p_pagetable pr \<noteq> 0) (uvmfree (p_pagetable pr) (p_sz pr)))
         (modify_proc p (\<lambda>pr. pr\<lparr>p_pagetable := 0, p_sz := 0, p_pid := 0, p_parent := None,
            p_name := (p_name pr)(0 := 0), p_chan := None, p_killed := 0, p_xstate := 0,
            p_state := UNUSED\<rparr>))))"

text \<open>
  The search of \<open>allocproc\<close>, which keeps the lock of the process it finds, and what it does at the
  label \<open>found\<close>. The addresses of \<open>trapret\<close> and \<open>forkret\<close> are link-time constants.
\<close>

fun allocproc_find :: "nat list \<Rightarrow> 'z ktable_scheme \<Rightarrow> ('z ktable_scheme, nat option) res" where
  "allocproc_find [] = return None"
| "allocproc_find (p # ps) =
     seq (lock (ProcLock p)) (
     bind (get_proc p) (\<lambda>pr.
     if p_state pr = UNUSED then return (Some p)
     else seq (unlock (ProcLock p)) (allocproc_find ps)))"

definition allocproc_found ::
  "u64 \<Rightarrow> u64 \<Rightarrow> nat \<Rightarrow> 'z ktable_scheme \<Rightarrow> ('z ktable_scheme, nat option) res" where
  "allocproc_found trapret forkret p =
     bind allocpid (\<lambda>pid.
     seq (modify_proc p (\<lambda>pr. pr\<lparr>p_pid := pid\<rparr>)) (
     bind (get_proc p) (\<lambda>pr.
     let tf = p_kstack pr + of_nat KSTACKSIZE - TRAPFRAME_SIZE;
         ctx = tf - 8 - 8 - CONTEXT_SIZE in
     seq (modify_proc p (\<lambda>pr. pr\<lparr>p_trapframe := tf\<rparr>)) (
     seq (modify (\<lambda>s. s\<lparr>mem := memset (mem s) tf 0 (ucast TRAPFRAME_SIZE)\<rparr>)) (
     seq (store64 (tf - 8) trapret) (
     seq (store64 (tf - 16) (p_kstack pr + PGSIZE)) (
     seq (modify_proc p (\<lambda>pr. pr\<lparr>p_context := ctx\<rparr>)) (
     bind (proc_pagetable p) (\<lambda>pt.
     seq (modify_proc p (\<lambda>pr. pr\<lparr>p_pagetable := pt\<rparr>)) (
     if pt = 0 then seq (freeproc p) (seq (unlock (ProcLock p)) (return None)) else
     seq (modify (\<lambda>s. s\<lparr>mem := memset (mem s) ctx 0 (ucast CONTEXT_SIZE)\<rparr>)) (
     seq (store64 (ctx + 8 * of_nat CTX_LR) (forkret + 8))
         (return (Some p)))))))))))))"

definition allocproc :: "u64 \<Rightarrow> u64 \<Rightarrow> 'z ktable_scheme \<Rightarrow> ('z ktable_scheme, nat option) res" where
  "allocproc trapret forkret =
     bind (allocproc_find all_procs) (\<lambda>r.
     case r of None \<Rightarrow> return None | Some p \<Rightarrow> allocproc_found trapret forkret p)"

definition growproc :: "int \<Rightarrow> 'z ktable_scheme \<Rightarrow> ('z ktable_scheme, int) res" where
  "growproc n =
     bind curproc (\<lambda>p.
     bind (get_proc p) (\<lambda>pr.
     let sz = (ucast (p_sz pr) :: u32); finish = (\<lambda>sz' :: u32.
       seq (modify_proc p (\<lambda>pr. pr\<lparr>p_sz := ucast sz'\<rparr>)) (seq (uvmswitch p) (return 0))) in
     if n > 0 then
       bind (uvmalloc (p_pagetable pr) (ucast sz) (ucast (sz + word_of_int n))) (\<lambda>r.
       let sz' = (ucast r :: u32) in if sz' = 0 then return (- 1) else finish sz')
     else if n < 0 then
       bind (uvmdealloc (p_pagetable pr) (ucast sz) (ucast (sz + word_of_int n))) (\<lambda>r.
       finish (ucast r))
     else finish sz))"

section \<open>Switching\<close>

definition sched :: "'z ktable_scheme \<Rightarrow> ('z ktable_scheme, 'a) res" where
  "sched =
     bind curproc (\<lambda>p.
     bind (gets hw) (\<lambda>h.
     bind (get_proc p) (\<lambda>pr.
     if \<not> holding (ProcLock p) h then panic ''sched p->lock''
     else if noff (mycpu h) \<noteq> 1 then panic ''sched locks''
     else if p_state pr = RUNNING then panic ''sched running''
     else if intr_get h then panic ''sched interruptible''
     else stop Switched)))"

text \<open>\<open>sched\<close> after the switch back, with the local variable \<open>intena\<close> it saved.\<close>

definition sched_finish :: "bool \<Rightarrow> 'z ktable_scheme \<Rightarrow> ('z ktable_scheme, unit) res" where
  "sched_finish saved = on_hw (modify (upd_mycpu (\<lambda>c. c\<lparr>intena := saved\<rparr>)))"

definition yield :: "'z ktable_scheme \<Rightarrow> ('z ktable_scheme, unit) res" where
  "yield =
     bind curproc (\<lambda>p.
     seq (lock (ProcLock p)) (
     seq (modify_proc p (\<lambda>pr. pr\<lparr>p_state := RUNNABLE\<rparr>))
         sched))"

definition yield_finish :: "bool \<Rightarrow> nat \<Rightarrow> 'z ktable_scheme \<Rightarrow> ('z ktable_scheme, unit) res" where
  "yield_finish saved p = seq (sched_finish saved) (unlock (ProcLock p))"

definition sleep :: "chan \<Rightarrow> lockid \<Rightarrow> 'z ktable_scheme \<Rightarrow> ('z ktable_scheme, 'a) res" where
  "sleep ch lk =
     bind curproc (\<lambda>p.
     seq (whenever (lk \<noteq> ProcLock p) (seq (lock (ProcLock p)) (unlock lk))) (
     seq (modify_proc p (\<lambda>pr. pr\<lparr>p_chan := Some ch\<rparr>)) (
     seq (modify_proc p (\<lambda>pr. pr\<lparr>p_state := SLEEPING\<rparr>))
         sched)))"

definition sleep_finish :: "bool \<Rightarrow> nat \<Rightarrow> lockid \<Rightarrow> 'z ktable_scheme \<Rightarrow> ('z ktable_scheme, unit) res" where
  "sleep_finish saved p lk =
     seq (sched_finish saved) (
     seq (modify_proc p (\<lambda>pr. pr\<lparr>p_chan := None\<rparr>))
         (whenever (lk \<noteq> ProcLock p) (seq (unlock (ProcLock p)) (lock lk))))"

definition wakeup :: "chan \<Rightarrow> 'z ktable_scheme \<Rightarrow> ('z ktable_scheme, unit) res" where
  "wakeup ch =
     for_each all_procs (\<lambda>p.
       seq (lock (ProcLock p)) (
       bind (get_proc p) (\<lambda>pr.
       seq (whenever (p_state pr = SLEEPING \<and> p_chan pr = Some ch)
             (modify_proc p (\<lambda>pr. pr\<lparr>p_state := RUNNABLE\<rparr>)))
           (unlock (ProcLock p)))))"

definition wakeup1 :: "nat \<Rightarrow> 'z ktable_scheme \<Rightarrow> ('z ktable_scheme, unit) res" where
  "wakeup1 p =
     bind (gets (\<lambda>s. holding (ProcLock p) (hw s))) (\<lambda>h.
     if \<not> h then panic ''wakeup1'' else
     bind (get_proc p) (\<lambda>pr.
     whenever (p_chan pr = Some (ChanProc p) \<and> p_state pr = SLEEPING)
       (modify_proc p (\<lambda>pr. pr\<lparr>p_state := RUNNABLE\<rparr>))))"

text \<open>
  One pass of the scheduler's inner loop: it ends with the switch to the first process that is
  RUNNABLE, whose lock it holds, or at the end of the table.
\<close>

fun scheduler_from :: "nat list \<Rightarrow> 'z ktable_scheme \<Rightarrow> ('z ktable_scheme, nat option) res" where
  "scheduler_from [] = return None"
| "scheduler_from (p # ps) =
     seq (lock (ProcLock p)) (
     bind (get_proc p) (\<lambda>pr.
     if p_state pr = RUNNABLE then
       seq (modify_proc p (\<lambda>pr. pr\<lparr>p_state := RUNNING\<rparr>)) (
       seq (set_cpu_proc (Some p)) (
       seq (uvmswitch p) (return (Some p))))
     else seq (unlock (ProcLock p)) (scheduler_from ps)))"

definition scheduler_back :: "nat \<Rightarrow> 'z ktable_scheme \<Rightarrow> ('z ktable_scheme, unit) res" where
  "scheduler_back p = seq (set_cpu_proc None) (unlock (ProcLock p))"

text \<open>The scheduler from its start, or from the end of a pass, to its first switch.\<close>

definition scheduler_pass :: "'z ktable_scheme \<Rightarrow> ('z ktable_scheme, nat option) res" where
  "scheduler_pass = seq (on_hw sti) (scheduler_from all_procs)"

definition scheduler_start :: "'z ktable_scheme \<Rightarrow> ('z ktable_scheme, nat option) res" where
  "scheduler_start = seq (set_cpu_proc None) scheduler_pass"

fun kill_from :: "int \<Rightarrow> nat list \<Rightarrow> 'z ktable_scheme \<Rightarrow> ('z ktable_scheme, int) res" where
  "kill_from pid [] = return (- 1)"
| "kill_from pid (p # ps) =
     seq (lock (ProcLock p)) (
     bind (get_proc p) (\<lambda>pr.
     if p_pid pr = pid then
       seq (modify_proc p (\<lambda>pr. pr\<lparr>p_killed := 1\<rparr>)) (
       seq (whenever (p_state pr = SLEEPING) (modify_proc p (\<lambda>pr. pr\<lparr>p_state := RUNNABLE\<rparr>))) (
       seq (unlock (ProcLock p)) (return 0)))
     else seq (unlock (ProcLock p)) (kill_from pid ps)))"

definition kill :: "int \<Rightarrow> 'z ktable_scheme \<Rightarrow> ('z ktable_scheme, int) res" where
  "kill pid = kill_from pid all_procs"

section \<open>Copying to and from the running process\<close>

definition either_copyout ::
  "bool \<Rightarrow> u64 \<Rightarrow> byte list \<Rightarrow> u64 \<Rightarrow> 'z ktable_scheme \<Rightarrow> ('z ktable_scheme, int) res" where
  "either_copyout user_dst dst src len =
     bind myproc (\<lambda>p.
     if user_dst then
       bind (deref ''either_copyout'' p) (\<lambda>p.
       bind (get_proc p) (\<lambda>pr. copyout (p_pagetable pr) dst src len))
     else seq (modify (\<lambda>s. s\<lparr>mem := write_mem (mem s) dst (take (unat len) src)\<rparr>)) (return 0))"

definition either_copyin ::
  "bool \<Rightarrow> u64 \<Rightarrow> u64 \<Rightarrow> 'z ktable_scheme \<Rightarrow> ('z ktable_scheme, int \<times> byte list) res" where
  "either_copyin user_src src len =
     bind myproc (\<lambda>p.
     if user_src then
       bind (deref ''either_copyin'' p) (\<lambda>p.
       bind (get_proc p) (\<lambda>pr. copyin (p_pagetable pr) src len))
     else bind (gets (\<lambda>s. read_mem (mem s) src (unat len))) (\<lambda>bs. return (0, bs)))"

definition reparent :: "nat \<Rightarrow> 'z ktable_scheme \<Rightarrow> ('z ktable_scheme, unit) res" where
  "reparent p =
     for_each all_procs (\<lambda>pp.
       bind (get_proc pp) (\<lambda>pr.
       whenever (p_parent pr = Some p)
         (seq (lock (ProcLock pp)) (
          bind (gets initproc) (\<lambda>i.
          seq (modify_proc pp (\<lambda>pr. pr\<lparr>p_parent := i\<rparr>))
              (unlock (ProcLock pp)))))))"

section \<open>Executing the process code\<close>

lemma ktable_held [simp]:
  "procs (held lk s) = procs s" "procs_update f (held lk s) = held lk (procs_update f s)"
  "initproc (held lk s) = initproc s" "initproc_update g (held lk s) = held lk (initproc_update g s)"
  "nextpid (held lk s) = nextpid s" "nextpid_update h (held lk s) = held lk (nextpid_update h s)"
  "fork_first (held lk s) = fork_first s"
  "fork_first_update k (held lk s) = held lk (fork_first_update k s)"
  by (simp_all add: held_def)

lemma get_proc_run [simp]: "get_proc i s = Ok (procs s i) s"
  by (simp add: get_proc_def)

lemma modify_proc_run [simp]: "modify_proc i f s = Ok () (upd_proc i f s)"
  by (simp add: modify_proc_def)

lemma deref_run [simp]: "deref w p s = (case p of None \<Rightarrow> Stop (Undef w) s | Some x \<Rightarrow> Ok x s)"
  by (simp add: deref_def split: option.split)

lemma upd_proc_simps [simp]:
  "procs (upd_proc i f s) = (procs s)(i := f (procs s i))"
  "hw (upd_proc i f s) = hw s" "mem (upd_proc i f s) = mem s" "freelist (upd_proc i f s) = freelist s"
  "initproc (upd_proc i f s) = initproc s" "nextpid (upd_proc i f s) = nextpid s"
  by (simp_all add: upd_proc_def)

lemma upd_proc_held [simp]: "upd_proc i f (held lk s) = held lk (upd_proc i f s)"
  by (simp add: upd_proc_def)

lemma upd_proc_upd_proc [simp]: "upd_proc i f (upd_proc i g s) = upd_proc i (f \<circ> g) s"
  by (simp add: upd_proc_def)

lemma upd_proc_id: "f (procs s i) = procs s i \<Longrightarrow> upd_proc i f s = s"
  by (simp add: upd_proc_def fun_upd_idem)

lemma hw_update_id [simp]: "s\<lparr>hw := hw s\<rparr> = s"
  by simp

lemma myproc_run [simp]:
  assumes "cpu_ok (hw s)"
  shows "myproc s = Ok (cpu_proc (mycpu (hw s))) s"
proof -
  have "cpu_proc (mycpu (pushed h)) = cpu_proc (mycpu h)" for h by (simp add: mycpu_pushed)
  then show ?thesis
    using pop_off_pushed [OF assms] by (simp add: myproc_def on_hw_def push_off_run)
qed

lemma curproc_run:
  assumes "cpu_ok (hw s)" "cpu_proc (mycpu (hw s)) = Some p"
  shows "curproc s = Ok p s"
  using assms by (simp add: curproc_def)

text \<open>A loop over the process table in which each round is a critical section of that process.\<close>

definition table_free :: "'z ktable_scheme \<Rightarrow> bool" where
  "table_free s \<longleftrightarrow> cpu_ok (hw s) \<and> (\<forall>p < NPROC. lock_free (ProcLock p) (hw s))"

lemma table_loop:
  assumes "\<And>p t. p < n \<Longrightarrow> hw t = hw s \<Longrightarrow> initproc t = initproc s \<Longrightarrow>
      procs t p = procs s p \<Longrightarrow> body p t = Ok () (upd_proc p f t)"
  shows "for_each [0..<n] body s =
    Ok () (s\<lparr>procs := (\<lambda>p. if p < n then f (procs s p) else procs s p)\<rparr>)"
  using assms
proof (induction n)
  case 0
  then show ?case by simp
next
  case (Suc n)
  let ?s = "s\<lparr>procs := (\<lambda>p. if p < n then f (procs s p) else procs s p)\<rparr>"
  have "for_each [n] body ?s = Ok () (upd_proc n f ?s)"
    using Suc.prems [of n ?s] by simp
  moreover have "upd_proc n f ?s =
      s\<lparr>procs := (\<lambda>p. if p < Suc n then f (procs s p) else procs s p)\<rparr>"
    by (auto simp: upd_proc_def fun_eq_iff less_Suc_eq)
  ultimately show ?case
    using Suc.IH Suc.prems by (simp only: upt_Suc_append le0 for_each_append res.case less_SucI)
qed

definition wake_on :: "chan \<Rightarrow> proc \<Rightarrow> proc" where
  "wake_on ch pr = (if p_state pr = SLEEPING \<and> p_chan pr = Some ch then pr\<lparr>p_state := RUNNABLE\<rparr> else pr)"

lemma wakeup_round:
  assumes "cpu_ok (hw s)" "lock_free (ProcLock p) (hw s)"
  shows "seq (lock (ProcLock p)) (
       bind (get_proc p) (\<lambda>pr.
       seq (whenever (p_state pr = SLEEPING \<and> p_chan pr = Some ch)
             (modify_proc p (\<lambda>pr. pr\<lparr>p_state := RUNNABLE\<rparr>)))
           (unlock (ProcLock p)))) s = Ok () (upd_proc p (wake_on ch) s)"
  using assms by (auto simp: wake_on_def upd_proc_def)

lemma wakeup_run:
  assumes "table_free s"
  shows "wakeup ch s = Ok () (s\<lparr>procs := (\<lambda>p. if p < NPROC then wake_on ch (procs s p) else procs s p)\<rparr>)"
  unfolding wakeup_def
  by (rule table_loop) (use assms in \<open>intro wakeup_round; simp add: table_free_def\<close>)

definition adopt :: "nat \<Rightarrow> nat option \<Rightarrow> proc \<Rightarrow> proc" where
  "adopt p i pr = (if p_parent pr = Some p then pr\<lparr>p_parent := i\<rparr> else pr)"

lemma reparent_run:
  assumes "cpu_ok (hw s)" "\<forall>pp < NPROC. p_parent (procs s pp) = Some p \<longrightarrow> lock_free (ProcLock pp) (hw s)"
  shows "reparent p s = Ok () (s\<lparr>procs := (\<lambda>pp. if pp < NPROC then adopt p (initproc s) (procs s pp) else procs s pp)\<rparr>)"
  unfolding reparent_def
proof (rule table_loop)
  fix pp and t :: "'a ktable_scheme"
  assume t: "pp < NPROC" "hw t = hw s" "initproc t = initproc s" "procs t pp = procs s pp"
  show "bind (get_proc pp) (\<lambda>pr. whenever (p_parent pr = Some p)
         (seq (lock (ProcLock pp)) (bind (gets initproc) (\<lambda>i.
          seq (modify_proc pp (\<lambda>pr. pr\<lparr>p_parent := i\<rparr>)) (unlock (ProcLock pp)))))) t =
      Ok () (upd_proc pp (adopt p (initproc s)) t)"
  proof (cases "p_parent (procs s pp) = Some p")
    case True
    with assms t show ?thesis by (simp add: adopt_def upd_proc_def)
  next
    case False
    with t have "upd_proc pp (adopt p (initproc s)) t = t" by (intro upd_proc_id) (simp add: adopt_def)
    with False t show ?thesis by simp
  qed
qed

section \<open>Sleeping and waking\<close>

lemma acq_commute:
  assumes "cpu_ok s" "lk \<noteq> lk'"
  shows "acq lk (acq lk' s) = acq lk' (acq lk s)"
proof -
  have "0 \<le> noff (mycpu s)" using assms(1) by (simp add: cpu_ok_def)
  then have "noff (mycpu s) + 1 \<noteq> 0" by simp
  then show ?thesis
    using assms(2) by (intro mach_eqI)
      (auto simp: acq_def pushed_def mycpu_def cpuid_def fun_eq_iff or.assoc)
qed

lemma release_outer [simp]:
  assumes "cpu_ok s" "lk \<noteq> lk'" "lock_free lk s"
  shows "release lk (acq lk' (acq lk s)) = Ok () (acq lk' s)"
  using assms by (simp add: acq_commute [of s lk' lk])

lemma unlock_outer [simp]:
  assumes "cpu_ok (hw s)" "lk \<noteq> lk'" "lock_free lk (hw s)"
  shows "unlock lk (held lk' (held lk s)) = Ok () (held lk' s)"
  using assms by (simp add: on_hw_def held_def)

lemma sched_switches:
  assumes "cpu_ok (hw s)" "noff (mycpu (hw s)) = 0" "cpu_proc (mycpu (hw s)) = Some p"
    "p_state (procs s p) \<noteq> RUNNING"
  shows "sched (held (ProcLock p) s) = Stop Switched (held (ProcLock p) s)"
  using assms by (simp add: sched_def curproc_def)

definition asleep :: "chan \<Rightarrow> proc \<Rightarrow> proc" where
  "asleep ch pr = pr\<lparr>p_chan := Some ch, p_state := SLEEPING\<rparr>"

lemma sleep_run:
  assumes "cpu_ok (hw s)" "noff (mycpu (hw s)) = 0" "cpu_proc (mycpu (hw s)) = Some p"
    "lock_free lk (hw s)" "lock_free (ProcLock p) (hw s)" "lk \<noteq> ProcLock p"
  shows "sleep ch lk (held lk s) = Stop Switched (held (ProcLock p) (upd_proc p (asleep ch) s))"
proof -
  have "sched (held (ProcLock p) (upd_proc p (asleep ch) s)) =
      Stop Switched (held (ProcLock p) (upd_proc p (asleep ch) s))"
    using assms by (intro sched_switches) (simp_all add: asleep_def)
  moreover have "upd_proc p ((\<lambda>pr. pr\<lparr>p_state := SLEEPING\<rparr>) \<circ> (\<lambda>pr. pr\<lparr>p_chan := Some ch\<rparr>)) s =
      upd_proc p (asleep ch) s"
    by (simp add: upd_proc_def asleep_def)
  ultimately show ?thesis using assms by (simp add: sleep_def curproc_def)
qed


section \<open>The scheduler\<close>

definition with_proc :: "nat option \<Rightarrow> 'z ktable_scheme \<Rightarrow> 'z ktable_scheme" where
  "with_proc p s = s\<lparr>hw := upd_mycpu (\<lambda>c. c\<lparr>cpu_proc := p\<rparr>) (hw s)\<rparr>"

lemma with_proc_simps [simp]:
  "procs (with_proc p s) = procs s" "mem (with_proc p s) = mem s" "initproc (with_proc p s) = initproc s"
  "cpu_proc (mycpu (hw (with_proc p s))) = p" "cpuid (hw (with_proc p s)) = cpuid (hw s)"
  "noff (mycpu (hw (with_proc p s))) = noff (mycpu (hw s))"
  "lock_free lk (hw (with_proc p s)) = lock_free lk (hw s)"
  "cpu_ok (hw (with_proc p s)) = cpu_ok (hw s)"
  by (simp_all add: with_proc_def mach_defs cpu_ok_def lock_free_def)

lemma upd_proc_with_proc [simp]: "upd_proc i f (with_proc p s) = with_proc p (upd_proc i f s)"
  by (simp add: with_proc_def upd_proc_def)

lemma set_cpu_proc_run [simp]: "set_cpu_proc p s = Ok () (with_proc p s)"
  by (simp add: set_cpu_proc_def on_hw_def with_proc_def)

lemma with_proc_held [simp]: "with_proc p (held lk s) = held lk (with_proc p s)"
  by (simp add: with_proc_def held_def acq_def pushed_def mach_defs fun_eq_iff)

definition with_ttbr0 :: "u64 \<Rightarrow> 'z ktable_scheme \<Rightarrow> 'z ktable_scheme" where
  "with_ttbr0 x s = s\<lparr>hw := (hw s)\<lparr>ttbr0 := (ttbr0 (hw s))(cpuid (hw s) := x)\<rparr>\<rparr>"

lemma with_ttbr0_simps [simp]:
  "procs (with_ttbr0 x s) = procs s" "mem (with_ttbr0 x s) = mem s"
  "cpus (hw (with_ttbr0 x s)) = cpus (hw s)" "cpuid (hw (with_ttbr0 x s)) = cpuid (hw s)"
  "mycpu (hw (with_ttbr0 x s)) = mycpu (hw s)"
  "lock_free lk (hw (with_ttbr0 x s)) = lock_free lk (hw s)" "cpu_ok (hw (with_ttbr0 x s)) = cpu_ok (hw s)"
  by (simp_all add: with_ttbr0_def mach_defs cpu_ok_def lock_free_def)

lemma with_ttbr0_held [simp]: "with_ttbr0 x (held lk s) = held lk (with_ttbr0 x s)"
  by (simp add: with_ttbr0_def held_def acq_def pushed_def mach_defs)

lemma uvmswitch_run:
  assumes "cpu_ok (hw s)" "p_pagetable (procs s p) \<noteq> 0"
  shows "uvmswitch p s = Ok () (with_ttbr0 (V2P (p_pagetable (procs s p))) s)"
proof -
  let ?f = "\<lambda>h. h\<lparr>ttbr0 := (ttbr0 h)(cpuid h := V2P (p_pagetable (procs s p)))\<rparr>"
  have push: "?f (pushed h) = pushed (?f h)" for h by (simp add: pushed_def mach_defs)
  have "cpu_ok (?f (hw s))" using assms(1) by (simp add: cpu_ok_def mach_defs)
  from pop_off_pushed [OF this] push
  show ?thesis using assms(2)
    by (simp add: uvmswitch_def on_hw_def push_off_run with_ttbr0_def)
qed

definition dispatched :: "nat \<Rightarrow> 'z ktable_scheme \<Rightarrow> 'z ktable_scheme" where
  "dispatched p s = with_ttbr0 (V2P (p_pagetable (procs s p)))
     (with_proc (Some p) (upd_proc p (\<lambda>pr. pr\<lparr>p_state := RUNNING\<rparr>) s))"

lemma scheduler_from_run:
  assumes "cpu_ok (hw s)" "\<forall>p \<in> set ps. lock_free (ProcLock p) (hw s)"
    "\<forall>p \<in> set ps. p_state (procs s p) = RUNNABLE \<longrightarrow> p_pagetable (procs s p) \<noteq> 0"
  shows "scheduler_from ps s =
    (case List.find (\<lambda>p. p_state (procs s p) = RUNNABLE) ps of
       None \<Rightarrow> Ok None s
     | Some p \<Rightarrow> Ok (Some p) (held (ProcLock p) (dispatched p s)))"
  using assms
proof (induction ps)
  case Nil
  then show ?case by simp
next
  case (Cons p ps)
  show ?case
  proof (cases "p_state (procs s p) = RUNNABLE")
    case True
    let ?s = "held (ProcLock p) (with_proc (Some p) (upd_proc p (\<lambda>pr. pr\<lparr>p_state := RUNNING\<rparr>) s))"
    have "uvmswitch p ?s = Ok () (with_ttbr0 (V2P (p_pagetable (procs ?s p))) ?s)"
      using Cons.prems True by (intro uvmswitch_run) simp_all
    then show ?thesis using Cons.prems True by (simp add: dispatched_def)
  next
    case False
    then show ?thesis using Cons by simp
  qed
qed

definition killed :: "proc \<Rightarrow> proc" where
  "killed pr = pr\<lparr>p_killed := 1,
     p_state := (if p_state pr = SLEEPING then RUNNABLE else p_state pr)\<rparr>"

lemma kill_from_run:
  assumes "cpu_ok (hw s)" "\<forall>p \<in> set ps. lock_free (ProcLock p) (hw s)"
  shows "kill_from pid ps s =
    (case List.find (\<lambda>p. p_pid (procs s p) = pid) ps of
       None \<Rightarrow> Ok (- 1) s | Some p \<Rightarrow> Ok 0 (upd_proc p killed s))"
  using assms by (induction ps) (auto simp: killed_def upd_proc_def)

lemma scheduler_back_run:
  assumes "cpu_ok (hw s)" "lock_free (ProcLock p) (hw s)"
  shows "scheduler_back p (held (ProcLock p) s) = Ok () (with_proc None s)"
  using assms by (simp add: scheduler_back_def)

end
