(* ===== verification/Sleeplock.thy ===== *)
theory Sleeplock
  imports Sched
begin

text \<open>
  Sleep locks, \<open>src/kernel/sleeplock.c\<close> and \<open>src/kernel/sleeplock.h\<close>. The kernel has one in every
  buffer and in every cached inode, which names them here; a sleep lock's spin lock and its sleep
  channel go with its name. \<open>acquiresleep\<close> of a lock that is held ends with the switch of \<open>sleep\<close>,
  and \<open>acquiresleep_loop\<close> is where the process goes on when it runs again.
\<close>

section \<open>State and operations\<close>

datatype slid = SBuf nat | SInode nat

fun sl_lock :: "slid \<Rightarrow> lockid" where
  "sl_lock (SBuf i) = BufLock i"
| "sl_lock (SInode i) = InodeLock i"

fun sl_chan :: "slid \<Rightarrow> chan" where
  "sl_chan (SBuf i) = ChanBufLock i"
| "sl_chan (SInode i) = ChanInodeLock i"

record sleeplock =
  sl_locked :: bool
  sl_name :: string
  sl_pid :: int

record ksleep = ktable +
  slocks :: "slid \<Rightarrow> sleeplock"

definition upd_slock :: "slid \<Rightarrow> (sleeplock \<Rightarrow> sleeplock) \<Rightarrow> 'z ksleep_scheme \<Rightarrow> 'z ksleep_scheme" where
  "upd_slock l f s = s\<lparr>slocks := (slocks s)(l := f (slocks s l))\<rparr>"

definition initsleeplock :: "slid \<Rightarrow> string \<Rightarrow> 'z ksleep_scheme \<Rightarrow> ('z ksleep_scheme, unit) res" where
  "initsleeplock l name =
     seq (on_hw (initlock (sl_lock l) ''sleep lock''))
         (modify (upd_slock l (\<lambda>k. k\<lparr>sl_name := name, sl_locked := False, sl_pid := 0\<rparr>)))"

definition mypid :: "'z ksleep_scheme \<Rightarrow> ('z ksleep_scheme, int) res" where
  "mypid = bind curproc (\<lambda>p. gets (\<lambda>s. p_pid (procs s p)))"

definition acquiresleep_loop :: "slid \<Rightarrow> 'z ksleep_scheme \<Rightarrow> ('z ksleep_scheme, unit) res" where
  "acquiresleep_loop l =
     bind (gets (\<lambda>s. sl_locked (slocks s l))) (\<lambda>b.
     if b then sleep (sl_chan l) (sl_lock l) else
     seq (modify (upd_slock l (\<lambda>k. k\<lparr>sl_locked := True\<rparr>))) (
     bind mypid (\<lambda>pid.
     seq (modify (upd_slock l (\<lambda>k. k\<lparr>sl_pid := pid\<rparr>)))
         (unlock (sl_lock l)))))"

definition acquiresleep :: "slid \<Rightarrow> 'z ksleep_scheme \<Rightarrow> ('z ksleep_scheme, unit) res" where
  "acquiresleep l = seq (lock (sl_lock l)) (acquiresleep_loop l)"

definition acquiresleep_resume ::
  "bool \<Rightarrow> nat \<Rightarrow> slid \<Rightarrow> 'z ksleep_scheme \<Rightarrow> ('z ksleep_scheme, unit) res" where
  "acquiresleep_resume saved p l = seq (sleep_finish saved p (sl_lock l)) (acquiresleep_loop l)"

definition releasesleep :: "slid \<Rightarrow> 'z ksleep_scheme \<Rightarrow> ('z ksleep_scheme, unit) res" where
  "releasesleep l =
     seq (lock (sl_lock l)) (
     seq (modify (upd_slock l (\<lambda>k. k\<lparr>sl_locked := False, sl_pid := 0\<rparr>))) (
     seq (wakeup (sl_chan l))
         (unlock (sl_lock l))))"

definition holdingsleep :: "slid \<Rightarrow> 'z ksleep_scheme \<Rightarrow> ('z ksleep_scheme, bool) res" where
  "holdingsleep l =
     seq (lock (sl_lock l)) (
     bind (gets (\<lambda>s. slocks s l)) (\<lambda>k.
     bind (if sl_locked k then bind mypid (\<lambda>pid. return (sl_pid k = pid)) else return False) (\<lambda>r.
     seq (unlock (sl_lock l)) (return r))))"

section \<open>Execution\<close>

lemma slocks_held [simp]:
  "slocks (held lk s) = slocks s" "slocks_update f (held lk s) = held lk (slocks_update f s)"
  by (simp_all add: held_def)

lemma upd_slock_simps [simp]:
  "slocks (upd_slock l f s) = (slocks s)(l := f (slocks s l))" "hw (upd_slock l f s) = hw s"
  "procs (upd_slock l f s) = procs s" "mem (upd_slock l f s) = mem s"
  "upd_slock l f (held lk s) = held lk (upd_slock l f s)"
  "upd_slock l f (upd_slock l g s) = upd_slock l (f \<circ> g) s"
  by (simp_all add: upd_slock_def)

text \<open>The running process outside any critical section, with every lock free.\<close>

definition running :: "nat \<Rightarrow> 'z ktable_scheme \<Rightarrow> bool" where
  "running p s \<longleftrightarrow> cpu_ok (hw s) \<and> noff (mycpu (hw s)) = 0 \<and> (\<forall>lk. lock_free lk (hw s)) \<and>
     cpu_proc (mycpu (hw s)) = Some p \<and> p < NPROC \<and> p_state (procs s p) = RUNNING"

lemma sl_lock_not_proc [simp]: "sl_lock l \<noteq> ProcLock p" "ProcLock p \<noteq> sl_lock l"
  by (cases l; simp)+

lemma running_cpu:
  "running p s \<Longrightarrow> cpu_ok (hw s)" "running p s \<Longrightarrow> noff (mycpu (hw s)) = 0"
  "running p s \<Longrightarrow> lock_free lk (hw s)" "running p s \<Longrightarrow> cpu_proc (mycpu (hw s)) = Some p"
  "running p s \<Longrightarrow> p < NPROC" "running p s \<Longrightarrow> p_state (procs s p) = RUNNING"
  by (simp_all add: running_def)

lemmas running_simps = running_cpu

lemma acquiresleep_free:
  assumes "running p s" "\<not> sl_locked (slocks s l)"
  shows "acquiresleep l s =
    Ok () (upd_slock l (\<lambda>k. k\<lparr>sl_locked := True, sl_pid := p_pid (procs s p)\<rparr>) s)"
  using running_cpu [OF assms(1)] assms(2)
  by (simp add: acquiresleep_def acquiresleep_loop_def mypid_def curproc_def comp_def)

lemma acquiresleep_blocks:
  assumes "running p s" "sl_locked (slocks s l)"
  shows "acquiresleep l s =
    Stop Switched (held (ProcLock p) (upd_proc p (asleep (sl_chan l)) s))"
  using running_cpu [OF assms(1)] assms(2)
  by (simp add: acquiresleep_def acquiresleep_loop_def sleep_run)

lemma holdingsleep_run:
  assumes "running p s"
  shows "holdingsleep l s =
    Ok (sl_locked (slocks s l) \<and> sl_pid (slocks s l) = p_pid (procs s p)) s"
  using running_cpu [OF assms]
  by (simp add: holdingsleep_def mypid_def curproc_def)

text \<open>A \<open>wakeup\<close> inside a critical section of another lock.\<close>

lemma wakeup_held:
  assumes "running p s" "\<And>q. lk \<noteq> ProcLock q"
  shows "wakeup ch (held lk s) =
    Ok () (held lk (s\<lparr>procs := (\<lambda>q. if q < NPROC then wake_on ch (procs s q) else procs s q)\<rparr>))"
proof -
  have "table_free (held lk s)"
    using running_cpu [OF assms(1)] assms(2) by (auto simp: table_free_def)
  from wakeup_run [OF this, of ch] show ?thesis by (simp cong: if_cong)
qed

definition woken :: "chan \<Rightarrow> 'z ktable_scheme \<Rightarrow> 'z ktable_scheme" where
  "woken ch s = s\<lparr>procs := (\<lambda>q. if q < NPROC then wake_on ch (procs s q) else procs s q)\<rparr>"

lemma woken_none:
  assumes "\<forall>q < NPROC. \<not> (p_state (procs s q) = SLEEPING \<and> p_chan (procs s q) = Some ch)"
  shows "woken ch s = s"
proof -
  have "(\<lambda>q. if q < NPROC then wake_on ch (procs s q) else procs s q) = procs s"
    using assms by (auto simp: fun_eq_iff wake_on_def)
  then show ?thesis by (simp add: woken_def)
qed

lemma releasesleep_run:
  assumes "running p s"
  shows "releasesleep l s =
    Ok () (woken (sl_chan l) (upd_slock l (\<lambda>k. k\<lparr>sl_locked := False, sl_pid := 0\<rparr>) s))"
proof -
  let ?s = "upd_slock l (\<lambda>k. k\<lparr>sl_locked := False, sl_pid := 0\<rparr>) s"
  have "running p ?s" using assms by (simp add: running_def)
  from wakeup_held [OF this, of "sl_lock l" "sl_chan l"] running_cpu [OF assms]
  show ?thesis by (simp add: releasesleep_def woken_def)
qed

end
