(* ===== verification/Virtio.thy ===== *)
theory Virtio
  imports Sleeplock
begin

text \<open>
  The disk driver, \<open>src/kernel/virtio_disk.c\<close> and \<open>src/kernel/virtio.h\<close>, and the buffer structure
  of \<open>src/kernel/buf.h\<close> that it moves data in and out of.

  The record \<open>vdisk\<close> is the memory that driver and device share (descriptors, rings, request
  headers, status bytes, buffers), the driver's own book-keeping, the device registers and the
  medium. A descriptor holds the address of a kernel object, which is named here by a \<open>daddr\<close>.

  The device is not part of the repository. It is the function \<open>device\<close> of the kernel state: one
  run of it takes requests off the available ring, moves the data and answers in the used ring.
  What the driver relies on is \<open>device_complies\<close>, after the virtio 1.1 specification, section 5.2.
\<close>

section \<open>Constants (virtio.h, fs.h)\<close>

definition BSIZE :: nat where "BSIZE = 1024"

definition VIRTIO_MMIO_MAGIC_VALUE :: nat where "VIRTIO_MMIO_MAGIC_VALUE = 0x000"
definition VIRTIO_MMIO_VERSION :: nat where "VIRTIO_MMIO_VERSION = 0x004"
definition VIRTIO_MMIO_DEVICE_ID :: nat where "VIRTIO_MMIO_DEVICE_ID = 0x008"
definition VIRTIO_MMIO_VENDOR_ID :: nat where "VIRTIO_MMIO_VENDOR_ID = 0x00c"
definition VIRTIO_MMIO_DEVICE_FEATURES :: nat where "VIRTIO_MMIO_DEVICE_FEATURES = 0x010"
definition VIRTIO_MMIO_DRIVER_FEATURES :: nat where "VIRTIO_MMIO_DRIVER_FEATURES = 0x020"
definition VIRTIO_MMIO_GUEST_PAGE_SIZE :: nat where "VIRTIO_MMIO_GUEST_PAGE_SIZE = 0x028"
definition VIRTIO_MMIO_QUEUE_SEL :: nat where "VIRTIO_MMIO_QUEUE_SEL = 0x030"
definition VIRTIO_MMIO_QUEUE_NUM_MAX :: nat where "VIRTIO_MMIO_QUEUE_NUM_MAX = 0x034"
definition VIRTIO_MMIO_QUEUE_NUM :: nat where "VIRTIO_MMIO_QUEUE_NUM = 0x038"
definition VIRTIO_MMIO_QUEUE_PFN :: nat where "VIRTIO_MMIO_QUEUE_PFN = 0x040"
definition VIRTIO_MMIO_QUEUE_NOTIFY :: nat where "VIRTIO_MMIO_QUEUE_NOTIFY = 0x050"
definition VIRTIO_MMIO_INTERRUPT_STATUS :: nat where "VIRTIO_MMIO_INTERRUPT_STATUS = 0x060"
definition VIRTIO_MMIO_INTERRUPT_ACK :: nat where "VIRTIO_MMIO_INTERRUPT_ACK = 0x064"
definition VIRTIO_MMIO_STATUS :: nat where "VIRTIO_MMIO_STATUS = 0x070"

definition VIRTIO_STATUS_ACKNOWLEDGE :: u32 where "VIRTIO_STATUS_ACKNOWLEDGE = 1"
definition VIRTIO_STATUS_DRIVER :: u32 where "VIRTIO_STATUS_DRIVER = 2"
definition VIRTIO_STATUS_DRIVER_OK :: u32 where "VIRTIO_STATUS_DRIVER_OK = 4"
definition VIRTIO_STATUS_FEATURES_OK :: u32 where "VIRTIO_STATUS_FEATURES_OK = 8"

definition VIRTIO_BLK_F_RO :: nat where "VIRTIO_BLK_F_RO = 5"
definition VIRTIO_BLK_F_SCSI :: nat where "VIRTIO_BLK_F_SCSI = 7"
definition VIRTIO_BLK_F_CONFIG_WCE :: nat where "VIRTIO_BLK_F_CONFIG_WCE = 11"
definition VIRTIO_BLK_F_MQ :: nat where "VIRTIO_BLK_F_MQ = 12"
definition VIRTIO_F_ANY_LAYOUT :: nat where "VIRTIO_F_ANY_LAYOUT = 27"
definition VIRTIO_RING_F_INDIRECT_DESC :: nat where "VIRTIO_RING_F_INDIRECT_DESC = 28"
definition VIRTIO_RING_F_EVENT_IDX :: nat where "VIRTIO_RING_F_EVENT_IDX = 29"

definition NUM :: nat where "NUM = 8"
definition VRING_DESC_F_NEXT :: u16 where "VRING_DESC_F_NEXT = 1"
definition VRING_DESC_F_WRITE :: u16 where "VRING_DESC_F_WRITE = 2"
definition VIRTIO_BLK_T_IN :: u32 where "VIRTIO_BLK_T_IN = 0"
definition VIRTIO_BLK_T_OUT :: u32 where "VIRTIO_BLK_T_OUT = 1"

section \<open>State\<close>

datatype daddr = NoAddr | OpAddr nat | BufAddr nat | StatusAddr nat

record virtq_desc =
  d_addr :: daddr
  d_len :: u32
  d_flags :: u16
  d_next :: u16

record virtio_blk_req =
  rq_type :: u32
  rq_reserved :: u32
  rq_sector :: u64

text \<open>\<open>b_prev\<close> and \<open>b_next\<close> are indices of buffers; the index \<open>NBUF\<close> is the list head of bio.c.\<close>

record buf =
  b_valid :: bool
  b_disk :: bool
  b_dev :: u32
  b_blockno :: u32
  b_refcnt :: u32
  b_prev :: nat
  b_next :: nat
  b_data :: "byte list"

record vdisk =
  vq_desc :: "nat \<Rightarrow> virtq_desc"
  av_ring :: "nat \<Rightarrow> u16"
  av_idx :: u16
  us_ring :: "nat \<Rightarrow> u32"
  us_idx :: u16
  vd_free :: "nat \<Rightarrow> bool"
  vd_used_idx :: u16
  vd_buf :: "nat \<Rightarrow> nat option"
  vd_status :: "nat \<Rightarrow> byte"
  vd_ops :: "nat \<Rightarrow> virtio_blk_req"
  regs :: "nat \<Rightarrow> u32"
  bufs :: "nat \<Rightarrow> buf"
  medium :: "nat \<Rightarrow> byte list"

record kdisk = ksleep +
  vd :: vdisk
  device :: "vdisk \<Rightarrow> vdisk"

definition modify_vd :: "(vdisk \<Rightarrow> vdisk) \<Rightarrow> 'z kdisk_scheme \<Rightarrow> ('z kdisk_scheme, unit) res" where
  "modify_vd f = modify (\<lambda>s. s\<lparr>vd := f (vd s)\<rparr>)"

definition get_vd :: "(vdisk \<Rightarrow> 'a) \<Rightarrow> 'z kdisk_scheme \<Rightarrow> ('z kdisk_scheme, 'a) res" where
  "get_vd f = gets (\<lambda>s. f (vd s))"

definition write_reg :: "nat \<Rightarrow> u32 \<Rightarrow> 'z kdisk_scheme \<Rightarrow> ('z kdisk_scheme, unit) res" where
  "write_reg r v = modify_vd (\<lambda>d. d\<lparr>regs := (regs d)(r := v)\<rparr>)"

definition read_reg :: "nat \<Rightarrow> 'z kdisk_scheme \<Rightarrow> ('z kdisk_scheme, u32) res" where
  "read_reg r = get_vd (\<lambda>d. regs d r)"

definition upd_desc :: "nat \<Rightarrow> (virtq_desc \<Rightarrow> virtq_desc) \<Rightarrow> vdisk \<Rightarrow> vdisk" where
  "upd_desc i f d = d\<lparr>vq_desc := (vq_desc d)(i := f (vq_desc d i))\<rparr>"

definition upd_buf :: "nat \<Rightarrow> (buf \<Rightarrow> buf) \<Rightarrow> vdisk \<Rightarrow> vdisk" where
  "upd_buf i f d = d\<lparr>bufs := (bufs d)(i := f (bufs d i))\<rparr>"

definition get_buf :: "nat \<Rightarrow> 'z kdisk_scheme \<Rightarrow> ('z kdisk_scheme, buf) res" where
  "get_buf i = get_vd (\<lambda>d. bufs d i)"

definition modify_buf :: "nat \<Rightarrow> (buf \<Rightarrow> buf) \<Rightarrow> 'z kdisk_scheme \<Rightarrow> ('z kdisk_scheme, unit) res" where
  "modify_buf i f = modify_vd (upd_buf i f)"

section \<open>Initialisation\<close>

definition nofeature :: "nat \<Rightarrow> u64 \<Rightarrow> u64" where
  "nofeature b f = f AND NOT (push_bit b 1)"

text \<open>
  \<open>pages_pfn\<close> is the page number of \<open>disk.pages\<close>, a link-time constant. \<open>memset\<close> of the pages clears
  the descriptors and the two rings. Installing the interrupt handler (\<open>gic_set\<close>) is in the
  theory of the interrupt controller.
\<close>

definition virtio_disk_init :: "u32 \<Rightarrow> 'z kdisk_scheme \<Rightarrow> ('z kdisk_scheme, unit) res" where
  "virtio_disk_init pages_pfn =
     seq (on_hw (initlock VdiskLock ''virtio_disk'')) (
     bind (read_reg VIRTIO_MMIO_MAGIC_VALUE) (\<lambda>magic.
     bind (read_reg VIRTIO_MMIO_VERSION) (\<lambda>version.
     bind (read_reg VIRTIO_MMIO_DEVICE_ID) (\<lambda>devid.
     bind (read_reg VIRTIO_MMIO_VENDOR_ID) (\<lambda>vendor.
     if magic \<noteq> 0x74726976 \<or> version \<noteq> 1 \<or> devid \<noteq> 2 \<or> vendor \<noteq> 0x554d4551
     then panic ''could not find virtio disk'' else
     let st1 = 0 OR VIRTIO_STATUS_ACKNOWLEDGE; st2 = st1 OR VIRTIO_STATUS_DRIVER;
         st3 = st2 OR VIRTIO_STATUS_FEATURES_OK; st4 = st3 OR VIRTIO_STATUS_DRIVER_OK in
     seq (write_reg VIRTIO_MMIO_STATUS st1) (
     seq (write_reg VIRTIO_MMIO_STATUS st2) (
     bind (read_reg VIRTIO_MMIO_DEVICE_FEATURES) (\<lambda>f.
     let features = nofeature VIRTIO_RING_F_INDIRECT_DESC (nofeature VIRTIO_RING_F_EVENT_IDX
           (nofeature VIRTIO_F_ANY_LAYOUT (nofeature VIRTIO_BLK_F_MQ
           (nofeature VIRTIO_BLK_F_CONFIG_WCE (nofeature VIRTIO_BLK_F_SCSI
           (nofeature VIRTIO_BLK_F_RO (ucast f))))))) in
     seq (write_reg VIRTIO_MMIO_DEVICE_FEATURES (ucast features)) (
     seq (write_reg VIRTIO_MMIO_STATUS st3) (
     seq (write_reg VIRTIO_MMIO_STATUS st4) (
     seq (write_reg VIRTIO_MMIO_GUEST_PAGE_SIZE (ucast PGSIZE)) (
     seq (write_reg VIRTIO_MMIO_QUEUE_SEL 0) (
     bind (read_reg VIRTIO_MMIO_QUEUE_NUM_MAX) (\<lambda>maxq.
     if maxq = 0 \<or> maxq < of_nat NUM then panic ''virtio disk max queue too short'' else
     seq (write_reg VIRTIO_MMIO_QUEUE_NUM (of_nat NUM)) (
     seq (modify_vd (\<lambda>d. d\<lparr>vq_desc := (\<lambda>_. \<lparr>d_addr = NoAddr, d_len = 0, d_flags = 0, d_next = 0\<rparr>),
            av_ring := (\<lambda>_. 0), av_idx := 0, us_ring := (\<lambda>_. 0), us_idx := 0\<rparr>)) (
     seq (write_reg VIRTIO_MMIO_QUEUE_PFN pages_pfn)
         (modify_vd (\<lambda>d. d\<lparr>vd_free := (\<lambda>i. if i < NUM then True else vd_free d i)\<rparr>))))))))))))))))))"

section \<open>Descriptors\<close>

fun alloc_desc_from :: "nat list \<Rightarrow> 'z kdisk_scheme \<Rightarrow> ('z kdisk_scheme, int) res" where
  "alloc_desc_from [] = return (- 1)"
| "alloc_desc_from (i # is) =
     bind (get_vd (\<lambda>d. vd_free d i)) (\<lambda>b.
     if b then seq (modify_vd (\<lambda>d. d\<lparr>vd_free := (vd_free d)(i := False)\<rparr>)) (return (int i))
     else alloc_desc_from is)"

definition alloc_desc :: "'z kdisk_scheme \<Rightarrow> ('z kdisk_scheme, int) res" where
  "alloc_desc = alloc_desc_from [0..<NUM]"

definition free_desc :: "int \<Rightarrow> 'z kdisk_scheme \<Rightarrow> ('z kdisk_scheme, unit) res" where
  "free_desc i =
     (if i \<ge> int NUM then panic ''free_desc 1'' else
      if i < 0 then undef ''free_desc: negative index'' else
      bind (get_vd (\<lambda>d. vd_free d (nat i))) (\<lambda>b.
      if b then panic ''free_desc 2'' else
      seq (modify_vd (upd_desc (nat i)
             (\<lambda>e. e\<lparr>d_addr := NoAddr, d_len := 0, d_flags := 0, d_next := 0\<rparr>))) (
      seq (modify_vd (\<lambda>d. d\<lparr>vd_free := (vd_free d)(nat i := True)\<rparr>))
          (wakeup ChanDiskFree))))"

text \<open>
  A chain has each descriptor once, and freeing a descriptor twice panics, so \<open>NUM + 1\<close> rounds are
  enough.
\<close>

fun free_chain_loop :: "nat \<Rightarrow> int \<Rightarrow> 'z kdisk_scheme \<Rightarrow> ('z kdisk_scheme, unit) res" where
  "free_chain_loop fuel i =
     (if fuel = 0 then stop (Hang ''free_chain'') else
      if i < 0 \<or> i \<ge> int NUM then free_desc i else
      bind (get_vd (\<lambda>d. vq_desc d (nat i))) (\<lambda>e.
      seq (free_desc i) (
      if d_flags e AND VRING_DESC_F_NEXT \<noteq> 0 then free_chain_loop (fuel - 1) (uint (d_next e))
      else return ())))"

definition vd_free_chain :: "int \<Rightarrow> 'z kdisk_scheme \<Rightarrow> ('z kdisk_scheme, unit) res" where
  "vd_free_chain i = free_chain_loop (Suc NUM) i"

text \<open>The three indices, or None for the return value -1.\<close>

definition alloc3_desc :: "'z kdisk_scheme \<Rightarrow> ('z kdisk_scheme, (nat \<times> nat \<times> nat) option) res" where
  "alloc3_desc =
     bind alloc_desc (\<lambda>i0.
     if i0 < 0 then return None else
     bind alloc_desc (\<lambda>i1.
     if i1 < 0 then seq (free_desc i0) (return None) else
     bind alloc_desc (\<lambda>i2.
     if i2 < 0 then seq (free_desc i0) (seq (free_desc i1) (return None))
     else return (Some (nat i0, nat i1, nat i2)))))"

section \<open>Requests\<close>

text \<open>The part of \<open>virtio_disk_rw\<close> between the allocation and the notification.\<close>

definition format_request ::
  "nat \<Rightarrow> bool \<Rightarrow> u64 \<Rightarrow> nat \<Rightarrow> nat \<Rightarrow> nat \<Rightarrow> vdisk \<Rightarrow> vdisk" where
  "format_request b write sector i0 i1 i2 d =
     (let d = d\<lparr>vd_ops := (vd_ops d)(i0 := \<lparr>rq_type = (if write then VIRTIO_BLK_T_OUT else VIRTIO_BLK_T_IN),
                rq_reserved = 0, rq_sector = sector\<rparr>)\<rparr>;
          d = upd_desc i0 (\<lambda>e. e\<lparr>d_addr := OpAddr i0, d_len := 16, d_flags := VRING_DESC_F_NEXT,
                d_next := of_nat i1\<rparr>) d;
          d = upd_desc i1 (\<lambda>e. e\<lparr>d_addr := BufAddr b, d_len := of_nat BSIZE,
                d_flags := (if write then VRING_DESC_F_NEXT else VRING_DESC_F_NEXT OR VRING_DESC_F_WRITE),
                d_next := of_nat i2\<rparr>) d;
          d = d\<lparr>vd_status := (vd_status d)(i0 := 0xff)\<rparr>;
          d = upd_desc i2 (\<lambda>e. e\<lparr>d_addr := StatusAddr i0, d_len := 1, d_flags := VRING_DESC_F_WRITE,
                d_next := 0\<rparr>) d;
          d = upd_buf b (\<lambda>x. x\<lparr>b_disk := True\<rparr>) d;
          d = d\<lparr>vd_buf := (vd_buf d)(i0 := Some b)\<rparr>;
          d = d\<lparr>av_ring := (av_ring d)(unat (av_idx d) mod NUM := of_nat i0)\<rparr>;
          d = d\<lparr>av_idx := av_idx d + 1\<rparr>
      in d\<lparr>regs := (regs d)(VIRTIO_MMIO_QUEUE_NOTIFY := 0)\<rparr>)"

definition virtio_disk_start :: "nat \<Rightarrow> bool \<Rightarrow> 'z kdisk_scheme \<Rightarrow> ('z kdisk_scheme, nat) res" where
  "virtio_disk_start b write =
     bind (get_buf b) (\<lambda>bf.
     let sector = (ucast (b_blockno bf * (of_nat BSIZE div 512)) :: u64) in
     seq (lock VdiskLock) (
     bind alloc3_desc (\<lambda>idx.
     case idx of
       None \<Rightarrow> sleep ChanDiskFree VdiskLock
     | Some (i0, i1, i2) \<Rightarrow>
         seq (modify_vd (format_request b write sector i0 i1 i2)) (return i0))))"

definition virtio_disk_end :: "nat \<Rightarrow> 'z kdisk_scheme \<Rightarrow> ('z kdisk_scheme, unit) res" where
  "virtio_disk_end i0 =
     seq (modify_vd (\<lambda>d. d\<lparr>vd_buf := (vd_buf d)(i0 := None)\<rparr>)) (
     seq (vd_free_chain (int i0))
         (unlock VdiskLock))"

text \<open>
  The interrupt handler. The device has at most \<open>2 ^ 16\<close> entries of the used ring ahead of the
  driver, since the indices are 16 bits wide.
\<close>

fun virtio_intr_loop :: "nat \<Rightarrow> 'z kdisk_scheme \<Rightarrow> ('z kdisk_scheme, unit) res" where
  "virtio_intr_loop fuel =
     (if fuel = 0 then stop (Hang ''virtio_disk_intr'') else
      bind (get_vd id) (\<lambda>d.
      if vd_used_idx d = us_idx d then return () else
      let i = unat (us_ring d (unat (vd_used_idx d) mod NUM)) in
      if i \<ge> NUM then undef ''virtio_disk_intr: id'' else
      if vd_status d i \<noteq> 0 then panic ''virtio_disk_intr status'' else
      bind (deref ''virtio_disk_intr: b'' (vd_buf d i)) (\<lambda>b.
      seq (modify_buf b (\<lambda>x. x\<lparr>b_disk := False\<rparr>)) (
      seq (wakeup (ChanBuf b)) (
      seq (modify_vd (\<lambda>d. d\<lparr>vd_used_idx := vd_used_idx d + 1\<rparr>))
          (virtio_intr_loop (fuel - 1)))))))"

definition virtio_disk_intr :: "'z kdisk_scheme \<Rightarrow> ('z kdisk_scheme, unit) res" where
  "virtio_disk_intr =
     seq (lock VdiskLock) (
     bind (read_reg VIRTIO_MMIO_INTERRUPT_STATUS) (\<lambda>st.
     seq (write_reg VIRTIO_MMIO_INTERRUPT_ACK (st AND 3)) (
     seq (virtio_intr_loop (2 ^ 16))
         (unlock VdiskLock))))"

text \<open>
  \<open>sleep (b, &disk.vdisk_lock)\<close> of the process \<open>p\<close> in a run in which it is this CPU's turn for the
  whole time: the process gives up the CPU, the scheduler releases its lock, the device answers,
  its interrupt runs \<open>virtio_disk_intr\<close>, the scheduler comes to the process again, and \<open>sleep\<close>
  returns. If the device has not answered the process stays asleep and the run ends.
\<close>

definition resume_after :: "('s \<Rightarrow> ('s, unit) res) \<Rightarrow> ('s \<Rightarrow> ('s, unit) res) \<Rightarrow> 's \<Rightarrow> ('s, unit) res" where
  "resume_after m n s = (case m s of Stop Switched t \<Rightarrow> n t | r \<Rightarrow> r)"

definition disk_sleep :: "nat \<Rightarrow> 'z kdisk_scheme \<Rightarrow> ('z kdisk_scheme, unit) res" where
  "disk_sleep b =
     bind curproc (\<lambda>p.
     bind (gets (\<lambda>s. intena (mycpu (hw s)))) (\<lambda>saved.
     resume_after (sleep (ChanBuf b) VdiskLock) (
       seq (scheduler_back p) (
       seq (modify (\<lambda>s. s\<lparr>vd := device s (vd s)\<rparr>)) (
       seq virtio_disk_intr (
       bind (scheduler_from [p]) (\<lambda>r.
       if r = None then stop Switched else sleep_finish saved p VdiskLock)))))))"

text \<open>The wait of \<open>virtio_disk_rw\<close>, cut off when the device has been run once and not answered.\<close>

definition virtio_disk_rw :: "nat \<Rightarrow> bool \<Rightarrow> 'z kdisk_scheme \<Rightarrow> ('z kdisk_scheme, unit) res" where
  "virtio_disk_rw b write =
     bind (virtio_disk_start b write) (\<lambda>i0.
     bind (get_buf b) (\<lambda>bf.
     seq (whenever (b_disk bf) (disk_sleep b)) (
     bind (get_buf b) (\<lambda>bf.
     if b_disk bf then stop Switched else virtio_disk_end i0))))"

declare free_chain_loop.simps [simp del] virtio_intr_loop.simps [simp del]

end
