(* ===== verification/Bio.thy ===== *)
theory Bio
  imports Virtio
begin

text \<open>
  The buffer cache, \<open>src/kernel/bio.c\<close>. The buffers \<open>bcache.buf[0..NBUF-1]\<close> and the list head
  \<open>bcache.head\<close>, which is the buffer with index \<open>NBUF\<close>, are linked in a circle through \<open>b_prev\<close>
  and \<open>b_next\<close>, most recently used first.
\<close>

section \<open>Operations\<close>

abbreviation bhead :: nat where
  "bhead \<equiv> NBUF"

definition binit :: "'z kdisk_scheme \<Rightarrow> ('z kdisk_scheme, unit) res" where
  "binit =
     seq (on_hw (initlock BcacheLock ''bchache'')) (
     seq (modify_buf bhead (\<lambda>h. h\<lparr>b_prev := bhead\<rparr>)) (
     seq (modify_buf bhead (\<lambda>h. h\<lparr>b_next := bhead\<rparr>))
         (for_each [0..<NBUF] (\<lambda>b.
            bind (get_buf bhead) (\<lambda>h.
            seq (modify_buf b (\<lambda>x. x\<lparr>b_next := b_next h\<rparr>)) (
            seq (modify_buf b (\<lambda>x. x\<lparr>b_prev := bhead\<rparr>)) (
            seq (initsleeplock (SBuf b) ''buffer'') (
            seq (modify_buf (b_next h) (\<lambda>x. x\<lparr>b_prev := b\<rparr>))
                (modify_buf bhead (\<lambda>x. x\<lparr>b_next := b\<rparr>))))))))))"

text \<open>
  The two searches of \<open>bget\<close>, from the buffer \<open>b\<close> on. The circle has \<open>NBUF\<close> buffers besides the
  head, so \<open>NBUF + 1\<close> rounds reach the head.
\<close>

fun bget_cached :: "nat \<Rightarrow> u32 \<Rightarrow> u32 \<Rightarrow> nat \<Rightarrow> 'z kdisk_scheme \<Rightarrow> ('z kdisk_scheme, nat option) res" where
  "bget_cached fuel dev blockno b =
     (if fuel = 0 then stop (Hang ''bget'') else
      if b = bhead then return None else
      bind (get_buf b) (\<lambda>x.
      if b_dev x = dev \<and> b_blockno x = blockno then return (Some b)
      else bget_cached (fuel - 1) dev blockno (b_next x)))"

fun bget_unused :: "nat \<Rightarrow> nat \<Rightarrow> 'z kdisk_scheme \<Rightarrow> ('z kdisk_scheme, nat option) res" where
  "bget_unused fuel b =
     (if fuel = 0 then stop (Hang ''bget'') else
      if b = bhead then return None else
      bind (get_buf b) (\<lambda>x.
      if b_refcnt x = 0 then return (Some b) else bget_unused (fuel - 1) (b_prev x)))"

definition bget :: "u32 \<Rightarrow> u32 \<Rightarrow> 'z kdisk_scheme \<Rightarrow> ('z kdisk_scheme, nat) res" where
  "bget dev blockno =
     seq (lock BcacheLock) (
     bind (get_buf bhead) (\<lambda>h.
     bind (bget_cached (Suc NBUF) dev blockno (b_next h)) (\<lambda>r.
     case r of
       Some b \<Rightarrow>
         seq (modify_buf b (\<lambda>x. x\<lparr>b_refcnt := b_refcnt x + 1\<rparr>)) (
         seq (unlock BcacheLock) (
         seq (acquiresleep (SBuf b)) (return b)))
     | None \<Rightarrow>
         bind (bget_unused (Suc NBUF) (b_prev h)) (\<lambda>r.
         case r of
           Some b \<Rightarrow>
             seq (modify_buf b (\<lambda>x. x\<lparr>b_dev := dev, b_blockno := blockno, b_valid := False, b_refcnt := 1\<rparr>)) (
             seq (unlock BcacheLock) (
             seq (acquiresleep (SBuf b)) (return b)))
         | None \<Rightarrow> panic ''bget: no buffers''))))"

definition bread :: "u32 \<Rightarrow> u32 \<Rightarrow> 'z kdisk_scheme \<Rightarrow> ('z kdisk_scheme, nat) res" where
  "bread dev blockno =
     bind (bget dev blockno) (\<lambda>b.
     bind (get_buf b) (\<lambda>x.
     seq (whenever (\<not> b_valid x)
           (seq (virtio_disk_rw b False) (modify_buf b (\<lambda>x. x\<lparr>b_valid := True\<rparr>))))
         (return b)))"

definition bwrite :: "nat \<Rightarrow> 'z kdisk_scheme \<Rightarrow> ('z kdisk_scheme, unit) res" where
  "bwrite b =
     bind (holdingsleep (SBuf b)) (\<lambda>h.
     if \<not> h then panic ''bwrite'' else virtio_disk_rw b True)"

definition brelse_move :: "nat \<Rightarrow> 'z kdisk_scheme \<Rightarrow> ('z kdisk_scheme, unit) res" where
  "brelse_move b =
     bind (get_buf b) (\<lambda>x. seq (modify_buf (b_next x) (\<lambda>y. y\<lparr>b_prev := b_prev x\<rparr>)) (
     bind (get_buf b) (\<lambda>x. seq (modify_buf (b_prev x) (\<lambda>y. y\<lparr>b_next := b_next x\<rparr>)) (
     bind (get_buf bhead) (\<lambda>h. seq (modify_buf b (\<lambda>y. y\<lparr>b_next := b_next h\<rparr>)) (
     seq (modify_buf b (\<lambda>y. y\<lparr>b_prev := bhead\<rparr>)) (
     bind (get_buf bhead) (\<lambda>h. seq (modify_buf (b_next h) (\<lambda>y. y\<lparr>b_prev := b\<rparr>))
     (modify_buf bhead (\<lambda>y. y\<lparr>b_next := b\<rparr>))))))))))"

definition brelse :: "nat \<Rightarrow> 'z kdisk_scheme \<Rightarrow> ('z kdisk_scheme, unit) res" where
  "brelse b =
     bind (holdingsleep (SBuf b)) (\<lambda>h.
     if \<not> h then panic ''brelse'' else
     seq (releasesleep (SBuf b)) (
     seq (lock BcacheLock) (
     seq (modify_buf b (\<lambda>x. x\<lparr>b_refcnt := b_refcnt x - 1\<rparr>)) (
     bind (get_buf b) (\<lambda>x.
     seq (whenever (b_refcnt x = 0) (brelse_move b))
         (unlock BcacheLock))))))"

definition bpin :: "nat \<Rightarrow> 'z kdisk_scheme \<Rightarrow> ('z kdisk_scheme, unit) res" where
  "bpin b =
     seq (lock BcacheLock) (
     seq (modify_buf b (\<lambda>x. x\<lparr>b_refcnt := b_refcnt x + 1\<rparr>))
         (unlock BcacheLock))"

definition bunpin :: "nat \<Rightarrow> 'z kdisk_scheme \<Rightarrow> ('z kdisk_scheme, unit) res" where
  "bunpin b =
     seq (lock BcacheLock) (
     seq (modify_buf b (\<lambda>x. x\<lparr>b_refcnt := b_refcnt x - 1\<rparr>))
         (unlock BcacheLock))"

declare bget_cached.simps [simp del] bget_unused.simps [simp del]

end
