(* ===== verification/Log.thy ===== *)
theory Log
  imports Bio
begin

text \<open>
  The write-ahead log, \<open>src/kernel/log.c\<close>. The record \<open>klog\<close> adds \<open>struct log Log\<close> to the state;
  the on-disk header is read from and written to the bytes of its buffer. \<open>begin_op\<close> sleeps while
  a commit is under way or the log might overflow, and then ends with the switch.
\<close>

section \<open>Integers in a block\<close>

definition get32 :: "byte list \<Rightarrow> nat \<Rightarrow> u32" where
  "get32 bs off = le_word (take 4 (drop off bs))"

definition put_bytes :: "byte list \<Rightarrow> nat \<Rightarrow> byte list \<Rightarrow> byte list" where
  "put_bytes bs off xs = take off bs @ xs @ drop (off + length xs) bs"

definition put32 :: "byte list \<Rightarrow> nat \<Rightarrow> u32 \<Rightarrow> byte list" where
  "put32 bs off v = put_bytes bs off (le_bytes 4 v)"

definition u32_of_int :: "int \<Rightarrow> u32" where
  "u32_of_int i = word_of_int i"

section \<open>State\<close>

record superblock =
  sb_magic :: u32
  sb_size :: u32
  sb_nblocks :: u32
  sb_ninodes :: u32
  sb_nlog :: u32
  sb_logstart :: u32
  sb_inodestart :: u32
  sb_bmapstart :: u32

record log =
  lg_start :: int
  lg_size :: int
  lg_outstanding :: int
  lg_committing :: bool
  lg_dev :: int
  lh_n :: int
  lh_block :: "nat \<Rightarrow> int"

record klog = kdisk +
  lg :: log

definition modify_log :: "(log \<Rightarrow> log) \<Rightarrow> 'z klog_scheme \<Rightarrow> ('z klog_scheme, unit) res" where
  "modify_log f = modify (\<lambda>s. s\<lparr>lg := f (lg s)\<rparr>)"

definition get_log :: "(log \<Rightarrow> 'a) \<Rightarrow> 'z klog_scheme \<Rightarrow> ('z klog_scheme, 'a) res" where
  "get_log f = gets (\<lambda>s. f (lg s))"

definition LOGHEADER_SIZE :: nat where
  "LOGHEADER_SIZE = 4 + 4 * LOGSIZE"

section \<open>Installing and recovering\<close>

definition install_one :: "bool \<Rightarrow> nat \<Rightarrow> 'z klog_scheme \<Rightarrow> ('z klog_scheme, unit) res" where
  "install_one recovering tail =
     bind (get_log id) (\<lambda>l.
     bind (bread (u32_of_int (lg_dev l)) (u32_of_int (lg_start l + int tail + 1))) (\<lambda>lbuf.
     bind (bread (u32_of_int (lg_dev l)) (u32_of_int (lh_block l tail))) (\<lambda>dbuf.
     bind (get_buf lbuf) (\<lambda>x.
     seq (modify_buf dbuf (\<lambda>y. y\<lparr>b_data := b_data x\<rparr>)) (
     seq (bwrite dbuf) (
     seq (whenever (\<not> recovering) (bunpin dbuf)) (
     seq (brelse lbuf)
         (brelse dbuf))))))))"

definition install_trans :: "bool \<Rightarrow> 'z klog_scheme \<Rightarrow> ('z klog_scheme, unit) res" where
  "install_trans recovering =
     bind (get_log lh_n) (\<lambda>n. for_each [0..<nat n] (install_one recovering))"

definition read_head :: "'z klog_scheme \<Rightarrow> ('z klog_scheme, unit) res" where
  "read_head =
     bind (get_log id) (\<lambda>l.
     bind (bread (u32_of_int (lg_dev l)) (u32_of_int (lg_start l))) (\<lambda>b.
     bind (get_buf b) (\<lambda>x.
     seq (modify_log (\<lambda>l. l\<lparr>lh_n := sint (get32 (b_data x) 0)\<rparr>)) (
     seq (for_each [0..<nat (sint (get32 (b_data x) 0))] (\<lambda>i.
            if i \<ge> LOGSIZE then undef ''read_head: Log.lh.block'' else
            modify_log (\<lambda>l. l\<lparr>lh_block := (lh_block l)(i := sint (get32 (b_data x) (4 + 4 * i)))\<rparr>)))
         (brelse b)))))"

definition write_head :: "'z klog_scheme \<Rightarrow> ('z klog_scheme, unit) res" where
  "write_head =
     bind (get_log id) (\<lambda>l.
     bind (bread (u32_of_int (lg_dev l)) (u32_of_int (lg_start l))) (\<lambda>b.
     seq (modify_buf b (\<lambda>x. x\<lparr>b_data := put32 (b_data x) 0 (u32_of_int (lh_n l))\<rparr>)) (
     seq (for_each [0..<nat (lh_n l)] (\<lambda>i.
            modify_buf b (\<lambda>x. x\<lparr>b_data := put32 (b_data x) (4 + 4 * i) (u32_of_int (lh_block l i))\<rparr>))) (
     seq (bwrite b)
         (brelse b)))))"

definition recover_from_log :: "'z klog_scheme \<Rightarrow> ('z klog_scheme, unit) res" where
  "recover_from_log =
     seq read_head (
     seq (install_trans True) (
     seq (modify_log (\<lambda>l. l\<lparr>lh_n := 0\<rparr>))
         write_head))"

definition initlog :: "int \<Rightarrow> superblock \<Rightarrow> 'z klog_scheme \<Rightarrow> ('z klog_scheme, unit) res" where
  "initlog dev sb =
     (if LOGHEADER_SIZE \<ge> BSIZE then panic ''initlog: too big logheader'' else
      seq (on_hw (initlock LogLock ''log'')) (
      seq (modify_log (\<lambda>l. l\<lparr>lg_start := sint (sb_logstart sb), lg_size := sint (sb_nlog sb), lg_dev := dev\<rparr>))
          recover_from_log))"

section \<open>Transactions\<close>

text \<open>The body of the loop of \<open>begin_op\<close>, to which the process comes back after \<open>sleep\<close>.\<close>

definition begin_op_loop :: "'z klog_scheme \<Rightarrow> ('z klog_scheme, unit) res" where
  "begin_op_loop =
     bind (get_log id) (\<lambda>l.
     if lg_committing l then sleep ChanLog LogLock
     else if lh_n l + (lg_outstanding l + 1) * int MAXOPBLOCKS > int LOGSIZE then sleep ChanLog LogLock
     else seq (modify_log (\<lambda>l. l\<lparr>lg_outstanding := lg_outstanding l + 1\<rparr>)) (unlock LogLock))"

definition begin_op :: "'z klog_scheme \<Rightarrow> ('z klog_scheme, unit) res" where
  "begin_op = seq (lock LogLock) begin_op_loop"

definition begin_op_resume :: "bool \<Rightarrow> nat \<Rightarrow> 'z klog_scheme \<Rightarrow> ('z klog_scheme, unit) res" where
  "begin_op_resume saved p = seq (sleep_finish saved p LogLock) begin_op_loop"

definition write_log_one :: "nat \<Rightarrow> 'z klog_scheme \<Rightarrow> ('z klog_scheme, unit) res" where
  "write_log_one tail =
     bind (get_log id) (\<lambda>l.
     bind (bread (u32_of_int (lg_dev l)) (u32_of_int (lg_start l + int tail + 1))) (\<lambda>to.
     bind (bread (u32_of_int (lg_dev l)) (u32_of_int (lh_block l tail))) (\<lambda>from.
     bind (get_buf from) (\<lambda>x.
     seq (modify_buf to (\<lambda>y. y\<lparr>b_data := b_data x\<rparr>)) (
     seq (bwrite to) (
     seq (brelse from)
         (brelse to)))))))"

definition write_log :: "'z klog_scheme \<Rightarrow> ('z klog_scheme, unit) res" where
  "write_log = bind (get_log lh_n) (\<lambda>n. for_each [0..<nat n] write_log_one)"

definition commit :: "'z klog_scheme \<Rightarrow> ('z klog_scheme, unit) res" where
  "commit =
     bind (get_log lh_n) (\<lambda>n.
     whenever (n > 0) (
       seq write_log (
       seq write_head (
       seq (install_trans False) (
       seq (modify_log (\<lambda>l. l\<lparr>lh_n := 0\<rparr>))
           write_head)))))"

definition end_op :: "'z klog_scheme \<Rightarrow> ('z klog_scheme, unit) res" where
  "end_op =
     seq (lock LogLock) (
     seq (modify_log (\<lambda>l. l\<lparr>lg_outstanding := lg_outstanding l - 1\<rparr>)) (
     bind (get_log id) (\<lambda>l.
     if lg_committing l then panic ''log.committing'' else
     let do_commit = (lg_outstanding l = 0) in
     seq (if do_commit then modify_log (\<lambda>l. l\<lparr>lg_committing := True\<rparr>) else wakeup ChanLog) (
     seq (unlock LogLock) (
     whenever do_commit (
       seq commit (
       seq (lock LogLock) (
       seq (modify_log (\<lambda>l. l\<lparr>lg_committing := False\<rparr>)) (
       seq (wakeup ChanLog)
           (unlock LogLock))))))))))"

text \<open>The search of \<open>log_write\<close>: the first slot that holds the block, or the slot after the last.\<close>

fun log_slot :: "nat \<Rightarrow> nat \<Rightarrow> (nat \<Rightarrow> int) \<Rightarrow> u32 \<Rightarrow> nat" where
  "log_slot 0 i block b = i"
| "log_slot (Suc n) i block b = (if u32_of_int (block i) = b then i else log_slot n (Suc i) block b)"

definition log_write :: "nat \<Rightarrow> 'z klog_scheme \<Rightarrow> ('z klog_scheme, unit) res" where
  "log_write b =
     bind (get_log id) (\<lambda>l.
     if lh_n l \<ge> int LOGSIZE \<or> lh_n l \<ge> lg_size l - 1 then panic ''too big a transaction'' else
     if lg_outstanding l < 1 then panic ''log_write outside of trans'' else
     seq (lock LogLock) (
     bind (get_buf b) (\<lambda>x.
     bind (get_log id) (\<lambda>l.
     let i = log_slot (nat (lh_n l)) 0 (lh_block l) (b_blockno x) in
     seq (modify_log (\<lambda>l. l\<lparr>lh_block := (lh_block l)(i := sint (b_blockno x))\<rparr>)) (
     seq (whenever (int i = lh_n l) (seq (bpin b) (modify_log (\<lambda>l. l\<lparr>lh_n := lh_n l + 1\<rparr>))))
         (unlock LogLock))))))"

end
