(* ===== verification/Fs.thy ===== *)
theory Fs
  imports Log
begin

text \<open>
  The file system, \<open>src/kernel/fs.c\<close>, on the on-disk format of \<open>src/kernel/fs.h\<close>: the block
  allocator, the inode cache, inode contents, directories and path names.

  An inode is named by its index in \<open>icache.inode\<close>. Inodes and directory entries are read from and
  written to the bytes of buffers. A path is the list of its bytes up to the NUL. \<open>readi\<close> and
  \<open>writei\<close> move data to or from a user address, a kernel address, or a local variable of the
  caller; in the last case the bytes are part of the result or of the argument.
\<close>

section \<open>Format (fs.h, stat.h)\<close>

definition ROOTINO :: u32 where "ROOTINO = 1"
definition FSMAGIC :: u32 where "FSMAGIC = 0x10203040"
definition NDIRECT :: nat where "NDIRECT = 12"
definition NINDIRECT :: nat where "NINDIRECT = BSIZE div 4"
definition MAXFILE :: nat where "MAXFILE = NDIRECT + NINDIRECT"
definition IPB :: nat where "IPB = BSIZE div 64"
definition BPB :: nat where "BPB = BSIZE * 8"
definition DIRSIZ :: nat where "DIRSIZ = 14"

definition T_DIR :: u16 where "T_DIR = 1"
definition T_FILE :: u16 where "T_FILE = 2"
definition T_DEV :: u16 where "T_DEV = 3"

definition get16 :: "byte list \<Rightarrow> nat \<Rightarrow> u16" where
  "get16 bs off = le_word (take 2 (drop off bs))"

record dinode =
  di_type :: u16
  di_major :: u16
  di_minor :: u16
  di_nlink :: u16
  di_size :: u32
  di_addrs :: "u32 list"

definition DINODE_SIZE :: nat where "DINODE_SIZE = 64"

definition dinode_bytes :: "dinode \<Rightarrow> byte list" where
  "dinode_bytes d = le_bytes 2 (di_type d) @ le_bytes 2 (di_major d) @ le_bytes 2 (di_minor d) @
     le_bytes 2 (di_nlink d) @ le_bytes 4 (di_size d) @ concat (map (le_bytes 4) (di_addrs d))"

definition dinode_of :: "byte list \<Rightarrow> dinode" where
  "dinode_of bs = \<lparr>di_type = get16 bs 0, di_major = get16 bs 2, di_minor = get16 bs 4,
     di_nlink = get16 bs 6, di_size = get32 bs 8,
     di_addrs = map (\<lambda>i. get32 bs (12 + 4 * i)) [0..<NDIRECT + 1]\<rparr>"

definition DIRENT_SIZE :: nat where "DIRENT_SIZE = 16"

definition dirent_bytes :: "u16 \<Rightarrow> view \<Rightarrow> byte list" where
  "dirent_bytes inum name = le_bytes 2 inum @ map name [0..<DIRSIZ]"

definition de_inum :: "byte list \<Rightarrow> u16" where
  "de_inum bs = get16 bs 0"

definition de_name :: "byte list \<Rightarrow> view" where
  "de_name bs = view_of (take DIRSIZ (drop 2 bs))"

definition superblock_of :: "byte list \<Rightarrow> superblock" where
  "superblock_of bs = \<lparr>sb_magic = get32 bs 0, sb_size = get32 bs 4, sb_nblocks = get32 bs 8,
     sb_ninodes = get32 bs 12, sb_nlog = get32 bs 16, sb_logstart = get32 bs 20,
     sb_inodestart = get32 bs 24, sb_bmapstart = get32 bs 28\<rparr>"

section \<open>State\<close>

record inode =
  i_dev :: u32
  i_inum :: u32
  i_ref :: int
  i_valid :: bool
  i_type :: u16
  i_major :: u16
  i_minor :: u16
  i_nlink :: u16
  i_size :: u32
  i_addrs :: "nat \<Rightarrow> u32"

record kfs = klog +
  fsb :: superblock
  inodes :: "nat \<Rightarrow> inode"

definition get_inode :: "nat \<Rightarrow> 'z kfs_scheme \<Rightarrow> ('z kfs_scheme, inode) res" where
  "get_inode i = gets (\<lambda>s. inodes s i)"

definition modify_inode :: "nat \<Rightarrow> (inode \<Rightarrow> inode) \<Rightarrow> 'z kfs_scheme \<Rightarrow> ('z kfs_scheme, unit) res" where
  "modify_inode i f = modify (\<lambda>s. s\<lparr>inodes := (inodes s)(i := f (inodes s i))\<rparr>)"

definition IBLOCK :: "u32 \<Rightarrow> superblock \<Rightarrow> u32" where
  "IBLOCK i sb = i div of_nat IPB + sb_inodestart sb"

definition BBLOCK :: "u32 \<Rightarrow> superblock \<Rightarrow> u32" where
  "BBLOCK b sb = b div of_nat BPB + sb_bmapstart sb"

section \<open>Blocks\<close>

definition readsb :: "u32 \<Rightarrow> 'z kfs_scheme \<Rightarrow> ('z kfs_scheme, unit) res" where
  "readsb dev =
     bind (bread dev 1) (\<lambda>bp.
     bind (get_buf bp) (\<lambda>x.
     seq (modify (\<lambda>s. s\<lparr>fsb := superblock_of (b_data x)\<rparr>)) (
     seq (brelse bp) (
     bind (bread dev 2) (\<lambda>bp. brelse bp)))))"

definition fsinit :: "u32 \<Rightarrow> 'z kfs_scheme \<Rightarrow> ('z kfs_scheme, unit) res" where
  "fsinit dev =
     seq (readsb dev) (
     bind (gets fsb) (\<lambda>sb.
     if sb_magic sb \<noteq> FSMAGIC then panic ''invalid file system''
     else initlog (sint dev) sb))"

definition bzero :: "u32 \<Rightarrow> u32 \<Rightarrow> 'z kfs_scheme \<Rightarrow> ('z kfs_scheme, unit) res" where
  "bzero dev bno =
     bind (bread dev bno) (\<lambda>bp.
     seq (modify_buf bp (\<lambda>x. x\<lparr>b_data := replicate BSIZE 0\<rparr>)) (
     seq (log_write bp)
         (brelse bp)))"

definition bit_mask :: "nat \<Rightarrow> byte" where
  "bit_mask bi = push_bit (bi mod 8) 1"

definition bit_clear :: "byte list \<Rightarrow> nat \<Rightarrow> bool" where
  "bit_clear bs bi \<longleftrightarrow> bs ! (bi div 8) AND bit_mask bi = 0"

definition set_bit_at :: "nat \<Rightarrow> byte list \<Rightarrow> byte list" where
  "set_bit_at bi bs = bs[bi div 8 := bs ! (bi div 8) OR bit_mask bi]"

definition clear_bit_at :: "nat \<Rightarrow> byte list \<Rightarrow> byte list" where
  "clear_bit_at bi bs = bs[bi div 8 := bs ! (bi div 8) AND NOT (bit_mask bi)]"

text \<open>The outer loop of \<open>balloc\<close> over the bitmap blocks; \<open>b\<close> is the first block of each.\<close>

fun balloc_from :: "u32 \<Rightarrow> nat list \<Rightarrow> 'z kfs_scheme \<Rightarrow> ('z kfs_scheme, u32) res" where
  "balloc_from dev [] = panic ''balloc: out of blocks''"
| "balloc_from dev (b # bs) =
     bind (gets fsb) (\<lambda>sb.
     bind (bread dev (BBLOCK (of_nat b) sb)) (\<lambda>bp.
     bind (get_buf bp) (\<lambda>x.
     case List.find (bit_clear (b_data x)) [0..<min BPB (unat (sb_size sb) - b)] of
       Some bi \<Rightarrow>
         seq (modify_buf bp (\<lambda>x. x\<lparr>b_data := set_bit_at bi (b_data x)\<rparr>)) (
         seq (log_write bp) (
         seq (brelse bp) (
         seq (bzero dev (of_nat (b + bi))) (return (of_nat (b + bi))))))
     | None \<Rightarrow> seq (brelse bp) (balloc_from dev bs))))"

definition balloc :: "u32 \<Rightarrow> 'z kfs_scheme \<Rightarrow> ('z kfs_scheme, u32) res" where
  "balloc dev =
     bind (gets fsb) (\<lambda>sb.
     balloc_from dev (map (\<lambda>k. k * BPB) [0..<(unat (sb_size sb) + BPB - 1) div BPB]))"

definition bfree :: "u32 \<Rightarrow> u32 \<Rightarrow> 'z kfs_scheme \<Rightarrow> ('z kfs_scheme, unit) res" where
  "bfree dev b =
     bind (gets fsb) (\<lambda>sb.
     bind (bread dev (BBLOCK b sb)) (\<lambda>bp.
     let bi = unat b mod BPB in
     bind (get_buf bp) (\<lambda>x.
     if bit_clear (b_data x) bi then panic ''freeing free block'' else
     seq (modify_buf bp (\<lambda>x. x\<lparr>b_data := clear_bit_at bi (b_data x)\<rparr>)) (
     seq (log_write bp)
         (brelse bp)))))"

section \<open>The inode cache\<close>

definition iinit :: "'z kfs_scheme \<Rightarrow> ('z kfs_scheme, unit) res" where
  "iinit =
     seq (on_hw (initlock IcacheLock ''icache''))
         (for_each [0..<NINODE] (\<lambda>i. initsleeplock (SInode i) ''inode''))"

text \<open>The loop of \<open>iget\<close>: the entry that has the inode, or else the first empty entry.\<close>

fun iget_scan :: "(nat \<Rightarrow> inode) \<Rightarrow> u32 \<Rightarrow> u32 \<Rightarrow> nat list \<Rightarrow> nat option \<Rightarrow> nat option \<times> nat option" where
  "iget_scan ins dev inum [] e = (None, e)"
| "iget_scan ins dev inum (i # is) e =
     (if i_ref (ins i) > 0 \<and> i_dev (ins i) = dev \<and> i_inum (ins i) = inum then (Some i, e)
      else iget_scan ins dev inum is (if e = None \<and> i_ref (ins i) = 0 then Some i else e))"

definition iget :: "u32 \<Rightarrow> u32 \<Rightarrow> 'z kfs_scheme \<Rightarrow> ('z kfs_scheme, nat) res" where
  "iget dev inum =
     seq (lock IcacheLock) (
     bind (gets inodes) (\<lambda>ins.
     case iget_scan ins dev inum [0..<NINODE] None of
       (Some ip, _) \<Rightarrow>
         seq (modify_inode ip (\<lambda>x. x\<lparr>i_ref := i_ref x + 1\<rparr>)) (
         seq (unlock IcacheLock) (return ip))
     | (None, None) \<Rightarrow> panic ''iget: no inodes''
     | (None, Some ip) \<Rightarrow>
         seq (modify_inode ip (\<lambda>x. x\<lparr>i_dev := dev, i_inum := inum, i_ref := 1, i_valid := False\<rparr>)) (
         seq (unlock IcacheLock) (return ip))))"

definition idup :: "nat \<Rightarrow> 'z kfs_scheme \<Rightarrow> ('z kfs_scheme, nat) res" where
  "idup ip =
     seq (lock IcacheLock) (
     seq (modify_inode ip (\<lambda>x. x\<lparr>i_ref := i_ref x + 1\<rparr>)) (
     seq (unlock IcacheLock) (return ip)))"

definition dinode_slot :: "u32 \<Rightarrow> nat" where
  "dinode_slot inum = (unat inum mod IPB) * DINODE_SIZE"

fun ialloc_from :: "u32 \<Rightarrow> u16 \<Rightarrow> nat list \<Rightarrow> 'z kfs_scheme \<Rightarrow> ('z kfs_scheme, nat) res" where
  "ialloc_from dev ty [] = panic ''ialloc: no inodes''"
| "ialloc_from dev ty (inum # is) =
     bind (gets fsb) (\<lambda>sb.
     bind (bread dev (IBLOCK (of_nat inum) sb)) (\<lambda>bp.
     let off = dinode_slot (of_nat inum) in
     bind (get_buf bp) (\<lambda>x.
     if di_type (dinode_of (drop off (b_data x))) = 0 then
       seq (modify_buf bp (\<lambda>x. x\<lparr>b_data := put_bytes (b_data x) off (replicate DINODE_SIZE 0)\<rparr>)) (
       seq (modify_buf bp (\<lambda>x. x\<lparr>b_data := put_bytes (b_data x) off (le_bytes 2 ty)\<rparr>)) (
       seq (log_write bp) (
       seq (brelse bp)
           (iget dev (of_nat inum)))))
     else seq (brelse bp) (ialloc_from dev ty is))))"

definition ialloc :: "u32 \<Rightarrow> u16 \<Rightarrow> 'z kfs_scheme \<Rightarrow> ('z kfs_scheme, nat) res" where
  "ialloc dev ty = bind (gets fsb) (\<lambda>sb. ialloc_from dev ty [1..<unat (sb_ninodes sb)])"

definition inode_dinode :: "inode \<Rightarrow> dinode" where
  "inode_dinode ip = \<lparr>di_type = i_type ip, di_major = i_major ip, di_minor = i_minor ip,
     di_nlink = i_nlink ip, di_size = i_size ip, di_addrs = map (i_addrs ip) [0..<NDIRECT + 1]\<rparr>"

definition load_dinode :: "dinode \<Rightarrow> inode \<Rightarrow> inode" where
  "load_dinode d ip = ip\<lparr>i_type := di_type d, i_major := di_major d, i_minor := di_minor d,
     i_nlink := di_nlink d, i_size := di_size d,
     i_addrs := (\<lambda>i. if i < NDIRECT + 1 then di_addrs d ! i else i_addrs ip i)\<rparr>"

definition iupdate :: "nat \<Rightarrow> 'z kfs_scheme \<Rightarrow> ('z kfs_scheme, unit) res" where
  "iupdate ip =
     bind (gets fsb) (\<lambda>sb.
     bind (get_inode ip) (\<lambda>i.
     bind (bread (i_dev i) (IBLOCK (i_inum i) sb)) (\<lambda>bp.
     seq (modify_buf bp (\<lambda>x. x\<lparr>b_data :=
            put_bytes (b_data x) (dinode_slot (i_inum i)) (dinode_bytes (inode_dinode i))\<rparr>)) (
     seq (log_write bp)
         (brelse bp)))))"

definition ilock :: "nat option \<Rightarrow> 'z kfs_scheme \<Rightarrow> ('z kfs_scheme, unit) res" where
  "ilock p =
     (case p of None \<Rightarrow> panic ''ilock'' | Some ip \<Rightarrow>
     bind (get_inode ip) (\<lambda>i.
     if i_ref i < 1 then panic ''ilock'' else
     seq (acquiresleep (SInode ip)) (
     bind (get_inode ip) (\<lambda>i.
     whenever (\<not> i_valid i) (
       bind (gets fsb) (\<lambda>sb.
       bind (bread (i_dev i) (IBLOCK (i_inum i) sb)) (\<lambda>bp.
       bind (get_buf bp) (\<lambda>x.
       let d = dinode_of (drop (dinode_slot (i_inum i)) (b_data x)) in
       seq (modify_inode ip (load_dinode d)) (
       seq (brelse bp) (
       seq (modify_inode ip (\<lambda>i. i\<lparr>i_valid := True\<rparr>))
           (whenever (di_type d = 0) (panic ''ilock: no type''))))))))))))"

definition iunlock :: "nat option \<Rightarrow> 'z kfs_scheme \<Rightarrow> ('z kfs_scheme, unit) res" where
  "iunlock p =
     (case p of None \<Rightarrow> panic ''iunlock'' | Some ip \<Rightarrow>
     bind (holdingsleep (SInode ip)) (\<lambda>h.
     bind (get_inode ip) (\<lambda>i.
     if \<not> h \<or> i_ref i < 1 then panic ''iunlock'' else releasesleep (SInode ip))))"

section \<open>Inode contents\<close>

definition bmap :: "nat \<Rightarrow> u32 \<Rightarrow> 'z kfs_scheme \<Rightarrow> ('z kfs_scheme, u32) res" where
  "bmap ip bn =
     (if unat bn < NDIRECT then
        bind (get_inode ip) (\<lambda>i.
        if i_addrs i (unat bn) = 0 then
          bind (balloc (i_dev i)) (\<lambda>addr.
          seq (modify_inode ip (\<lambda>i. i\<lparr>i_addrs := (i_addrs i)(unat bn := addr)\<rparr>)) (return addr))
        else return (i_addrs i (unat bn)))
      else let bn = unat bn - NDIRECT in
      if bn < NINDIRECT then
        bind (get_inode ip) (\<lambda>i.
        bind (if i_addrs i NDIRECT = 0 then
                bind (balloc (i_dev i)) (\<lambda>addr.
                seq (modify_inode ip (\<lambda>i. i\<lparr>i_addrs := (i_addrs i)(NDIRECT := addr)\<rparr>)) (return addr))
              else return (i_addrs i NDIRECT)) (\<lambda>addr.
        bind (bread (i_dev i) addr) (\<lambda>bp.
        bind (get_buf bp) (\<lambda>x.
        let a = get32 (b_data x) (4 * bn) in
        bind (if a = 0 then
                bind (balloc (i_dev i)) (\<lambda>a'.
                seq (modify_buf bp (\<lambda>x. x\<lparr>b_data := put32 (b_data x) (4 * bn) a'\<rparr>)) (
                seq (log_write bp) (return a')))
              else return a) (\<lambda>a.
        seq (brelse bp) (return a))))))
      else panic ''bmap: out of range'')"

definition itrunc_direct :: "nat \<Rightarrow> nat \<Rightarrow> 'z kfs_scheme \<Rightarrow> ('z kfs_scheme, unit) res" where
  "itrunc_direct ip k =
     bind (get_inode ip) (\<lambda>i.
     whenever (i_addrs i k \<noteq> 0)
       (seq (bfree (i_dev i) (i_addrs i k))
            (modify_inode ip (\<lambda>i. i\<lparr>i_addrs := (i_addrs i)(k := 0)\<rparr>))))"

definition itrunc :: "nat \<Rightarrow> 'z kfs_scheme \<Rightarrow> ('z kfs_scheme, unit) res" where
  "itrunc ip =
     seq (for_each [0..<NDIRECT] (itrunc_direct ip)) (
     bind (get_inode ip) (\<lambda>i.
     seq (whenever (i_addrs i NDIRECT \<noteq> 0) (
            bind (bread (i_dev i) (i_addrs i NDIRECT)) (\<lambda>bp.
            seq (for_each [0..<NINDIRECT] (\<lambda>j.
                   bind (get_buf bp) (\<lambda>x.
                   whenever (get32 (b_data x) (4 * j) \<noteq> 0) (bfree (i_dev i) (get32 (b_data x) (4 * j)))))) (
            seq (brelse bp) (
            seq (bfree (i_dev i) (i_addrs i NDIRECT))
                (modify_inode ip (\<lambda>i. i\<lparr>i_addrs := (i_addrs i)(NDIRECT := 0)\<rparr>))))))) (
     seq (modify_inode ip (\<lambda>i. i\<lparr>i_size := 0\<rparr>))
         (iupdate ip))))"

definition iput :: "nat \<Rightarrow> 'z kfs_scheme \<Rightarrow> ('z kfs_scheme, unit) res" where
  "iput ip =
     seq (lock IcacheLock) (
     bind (get_inode ip) (\<lambda>i.
     seq (whenever (i_ref i = 1 \<and> i_valid i \<and> i_nlink i = 0) (
            seq (acquiresleep (SInode ip)) (
            seq (unlock IcacheLock) (
            seq (itrunc ip) (
            seq (modify_inode ip (\<lambda>i. i\<lparr>i_type := 0\<rparr>)) (
            seq (iupdate ip) (
            seq (modify_inode ip (\<lambda>i. i\<lparr>i_valid := False\<rparr>)) (
            seq (releasesleep (SInode ip))
                (lock IcacheLock))))))))) (
     seq (modify_inode ip (\<lambda>i. i\<lparr>i_ref := i_ref i - 1\<rparr>))
         (unlock IcacheLock))))"

definition iunlockput :: "nat option \<Rightarrow> 'z kfs_scheme \<Rightarrow> ('z kfs_scheme, unit) res" where
  "iunlockput p = seq (iunlock p) (bind (deref ''iunlockput'' p) iput)"

record stat =
  st_type :: u16
  st_dev :: int
  st_ino :: u32
  st_nlink :: u16
  st_size :: u32

definition stati :: "nat \<Rightarrow> 'z kfs_scheme \<Rightarrow> ('z kfs_scheme, stat) res" where
  "stati ip = bind (get_inode ip) (\<lambda>i. return \<lparr>st_type = i_type i, st_dev = sint (i_dev i),
     st_ino = i_inum i, st_nlink = i_nlink i, st_size = i_size i\<rparr>)"

text \<open>Where \<open>readi\<close> puts the data and where \<open>writei\<close> takes it from.\<close>

datatype dest = ToUser u64 | ToKernel u64 | ToLocal

datatype source = FromUser u64 | FromKernel u64 | FromLocal "byte list"

fun copy_to :: "dest \<Rightarrow> u32 \<Rightarrow> byte list \<Rightarrow> 'z kfs_scheme \<Rightarrow> ('z kfs_scheme, int) res" where
  "copy_to (ToUser a) tot bs = either_copyout True (a + ucast tot) bs (of_nat (length bs))"
| "copy_to (ToKernel a) tot bs = either_copyout False (a + ucast tot) bs (of_nat (length bs))"
| "copy_to ToLocal tot bs = return 0"

fun copy_from :: "source \<Rightarrow> u32 \<Rightarrow> u32 \<Rightarrow> 'z kfs_scheme \<Rightarrow> ('z kfs_scheme, int \<times> byte list) res" where
  "copy_from (FromUser a) tot m = either_copyin True (a + ucast tot) (ucast m)"
| "copy_from (FromKernel a) tot m = either_copyin False (a + ucast tot) (ucast m)"
| "copy_from (FromLocal bs) tot m = return (0, take (unat m) (drop (unat tot) bs))"

definition io_len :: "u32 \<Rightarrow> u32 \<Rightarrow> u32 \<Rightarrow> u32" where
  "io_len n tot off =
     (let a = n - tot; b = of_nat BSIZE - off mod of_nat BSIZE in if a < b then a else b)"

text \<open>
  The loops move at least one byte per round. The result of \<open>readi_loop\<close> is the return value and
  the bytes that a local destination has received.
\<close>

fun readi_loop :: "nat \<Rightarrow> nat \<Rightarrow> dest \<Rightarrow> u32 \<Rightarrow> u32 \<Rightarrow> u32 \<Rightarrow> byte list \<Rightarrow> 'z kfs_scheme \<Rightarrow>
    ('z kfs_scheme, int \<times> byte list) res" where
  "readi_loop fuel ip dst off n tot acc =
     (if fuel = 0 then stop (Hang ''readi'') else
      if \<not> tot < n then return (sint tot, acc) else
      bind (get_inode ip) (\<lambda>i.
      bind (bmap ip (off div of_nat BSIZE)) (\<lambda>a.
      bind (bread (i_dev i) a) (\<lambda>bp.
      bind (get_buf bp) (\<lambda>x.
      let m = io_len n tot off;
          bs = take (unat m) (drop (unat off mod BSIZE) (b_data x)) in
      bind (copy_to dst tot bs) (\<lambda>r.
      if r = - 1 then seq (brelse bp) (return (- 1, acc))
      else seq (brelse bp) (readi_loop (fuel - 1) ip dst (off + m) n (tot + m) (acc @ bs))))))))"

definition readi :: "nat \<Rightarrow> dest \<Rightarrow> u32 \<Rightarrow> u32 \<Rightarrow> 'z kfs_scheme \<Rightarrow> ('z kfs_scheme, int \<times> byte list) res" where
  "readi ip dst off n =
     bind (get_inode ip) (\<lambda>i.
     if off > i_size i \<or> off + n < off then return (0, []) else
     let n' = (if off + n > i_size i then i_size i - off else n) in
     readi_loop (Suc (unat n')) ip dst off n' 0 [])"

fun writei_loop :: "nat \<Rightarrow> nat \<Rightarrow> source \<Rightarrow> u32 \<Rightarrow> u32 \<Rightarrow> u32 \<Rightarrow> 'z kfs_scheme \<Rightarrow>
    ('z kfs_scheme, u32 \<times> u32) res" where
  "writei_loop fuel ip src off n tot =
     (if fuel = 0 then stop (Hang ''writei'') else
      if \<not> tot < n then return (n, off) else
      bind (get_inode ip) (\<lambda>i.
      bind (bmap ip (off div of_nat BSIZE)) (\<lambda>a.
      bind (bread (i_dev i) a) (\<lambda>bp.
      let m = io_len n tot off in
      bind (copy_from src tot m) (\<lambda>(r, bs).
      seq (modify_buf bp (\<lambda>x. x\<lparr>b_data := put_bytes (b_data x) (unat off mod BSIZE) bs\<rparr>)) (
      if r = - 1 then seq (brelse bp) (return (- 1, off))
      else seq (log_write bp) (
           seq (brelse bp)
               (writei_loop (fuel - 1) ip src (off + m) n (tot + m)))))))))"

definition writei :: "nat \<Rightarrow> source \<Rightarrow> u32 \<Rightarrow> u32 \<Rightarrow> 'z kfs_scheme \<Rightarrow> ('z kfs_scheme, int) res" where
  "writei ip src off n =
     bind (get_inode ip) (\<lambda>i.
     if off > i_size i \<or> off + n < off then return (- 1) else
     if unat (off + n) > MAXFILE * BSIZE then return (- 1) else
     bind (writei_loop (Suc (unat n)) ip src off n 0) (\<lambda>(n', off').
     seq (whenever (n' > 0) (
            bind (get_inode ip) (\<lambda>i.
            seq (whenever (off' > i_size i) (modify_inode ip (\<lambda>i. i\<lparr>i_size := off'\<rparr>)))
                (iupdate ip))))
         (return (sint n'))))"

section \<open>Directories\<close>

definition namecmp :: "view \<Rightarrow> view \<Rightarrow> int" where
  "namecmp s t = strncmp s t (of_nat DIRSIZ)"

text \<open>The entry's offset and inode number, by the loop of \<open>dirlookup\<close>.\<close>

fun dirlookup_loop :: "nat \<Rightarrow> nat \<Rightarrow> view \<Rightarrow> u32 \<Rightarrow> 'z kfs_scheme \<Rightarrow>
    ('z kfs_scheme, (u32 \<times> u16) option) res" where
  "dirlookup_loop fuel dp name off =
     (if fuel = 0 then stop (Hang ''dirlookup'') else
      bind (get_inode dp) (\<lambda>d.
      if \<not> off < i_size d then return None else
      bind (readi dp ToLocal off (of_nat DIRENT_SIZE)) (\<lambda>(r, de).
      if r \<noteq> int DIRENT_SIZE then panic ''dirlookup read'' else
      if de_inum de \<noteq> 0 \<and> namecmp name (de_name de) = 0 then return (Some (off, de_inum de))
      else dirlookup_loop (fuel - 1) dp name (off + of_nat DIRENT_SIZE))))"

definition dirlookup :: "nat \<Rightarrow> view \<Rightarrow> 'z kfs_scheme \<Rightarrow> ('z kfs_scheme, (nat \<times> u32) option) res" where
  "dirlookup dp name =
     bind (get_inode dp) (\<lambda>d.
     if i_type d \<noteq> T_DIR then panic ''dirlookup not DIR'' else
     bind (dirlookup_loop (2 ^ 29) dp name 0) (\<lambda>r.
     case r of
       None \<Rightarrow> return None
     | Some (off, inum) \<Rightarrow> bind (iget (i_dev d) (ucast inum)) (\<lambda>ip. return (Some (ip, off)))))"

fun dirlink_slot :: "nat \<Rightarrow> nat \<Rightarrow> u32 \<Rightarrow> 'z kfs_scheme \<Rightarrow> ('z kfs_scheme, u32) res" where
  "dirlink_slot fuel dp off =
     (if fuel = 0 then stop (Hang ''dirlink'') else
      bind (get_inode dp) (\<lambda>d.
      if \<not> off < i_size d then return off else
      bind (readi dp ToLocal off (of_nat DIRENT_SIZE)) (\<lambda>(r, de).
      if r \<noteq> int DIRENT_SIZE then panic ''dirlink read'' else
      if de_inum de = 0 then return off
      else dirlink_slot (fuel - 1) dp (off + of_nat DIRENT_SIZE))))"

definition dirlink :: "nat \<Rightarrow> view \<Rightarrow> u32 \<Rightarrow> 'z kfs_scheme \<Rightarrow> ('z kfs_scheme, int) res" where
  "dirlink dp name inum =
     bind (dirlookup dp name) (\<lambda>r.
     case r of
       Some (ip, _) \<Rightarrow> seq (iput ip) (return (- 1))
     | None \<Rightarrow>
         bind (dirlink_slot (2 ^ 29) dp 0) (\<lambda>off.
         let de = dirent_bytes (ucast inum) (strncpy (\<lambda>_. 0) name (int DIRSIZ)) in
         bind (writei dp (FromLocal de) off (of_nat DIRENT_SIZE)) (\<lambda>r.
         if r \<noteq> int DIRENT_SIZE then panic ''dirlink'' else return 0)))"

section \<open>Paths\<close>

definition slash :: byte where "slash = 47"

text \<open>
  \<open>skipelem\<close> gives the element as it leaves the buffer \<open>name\<close>, and the rest of the path; None is
  the null pointer.
\<close>

definition skipelem :: "byte list \<Rightarrow> view \<Rightarrow> (view \<times> byte list) option" where
  "skipelem path name =
     (let path = dropWhile (\<lambda>c. c = slash) path in
      if path = [] then None else
      let s = takeWhile (\<lambda>c. c \<noteq> slash) path; len = length s;
          name' = (if len \<ge> DIRSIZ then (\<lambda>i. if i < DIRSIZ then s ! i else name i)
                   else (\<lambda>i. if i < len then s ! i else name i)(len := 0))
      in Some (name', dropWhile (\<lambda>c. c = slash) (dropWhile (\<lambda>c. c \<noteq> slash) path)))"

text \<open>Every round takes at least one byte off the path. The result is the inode and the name.\<close>

fun namex_loop :: "nat \<Rightarrow> byte list \<Rightarrow> bool \<Rightarrow> view \<Rightarrow> nat \<Rightarrow> 'z kfs_scheme \<Rightarrow>
    ('z kfs_scheme, nat option \<times> view) res" where
  "namex_loop fuel path nameiparent name ip =
     (if fuel = 0 then stop (Hang ''namex'') else
      case skipelem path name of
        None \<Rightarrow>
          if nameiparent then seq (iput ip) (return (None, name)) else return (Some ip, name)
      | Some (name, path) \<Rightarrow>
          seq (ilock (Some ip)) (
          bind (get_inode ip) (\<lambda>i.
          if i_type i \<noteq> T_DIR then seq (iunlockput (Some ip)) (return (None, name)) else
          if nameiparent \<and> path = [] then seq (iunlock (Some ip)) (return (Some ip, name)) else
          bind (dirlookup ip name) (\<lambda>r.
          case r of
            None \<Rightarrow> seq (iunlockput (Some ip)) (return (None, name))
          | Some (next, _) \<Rightarrow>
              seq (iunlockput (Some ip)) (namex_loop (fuel - 1) path nameiparent name next)))))"

definition namex :: "byte list \<Rightarrow> bool \<Rightarrow> view \<Rightarrow> 'z kfs_scheme \<Rightarrow> ('z kfs_scheme, nat option \<times> view) res" where
  "namex path nameiparent name =
     bind (if path \<noteq> [] \<and> hd path = slash then iget ROOTDEV ROOTINO
           else bind curproc (\<lambda>p. bind (gets (\<lambda>s. p_cwd (procs s p))) (\<lambda>c.
                bind (deref ''namex: cwd'' c) idup)))
       (\<lambda>ip. namex_loop (Suc (length path)) path nameiparent name ip)"

definition namei :: "byte list \<Rightarrow> 'z kfs_scheme \<Rightarrow> ('z kfs_scheme, nat option) res" where
  "namei path = bind (namex path False (\<lambda>_. 0)) (\<lambda>(ip, _). return ip)"

definition nameiparent :: "byte list \<Rightarrow> view \<Rightarrow> 'z kfs_scheme \<Rightarrow> ('z kfs_scheme, nat option \<times> view) res" where
  "nameiparent path name = namex path True name"

declare readi_loop.simps [simp del] writei_loop.simps [simp del] dirlookup_loop.simps [simp del]
  dirlink_slot.simps [simp del] namex_loop.simps [simp del]

end
