(* ===== verification/Uart.thy ===== *)
theory Uart
  imports Fs
begin

text \<open>
  The serial port driver, \<open>src/kernel/uart.c\<close>: the transmit ring \<open>uart_tx_buf\<close> and the polled
  output used by \<open>printf\<close>. The PL011 device is not part of the repository. What the driver sees
  of it is in the state: the bytes it has been given (\<open>uart_sent\<close>), the values waiting in its
  receive FIFO (\<open>uart_rx\<close>), and the flag that says that its transmit FIFO is full, a function
  \<open>uart_full\<close> of the bytes sent so far. A driver that spins on a full FIFO stops with \<open>Hang\<close>.
\<close>

section \<open>State\<close>

definition UART_DR :: nat where "UART_DR = 0"
definition UART_FR :: nat where "UART_FR = 6"
definition UART_IBRD :: nat where "UART_IBRD = 9"
definition UART_FBRD :: nat where "UART_FBRD = 10"
definition UART_LCR :: nat where "UART_LCR = 11"
definition UART_CR :: nat where "UART_CR = 12"
definition UART_IMSC :: nat where "UART_IMSC = 14"
definition UART_MIS :: nat where "UART_MIS = 16"
definition UART_ICR :: nat where "UART_ICR = 17"
definition UARTFR_TXFF :: u32 where "UARTFR_TXFF = push_bit 5 1"
definition UARTFR_RXFE :: u32 where "UARTFR_RXFE = push_bit 4 1"
definition UARTCR_RXE :: u32 where "UARTCR_RXE = push_bit 9 1"
definition UARTCR_TXE :: u32 where "UARTCR_TXE = push_bit 8 1"
definition UARTCR_EN :: u32 where "UARTCR_EN = push_bit 0 1"
definition UARTLCR_FEN :: u32 where "UARTLCR_FEN = push_bit 4 1"
definition UART_RXI :: u32 where "UART_RXI = push_bit 4 1"
definition UART_TXI :: u32 where "UART_TXI = push_bit 5 1"
definition UART_BITRATE :: u32 where "UART_BITRATE = 19200"
definition UART_CLK :: u32 where "UART_CLK = 24000000"
definition UART_TX_BUF_SIZE :: nat where "UART_TX_BUF_SIZE = 32"

record kuart = kfs +
  uart_regs :: "nat \<Rightarrow> u32"
  uart_sent :: "byte list"
  uart_rx :: "u32 list"
  uart_full :: "byte list \<Rightarrow> bool"
  uart_tx_buf :: "nat \<Rightarrow> byte"
  uart_tx_w :: nat
  uart_tx_r :: nat
  panicked :: bool

definition uart_write_reg :: "nat \<Rightarrow> u32 \<Rightarrow> 'z kuart_scheme \<Rightarrow> ('z kuart_scheme, unit) res" where
  "uart_write_reg r v = modify (\<lambda>s. s\<lparr>uart_regs := (uart_regs s)(r := v)\<rparr>)"

text \<open>The flag register, and reads and writes of the data register.\<close>

definition uart_fr :: "'z kuart_scheme \<Rightarrow> u32" where
  "uart_fr s = (if uart_full s (uart_sent s) then UARTFR_TXFF else 0) OR
     (if uart_rx s = [] then UARTFR_RXFE else 0)"

definition uart_send :: "byte \<Rightarrow> 'z kuart_scheme \<Rightarrow> ('z kuart_scheme, unit) res" where
  "uart_send c = modify (\<lambda>s. s\<lparr>uart_sent := uart_sent s @ [c]\<rparr>)"

section \<open>Operations\<close>

definition uart_init :: "'z kuart_scheme \<Rightarrow> ('z kuart_scheme, unit) res" where
  "uart_init =
     seq (uart_write_reg UART_IBRD (UART_CLK div (16 * UART_BITRATE))) (
     let left = UART_CLK mod (16 * UART_BITRATE) in
     seq (uart_write_reg UART_FBRD ((left * 4 + UART_BITRATE div 2) div UART_BITRATE)) (
     bind (gets (\<lambda>s. uart_regs s UART_CR)) (\<lambda>cr.
     seq (uart_write_reg UART_CR (cr OR (UARTCR_EN OR UARTCR_RXE OR UARTCR_TXE))) (
     bind (gets (\<lambda>s. uart_regs s UART_LCR)) (\<lambda>lcr.
     seq (uart_write_reg UART_LCR (lcr OR UARTLCR_FEN))
         (on_hw (initlock UartTxLock ''uart'')))))))"

text \<open>The ring holds fewer than \<open>UART_TX_BUF_SIZE\<close> bytes, so that many rounds empty it.\<close>

fun uartstart_loop :: "nat \<Rightarrow> 'z kuart_scheme \<Rightarrow> ('z kuart_scheme, unit) res" where
  "uartstart_loop fuel =
     (if fuel = 0 then stop (Hang ''uartstart'') else
      bind (gets id) (\<lambda>s.
      if uart_tx_w s = uart_tx_r s then return () else
      if uart_fr s AND UARTFR_TXFF \<noteq> 0 then return () else
      let c = uart_tx_buf s (uart_tx_r s) in
      seq (modify (\<lambda>s. s\<lparr>uart_tx_r := (uart_tx_r s + 1) mod UART_TX_BUF_SIZE\<rparr>)) (
      seq (wakeup ChanUartTx) (
      seq (uart_send c)
          (uartstart_loop (fuel - 1))))))"

definition uartstart :: "'z kuart_scheme \<Rightarrow> ('z kuart_scheme, unit) res" where
  "uartstart = uartstart_loop (Suc UART_TX_BUF_SIZE)"

text \<open>The loop of \<open>uartputc\<close>, to which the process comes back after \<open>sleep\<close>.\<close>

definition uartputc_loop :: "int \<Rightarrow> 'z kuart_scheme \<Rightarrow> ('z kuart_scheme, unit) res" where
  "uartputc_loop c =
     bind (gets id) (\<lambda>s.
     if (uart_tx_w s + 1) mod UART_TX_BUF_SIZE = uart_tx_r s then sleep ChanUartTx UartTxLock else
     seq (modify (\<lambda>s. s\<lparr>uart_tx_buf := (uart_tx_buf s)(uart_tx_w s := word_of_int c)\<rparr>)) (
     seq (modify (\<lambda>s. s\<lparr>uart_tx_w := (uart_tx_w s + 1) mod UART_TX_BUF_SIZE\<rparr>)) (
     seq uartstart
         (unlock UartTxLock))))"

definition uartputc :: "int \<Rightarrow> 'z kuart_scheme \<Rightarrow> ('z kuart_scheme, unit) res" where
  "uartputc c =
     seq (lock UartTxLock) (
     bind (gets panicked) (\<lambda>b.
     if b then stop (Hang ''panicked'') else uartputc_loop c))"

definition uartputc_sync :: "int \<Rightarrow> 'z kuart_scheme \<Rightarrow> ('z kuart_scheme, unit) res" where
  "uartputc_sync c =
     seq (on_hw push_off) (
     bind (gets panicked) (\<lambda>b.
     if b then stop (Hang ''panicked'') else
     bind (gets uart_fr) (\<lambda>fr.
     if fr AND UARTFR_TXFF \<noteq> 0 then stop (Hang ''uartputc_sync'') else
     seq (uart_send (word_of_int c))
         (on_hw pop_off))))"

definition uartgetc :: "'z kuart_scheme \<Rightarrow> ('z kuart_scheme, int) res" where
  "uartgetc =
     bind (gets id) (\<lambda>s.
     case uart_rx s of
       [] \<Rightarrow> return (- 1)
     | v # vs \<Rightarrow> seq (modify (\<lambda>s. s\<lparr>uart_rx := vs\<rparr>)) (return (sint v)))"

declare uartstart_loop.simps [simp del]

end
