(* ===== verification/Digits.thy ===== *)
theory Digits
  imports Prelude
begin

text \<open>
  The digit loop that the two formatting routines share: \<open>printfint\<close> of \<open>src/kernel/printf.c\<close> and
  \<open>printint\<close> of \<open>src/user/printf.c\<close>, with the table of digits as an argument, and the value that
  decimal digits denote.
\<close>

text \<open>The digits of \<open>x\<close> in the given base, least significant first.\<close>

function int_digits :: "byte list \<Rightarrow> nat \<Rightarrow> nat \<Rightarrow> byte list" where
  "int_digits tab base x =
     (if base < 2 \<or> x < base then [tab ! (x mod base)]
      else tab ! (x mod base) # int_digits tab base (x div base))"
  by auto
termination
  by (relation "measure (\<lambda>(_, _, x). x)") (auto intro: div_less_dividend)

declare int_digits.simps [simp del]

text \<open>The text of \<open>xx\<close>: the loop stores the digits and the sign backwards, and then prints the buffer from its end.\<close>

definition int_text :: "byte list \<Rightarrow> int \<Rightarrow> nat \<Rightarrow> bool \<Rightarrow> byte list" where
  "int_text tab xx base sign =
     (let neg = sign \<and> xx < 0;
          x = (word_of_int (if neg then - xx else xx) :: u32);
          buf = int_digits tab base (unat x) @ (if neg then [45] else [])
      in rev buf)"

section \<open>Decimal numbers\<close>

text \<open>A table whose first ten entries are the decimal digits.\<close>

definition decimal_table :: "byte list \<Rightarrow> bool" where
  "decimal_table tab \<longleftrightarrow> 10 \<le> length tab \<and> (\<forall>d < 10. tab ! d = 48 + of_nat d)"

fun digits_value :: "byte list \<Rightarrow> nat" where
  "digits_value [] = 0"
| "digits_value (c # cs) = unat c - 48 + 10 * digits_value cs"

lemma decimal_digit:
  assumes "decimal_table tab" and "d < 10"
  shows "unat (tab ! d) = 48 + d"
proof -
  have "unat (of_nat (48 + d) :: byte) = 48 + d"
    using assms(2) by (simp only: unat_of_nat take_bit_eq_mod) simp
  then show ?thesis using assms by (simp add: decimal_table_def)
qed

lemma int_digits_value:
  assumes "decimal_table tab"
  shows "digits_value (int_digits tab 10 x) = x"
proof (induction x rule: less_induct)
  case (less x)
  note digit = decimal_digit [OF assms]
  show ?case
  proof (cases "x < 10")
    case True
    then show ?thesis by (subst int_digits.simps) (simp add: digit)
  next
    case False
    then have "digits_value (int_digits tab 10 (x div 10)) = x div 10" by (intro less) simp
    with False show ?thesis by (subst int_digits.simps) (simp add: digit)
  qed
qed

lemma int_digits_are_digits:
  assumes "decimal_table tab"
  shows "\<forall>c \<in> set (int_digits tab 10 x). 48 \<le> unat c \<and> unat c \<le> 57"
proof (induction x rule: less_induct)
  case (less x)
  have d: "48 \<le> unat (tab ! (x mod 10)) \<and> unat (tab ! (x mod 10)) \<le> 57"
    using decimal_digit [OF assms, of "x mod 10"] by simp
  show ?case
  proof (cases "x < 10")
    case True
    with d show ?thesis by (subst int_digits.simps) simp
  next
    case False
    then have "\<forall>c \<in> set (int_digits tab 10 (x div 10)). 48 \<le> unat c \<and> unat c \<le> 57" by (intro less) simp
    with False d show ?thesis by (subst int_digits.simps) simp
  qed
qed

lemma digits_value_append:
  "digits_value (xs @ ys) = digits_value xs + 10 ^ length xs * digits_value ys"
  by (induction xs) (simp_all add: algebra_simps)

text \<open>The buffer of 16 bytes is large enough: a 32-bit number has at most ten decimal digits.\<close>

lemma int_digits_length:
  assumes "x < base ^ n" and "2 \<le> base" and "0 < n"
  shows "length (int_digits tab base x) \<le> n"
  using assms
proof (induction n arbitrary: x)
  case 0
  then show ?case by simp
next
  case (Suc n)
  show ?case
  proof (cases "x < base")
    case True
    then show ?thesis by (subst int_digits.simps) simp
  next
    case False
    with Suc.prems have n: "0 < n" by (cases n) simp_all
    have "x div base < base ^ n" using Suc.prems by (simp add: less_mult_imp_div_less mult.commute)
    from Suc.IH [OF this Suc.prems(2) n] False Suc.prems(2) show ?thesis
      by (subst int_digits.simps) simp
  qed
qed

end
