(* ===== verification/Console.thy ===== *)
theory Console
  imports Uart Digits
begin

text \<open>
  Console input and output: \<open>src/kernel/console.c\<close>, \<open>src/kernel/printf.c\<close>, \<open>procdump\<close> of
  \<open>src/kernel/proc.c\<close> and the interrupt handler \<open>isr_uart\<close> of \<open>src/kernel/uart.c\<close>. The input ring
  \<open>cons.buf\<close> has three free-running 32-bit indices. The arguments of \<open>printf\<close> are a list.
\<close>

section \<open>Output\<close>

definition INPUT_BUF :: nat where "INPUT_BUF = 128"
definition BACKSPACE :: int where "BACKSPACE = 0x100"

record kcons = kuart +
  cons_buf :: "nat \<Rightarrow> byte"
  cons_r :: u32
  cons_w :: u32
  cons_e :: u32
  pr_locking :: bool

text \<open>
  \<open>consputc\<close> tests the variable \<open>panicked\<close> of console.c, which is another variable than the one
  that \<open>panic\<close> sets and is never set.
\<close>

definition consputc :: "int \<Rightarrow> 'z kcons_scheme \<Rightarrow> ('z kcons_scheme, unit) res" where
  "consputc c =
     (if c = BACKSPACE then
        seq (uartputc_sync 8) (seq (uartputc_sync 32) (uartputc_sync 8))
      else uartputc_sync c)"

section \<open>printf\<close>

definition digits :: "byte list" where
  "digits = map of_nat [48, 49, 50, 51, 52, 53, 54, 55, 56, 57, 97, 98, 100, 101, 102, 0]"

definition printfint_text :: "int \<Rightarrow> nat \<Rightarrow> bool \<Rightarrow> byte list" where
  "printfint_text = int_text digits"

definition printfint :: "int \<Rightarrow> nat \<Rightarrow> bool \<Rightarrow> 'z kcons_scheme \<Rightarrow> ('z kcons_scheme, unit) res" where
  "printfint xx base sign = for_each (printfint_text xx base sign) (\<lambda>c. consputc (uint c))"

definition printptr :: "u64 \<Rightarrow> 'z kcons_scheme \<Rightarrow> ('z kcons_scheme, unit) res" where
  "printptr x =
     seq (consputc 48) (
     seq (consputc 120)
         (for_each [0..<16] (\<lambda>i.
            consputc (uint (digits ! unat (drop_bit 60 (push_bit (4 * i) x)))))))"

datatype parg = ArgInt int | ArgPtr u64 | ArgStr "byte list option"

fun printf_loop :: "byte list \<Rightarrow> parg list \<Rightarrow> 'z kcons_scheme \<Rightarrow> ('z kcons_scheme, unit) res" where
  "printf_loop [] ap = return ()"
| "printf_loop [c] ap = (if c \<noteq> 37 then consputc (uint c) else return ())"
| "printf_loop (c # d # fmt) ap =
     (if c \<noteq> 37 then seq (consputc (uint c)) (printf_loop (d # fmt) ap)
      else if d = 100 then
        (case ap of ArgInt n # ap \<Rightarrow> seq (printfint n 10 True) (printf_loop fmt ap)
         | _ \<Rightarrow> undef ''printf: va_arg'')
      else if d = 120 then
        (case ap of ArgInt n # ap \<Rightarrow> seq (printfint n 16 True) (printf_loop fmt ap)
         | _ \<Rightarrow> undef ''printf: va_arg'')
      else if d = 112 then
        (case ap of ArgPtr x # ap \<Rightarrow> seq (printptr x) (printf_loop fmt ap)
         | _ \<Rightarrow> undef ''printf: va_arg'')
      else if d = 115 then
        (case ap of ArgStr s # ap \<Rightarrow>
           seq (for_each (case s of None \<Rightarrow> [40, 110, 117, 108, 108, 41] | Some s \<Rightarrow> s)
                 (\<lambda>c. consputc (uint c)))
               (printf_loop fmt ap)
         | _ \<Rightarrow> undef ''printf: va_arg'')
      else if d = 37 then seq (consputc 37) (printf_loop fmt ap)
      else seq (consputc 37) (seq (consputc (uint d)) (printf_loop fmt ap)))"

definition printf :: "byte list option \<Rightarrow> parg list \<Rightarrow> 'z kcons_scheme \<Rightarrow> ('z kcons_scheme, unit) res" where
  "printf fmt ap =
     bind (gets pr_locking) (\<lambda>locking.
     seq (whenever locking (lock PrLock)) (
     case fmt of
       None \<Rightarrow> panic ''null fmt''
     | Some fmt \<Rightarrow>
         seq (printf_loop fmt ap)
             (whenever locking (unlock PrLock))))"

definition bytes_of :: "string \<Rightarrow> byte list" where
  "bytes_of s = map (\<lambda>c. of_nat (of_char c)) s"

text \<open>
  The routine \<open>panic\<close> itself. Elsewhere in the model a call of it is the outcome \<open>Panic\<close>; here is
  what it does before it stops the CPU.
\<close>

definition do_panic :: "byte list \<Rightarrow> 'z kcons_scheme \<Rightarrow> ('z kcons_scheme, unit) res" where
  "do_panic msg =
     seq (modify (\<lambda>s. s\<lparr>pr_locking := False\<rparr>)) (
     seq (printf (Some (bytes_of ''panic: '')) []) (
     seq (printf (Some msg) []) (
     seq (printf (Some [10]) []) (
     seq (modify (\<lambda>s. s\<lparr>panicked := True\<rparr>))
         (stop (Hang ''panic''))))))"

definition printfinit :: "'z kcons_scheme \<Rightarrow> ('z kcons_scheme, unit) res" where
  "printfinit = seq (on_hw (initlock PrLock ''pr'')) (modify (\<lambda>s. s\<lparr>pr_locking := True\<rparr>))"

fun state_name :: "procstate \<Rightarrow> byte list" where
  "state_name UNUSED = bytes_of ''unused''"
| "state_name SLEEPING = bytes_of ''sleep ''"
| "state_name RUNNABLE = bytes_of ''runble''"
| "state_name RUNNING = bytes_of ''run   ''"
| "state_name ZOMBIE = bytes_of ''zombie''"

definition cstr16 :: "view \<Rightarrow> byte list" where
  "cstr16 v = takeWhile (\<lambda>c. c \<noteq> 0) (map v [0..<16])"

definition procdump :: "'z kcons_scheme \<Rightarrow> ('z kcons_scheme, unit) res" where
  "procdump =
     seq (printf (Some [10]) [])
         (for_each all_procs (\<lambda>p.
            bind (get_proc p) (\<lambda>pr.
            whenever (p_state pr \<noteq> UNUSED)
              (seq (printf (Some (bytes_of ''%d %s %s''))
                      [ArgInt (p_pid pr), ArgStr (Some (state_name (p_state pr))), ArgStr (Some (cstr16 (p_name pr)))])
                   (printf (Some [10]) [])))))"

section \<open>Console device\<close>

fun consolewrite_loop :: "bool \<Rightarrow> u64 \<Rightarrow> nat \<Rightarrow> nat \<Rightarrow> 'z kcons_scheme \<Rightarrow> ('z kcons_scheme, nat) res" where
  "consolewrite_loop user_src src i 0 = return i"
| "consolewrite_loop user_src src i (Suc k) =
     bind (either_copyin user_src (src + of_nat i) 1) (\<lambda>(r, bs).
     if r = - 1 then return i
     else seq (uartputc (uint (hd bs))) (consolewrite_loop user_src src (Suc i) k))"

definition consolewrite :: "bool \<Rightarrow> u64 \<Rightarrow> int \<Rightarrow> 'z kcons_scheme \<Rightarrow> ('z kcons_scheme, int) res" where
  "consolewrite user_src src n =
     seq (lock ConsLock) (
     bind (consolewrite_loop user_src src 0 (nat n)) (\<lambda>i.
     seq (unlock ConsLock) (return (int i))))"

text \<open>
  The loop of \<open>consoleread\<close>, with \<open>k\<close> bytes still to go of \<open>target\<close>. A process that waits for input
  ends with the switch of \<open>sleep\<close>, and comes back to the same loop with the same \<open>dst\<close> and \<open>k\<close>.
\<close>

fun consoleread_loop :: "bool \<Rightarrow> nat \<Rightarrow> u64 \<Rightarrow> nat \<Rightarrow> 'z kcons_scheme \<Rightarrow> ('z kcons_scheme, int) res" where
  "consoleread_loop user_dst target dst 0 = seq (unlock ConsLock) (return (int target))"
| "consoleread_loop user_dst target dst (Suc k) =
     bind (gets id) (\<lambda>s.
     if cons_r s = cons_w s then
       bind curproc (\<lambda>p. bind (get_proc p) (\<lambda>pr.
       if p_killed pr \<noteq> 0 then seq (unlock ConsLock) (return (- 1))
       else sleep ChanConsRead ConsLock))
     else
       let c = cons_buf s (unat (cons_r s) mod INPUT_BUF) in
       seq (modify (\<lambda>s. s\<lparr>cons_r := cons_r s + 1\<rparr>)) (
       if c = 4 then
         seq (whenever (Suc k < target) (modify (\<lambda>s. s\<lparr>cons_r := cons_r s - 1\<rparr>))) (
         seq (unlock ConsLock) (return (int target - int (Suc k))))
       else
         bind (either_copyout user_dst dst [c] 1) (\<lambda>r.
         if r = - 1 then seq (unlock ConsLock) (return (int target - int (Suc k)))
         else if c = 10 then seq (unlock ConsLock) (return (int target - int k))
         else consoleread_loop user_dst target (dst + 1) k)))"

text \<open>For a request of no or a negative number of bytes the function returns \<open>target - n = 0\<close>.\<close>

definition consoleread :: "bool \<Rightarrow> u64 \<Rightarrow> int \<Rightarrow> 'z kcons_scheme \<Rightarrow> ('z kcons_scheme, int) res" where
  "consoleread user_dst dst n =
     seq (lock ConsLock) (
     if n \<le> 0 then seq (unlock ConsLock) (return 0)
     else consoleread_loop user_dst (nat n) dst (nat n))"

text \<open>The loop that kills the line; it goes back at most \<open>2 ^ 32\<close> characters.\<close>

fun kill_line :: "nat \<Rightarrow> 'z kcons_scheme \<Rightarrow> ('z kcons_scheme, unit) res" where
  "kill_line fuel =
     (if fuel = 0 then stop (Hang ''consoleintr'') else
      bind (gets id) (\<lambda>s.
      if cons_e s \<noteq> cons_w s \<and> cons_buf s (unat (cons_e s - 1) mod INPUT_BUF) \<noteq> 10
      then seq (modify (\<lambda>s. s\<lparr>cons_e := cons_e s - 1\<rparr>)) (
           seq (consputc BACKSPACE) (kill_line (fuel - 1)))
      else return ()))"

definition consoleintr_default :: "int \<Rightarrow> 'z kcons_scheme \<Rightarrow> ('z kcons_scheme, unit) res" where
  "consoleintr_default c =
     bind (gets id) (\<lambda>s.
     whenever (c \<noteq> 0 \<and> unat (cons_e s - cons_r s) < INPUT_BUF) (
       let c = (if c = 13 then 10 else c) in
       seq (consputc c) (
       seq (modify (\<lambda>s. s\<lparr>cons_buf := (cons_buf s)(unat (cons_e s) mod INPUT_BUF := word_of_int c),
              cons_e := cons_e s + 1\<rparr>)) (
       bind (gets id) (\<lambda>s.
       whenever (c = 10 \<or> c = 4 \<or> cons_e s = cons_r s + of_nat INPUT_BUF)
         (seq (modify (\<lambda>s. s\<lparr>cons_w := cons_e s\<rparr>)) (wakeup ChanConsRead)))))))"

definition consoleintr :: "int \<Rightarrow> 'z kcons_scheme \<Rightarrow> ('z kcons_scheme, unit) res" where
  "consoleintr c =
     seq (lock ConsLock) (
     seq (if c = 16 then procdump
          else if c = 21 then kill_line (2 ^ 32 + 1)
          else if c = 8 \<or> c = 127 then
            bind (gets id) (\<lambda>s.
            whenever (cons_e s \<noteq> cons_w s)
              (seq (modify (\<lambda>s. s\<lparr>cons_e := cons_e s - 1\<rparr>)) (consputc BACKSPACE)))
          else consoleintr_default c)
         (unlock ConsLock))"

text \<open>The interrupt handler takes every value that waits in the receive FIFO.\<close>

fun isr_uart_rx :: "nat \<Rightarrow> 'z kcons_scheme \<Rightarrow> ('z kcons_scheme, unit) res" where
  "isr_uart_rx 0 = stop (Hang ''isr_uart'')"
| "isr_uart_rx (Suc fuel) =
     bind uartgetc (\<lambda>c. if c = - 1 then return () else seq (consoleintr c) (isr_uart_rx fuel))"

definition isr_uart :: "'z kcons_scheme \<Rightarrow> ('z kcons_scheme, unit) res" where
  "isr_uart =
     bind (gets id) (\<lambda>s.
     seq (whenever (uart_regs s UART_MIS AND UART_RXI \<noteq> 0) (isr_uart_rx (Suc (length (uart_rx s))))) (
     seq (lock UartTxLock) (
     seq uartstart (
     seq (unlock UartTxLock)
         (uart_write_reg UART_ICR (UART_RXI OR UART_TXI))))))"

declare kill_line.simps [simp del]

end
