(* ===== verification/Pipe.thy ===== *)
theory Pipe
  imports Console
begin

text \<open>
  Pipes, \<open>src/kernel/pipe.c\<close>. A pipe is named by the address of the page that \<open>pipealloc\<close> takes
  for it; its fields are kept in a table by that address. The counters \<open>nread\<close> and \<open>nwrite\<close> are 32-bit
  words that only grow, and wrap. A reader or writer that sleeps ends with the switch and comes
  back to the same round of the loop (\<open>pipewrite_loop\<close>, \<open>piperead_wait\<close>). \<open>pipealloc\<close> is with the
  files that it makes.
\<close>

section \<open>State\<close>

definition PIPESIZE :: nat where "PIPESIZE = 512"

record pipe =
  pi_data :: "nat \<Rightarrow> byte"
  nread :: u32
  nwrite :: u32
  readopen :: bool
  writeopen :: bool

record kpipe = kcons +
  pipes :: "u64 \<Rightarrow> pipe"

definition get_pipe :: "u64 \<Rightarrow> 'z kpipe_scheme \<Rightarrow> ('z kpipe_scheme, pipe) res" where
  "get_pipe pi = gets (\<lambda>s. pipes s pi)"

definition modify_pipe :: "u64 \<Rightarrow> (pipe \<Rightarrow> pipe) \<Rightarrow> 'z kpipe_scheme \<Rightarrow> ('z kpipe_scheme, unit) res" where
  "modify_pipe pi f = modify (\<lambda>s. s\<lparr>pipes := (pipes s)(pi := f (pipes s pi))\<rparr>)"

section \<open>Operations\<close>

text \<open>The stores that \<open>pipealloc\<close> makes in a new pipe.\<close>

definition pipeinit :: "u64 \<Rightarrow> 'z kpipe_scheme \<Rightarrow> ('z kpipe_scheme, unit) res" where
  "pipeinit pi =
     seq (modify_pipe pi (\<lambda>x. x\<lparr>readopen := True\<rparr>)) (
     seq (modify_pipe pi (\<lambda>x. x\<lparr>writeopen := True\<rparr>)) (
     seq (modify_pipe pi (\<lambda>x. x\<lparr>nwrite := 0\<rparr>)) (
     seq (modify_pipe pi (\<lambda>x. x\<lparr>nread := 0\<rparr>))
         (on_hw (initlock (PipeLock pi) ''pipe'')))))"

definition pipeclose :: "u64 \<Rightarrow> bool \<Rightarrow> 'z kpipe_scheme \<Rightarrow> ('z kpipe_scheme, unit) res" where
  "pipeclose pi writeable =
     seq (lock (PipeLock pi)) (
     seq (if writeable
          then seq (modify_pipe pi (\<lambda>x. x\<lparr>writeopen := False\<rparr>)) (wakeup (ChanPipeRead pi))
          else seq (modify_pipe pi (\<lambda>x. x\<lparr>readopen := False\<rparr>)) (wakeup (ChanPipeWrite pi))) (
     bind (get_pipe pi) (\<lambda>x.
     if \<not> readopen x \<and> \<not> writeopen x
     then seq (unlock (PipeLock pi)) (kfree pi)
     else unlock (PipeLock pi))))"

definition pipe_put :: "byte \<Rightarrow> pipe \<Rightarrow> pipe" where
  "pipe_put ch x = x\<lparr>pi_data := (pi_data x)(unat (nwrite x) mod PIPESIZE := ch), nwrite := nwrite x + 1\<rparr>"

definition pipe_full :: "pipe \<Rightarrow> bool" where
  "pipe_full x \<longleftrightarrow> nwrite x = nread x + of_nat PIPESIZE"

fun pipewrite_loop :: "nat \<Rightarrow> u64 \<Rightarrow> u64 \<Rightarrow> nat \<Rightarrow> nat \<Rightarrow> 'z kpipe_scheme \<Rightarrow> ('z kpipe_scheme, int) res" where
  "pipewrite_loop pr pi addr i 0 =
     seq (wakeup (ChanPipeRead pi)) (
     seq (unlock (PipeLock pi)) (return (int i)))"
| "pipewrite_loop pr pi addr i (Suc k) =
     bind (get_pipe pi) (\<lambda>x. bind (get_proc pr) (\<lambda>p.
     if pipe_full x then
       (if \<not> readopen x \<or> p_killed p \<noteq> 0
        then seq (unlock (PipeLock pi)) (return (- 1))
        else seq (wakeup (ChanPipeRead pi)) (sleep (ChanPipeWrite pi) (PipeLock pi)))
     else
       bind (copyin (p_pagetable p) (addr + of_nat i) 1) (\<lambda>(r, bs).
       if r = - 1 then
         seq (wakeup (ChanPipeRead pi)) (
         seq (unlock (PipeLock pi)) (return (int i)))
       else
         seq (modify_pipe pi (pipe_put (hd bs)))
             (pipewrite_loop pr pi addr (Suc i) k))))"

definition pipewrite :: "u64 \<Rightarrow> u64 \<Rightarrow> int \<Rightarrow> 'z kpipe_scheme \<Rightarrow> ('z kpipe_scheme, int) res" where
  "pipewrite pi addr n =
     bind curproc (\<lambda>pr.
     seq (lock (PipeLock pi))
         (pipewrite_loop pr pi addr 0 (nat n)))"

definition pipewrite_resume ::
  "bool \<Rightarrow> nat \<Rightarrow> u64 \<Rightarrow> u64 \<Rightarrow> nat \<Rightarrow> nat \<Rightarrow> 'z kpipe_scheme \<Rightarrow> ('z kpipe_scheme, int) res" where
  "pipewrite_resume saved pr pi addr i k =
     seq (sleep_finish saved pr (PipeLock pi)) (pipewrite_loop pr pi addr i k)"

fun piperead_loop :: "nat \<Rightarrow> u64 \<Rightarrow> u64 \<Rightarrow> nat \<Rightarrow> nat \<Rightarrow> 'z kpipe_scheme \<Rightarrow> ('z kpipe_scheme, int) res" where
  "piperead_loop pr pi addr i 0 = return (int i)"
| "piperead_loop pr pi addr i (Suc k) =
     bind (get_pipe pi) (\<lambda>x. bind (get_proc pr) (\<lambda>p.
     if nread x = nwrite x then return (int i) else
     let ch = pi_data x (unat (nread x) mod PIPESIZE) in
     seq (modify_pipe pi (\<lambda>x. x\<lparr>nread := nread x + 1\<rparr>)) (
     bind (copyout (p_pagetable p) (addr + of_nat i) [ch] 1) (\<lambda>r.
     if r = - 1 then return (int i)
     else piperead_loop pr pi addr (Suc i) k))))"

definition piperead_wait :: "nat \<Rightarrow> u64 \<Rightarrow> u64 \<Rightarrow> int \<Rightarrow> 'z kpipe_scheme \<Rightarrow> ('z kpipe_scheme, int) res" where
  "piperead_wait pr pi addr n =
     bind (get_pipe pi) (\<lambda>x. bind (get_proc pr) (\<lambda>p.
     if nread x = nwrite x \<and> writeopen x then
       (if p_killed p \<noteq> 0 then seq (unlock (PipeLock pi)) (return (- 1))
        else sleep (ChanPipeRead pi) (PipeLock pi))
     else
       bind (piperead_loop pr pi addr 0 (nat n)) (\<lambda>i.
       seq (wakeup (ChanPipeWrite pi)) (
       seq (unlock (PipeLock pi)) (return i)))))"

definition piperead :: "u64 \<Rightarrow> u64 \<Rightarrow> int \<Rightarrow> 'z kpipe_scheme \<Rightarrow> ('z kpipe_scheme, int) res" where
  "piperead pi addr n =
     bind curproc (\<lambda>pr.
     seq (lock (PipeLock pi))
         (piperead_wait pr pi addr n))"

definition piperead_resume ::
  "bool \<Rightarrow> nat \<Rightarrow> u64 \<Rightarrow> u64 \<Rightarrow> int \<Rightarrow> 'z kpipe_scheme \<Rightarrow> ('z kpipe_scheme, int) res" where
  "piperead_resume saved pr pi addr n =
     seq (sleep_finish saved pr (PipeLock pi)) (piperead_wait pr pi addr n)"

end
