(* ===== verification/File.thy ===== *)
theory File
  imports Pipe
begin

text \<open>
  Open files: \<open>src/kernel/file.c\<close>, \<open>pipealloc\<close> of \<open>src/kernel/pipe.c\<close> and \<open>consoleinit\<close> of
  \<open>src/kernel/console.c\<close>. A file is named by its index in \<open>ftable.file\<close>. The device switch holds
  function pointers; the only ones that the kernel stores are those of the console.
\<close>

section \<open>State\<close>

datatype ftype = FD_NONE | FD_PIPE | FD_INODE | FD_DEVICE

record file_rec =
  f_type :: ftype
  f_ref :: int
  f_readable :: bool
  f_writable :: bool
  f_pipe :: u64
  f_ip :: "nat option"
  f_off :: u32
  f_major :: u16

datatype devfn = DevConsole

record devsw =
  dev_read :: "devfn option"
  dev_write :: "devfn option"

text \<open>\<open>stack_junk\<close> is what a local variable holds before it is stored to.\<close>

record kfile = kpipe +
  files :: "nat \<Rightarrow> file_rec"
  devsws :: "nat \<Rightarrow> devsw"
  stack_junk :: "nat \<Rightarrow> byte"

definition CONSOLE :: nat where "CONSOLE = 1"

definition get_file :: "nat \<Rightarrow> 'z kfile_scheme \<Rightarrow> ('z kfile_scheme, file_rec) res" where
  "get_file f = gets (\<lambda>s. files s f)"

definition modify_file :: "nat \<Rightarrow> (file_rec \<Rightarrow> file_rec) \<Rightarrow> 'z kfile_scheme \<Rightarrow> ('z kfile_scheme, unit) res" where
  "modify_file f g = modify (\<lambda>s. s\<lparr>files := (files s)(f := g (files s f))\<rparr>)"

section \<open>Operations\<close>

definition consoleinit :: "'z kfile_scheme \<Rightarrow> ('z kfile_scheme, unit) res" where
  "consoleinit =
     seq (on_hw (initlock ConsLock ''cons''))
         (modify (\<lambda>s. s\<lparr>devsws := (devsws s)(CONSOLE := \<lparr>dev_read = Some DevConsole, dev_write = Some DevConsole\<rparr>)\<rparr>))"

definition fileinit :: "'z kfile_scheme \<Rightarrow> ('z kfile_scheme, unit) res" where
  "fileinit = on_hw (initlock FtableLock ''ftable'')"

fun filealloc_from :: "nat list \<Rightarrow> 'z kfile_scheme \<Rightarrow> ('z kfile_scheme, nat option) res" where
  "filealloc_from [] = seq (unlock FtableLock) (return None)"
| "filealloc_from (f # fs) =
     bind (get_file f) (\<lambda>x.
     if f_ref x = 0 then
       seq (modify_file f (\<lambda>x. x\<lparr>f_ref := 1\<rparr>)) (
       seq (unlock FtableLock) (return (Some f)))
     else filealloc_from fs)"

definition filealloc :: "'z kfile_scheme \<Rightarrow> ('z kfile_scheme, nat option) res" where
  "filealloc = seq (lock FtableLock) (filealloc_from [0..<NFILE])"

definition filedup :: "nat \<Rightarrow> 'z kfile_scheme \<Rightarrow> ('z kfile_scheme, nat) res" where
  "filedup f =
     seq (lock FtableLock) (
     bind (get_file f) (\<lambda>x.
     if f_ref x < 1 then panic ''filedup'' else
     seq (modify_file f (\<lambda>x. x\<lparr>f_ref := f_ref x + 1\<rparr>)) (
     seq (unlock FtableLock) (return f))))"

definition fileclose :: "nat \<Rightarrow> 'z kfile_scheme \<Rightarrow> ('z kfile_scheme, unit) res" where
  "fileclose f =
     seq (lock FtableLock) (
     bind (get_file f) (\<lambda>x.
     if f_ref x < 1 then panic ''fileclose'' else
     seq (modify_file f (\<lambda>x. x\<lparr>f_ref := f_ref x - 1\<rparr>)) (
     bind (get_file f) (\<lambda>ff.
     if f_ref ff > 0 then unlock FtableLock else
     seq (modify_file f (\<lambda>x. x\<lparr>f_ref := 0, f_type := FD_NONE\<rparr>)) (
     seq (unlock FtableLock) (
     if f_type ff = FD_PIPE then pipeclose (f_pipe ff) (f_writable ff)
     else if f_type ff = FD_INODE \<or> f_type ff = FD_DEVICE then
       seq begin_op (
       seq (bind (deref ''fileclose'' (f_ip ff)) iput)
           end_op)
     else return ()))))))"

text \<open>The image of \<open>struct stat\<close> in memory; two pairs of bytes in it are padding.\<close>

definition stat_bytes :: "(nat \<Rightarrow> byte) \<Rightarrow> stat \<Rightarrow> byte list" where
  "stat_bytes junk st =
     le_bytes 2 (st_type st) @ [junk 2, junk 3] @ le_bytes 4 (word_of_int (st_dev st) :: u32) @
     le_bytes 4 (st_ino st) @ le_bytes 2 (st_nlink st) @ [junk 14, junk 15] @ le_bytes 4 (st_size st)"

definition filestat :: "nat \<Rightarrow> u64 \<Rightarrow> 'z kfile_scheme \<Rightarrow> ('z kfile_scheme, int) res" where
  "filestat f addr =
     bind curproc (\<lambda>p.
     bind (get_file f) (\<lambda>x.
     if f_type x = FD_INODE \<or> f_type x = FD_DEVICE then
       seq (ilock (f_ip x)) (
       bind (deref ''filestat'' (f_ip x)) (\<lambda>ip.
       bind (stati ip) (\<lambda>st.
       seq (iunlock (f_ip x)) (
       bind (get_proc p) (\<lambda>pr.
       bind (gets stack_junk) (\<lambda>junk.
       bind (copyout (p_pagetable pr) addr (stat_bytes junk st) 20) (\<lambda>r.
       if r < 0 then return (- 1) else return 0)))))))
     else return (- 1)))"

fun dev_read_call :: "devfn \<Rightarrow> bool \<Rightarrow> u64 \<Rightarrow> int \<Rightarrow> 'z kfile_scheme \<Rightarrow> ('z kfile_scheme, int) res" where
  "dev_read_call DevConsole = consoleread"

fun dev_write_call :: "devfn \<Rightarrow> bool \<Rightarrow> u64 \<Rightarrow> int \<Rightarrow> 'z kfile_scheme \<Rightarrow> ('z kfile_scheme, int) res" where
  "dev_write_call DevConsole = consolewrite"

text \<open>The entry of the device switch that a file's major number selects, if it is in range.\<close>

definition dev_entry :: "u16 \<Rightarrow> 'z kfile_scheme \<Rightarrow> devsw option" where
  "dev_entry mj s = (if sint mj < 0 \<or> sint mj \<ge> int NDEV then None else Some (devsws s (unat mj)))"

definition fileread :: "nat \<Rightarrow> u64 \<Rightarrow> int \<Rightarrow> 'z kfile_scheme \<Rightarrow> ('z kfile_scheme, int) res" where
  "fileread f addr n =
     bind (get_file f) (\<lambda>x.
     if \<not> f_readable x then return (- 1) else
     case f_type x of
       FD_PIPE \<Rightarrow> piperead (f_pipe x) addr n
     | FD_DEVICE \<Rightarrow>
         bind (gets (dev_entry (f_major x))) (\<lambda>d.
         case Option.bind d dev_read of
           None \<Rightarrow> return (- 1)
         | Some fn \<Rightarrow> dev_read_call fn True addr n)
     | FD_INODE \<Rightarrow>
         seq (ilock (f_ip x)) (
         bind (deref ''fileread'' (f_ip x)) (\<lambda>ip.
         bind (get_file f) (\<lambda>x.
         bind (readi ip (ToUser addr) (f_off x) (u32_of_int n)) (\<lambda>(r, _).
         seq (whenever (r > 0) (modify_file f (\<lambda>x. x\<lparr>f_off := f_off x + u32_of_int r\<rparr>))) (
         bind (get_file f) (\<lambda>x.
         seq (iunlock (f_ip x)) (return r)))))))
     | FD_NONE \<Rightarrow> panic ''fileread'')"

definition file_chunk :: int where
  "file_chunk = int ((MAXOPBLOCKS - 1 - 1 - 2) div 2 * BSIZE)"

text \<open>Every round of the loop of \<open>filewrite\<close> but the last writes \<open>max\<close> bytes.\<close>

fun filewrite_loop :: "nat \<Rightarrow> nat \<Rightarrow> u64 \<Rightarrow> int \<Rightarrow> int \<Rightarrow> 'z kfile_scheme \<Rightarrow> ('z kfile_scheme, int) res" where
  "filewrite_loop fuel f addr n i =
     (if fuel = 0 then stop (Hang ''filewrite'') else
      if \<not> i < n then return i else
      let n1 = min (n - i) file_chunk in
      seq begin_op (
      bind (get_file f) (\<lambda>x.
      seq (ilock (f_ip x)) (
      bind (deref ''filewrite'' (f_ip x)) (\<lambda>ip.
      bind (get_file f) (\<lambda>x.
      bind (writei ip (FromUser (addr + u64_of_int i)) (f_off x) (u32_of_int n1)) (\<lambda>r.
      seq (whenever (r > 0) (modify_file f (\<lambda>x. x\<lparr>f_off := f_off x + u32_of_int r\<rparr>))) (
      seq (iunlock (f_ip x)) (
      seq end_op (
      if r < 0 then return i
      else if r \<noteq> n1 then panic ''short filewrite''
      else filewrite_loop (fuel - 1) f addr n (i + r)))))))))))"

definition filewrite :: "nat \<Rightarrow> u64 \<Rightarrow> int \<Rightarrow> 'z kfile_scheme \<Rightarrow> ('z kfile_scheme, int) res" where
  "filewrite f addr n =
     bind (get_file f) (\<lambda>x.
     if \<not> f_writable x then return (- 1) else
     case f_type x of
       FD_PIPE \<Rightarrow> pipewrite (f_pipe x) addr n
     | FD_DEVICE \<Rightarrow>
         bind (gets (dev_entry (f_major x))) (\<lambda>d.
         case Option.bind d dev_write of
           None \<Rightarrow> return (- 1)
         | Some fn \<Rightarrow> dev_write_call fn True addr n)
     | FD_INODE \<Rightarrow>
         bind (filewrite_loop (Suc (nat n)) f addr n 0) (\<lambda>i.
         return (if i = n then n else - 1))
     | FD_NONE \<Rightarrow> panic ''filewrite'')"

section \<open>Making a pipe\<close>

definition pipealloc_bad :: "nat option \<Rightarrow> nat option \<Rightarrow> 'z kfile_scheme \<Rightarrow> ('z kfile_scheme, (nat \<times> nat) option) res" where
  "pipealloc_bad f0 f1 =
     seq (case f0 of None \<Rightarrow> return () | Some f \<Rightarrow> fileclose f) (
     seq (case f1 of None \<Rightarrow> return () | Some f \<Rightarrow> fileclose f)
         (return None))"

definition pipealloc :: "'z kfile_scheme \<Rightarrow> ('z kfile_scheme, (nat \<times> nat) option) res" where
  "pipealloc =
     bind filealloc (\<lambda>r0.
     case r0 of None \<Rightarrow> pipealloc_bad None None | Some f0 \<Rightarrow>
     bind filealloc (\<lambda>r1.
     case r1 of None \<Rightarrow> pipealloc_bad (Some f0) None | Some f1 \<Rightarrow>
     bind kalloc (\<lambda>pi.
     if pi = 0 then pipealloc_bad (Some f0) (Some f1) else
     seq (pipeinit pi) (
     seq (modify_file f0 (\<lambda>x. x\<lparr>f_type := FD_PIPE, f_readable := True, f_writable := False, f_pipe := pi\<rparr>)) (
     seq (modify_file f1 (\<lambda>x. x\<lparr>f_type := FD_PIPE, f_readable := False, f_writable := True, f_pipe := pi\<rparr>))
         (return (Some (f0, f1))))))))"

declare filewrite_loop.simps [simp del]

end
