(* ===== verification/Proc.thy ===== *)
theory Proc
  imports File
begin

text \<open>
  The life of a process: the part of \<open>src/kernel/proc.c\<close> that reaches files and inodes
  (\<open>userinit\<close>, \<open>fork\<close>, \<open>exit\<close>, \<open>wait\<close>, \<open>forkret\<close>), and \<open>src/kernel/exec.c\<close>. The addresses of \<open>trapret\<close>
  and \<open>forkret\<close> are link-time constants and so are arguments.
\<close>

section \<open>The first process\<close>

definition initcode :: "byte list" where
  "initcode = map of_nat [
     0x80, 0x01, 0x00, 0x58, 0xa1, 0x01, 0x00, 0x58,
     0xe7, 0x00, 0x80, 0xd2, 0x01, 0x00, 0x00, 0xd4,
     0x47, 0x00, 0x80, 0xd2, 0x01, 0x00, 0x00, 0xd4,
     0xfe, 0xff, 0xff, 0x17, 0x2f, 0x69, 0x6e, 0x69,
     0x74, 0x00, 0x00, 0x00, 0x1c, 0x00, 0x00, 0x00,
     0x00, 0x00, 0x00, 0x00, 0x00, 0x00, 0x00, 0x00,
     0x1c, 0x00, 0x00, 0x00, 0x00, 0x00, 0x00, 0x00,
     0x24, 0x00, 0x00, 0x00, 0x00, 0x00, 0x00, 0x00]"

definition NAMELEN :: int where "NAMELEN = 16"

definition set_name :: "nat \<Rightarrow> view \<Rightarrow> 'z ktable_scheme \<Rightarrow> ('z ktable_scheme, unit) res" where
  "set_name p t = modify_proc p (\<lambda>pr. pr\<lparr>p_name := safestrcpy (p_name pr) t NAMELEN\<rparr>)"

definition userinit :: "u64 \<Rightarrow> u64 \<Rightarrow> 'z kfile_scheme \<Rightarrow> ('z kfile_scheme, unit) res" where
  "userinit trapret forkret =
     bind (allocproc trapret forkret) (\<lambda>r.
     seq (modify (\<lambda>s. s\<lparr>initproc := r\<rparr>)) (
     bind (deref ''userinit'' r) (\<lambda>p.
     bind (get_proc p) (\<lambda>pr.
     seq (uvminit (p_pagetable pr) initcode (of_nat (length initcode))) (
     seq (modify_proc p (\<lambda>pr. pr\<lparr>p_sz := PGSIZE\<rparr>)) (
     seq (tf_set p TF_ELR 0) (
     seq (tf_set p TF_SPSR 0) (
     seq (tf_set p 30 0) (
     seq (tf_set p TF_SP PGSIZE) (
     seq (set_name p (view_of (bytes_of ''initcode''))) (
     bind (namei [slash]) (\<lambda>c.
     seq (modify_proc p (\<lambda>pr. pr\<lparr>p_cwd := c\<rparr>)) (
     seq (modify_proc p (\<lambda>pr. pr\<lparr>p_state := RUNNABLE\<rparr>))
         (unlock (ProcLock p)))))))))))))))"

section \<open>fork\<close>

definition dup_files :: "nat \<Rightarrow> nat \<Rightarrow> 'z kfile_scheme \<Rightarrow> ('z kfile_scheme, unit) res" where
  "dup_files p np =
     for_each [0..<NOFILE] (\<lambda>i.
       bind (get_proc p) (\<lambda>pr.
       case p_ofile pr i of
         None \<Rightarrow> return ()
       | Some f \<Rightarrow>
           bind (filedup f) (\<lambda>f.
           modify_proc np (\<lambda>pr. pr\<lparr>p_ofile := (p_ofile pr)(i := Some f)\<rparr>))))"

definition fork :: "u64 \<Rightarrow> u64 \<Rightarrow> 'z kfile_scheme \<Rightarrow> ('z kfile_scheme, int) res" where
  "fork trapret forkret =
     bind curproc (\<lambda>p.
     bind (allocproc trapret forkret) (\<lambda>r.
     case r of None \<Rightarrow> return (- 1) | Some np \<Rightarrow>
     bind (get_proc p) (\<lambda>pr.
     bind (get_proc np) (\<lambda>npr.
     bind (uvmcopy (p_pagetable pr) (p_pagetable npr) (p_sz pr)) (\<lambda>e.
     if e < 0 then seq (freeproc np) (seq (unlock (ProcLock np)) (return (- 1))) else
     seq (modify_proc np (\<lambda>x. x\<lparr>p_sz := p_sz pr\<rparr>)) (
     seq (modify_proc np (\<lambda>x. x\<lparr>p_parent := Some p\<rparr>)) (
     seq (modify (\<lambda>s. s\<lparr>mem := write_mem (mem s) (p_trapframe npr)
            (read_mem (mem s) (p_trapframe pr) (unat TRAPFRAME_SIZE))\<rparr>)) (
     seq (tf_set np 0 0) (
     seq (dup_files p np) (
     bind (deref ''fork: cwd'' (p_cwd pr)) (\<lambda>cwd.
     bind (idup cwd) (\<lambda>cwd.
     seq (modify_proc np (\<lambda>x. x\<lparr>p_cwd := Some cwd\<rparr>)) (
     bind (get_proc np) (\<lambda>npr.
     let pid = p_pid npr in
     seq (modify_proc np (\<lambda>x. x\<lparr>p_state := RUNNABLE\<rparr>)) (
     bind (get_proc p) (\<lambda>pr.
     seq (set_name np (p_name pr)) (
     seq (unlock (ProcLock np))
         (return pid))))))))))))))))))"

section \<open>exit and wait\<close>

definition close_files :: "nat \<Rightarrow> 'z kfile_scheme \<Rightarrow> ('z kfile_scheme, unit) res" where
  "close_files p =
     for_each [0..<NOFILE] (\<lambda>fd.
       bind (get_proc p) (\<lambda>pr.
       case p_ofile pr fd of
         None \<Rightarrow> return ()
       | Some f \<Rightarrow>
           seq (fileclose f)
               (modify_proc p (\<lambda>pr. pr\<lparr>p_ofile := (p_ofile pr)(fd := None)\<rparr>))))"

text \<open>
  The end of \<open>exit\<close>, from the wakeup of init on: the process gives its children to init, wakes its
  parent and becomes a zombie.
\<close>

definition exit_zombie :: "nat \<Rightarrow> int \<Rightarrow> 'z ktable_scheme \<Rightarrow> ('z ktable_scheme, 'a) res" where
  "exit_zombie p status =
     bind (gets initproc) (\<lambda>i.
     bind (deref ''exit: initproc'' i) (\<lambda>i.
     seq (lock (ProcLock i)) (
     seq (wakeup1 i) (
     seq (unlock (ProcLock i)) (
     seq (lock (ProcLock p)) (
     bind (get_proc p) (\<lambda>pr.
     seq (unlock (ProcLock p)) (
     bind (deref ''exit: parent'' (p_parent pr)) (\<lambda>original_parent.
     seq (lock (ProcLock original_parent)) (
     seq (lock (ProcLock p)) (
     seq (reparent p) (
     seq (wakeup1 original_parent) (
     seq (modify_proc p (\<lambda>pr. pr\<lparr>p_xstate := status\<rparr>)) (
     seq (modify_proc p (\<lambda>pr. pr\<lparr>p_state := ZOMBIE\<rparr>)) (
     seq (unlock (ProcLock original_parent))
         sched)))))))))))))))"

definition exit :: "int \<Rightarrow> 'z kfile_scheme \<Rightarrow> ('z kfile_scheme, 'a) res" where
  "exit status =
     bind curproc (\<lambda>p.
     bind (gets initproc) (\<lambda>i.
     if i = Some p then panic ''init exiting'' else
     seq (close_files p) (
     seq begin_op (
     bind (get_proc p) (\<lambda>pr.
     bind (deref ''exit: cwd'' (p_cwd pr)) (\<lambda>cwd.
     seq (iput cwd) (
     seq end_op (
     seq (modify_proc p (\<lambda>pr. pr\<lparr>p_cwd := None\<rparr>))
         (exit_zombie p status)))))))))"

text \<open>
  One scan of the table in \<open>wait\<close>. The result says whether the function returns, and if it does not,
  whether a child has been seen.
\<close>

fun wait_scan :: "nat \<Rightarrow> u64 \<Rightarrow> nat list \<Rightarrow> bool \<Rightarrow> 'z ktable_scheme \<Rightarrow> ('z ktable_scheme, int + bool) res" where
  "wait_scan p addr [] havekids = return (Inr havekids)"
| "wait_scan p addr (np # nps) havekids =
     bind (get_proc np) (\<lambda>npr.
     if p_parent npr = Some p then
       seq (lock (ProcLock np)) (
       bind (get_proc np) (\<lambda>npr.
       if p_state npr = ZOMBIE then
         bind (get_proc p) (\<lambda>pr.
         bind (if addr \<noteq> 0 then copyout (p_pagetable pr) addr (le_bytes 4 (word_of_int (p_xstate npr) :: u32)) 4
               else return 0) (\<lambda>e.
         if e < 0 then
           seq (unlock (ProcLock np)) (seq (unlock (ProcLock p)) (return (Inl (- 1))))
         else
           seq (freeproc np) (
           seq (unlock (ProcLock np)) (
           seq (unlock (ProcLock p)) (return (Inl (p_pid npr)))))))
       else seq (unlock (ProcLock np)) (wait_scan p addr nps True)))
     else wait_scan p addr nps havekids)"

definition wait_loop :: "nat \<Rightarrow> u64 \<Rightarrow> 'z ktable_scheme \<Rightarrow> ('z ktable_scheme, int) res" where
  "wait_loop p addr =
     bind (wait_scan p addr all_procs False) (\<lambda>r.
     case r of
       Inl v \<Rightarrow> return v
     | Inr havekids \<Rightarrow>
         bind (get_proc p) (\<lambda>pr.
         if \<not> havekids \<or> p_killed pr \<noteq> 0
         then seq (unlock (ProcLock p)) (return (- 1))
         else sleep (ChanProc p) (ProcLock p)))"

definition wait :: "u64 \<Rightarrow> 'z ktable_scheme \<Rightarrow> ('z ktable_scheme, int) res" where
  "wait addr = bind curproc (\<lambda>p. seq (lock (ProcLock p)) (wait_loop p addr))"

definition wait_resume :: "bool \<Rightarrow> nat \<Rightarrow> u64 \<Rightarrow> 'z ktable_scheme \<Rightarrow> ('z ktable_scheme, int) res" where
  "wait_resume saved p addr = seq (sleep_finish saved p (ProcLock p)) (wait_loop p addr)"

definition forkret :: "'z kfile_scheme \<Rightarrow> ('z kfile_scheme, unit) res" where
  "forkret =
     bind curproc (\<lambda>p.
     seq (unlock (ProcLock p)) (
     bind (gets fork_first) (\<lambda>first.
     whenever first
       (seq (modify (\<lambda>s. s\<lparr>fork_first := False\<rparr>)) (fsinit ROOTDEV)))))"

end
