(* ===== verification/Exec.thy ===== *)
theory Exec
  imports Proc
begin

text \<open>
  Loading a program, \<open>src/kernel/exec.c\<close> and \<open>src/kernel/elf.h\<close>. The ELF headers are read into
  bytes and decoded field by field. The strings of \<open>argv\<close> are kernel pages that \<open>sys_exec\<close> has
  filled; \<open>path\<close> is a local array of the caller.
\<close>

section \<open>Headers\<close>

definition ELF_MAGIC :: u32 where "ELF_MAGIC = 0x464C457F"
definition ELF_PROG_LOAD :: u32 where "ELF_PROG_LOAD = 1"
definition ELFHDR_SIZE :: nat where "ELFHDR_SIZE = 64"
definition PROGHDR_SIZE :: nat where "PROGHDR_SIZE = 56"

definition get64 :: "byte list \<Rightarrow> nat \<Rightarrow> u64" where
  "get64 bs off = le_word (take 8 (drop off bs))"

record elfhdr =
  e_magic :: u32
  e_entry :: u64
  e_phoff :: u64
  e_phnum :: u16

definition elfhdr_of :: "byte list \<Rightarrow> elfhdr" where
  "elfhdr_of bs = \<lparr>e_magic = get32 bs 0, e_entry = get64 bs 24, e_phoff = get64 bs 32, e_phnum = get16 bs 56\<rparr>"

record proghdr =
  ph_type :: u32
  ph_off :: u64
  ph_vaddr :: u64
  ph_filesz :: u64
  ph_memsz :: u64

definition proghdr_of :: "byte list \<Rightarrow> proghdr" where
  "proghdr_of bs = \<lparr>ph_type = get32 bs 0, ph_off = get64 bs 8, ph_vaddr = get64 bs 16,
     ph_filesz = get64 bs 32, ph_memsz = get64 bs 40\<rparr>"

section \<open>Loading segments\<close>

text \<open>The index grows by a page, so a 32-bit size takes at most \<open>2 ^ 20\<close> rounds unless it wraps.\<close>

fun loadseg_loop :: "nat \<Rightarrow> u64 \<Rightarrow> u64 \<Rightarrow> nat \<Rightarrow> u32 \<Rightarrow> u32 \<Rightarrow> u32 \<Rightarrow> 'z kfs_scheme \<Rightarrow>
    ('z kfs_scheme, int) res" where
  "loadseg_loop fuel pagetable va ip offset sz i =
     (if fuel = 0 then stop (Hang ''loadseg'') else
      if \<not> i < sz then return 0 else
      bind (walkaddr pagetable (va + ucast i)) (\<lambda>pa.
      if pa = 0 then panic ''loadseg: address should exist'' else
      let n = (if sz - i < ucast PGSIZE then sz - i else ucast PGSIZE) in
      bind (readi ip (ToKernel (P2V pa)) (offset + i) n) (\<lambda>(r, _).
      if u32_of_int r \<noteq> n then return (- 1)
      else loadseg_loop (fuel - 1) pagetable va ip offset sz (i + ucast PGSIZE))))"

definition loadseg :: "u64 \<Rightarrow> u64 \<Rightarrow> nat \<Rightarrow> u32 \<Rightarrow> u32 \<Rightarrow> 'z kfs_scheme \<Rightarrow> ('z kfs_scheme, int) res" where
  "loadseg pagetable va ip offset sz =
     (if va mod PGSIZE \<noteq> 0 then panic ''loadseg: va must be page aligned''
      else loadseg_loop (2 ^ 20 + 1) pagetable va ip offset sz 0)"

text \<open>The loop over the program headers: whether it went through, and \<open>sz\<close>.\<close>

fun load_program :: "nat \<Rightarrow> u64 \<Rightarrow> nat \<Rightarrow> u32 \<Rightarrow> u64 \<Rightarrow> 'z kfs_scheme \<Rightarrow> ('z kfs_scheme, bool \<times> u64) res" where
  "load_program 0 pagetable ip off sz = return (True, sz)"
| "load_program (Suc k) pagetable ip off sz =
     bind (readi ip ToLocal off (of_nat PROGHDR_SIZE)) (\<lambda>(r, bs).
     if r \<noteq> int PROGHDR_SIZE then return (False, sz) else
     let ph = proghdr_of bs in
     if ph_type ph \<noteq> ELF_PROG_LOAD then load_program k pagetable ip (off + of_nat PROGHDR_SIZE) sz else
     if ph_memsz ph < ph_filesz ph then return (False, sz) else
     if ph_vaddr ph + ph_memsz ph < ph_vaddr ph then return (False, sz) else
     bind (uvmalloc pagetable sz (ph_vaddr ph + ph_memsz ph)) (\<lambda>sz1.
     if sz1 = 0 then return (False, sz) else
     if ph_vaddr ph mod PGSIZE \<noteq> 0 then return (False, sz1) else
     bind (loadseg pagetable (ph_vaddr ph) ip (ucast (ph_off ph)) (ucast (ph_filesz ph))) (\<lambda>r.
     if r < 0 then return (False, sz1)
     else load_program k pagetable ip (off + of_nat PROGHDR_SIZE) sz1)))"

section \<open>Arguments\<close>

definition load_str :: "u64 \<Rightarrow> 'z kbase_scheme \<Rightarrow> ('z kbase_scheme, byte list) res" where
  "load_str a =
     bind (gets (\<lambda>s. strlen (view_at (mem s) a))) (\<lambda>n.
     case n of None \<Rightarrow> undef ''strlen'' | Some n \<Rightarrow> gets (\<lambda>s. read_mem (mem s) a n))"

text \<open>The loop that pushes the strings: None after \<open>goto bad\<close>, else the stack pointer and \<open>ustack\<close>.\<close>

fun push_args :: "u64 \<Rightarrow> u64 \<Rightarrow> u64 list \<Rightarrow> nat \<Rightarrow> u64 \<Rightarrow> u64 list \<Rightarrow> 'z kmem_scheme \<Rightarrow>
    ('z kmem_scheme, (u64 \<times> u64 list) option) res" where
  "push_args pagetable stackbase [] argc sp ustack = return (Some (sp, ustack))"
| "push_args pagetable stackbase (a # argv) argc sp ustack =
     (if argc \<ge> MAXARG then return None else
      bind (load_str a) (\<lambda>str.
      let sp' = (sp - of_nat (length str + 1)) AND NOT 7 in
      if sp' < stackbase then return None else
      bind (copyout pagetable sp' (str @ [0]) (of_nat (length str + 1))) (\<lambda>r.
      if r < 0 then return None
      else push_args pagetable stackbase argv (Suc argc) sp' (ustack @ [sp']))))"

definition last_elem :: "byte list \<Rightarrow> byte list" where
  "last_elem path = rev (takeWhile (\<lambda>c. c \<noteq> slash) (rev path))"

section \<open>exec\<close>

definition exec_bad :: "u64 \<Rightarrow> u64 \<Rightarrow> nat option \<Rightarrow> 'z kfs_scheme \<Rightarrow> ('z kfs_scheme, int) res" where
  "exec_bad pagetable sz ip =
     seq (whenever (pagetable \<noteq> 0) (proc_freepagetable pagetable sz)) (
     seq (whenever (ip \<noteq> None) (seq (iunlockput ip) end_op))
         (return (- 1)))"

text \<open>What \<open>exec\<close> does once the program is in memory and the inode is released.\<close>

definition exec_commit ::
  "nat \<Rightarrow> byte list \<Rightarrow> u64 list \<Rightarrow> u64 \<Rightarrow> u64 \<Rightarrow> u64 \<Rightarrow> 'z kfs_scheme \<Rightarrow> ('z kfs_scheme, int) res" where
  "exec_commit p path argv pagetable entry sz0 =
     bind (get_proc p) (\<lambda>pr.
     let oldsz = p_sz pr; sz = PGROUNDUP sz0 in
     bind (uvmalloc pagetable sz (sz + 2 * PGSIZE)) (\<lambda>sz1.
     if sz1 = 0 then exec_bad pagetable sz None else
     seq (uvmclear pagetable (sz1 - 2 * PGSIZE)) (
     let stackbase = sz1 - PGSIZE in
     bind (push_args pagetable stackbase argv 0 sz1 []) (\<lambda>r.
     case r of None \<Rightarrow> exec_bad pagetable sz1 None | Some (sp, ustack) \<Rightarrow>
     let argc = length ustack; sp = (sp - of_nat (8 * (argc + 1))) AND NOT 7 in
     if sp < stackbase then exec_bad pagetable sz1 None else
     bind (copyout pagetable sp (concat (map (le_bytes 8) (ustack @ [0]))) (of_nat (8 * (argc + 1)))) (\<lambda>e.
     if e < 0 then exec_bad pagetable sz1 None else
     seq (tf_set p 0 (of_nat argc)) (
     seq (tf_set p 1 sp) (
     seq (set_name p (view_of (last_elem path))) (
     bind (get_proc p) (\<lambda>pr.
     let oldpagetable = p_pagetable pr in
     seq (modify_proc p (\<lambda>pr. pr\<lparr>p_pagetable := pagetable, p_sz := sz1\<rparr>)) (
     seq (tf_set p TF_SP sp) (
     seq (tf_set p TF_ELR entry) (
     seq (uvmswitch p) (
     seq (proc_freepagetable oldpagetable oldsz)
         (return (int argc)))))))))))))))"

definition exec :: "byte list \<Rightarrow> u64 list \<Rightarrow> 'z kfs_scheme \<Rightarrow> ('z kfs_scheme, int) res" where
  "exec path argv =
     bind curproc (\<lambda>p.
     seq begin_op (
     bind (namei path) (\<lambda>ip0.
     case ip0 of None \<Rightarrow> seq end_op (return (- 1)) | Some ip \<Rightarrow>
     seq (ilock ip0) (
     bind (readi ip ToLocal 0 (of_nat ELFHDR_SIZE)) (\<lambda>(r, bs).
     let elf = elfhdr_of bs in
     if r \<noteq> int ELFHDR_SIZE then exec_bad 0 0 ip0 else
     if e_magic elf \<noteq> ELF_MAGIC then exec_bad 0 0 ip0 else
     bind (proc_pagetable p) (\<lambda>pagetable.
     if pagetable = 0 then exec_bad 0 0 ip0 else
     bind (load_program (unat (e_phnum elf)) pagetable ip (ucast (e_phoff elf)) 0) (\<lambda>(ok, sz).
     if \<not> ok then exec_bad pagetable sz ip0 else
     seq (iunlockput ip0) (
     seq end_op (
     bind curproc (\<lambda>p.
     exec_commit p path argv pagetable (e_entry elf) sz))))))))))"

declare loadseg_loop.simps [simp del]

end
