(* ===== verification/Gic.thy ===== *)
theory Gic
  imports Exec
begin

text \<open>
  The interrupt controller and the timer: \<open>src/kernel/gic.c\<close>, \<open>src/kernel/timer.c\<close> and
  \<open>uart_enable_rx\<close> of \<open>src/kernel/uart.c\<close>. The registers of the controller's distributor and CPU
  interface hold what the kernel stores in them; an acknowledge takes the next interrupt of
  \<open>gic_pending\<close>, or the spurious interrupt 1023. The timer's registers are banked per CPU.
\<close>

section \<open>State\<close>

definition GICD_CTLR :: nat where "GICD_CTLR = 0x000"
definition GICD_ISENABLERn :: nat where "GICD_ISENABLERn = 0x100"
definition GICD_ITARGETSRn :: nat where "GICD_ITARGETSRn = 0x800"
definition GICD_ICFGRn :: nat where "GICD_ICFGRn = 0xc00"
definition GICC_CTLR :: nat where "GICC_CTLR = 0x000"
definition GICC_PMR :: nat where "GICC_PMR = 0x004"
definition GICC_EOIR :: nat where "GICC_EOIR = 0x010"
definition PIC_TIMER :: nat where "PIC_TIMER = 30"
definition PIC_UART0 :: nat where "PIC_UART0 = 1"
definition PIC_VIRTIO :: nat where "PIC_VIRTIO = 16"
definition PERIOED :: int where "PERIOED = 100"
definition NISR :: nat where "NISR = 64"

datatype isr = IsrDefault | IsrUart | IsrVirtio | IsrTimer

record kgic = kfile +
  gicd :: "nat \<Rightarrow> u32"
  gicc :: "nat \<Rightarrow> u32"
  gic_pending :: "u32 list"
  isrs :: "nat \<Rightarrow> isr option"
  ticks :: u32
  cntp_ctl :: "nat \<Rightarrow> u64"
  cntp_cval :: "nat \<Rightarrow> u64"
  cntfrq :: "nat \<Rightarrow> u64"
  cntpct :: "nat \<Rightarrow> u64"
  started :: bool

definition gicd_write :: "nat \<Rightarrow> u32 \<Rightarrow> 'z kgic_scheme \<Rightarrow> ('z kgic_scheme, unit) res" where
  "gicd_write r v = modify (\<lambda>s. s\<lparr>gicd := (gicd s)(r := v)\<rparr>)"

definition gicc_write :: "nat \<Rightarrow> u32 \<Rightarrow> 'z kgic_scheme \<Rightarrow> ('z kgic_scheme, unit) res" where
  "gicc_write r v = modify (\<lambda>s. s\<lparr>gicc := (gicc s)(r := v)\<rparr>)"

section \<open>Distributor\<close>

definition gic_dist_switch :: "nat \<Rightarrow> bool \<Rightarrow> 'z kgic_scheme \<Rightarrow> ('z kgic_scheme, unit) res" where
  "gic_dist_switch num enable =
     (let bitoff = num mod 32; r = GICD_ISENABLERn + num div 32 * 4 in
      bind (gets (\<lambda>s. gicd s r)) (\<lambda>val.
      gicd_write r (if enable then val OR push_bit bitoff 1 else val AND NOT (push_bit bitoff 1))))"

text \<open>The new value of a configuration register.\<close>

definition config_bits :: "nat \<Rightarrow> bool \<Rightarrow> u32 \<Rightarrow> u32" where
  "config_bits num edge val =
     (let bitoff = (num mod 16) * 2; val = val AND push_bit bitoff (NOT 3) in
      if edge then val OR push_bit bitoff 2 else val)"

definition gic_dist_config :: "nat \<Rightarrow> bool \<Rightarrow> u32 \<Rightarrow> 'z kgic_scheme \<Rightarrow> ('z kgic_scheme, unit) res" where
  "gic_dist_config num edge target =
     (let r = GICD_ICFGRn + num div 16 * 4; t = GICD_ITARGETSRn + num div 4 * 4 in
      bind (gets (\<lambda>s. gicd s r)) (\<lambda>val.
      seq (gicd_write r (config_bits num edge val)) (
      seq (gic_dist_switch num True) (
      bind (gets (\<lambda>s. gicd s t)) (\<lambda>val.
      gicd_write t (val OR push_bit (num mod 4 * 8) target))))))"

definition default_isr :: "'z kgic_scheme \<Rightarrow> ('z kgic_scheme, unit) res" where
  "default_isr = printf (Some (bytes_of ''unhandled interrupt'' @ [10])) []"

definition gichartinit :: "nat \<Rightarrow> 'z kgic_scheme \<Rightarrow> ('z kgic_scheme, unit) res" where
  "gichartinit hart =
     seq (gicc_write GICC_PMR 0xf) (
     bind (gets (\<lambda>s. gicc s GICC_CTLR)) (\<lambda>v.
     seq (gicc_write GICC_CTLR (v OR 1))
         (gic_dist_config PIC_TIMER False (push_bit hart 1))))"

definition gic_init :: "'z kgic_scheme \<Rightarrow> ('z kgic_scheme, unit) res" where
  "gic_init =
     seq (for_each [0..<32] (\<lambda>i. modify (\<lambda>s. s\<lparr>isrs := (isrs s)(i := Some IsrDefault)\<rparr>))) (
     seq (gicc_write GICC_PMR 0xf) (
     seq (gic_dist_config PIC_TIMER False 1) (
     seq (gic_dist_config (PIC_UART0 + 32) False 0x11) (
     seq (gic_dist_config (PIC_VIRTIO + 32) True 0x11) (
     bind (gets (\<lambda>s. gicd s GICD_CTLR)) (\<lambda>v.
     seq (gicd_write GICD_CTLR (v OR 1)) (
     bind (gets (\<lambda>s. gicc s GICC_CTLR)) (\<lambda>v.
     gicc_write GICC_CTLR (v OR 1)))))))))"

definition gic_set :: "nat \<Rightarrow> isr \<Rightarrow> 'z kgic_scheme \<Rightarrow> ('z kgic_scheme, unit) res" where
  "gic_set n i = whenever (n < NISR) (modify (\<lambda>s. s\<lparr>isrs := (isrs s)(n := Some i)\<rparr>))"

definition uart_enable_rx :: "'z kgic_scheme \<Rightarrow> ('z kgic_scheme, unit) res" where
  "uart_enable_rx = seq (uart_write_reg UART_IMSC UART_RXI) (gic_set (PIC_UART0 + 32) IsrUart)"

section \<open>Timer\<close>

definition set_physical_timer :: "int \<Rightarrow> 'z kgic_scheme \<Rightarrow> ('z kgic_scheme, unit) res" where
  "set_physical_timer timeout_ms =
     bind (gets (\<lambda>s. cpuid (hw s))) (\<lambda>c.
     seq (modify (\<lambda>s. s\<lparr>cntp_ctl := (cntp_ctl s)(c := 0)\<rparr>)) (
     seq (modify (\<lambda>s. s\<lparr>cntp_cval := (cntp_cval s)(c := cntpct s c + cntfrq s c div 1000 * word_of_int timeout_ms)\<rparr>))
         (modify (\<lambda>s. s\<lparr>cntp_ctl := (cntp_ctl s)(c := 1)\<rparr>))))"

definition timer_init :: "'z kgic_scheme \<Rightarrow> ('z kgic_scheme, unit) res" where
  "timer_init =
     seq (set_physical_timer PERIOED) (
     bind (gets (\<lambda>s. cpuid (hw s))) (\<lambda>c.
     whenever (c = 0) (gic_set PIC_TIMER IsrTimer)))"

definition isr_timer :: "'z kgic_scheme \<Rightarrow> ('z kgic_scheme, unit) res" where
  "isr_timer =
     seq (set_physical_timer PERIOED) (
     bind (gets (\<lambda>s. cpuid (hw s))) (\<lambda>c.
     whenever (c = 0) (
       seq (lock TicksLock) (
       seq (modify (\<lambda>s. s\<lparr>ticks := ticks s + 1\<rparr>)) (
       seq (wakeup ChanTicks)
           (unlock TicksLock))))))"

section \<open>Interrupts\<close>

fun run_isr :: "isr \<Rightarrow> 'z kgic_scheme \<Rightarrow> ('z kgic_scheme, unit) res" where
  "run_isr IsrDefault = default_isr"
| "run_isr IsrUart = isr_uart"
| "run_isr IsrVirtio = virtio_disk_intr"
| "run_isr IsrTimer = isr_timer"

definition gic_acknowledge :: "'z kgic_scheme \<Rightarrow> ('z kgic_scheme, u32) res" where
  "gic_acknowledge =
     bind (gets gic_pending) (\<lambda>l.
     case l of [] \<Rightarrow> return 1023 | i # is \<Rightarrow> seq (modify (\<lambda>s. s\<lparr>gic_pending := is\<rparr>)) (return i))"

definition gic_handler :: "'z kgic_scheme \<Rightarrow> ('z kgic_scheme, int) res" where
  "gic_handler =
     bind gic_acknowledge (\<lambda>irq.
     seq (whenever (irq = 1023) default_isr) (
     bind (gets isrs) (\<lambda>tab.
     if unat irq \<ge> NISR then undef ''isrs'' else
     bind (deref ''isrs'' (tab (unat irq))) (\<lambda>i.
     seq (run_isr i) (
     seq (gicc_write GICC_EOIR irq)
         (return (sint irq)))))))"

end
