(* ===== verification/Syscall.thy ===== *)
theory Syscall
  imports Gic
begin

text \<open>
  System calls: \<open>src/kernel/syscall.c\<close>, \<open>src/kernel/syscall.h\<close>, \<open>src/kernel/sysproc.c\<close> and
  \<open>src/kernel/sysfile.c\<close>. A string that a call fetches into a local array is the list of the bytes
  before the NUL. A system call returns 64 bits, of which the dispatcher keeps the low 32.
\<close>

section \<open>Arguments\<close>

definition cstr :: "byte list \<Rightarrow> byte list" where
  "cstr bs = takeWhile (\<lambda>c. c \<noteq> 0) bs"

definition fetchaddr :: "u64 \<Rightarrow> 'z ktable_scheme \<Rightarrow> ('z ktable_scheme, int \<times> u64) res" where
  "fetchaddr addr =
     bind curproc (\<lambda>p.
     bind (get_proc p) (\<lambda>pr.
     if addr \<ge> p_sz pr \<or> addr + 8 > p_sz pr then return (- 1, 0) else
     bind (copyin (p_pagetable pr) addr 8) (\<lambda>(r, bs).
     if r \<noteq> 0 then return (- 1, 0) else return (0, le_word bs))))"

text \<open>The length of the string or -1, and the bytes that have been stored.\<close>

definition fetchstr :: "u64 \<Rightarrow> nat \<Rightarrow> 'z ktable_scheme \<Rightarrow> ('z ktable_scheme, int \<times> byte list) res" where
  "fetchstr addr maxlen =
     bind curproc (\<lambda>p.
     bind (get_proc p) (\<lambda>pr.
     bind (copyinstr (p_pagetable pr) addr (of_nat maxlen)) (\<lambda>(err, bs).
     if err < 0 then return (err, bs) else return (int (length (cstr bs)), bs))))"

definition argraw :: "nat \<Rightarrow> 'z ktable_scheme \<Rightarrow> ('z ktable_scheme, u64) res" where
  "argraw n = bind curproc (\<lambda>p. if n \<le> 6 then tf_get p n else panic ''argraw'')"

definition argint :: "nat \<Rightarrow> 'z ktable_scheme \<Rightarrow> ('z ktable_scheme, int) res" where
  "argint n = bind (argraw n) (\<lambda>v. return (sint (ucast v :: u32)))"

definition argaddr :: "nat \<Rightarrow> 'z ktable_scheme \<Rightarrow> ('z ktable_scheme, u64) res" where
  "argaddr n = argraw n"

definition argstr :: "nat \<Rightarrow> nat \<Rightarrow> 'z ktable_scheme \<Rightarrow> ('z ktable_scheme, int \<times> byte list) res" where
  "argstr n maxlen = bind (argaddr n) (\<lambda>addr. fetchstr addr maxlen)"

definition ret :: "int \<Rightarrow> 's \<Rightarrow> ('s, u64) res" where
  "ret r = return (u64_of_int r)"

section \<open>Process calls\<close>

definition sys_exit :: "'z kgic_scheme \<Rightarrow> ('z kgic_scheme, u64) res" where
  "sys_exit = bind (argint 0) (\<lambda>n. exit n)"

definition sys_fork :: "u64 \<Rightarrow> u64 \<Rightarrow> 'z kgic_scheme \<Rightarrow> ('z kgic_scheme, u64) res" where
  "sys_fork trapret_addr forkret_addr = bind (fork trapret_addr forkret_addr) ret"

definition sys_getpid :: "'z kgic_scheme \<Rightarrow> ('z kgic_scheme, u64) res" where
  "sys_getpid = bind curproc (\<lambda>p. bind (get_proc p) (\<lambda>pr. ret (p_pid pr)))"

definition sys_wait :: "'z kgic_scheme \<Rightarrow> ('z kgic_scheme, u64) res" where
  "sys_wait = bind (argaddr 0) (\<lambda>a. bind (wait a) ret)"

definition sys_kill :: "'z kgic_scheme \<Rightarrow> ('z kgic_scheme, u64) res" where
  "sys_kill = bind (argint 0) (\<lambda>pid. bind (kill pid) ret)"

definition sys_sbrk :: "'z kgic_scheme \<Rightarrow> ('z kgic_scheme, u64) res" where
  "sys_sbrk =
     bind (argint 0) (\<lambda>n.
     bind curproc (\<lambda>p.
     bind (get_proc p) (\<lambda>pr.
     let addr = sint (ucast (p_sz pr) :: u32) in
     bind (growproc n) (\<lambda>r.
     if r < 0 then ret (- 1) else ret addr))))"

definition sys_uptime :: "'z kgic_scheme \<Rightarrow> ('z kgic_scheme, u64) res" where
  "sys_uptime =
     seq (lock TicksLock) (
     bind (gets ticks) (\<lambda>xticks.
     seq (unlock TicksLock) (return (ucast xticks))))"

definition sys_sleep :: "'z kgic_scheme \<Rightarrow> ('z kgic_scheme, u64) res" where
  "sys_sleep = ret 0"

section \<open>File descriptors\<close>

definition argfd :: "nat \<Rightarrow> 'z ktable_scheme \<Rightarrow> ('z ktable_scheme, (nat \<times> nat) option) res" where
  "argfd n =
     bind (argint n) (\<lambda>fd.
     if fd < 0 \<or> fd \<ge> int NOFILE then return None else
     bind curproc (\<lambda>p.
     bind (get_proc p) (\<lambda>pr.
     case p_ofile pr (nat fd) of None \<Rightarrow> return None | Some f \<Rightarrow> return (Some (nat fd, f)))))"

fun fdalloc_from :: "nat \<Rightarrow> nat \<Rightarrow> nat list \<Rightarrow> 'z ktable_scheme \<Rightarrow> ('z ktable_scheme, int) res" where
  "fdalloc_from p f [] = return (- 1)"
| "fdalloc_from p f (fd # fds) =
     bind (get_proc p) (\<lambda>pr.
     if p_ofile pr fd = None then
       seq (modify_proc p (\<lambda>pr. pr\<lparr>p_ofile := (p_ofile pr)(fd := Some f)\<rparr>)) (return (int fd))
     else fdalloc_from p f fds)"

definition fdalloc :: "nat \<Rightarrow> 'z ktable_scheme \<Rightarrow> ('z ktable_scheme, int) res" where
  "fdalloc f = bind curproc (\<lambda>p. fdalloc_from p f [0..<NOFILE])"

definition clear_fd :: "nat \<Rightarrow> nat \<Rightarrow> 'z ktable_scheme \<Rightarrow> ('z ktable_scheme, unit) res" where
  "clear_fd p fd = modify_proc p (\<lambda>pr. pr\<lparr>p_ofile := (p_ofile pr)(fd := None)\<rparr>)"

definition sys_dup :: "'z kgic_scheme \<Rightarrow> ('z kgic_scheme, u64) res" where
  "sys_dup =
     bind (argfd 0) (\<lambda>r.
     case r of None \<Rightarrow> ret (- 1) | Some (_, f) \<Rightarrow>
     bind (fdalloc f) (\<lambda>fd.
     if fd < 0 then ret (- 1) else
     bind (filedup f) (\<lambda>_. ret fd)))"

definition sys_read :: "'z kgic_scheme \<Rightarrow> ('z kgic_scheme, u64) res" where
  "sys_read =
     bind (argfd 0) (\<lambda>r.
     case r of None \<Rightarrow> ret (- 1) | Some (_, f) \<Rightarrow>
     bind (argint 2) (\<lambda>n.
     bind (argaddr 1) (\<lambda>p.
     bind (fileread f p n) ret)))"

definition sys_write :: "'z kgic_scheme \<Rightarrow> ('z kgic_scheme, u64) res" where
  "sys_write =
     bind (argfd 0) (\<lambda>r.
     case r of None \<Rightarrow> ret (- 1) | Some (_, f) \<Rightarrow>
     bind (argint 2) (\<lambda>n.
     bind (argaddr 1) (\<lambda>p.
     bind (filewrite f p n) ret)))"

definition sys_close :: "'z kgic_scheme \<Rightarrow> ('z kgic_scheme, u64) res" where
  "sys_close =
     bind (argfd 0) (\<lambda>r.
     case r of None \<Rightarrow> ret (- 1) | Some (fd, f) \<Rightarrow>
     bind curproc (\<lambda>p.
     seq (clear_fd p fd) (
     seq (fileclose f) (ret 0))))"

definition sys_fstat :: "'z kgic_scheme \<Rightarrow> ('z kgic_scheme, u64) res" where
  "sys_fstat =
     bind (argfd 0) (\<lambda>r.
     case r of None \<Rightarrow> ret (- 1) | Some (_, f) \<Rightarrow>
     bind (argaddr 1) (\<lambda>st.
     bind (filestat f st) ret))"

section \<open>Links\<close>

definition sys_link_bad :: "nat \<Rightarrow> 'z kfs_scheme \<Rightarrow> ('z kfs_scheme, u64) res" where
  "sys_link_bad ip =
     seq (ilock (Some ip)) (
     seq (modify_inode ip (\<lambda>i. i\<lparr>i_nlink := i_nlink i - 1\<rparr>)) (
     seq (iupdate ip) (
     seq (iunlockput (Some ip)) (
     seq end_op (ret (- 1))))))"

definition sys_link :: "'z kgic_scheme \<Rightarrow> ('z kgic_scheme, u64) res" where
  "sys_link =
     bind (argstr 0 MAXPATH) (\<lambda>(r, old).
     if r < 0 then ret (- 1) else
     bind (argstr 1 MAXPATH) (\<lambda>(r, new).
     if r < 0 then ret (- 1) else
     seq begin_op (
     bind (namei (cstr old)) (\<lambda>ip0.
     case ip0 of None \<Rightarrow> seq end_op (ret (- 1)) | Some ip \<Rightarrow>
     seq (ilock ip0) (
     bind (get_inode ip) (\<lambda>i.
     if i_type i = T_DIR then seq (iunlockput ip0) (seq end_op (ret (- 1))) else
     seq (modify_inode ip (\<lambda>i. i\<lparr>i_nlink := i_nlink i + 1\<rparr>)) (
     seq (iupdate ip) (
     seq (iunlock ip0) (
     bind (gets stack_junk) (\<lambda>junk.
     bind (nameiparent (cstr new) junk) (\<lambda>(dp0, name).
     case dp0 of None \<Rightarrow> sys_link_bad ip | Some dp \<Rightarrow>
     seq (ilock dp0) (
     bind (get_inode dp) (\<lambda>d.
     bind (get_inode ip) (\<lambda>i.
     bind (if i_dev d \<noteq> i_dev i then return (- 1) else dirlink dp name (i_inum i)) (\<lambda>r.
     if r < 0 then seq (iunlockput dp0) (sys_link_bad ip) else
     seq (iunlockput dp0) (
     seq (iput ip) (
     seq end_op (ret 0))))))))))))))))))"

text \<open>The offset is an \<open>int\<close>, compared with the size as an unsigned number.\<close>

fun isdirempty_loop :: "nat \<Rightarrow> nat \<Rightarrow> u32 \<Rightarrow> 'z kfs_scheme \<Rightarrow> ('z kfs_scheme, bool) res" where
  "isdirempty_loop fuel dp off =
     (if fuel = 0 then stop (Hang ''isdirempty'') else
      bind (get_inode dp) (\<lambda>d.
      if \<not> off < i_size d then return True else
      bind (readi dp ToLocal off (of_nat DIRENT_SIZE)) (\<lambda>(r, bs).
      if r \<noteq> int DIRENT_SIZE then panic ''isdirempty: readi'' else
      if de_inum bs \<noteq> 0 then return False
      else isdirempty_loop (fuel - 1) dp (off + of_nat DIRENT_SIZE))))"

definition isdirempty :: "nat \<Rightarrow> 'z kfs_scheme \<Rightarrow> ('z kfs_scheme, bool) res" where
  "isdirempty dp = isdirempty_loop (2 ^ 28 + 1) dp (of_nat (2 * DIRENT_SIZE))"

definition sys_unlink_bad :: "nat \<Rightarrow> 'z kfs_scheme \<Rightarrow> ('z kfs_scheme, u64) res" where
  "sys_unlink_bad dp = seq (iunlockput (Some dp)) (seq end_op (ret (- 1)))"

definition dot :: view where "dot = view_of [46]"
definition dotdot :: view where "dotdot = view_of [46, 46]"

text \<open>\<open>sys_unlink\<close> once the entry is found: \<open>dp\<close> and \<open>ip\<close> are locked, the entry is at \<open>off\<close>.\<close>

definition unlink_entry :: "nat \<Rightarrow> nat \<Rightarrow> u32 \<Rightarrow> 'z kfs_scheme \<Rightarrow> ('z kfs_scheme, u64) res" where
  "unlink_entry dp ip off =
     bind (get_inode ip) (\<lambda>i.
     if sint (i_nlink i) < 1 then panic ''unlink: nlink < 1'' else
     bind (if i_type i = T_DIR then isdirempty ip else return True) (\<lambda>empty.
     if \<not> empty then seq (iunlockput (Some ip)) (sys_unlink_bad dp) else
     bind (writei dp (FromLocal (replicate DIRENT_SIZE 0)) off (of_nat DIRENT_SIZE)) (\<lambda>r.
     if r \<noteq> int DIRENT_SIZE then panic ''unlink: writei'' else
     bind (get_inode ip) (\<lambda>i.
     seq (whenever (i_type i = T_DIR)
           (seq (modify_inode dp (\<lambda>d. d\<lparr>i_nlink := i_nlink d - 1\<rparr>)) (iupdate dp))) (
     seq (iunlockput (Some dp)) (
     seq (modify_inode ip (\<lambda>i. i\<lparr>i_nlink := i_nlink i - 1\<rparr>)) (
     seq (iupdate ip) (
     seq (iunlockput (Some ip)) (
     seq end_op (ret 0))))))))))"

definition sys_unlink :: "'z kgic_scheme \<Rightarrow> ('z kgic_scheme, u64) res" where
  "sys_unlink =
     bind (argstr 0 MAXPATH) (\<lambda>(r, path).
     if r < 0 then ret (- 1) else
     seq begin_op (
     bind (gets stack_junk) (\<lambda>junk.
     bind (nameiparent (cstr path) junk) (\<lambda>(dp0, name).
     case dp0 of None \<Rightarrow> seq end_op (ret (- 1)) | Some dp \<Rightarrow>
     seq (ilock dp0) (
     if namecmp name dot = 0 \<or> namecmp name dotdot = 0 then sys_unlink_bad dp else
     bind (dirlookup dp name) (\<lambda>e.
     case e of None \<Rightarrow> sys_unlink_bad dp | Some (ip, off) \<Rightarrow>
     seq (ilock (Some ip))
         (unlink_entry dp ip off)))))))"

section \<open>Creating and opening\<close>

text \<open>\<open>create\<close> when the name is not yet in \<open>dp\<close>: make the inode and link it.\<close>

definition create_new :: "nat \<Rightarrow> view \<Rightarrow> u16 \<Rightarrow> u16 \<Rightarrow> u16 \<Rightarrow> 'z kfs_scheme \<Rightarrow> ('z kfs_scheme, nat option) res" where
  "create_new dp name ty mj mn =
     bind (get_inode dp) (\<lambda>d.
     bind (ialloc (i_dev d) ty) (\<lambda>ip.
     seq (ilock (Some ip)) (
     seq (modify_inode ip (\<lambda>i. i\<lparr>i_major := mj, i_minor := mn, i_nlink := 1\<rparr>)) (
     seq (iupdate ip) (
     bind (get_inode ip) (\<lambda>i.
     seq (whenever (ty = T_DIR) (
            seq (modify_inode dp (\<lambda>d. d\<lparr>i_nlink := i_nlink d + 1\<rparr>)) (
            seq (iupdate dp) (
            bind (dirlink ip dot (i_inum i)) (\<lambda>r.
            if r < 0 then panic ''create dots'' else
            bind (dirlink ip dotdot (i_inum d)) (\<lambda>r.
            if r < 0 then panic ''create dots'' else return ())))))) (
     bind (dirlink dp name (i_inum i)) (\<lambda>r.
     if r < 0 then panic ''create: dirlink'' else
     seq (iunlockput (Some dp)) (return (Some ip))))))))))"

definition create :: "byte list \<Rightarrow> u16 \<Rightarrow> u16 \<Rightarrow> u16 \<Rightarrow> 'z kfile_scheme \<Rightarrow> ('z kfile_scheme, nat option) res" where
  "create path ty mj mn =
     bind (gets stack_junk) (\<lambda>junk.
     bind (nameiparent path junk) (\<lambda>(dp0, name).
     case dp0 of None \<Rightarrow> return None | Some dp \<Rightarrow>
     seq (ilock dp0) (
     bind (dirlookup dp name) (\<lambda>e.
     case e of
       Some (ip, _) \<Rightarrow>
         seq (iunlockput dp0) (
         seq (ilock (Some ip)) (
         bind (get_inode ip) (\<lambda>i.
         if ty = T_FILE \<and> (i_type i = T_FILE \<or> i_type i = T_DEV) then return (Some ip)
         else seq (iunlockput (Some ip)) (return None))))
     | None \<Rightarrow> create_new dp name ty mj mn))))"

definition O_RDONLY :: u32 where "O_RDONLY = 0x000"
definition O_WRONLY :: u32 where "O_WRONLY = 0x001"
definition O_RDWR :: u32 where "O_RDWR = 0x002"
definition O_CREATE :: u32 where "O_CREATE = 0x200"
definition O_TRUNC :: u32 where "O_TRUNC = 0x400"

text \<open>The inode that \<open>sys_open\<close> opens, locked, or None after the transaction is ended.\<close>

definition open_inode :: "byte list \<Rightarrow> u32 \<Rightarrow> 'z kfile_scheme \<Rightarrow> ('z kfile_scheme, nat option) res" where
  "open_inode path omode =
     (if omode AND O_CREATE \<noteq> 0 then
        bind (create path T_FILE 0 0) (\<lambda>ip0.
        if ip0 = None then seq end_op (return None) else return ip0)
      else
        bind (namei path) (\<lambda>ip0.
        case ip0 of None \<Rightarrow> seq end_op (return None) | Some ip \<Rightarrow>
        seq (ilock ip0) (
        bind (get_inode ip) (\<lambda>i.
        if i_type i = T_DIR \<and> omode \<noteq> O_RDONLY
        then seq (iunlockput ip0) (seq end_op (return None))
        else return ip0))))"

definition open_fail :: "nat \<Rightarrow> 'z kfile_scheme \<Rightarrow> ('z kfile_scheme, u64) res" where
  "open_fail ip = seq (iunlockput (Some ip)) (seq end_op (ret (- 1)))"

definition open_file :: "nat \<Rightarrow> nat \<Rightarrow> u32 \<Rightarrow> inode \<Rightarrow> 'z kfile_scheme \<Rightarrow> ('z kfile_scheme, unit) res" where
  "open_file f ip omode i =
     seq (if i_type i = T_DEV then modify_file f (\<lambda>x. x\<lparr>f_type := FD_DEVICE, f_major := i_major i\<rparr>)
          else modify_file f (\<lambda>x. x\<lparr>f_type := FD_INODE, f_off := 0\<rparr>)) (
     modify_file f (\<lambda>x. x\<lparr>f_ip := Some ip, f_readable := (omode AND O_WRONLY = 0),
       f_writable := (omode AND O_WRONLY \<noteq> 0 \<or> omode AND O_RDWR \<noteq> 0)\<rparr>))"

definition sys_open :: "'z kgic_scheme \<Rightarrow> ('z kgic_scheme, u64) res" where
  "sys_open =
     bind (argstr 0 MAXPATH) (\<lambda>(n, path).
     if n < 0 then ret (- 1) else
     bind (argint 1) (\<lambda>om.
     let omode = u32_of_int om in
     seq begin_op (
     bind (open_inode (cstr path) omode) (\<lambda>ip0.
     case ip0 of None \<Rightarrow> ret (- 1) | Some ip \<Rightarrow>
     bind (get_inode ip) (\<lambda>i.
     if i_type i = T_DEV \<and> (sint (i_major i) < 0 \<or> sint (i_major i) \<ge> int NDEV) then open_fail ip else
     bind filealloc (\<lambda>f0.
     case f0 of None \<Rightarrow> open_fail ip | Some f \<Rightarrow>
     bind (fdalloc f) (\<lambda>fd.
     if fd < 0 then seq (fileclose f) (open_fail ip) else
     seq (open_file f ip omode i) (
     seq (whenever (omode AND O_TRUNC \<noteq> 0 \<and> i_type i = T_FILE) (itrunc ip)) (
     seq (iunlock (Some ip)) (
     seq end_op (ret fd)))))))))))"

definition finish_create :: "nat option \<Rightarrow> 'z kfs_scheme \<Rightarrow> ('z kfs_scheme, u64) res" where
  "finish_create ip0 =
     (if ip0 = None then seq end_op (ret (- 1))
      else seq (iunlockput ip0) (seq end_op (ret 0)))"

definition sys_mkdir :: "'z kgic_scheme \<Rightarrow> ('z kgic_scheme, u64) res" where
  "sys_mkdir =
     seq begin_op (
     bind (argstr 0 MAXPATH) (\<lambda>(n, path).
     if n < 0 then finish_create None else
     bind (create (cstr path) T_DIR 0 0) finish_create))"

definition sys_mknod :: "'z kgic_scheme \<Rightarrow> ('z kgic_scheme, u64) res" where
  "sys_mknod =
     seq begin_op (
     bind (argstr 0 MAXPATH) (\<lambda>(n, path).
     if n < 0 then finish_create None else
     bind (argint 1) (\<lambda>mj.
     bind (argint 2) (\<lambda>mn.
     bind (create (cstr path) T_DEV (word_of_int mj) (word_of_int mn)) finish_create))))"

definition sys_chdir :: "'z kgic_scheme \<Rightarrow> ('z kgic_scheme, u64) res" where
  "sys_chdir =
     bind curproc (\<lambda>p.
     seq begin_op (
     bind (argstr 0 MAXPATH) (\<lambda>(n, path).
     if n < 0 then seq end_op (ret (- 1)) else
     bind (namei (cstr path)) (\<lambda>ip0.
     case ip0 of None \<Rightarrow> seq end_op (ret (- 1)) | Some ip \<Rightarrow>
     seq (ilock ip0) (
     bind (get_inode ip) (\<lambda>i.
     if i_type i \<noteq> T_DIR then seq (iunlockput ip0) (seq end_op (ret (- 1))) else
     seq (iunlock ip0) (
     bind (get_proc p) (\<lambda>pr.
     bind (deref ''chdir: cwd'' (p_cwd pr)) (\<lambda>cwd.
     seq (iput cwd) (
     seq end_op (
     seq (modify_proc p (\<lambda>pr. pr\<lparr>p_cwd := ip0\<rparr>))
         (ret 0))))))))))))"

section \<open>exec and pipe\<close>

text \<open>
  The loop that fetches the arguments: whether it went through, and the pages taken so far, which
  are given back in either case.
\<close>

fun fetch_args :: "u64 \<Rightarrow> nat \<Rightarrow> nat \<Rightarrow> u64 list \<Rightarrow> 'z ktable_scheme \<Rightarrow> ('z ktable_scheme, bool \<times> u64 list) res" where
  "fetch_args uargv i 0 argv = return (False, argv)"
| "fetch_args uargv i (Suc k) argv =
     bind (fetchaddr (uargv + of_nat (8 * i))) (\<lambda>(r, uarg).
     if r < 0 then return (False, argv) else
     if uarg = 0 then return (True, argv) else
     bind kalloc (\<lambda>a.
     if a = 0 then return (False, argv) else
     bind (fetchstr uarg (unat PGSIZE)) (\<lambda>(r, bs).
     seq (modify (\<lambda>s. s\<lparr>mem := write_mem (mem s) a bs\<rparr>)) (
     if r < 0 then return (False, argv @ [a])
     else fetch_args uargv (Suc i) k (argv @ [a])))))"

definition sys_exec :: "'z kgic_scheme \<Rightarrow> ('z kgic_scheme, u64) res" where
  "sys_exec =
     bind (argstr 0 MAXPATH) (\<lambda>(n, path).
     if n < 0 then ret (- 1) else
     bind (argaddr 1) (\<lambda>uargv.
     bind (fetch_args uargv 0 MAXARG []) (\<lambda>(ok, argv).
     if ok then
       bind (exec (cstr path) argv) (\<lambda>r.
       seq (for_each argv kfree) (ret r))
     else seq (for_each argv kfree) (ret (- 1)))))"

definition sys_pipe :: "'z kgic_scheme \<Rightarrow> ('z kgic_scheme, u64) res" where
  "sys_pipe =
     bind curproc (\<lambda>p.
     bind (argaddr 0) (\<lambda>fdarray.
     bind pipealloc (\<lambda>r.
     case r of None \<Rightarrow> ret (- 1) | Some (rdf, wrf) \<Rightarrow>
     let fail = seq (fileclose rdf) (seq (fileclose wrf) (ret (- 1))) in
     bind (fdalloc rdf) (\<lambda>fd0.
     if fd0 < 0 then fail else
     bind (fdalloc wrf) (\<lambda>fd1.
     if fd1 < 0 then seq (clear_fd p (nat fd0)) fail else
     bind (get_proc p) (\<lambda>pr.
     bind (copyout (p_pagetable pr) fdarray (le_bytes 4 (u32_of_int fd0)) 4) (\<lambda>e0.
     bind (if e0 < 0 then return e0
           else copyout (p_pagetable pr) (fdarray + 4) (le_bytes 4 (u32_of_int fd1)) 4) (\<lambda>e1.
     if e1 < 0 then seq (clear_fd p (nat fd0)) (seq (clear_fd p (nat fd1)) fail)
     else ret 0))))))))"

section \<open>Dispatch\<close>

datatype sysno = SYS_fork | SYS_exit | SYS_wait | SYS_pipe | SYS_read | SYS_kill | SYS_exec | SYS_fstat
  | SYS_chdir | SYS_dup | SYS_getpid | SYS_sbrk | SYS_sleep | SYS_uptime | SYS_open | SYS_write
  | SYS_mknod | SYS_unlink | SYS_link | SYS_mkdir | SYS_close

text \<open>The table \<open>syscalls\<close>: entry 0 is null.\<close>

definition syscalls :: "sysno option list" where
  "syscalls = None # map Some [SYS_fork, SYS_exit, SYS_wait, SYS_pipe, SYS_read, SYS_kill, SYS_exec,
     SYS_fstat, SYS_chdir, SYS_dup, SYS_getpid, SYS_sbrk, SYS_sleep, SYS_uptime, SYS_open, SYS_write,
     SYS_mknod, SYS_unlink, SYS_link, SYS_mkdir, SYS_close]"

fun run_syscall :: "u64 \<Rightarrow> u64 \<Rightarrow> sysno \<Rightarrow> 'z kgic_scheme \<Rightarrow> ('z kgic_scheme, u64) res" where
  "run_syscall trapret_addr forkret_addr SYS_fork = sys_fork trapret_addr forkret_addr"
| "run_syscall trapret_addr forkret_addr SYS_exit = sys_exit"
| "run_syscall trapret_addr forkret_addr SYS_wait = sys_wait"
| "run_syscall trapret_addr forkret_addr SYS_pipe = sys_pipe"
| "run_syscall trapret_addr forkret_addr SYS_read = sys_read"
| "run_syscall trapret_addr forkret_addr SYS_kill = sys_kill"
| "run_syscall trapret_addr forkret_addr SYS_exec = sys_exec"
| "run_syscall trapret_addr forkret_addr SYS_fstat = sys_fstat"
| "run_syscall trapret_addr forkret_addr SYS_chdir = sys_chdir"
| "run_syscall trapret_addr forkret_addr SYS_dup = sys_dup"
| "run_syscall trapret_addr forkret_addr SYS_getpid = sys_getpid"
| "run_syscall trapret_addr forkret_addr SYS_sbrk = sys_sbrk"
| "run_syscall trapret_addr forkret_addr SYS_sleep = sys_sleep"
| "run_syscall trapret_addr forkret_addr SYS_uptime = sys_uptime"
| "run_syscall trapret_addr forkret_addr SYS_open = sys_open"
| "run_syscall trapret_addr forkret_addr SYS_write = sys_write"
| "run_syscall trapret_addr forkret_addr SYS_mknod = sys_mknod"
| "run_syscall trapret_addr forkret_addr SYS_unlink = sys_unlink"
| "run_syscall trapret_addr forkret_addr SYS_link = sys_link"
| "run_syscall trapret_addr forkret_addr SYS_mkdir = sys_mkdir"
| "run_syscall trapret_addr forkret_addr SYS_close = sys_close"

definition syscall :: "u64 \<Rightarrow> u64 \<Rightarrow> 'z kgic_scheme \<Rightarrow> ('z kgic_scheme, unit) res" where
  "syscall trapret_addr forkret_addr =
     bind curproc (\<lambda>p.
     bind (tf_get p 7) (\<lambda>x7.
     let num = sint (ucast x7 :: u32) in
     if 0 < num \<and> num \<le> int (length syscalls) then
       if num = int (length syscalls) then undef ''syscalls'' else
       (case syscalls ! nat num of
          Some f \<Rightarrow>
            bind (run_syscall trapret_addr forkret_addr f) (\<lambda>v.
            tf_set p 0 (u64_of_int (sint (ucast v :: u32))))
        | None \<Rightarrow> tf_set p 0 (- 1))
     else tf_set p 0 (- 1)))"

declare isdirempty_loop.simps [simp del]

end
