(* ===== verification/Trap.thy ===== *)
theory Trap
  imports Syscall
begin

text \<open>
  Traps and the boot of the kernel: \<open>src/kernel/trap.c\<close> and \<open>src/kernel/main.c\<close>. The entry code
  of \<open>trap_asm.S\<close> passes the address of the trap frame it has pushed. The addresses that the linker
  fixes are arguments of \<open>kmain\<close>.
\<close>

section \<open>Handlers\<close>

definition bad_handler :: "u64 \<Rightarrow> 'z kgic_scheme \<Rightarrow> ('z kgic_scheme, unit) res" where
  "bad_handler ty =
     bind myproc (\<lambda>p0.
     seq (printf (Some (bytes_of ''bad_handler: interrupt type '')) []) (
     seq (printf (Some (bytes_of ''%d'')) [ArgInt (sint (ucast ty :: u32))]) (
     seq (printf (Some (bytes_of '' not implemented.'' @ [10])) []) (
     bind (deref ''bad_handler'' p0) (\<lambda>p.
     modify_proc p (\<lambda>pr. pr\<lparr>p_killed := 1\<rparr>))))))"

definition irq_handler :: "u64 \<Rightarrow> 'z kgic_scheme \<Rightarrow> ('z kgic_scheme, unit) res" where
  "irq_handler tf =
     bind myproc (\<lambda>p0.
     seq (case p0 of None \<Rightarrow> return () | Some p \<Rightarrow> modify_proc p (\<lambda>pr. pr\<lparr>p_trapframe := tf\<rparr>)) (
     bind gic_handler (\<lambda>whichdev.
     case p0 of None \<Rightarrow> return () | Some p \<Rightarrow>
     bind (get_proc p) (\<lambda>pr.
     if p_killed pr \<noteq> 0 then exit (- 1)
     else whenever (whichdev = int PIC_TIMER \<and> p_state pr = RUNNING) yield))))"

definition abort_handler :: "string \<Rightarrow> 'z kgic_scheme \<Rightarrow> ('z kgic_scheme, unit) res" where
  "abort_handler what =
     bind myproc (\<lambda>p0.
     seq (printf (Some (bytes_of what @ bytes_of '': not implemented.'' @ [10])) []) (
     bind (deref what p0) (\<lambda>p.
     seq (modify_proc p (\<lambda>pr. pr\<lparr>p_killed := 1\<rparr>))
         (exit (- 1)))))"

definition dabort_handler :: "'z kgic_scheme \<Rightarrow> ('z kgic_scheme, unit) res" where
  "dabort_handler = abort_handler ''dabort_handler''"

definition iabort_handler :: "'z kgic_scheme \<Rightarrow> ('z kgic_scheme, unit) res" where
  "iabort_handler = abort_handler ''iabort_handler''"

definition swi_handler :: "u64 \<Rightarrow> u64 \<Rightarrow> u64 \<Rightarrow> 'z kgic_scheme \<Rightarrow> ('z kgic_scheme, unit) res" where
  "swi_handler trapret_addr forkret_addr tf =
     bind curproc (\<lambda>p.
     seq (modify_proc p (\<lambda>pr. pr\<lparr>p_trapframe := tf\<rparr>)) (
     bind (get_proc p) (\<lambda>pr.
     if p_killed pr \<noteq> 0 then exit (- 1)
     else syscall trapret_addr forkret_addr)))"

section \<open>Boot\<close>

record linkinfo =
  ld_end :: u64
  ld_kernel_pgtbl :: u64
  ld_disk_pfn :: u32
  ld_trapret :: u64
  ld_forkret :: u64

text \<open>\<open>virtio_disk_init\<close> with the store of the interrupt handler at its end.\<close>

definition disk_setup :: "u32 \<Rightarrow> 'z kgic_scheme \<Rightarrow> ('z kgic_scheme, unit) res" where
  "disk_setup pfn = seq (virtio_disk_init pfn) (gic_set (PIC_VIRTIO + 32) IsrVirtio)"

definition kmain_first :: "linkinfo \<Rightarrow> 'z kgic_scheme \<Rightarrow> ('z kgic_scheme, unit) res" where
  "kmain_first ld =
     seq uart_init (
     seq consoleinit (
     seq printfinit (
     seq (printf (Some [10]) []) (
     seq (printf (Some (bytes_of ''xv6 kernel is booting'' @ [10])) []) (
     seq (printf (Some [10]) []) (
     seq (pre_free4kpt (ld_end ld) (P2V INIT_KERNTOP)) (
     seq (page_init (ld_kernel_pgtbl ld)) (
     seq kinit (
     seq procinit (
     seq gic_init (
     seq uart_enable_rx (
     seq binit (
     seq iinit (
     seq (disk_setup (ld_disk_pfn ld)) (
     seq timer_init (
     seq fileinit (
     seq (userinit (ld_trapret ld) (ld_forkret ld))
         (modify (\<lambda>s. s\<lparr>started := True\<rparr>)))))))))))))))))))"

definition kmain_other :: "nat \<Rightarrow> 'z kgic_scheme \<Rightarrow> ('z kgic_scheme, unit) res" where
  "kmain_other c =
     bind (gets started) (\<lambda>b.
     if \<not> b then stop (Hang ''kmain'') else
     seq (printf (Some (bytes_of ''hart %d starting'' @ [10])) [ArgInt (int c)]) (
     seq timer_init
         (gichartinit c)))"

definition kmain :: "linkinfo \<Rightarrow> 'z kgic_scheme \<Rightarrow> ('z kgic_scheme, nat option) res" where
  "kmain ld =
     bind (gets (\<lambda>s. cpuid (hw s))) (\<lambda>c.
     seq (if c = 0 then kmain_first ld else kmain_other c)
         scheduler_start)"

end
