(* ===== verification/Boot.thy ===== *)
theory Boot
  imports Trap
begin

text \<open>
  The boot code, \<open>src/kernel/start.c\<close>: the first page tables, the system registers and the jump to
  \<open>kmain\<close>. It runs at physical addresses, before the MMU is on. The addresses of the tables come from
  \<open>src/kernel/kernel.ld\<close>; the theory's second part says what the MMU makes of the tables.
\<close>

unbundle bit_operations_syntax

section \<open>State\<close>

text \<open>The tables that the linker script sets aside: two first-level tables and four second-level tables for each.\<close>

record boot_tables =
  bt_kernel :: u64
  bt_user :: u64
  bt_K_l2 :: u64
  bt_U_l2 :: u64
  bt_vectors :: u64

definition linked_tables :: "u64 \<Rightarrow> u64 \<Rightarrow> boot_tables" where
  "linked_tables a vec =
     \<lparr>bt_kernel = a, bt_user = a + 0x1000, bt_K_l2 = a + 0x2000, bt_U_l2 = a + 0x6000, bt_vectors = vec\<rparr>"

text \<open>The system registers of a CPU that \<open>cpu_setup\<close> writes, \<open>TTBR0_EL1\<close> apart, and its stack pointer.\<close>

record sysregs =
  cpacr_el1 :: u64
  mdscr_el1 :: u64
  mair_el1 :: u64
  vbar_el1 :: u64
  tcr_el1 :: u64
  ttbr1_el1 :: u64
  sctlr_el1 :: u64
  reg_sp :: u64

record kboot = kgic +
  sregs :: "nat \<Rightarrow> sysregs"
  set_pgtbl_done :: bool

definition on_sregs :: "(sysregs \<Rightarrow> sysregs) \<Rightarrow> 'z kboot_scheme \<Rightarrow> ('z kboot_scheme, unit) res" where
  "on_sregs f = modify (\<lambda>s. s\<lparr>sregs := (sregs s)(cpuid (hw s) := f (sregs s (cpuid (hw s))))\<rparr>)"

section \<open>Output\<close>

definition uart_putc :: "byte \<Rightarrow> 'z kuart_scheme \<Rightarrow> ('z kuart_scheme, unit) res" where
  "uart_putc c = uart_send c"

definition puts :: "byte list \<Rightarrow> 'z kuart_scheme \<Rightarrow> ('z kuart_scheme, unit) res" where
  "puts s = for_each (takeWhile (\<lambda>b. b \<noteq> 0) s) uart_putc"

definition puts_int :: "u32 \<Rightarrow> 'z kuart_scheme \<Rightarrow> ('z kuart_scheme, unit) res" where
  "puts_int num =
     for_each [28, 24, 20, 16, 12, 8, 4, 0] (\<lambda>i.
       uart_putc (bytes_of ''0123456789ABCDEF'' ! unat (drop_bit i num AND 0xf)))"

section \<open>The page tables\<close>

definition init_PGD_table :: "boot_tables \<Rightarrow> 'z kmem_scheme \<Rightarrow> ('z kmem_scheme, unit) res" where
  "init_PGD_table bt =
     seq (for_each [0, 1, 2, 3] (\<lambda>i.
            store64 (pte_at (bt_kernel bt) i) ((bt_K_l2 bt + 4096 * i) OR ENTRY_VALID OR ENTRY_TABLE)))
         (for_each [0, 1, 2, 3] (\<lambda>i.
            store64 (pte_at (bt_user bt) i) ((bt_U_l2 bt + 4096 * i) OR ENTRY_VALID OR ENTRY_TABLE)))"

definition boot_pde :: "u64 \<Rightarrow> bool \<Rightarrow> u64" where
  "boot_pde pa dev_mem =
     (if \<not> dev_mem then
        (pa AND PMD_MASK) OR ACCESS_FLAG OR SH_IN_SH OR AP_0 OR ENTRY_NS OR MEM_ATTR_IDX 4 OR ENTRY_BLOCK OR ENTRY_VALID OR UXN
      else
        (pa AND PMD_MASK) OR ACCESS_FLAG OR AP_0 OR MEM_ATTR_IDX 0 OR ENTRY_BLOCK OR ENTRY_VALID)"

fun bvmmap_loop :: "nat \<Rightarrow> boot_tables \<Rightarrow> u64 \<Rightarrow> u64 \<Rightarrow> u64 \<Rightarrow> bool \<Rightarrow> 'z kmem_scheme \<Rightarrow> ('z kmem_scheme, unit) res" where
  "bvmmap_loop fuel bt va pa va_end dev_mem =
     (if fuel = 0 then stop (Hang ''bvmmap'') else
      bind (load64 (pte_at (bt_kernel bt) (PGD_IDX va))) (\<lambda>e.
      seq (store64 (pte_at (e AND PG_ADDR_MASK) (PMD_IDX va)) (boot_pde pa dev_mem)) (
      bind (load64 (pte_at (bt_user bt) (PGD_IDX va))) (\<lambda>e.
      seq (store64 (pte_at (e AND PG_ADDR_MASK) (PMD_IDX va)) (boot_pde pa dev_mem)) (
      if va + PMD_SZ \<ge> va_end then return ()
      else bvmmap_loop (fuel - 1) bt (va + PMD_SZ) (pa + PMD_SZ) va_end dev_mem)))))"

declare bvmmap_loop.simps [simp del]

text \<open>There are \<open>2 ^ 43\<close> blocks of two megabytes.\<close>

definition bvmmap :: "boot_tables \<Rightarrow> u64 \<Rightarrow> u64 \<Rightarrow> u32 \<Rightarrow> bool \<Rightarrow> 'z kmem_scheme \<Rightarrow> ('z kmem_scheme, unit) res" where
  "bvmmap bt va pa sz dev_mem = bvmmap_loop (2 ^ 43) bt va pa (va + ucast sz) dev_mem"

definition init_boot_pgtbl :: "boot_tables \<Rightarrow> 'z kmem_scheme \<Rightarrow> ('z kmem_scheme, unit) res" where
  "init_boot_pgtbl bt =
     seq (bvmmap bt PHYSTART PHYSTART (ucast KERN_SZ) False) (
     seq (bvmmap bt (KERNBASE + PHYSTART) PHYSTART (ucast KERN_SZ) False) (
     seq (bvmmap bt UARTBASE UARTBASE (ucast DEV_SZ) True) (
     seq (bvmmap bt VIRTIOBASE VIRTIOBASE (ucast DEV_SZ) True) (
     seq (bvmmap bt (KERNBASE + GICBASE) GICBASE (ucast DEV_SZ) True) (
     seq (bvmmap bt (KERNBASE + UARTBASE) UARTBASE (ucast DEV_SZ) True)
         (bvmmap bt (KERNBASE + VIRTIOBASE) VIRTIOBASE (ucast DEV_SZ) True))))))"

section \<open>The CPU\<close>

definition cpu_setup :: "boot_tables \<Rightarrow> 'z kboot_scheme \<Rightarrow> ('z kboot_scheme, unit) res" where
  "cpu_setup bt =
     seq (on_sregs (\<lambda>r. r\<lparr>cpacr_el1 := push_bit 20 3\<rparr>)) (
     seq (on_sregs (\<lambda>r. r\<lparr>mdscr_el1 := 0\<rparr>)) (
     seq (on_sregs (\<lambda>r. r\<lparr>mair_el1 := 0xFF440C0400\<rparr>)) (
     seq (on_sregs (\<lambda>r. r\<lparr>vbar_el1 := bt_vectors bt\<rparr>)) (
     seq (on_sregs (\<lambda>r. r\<lparr>tcr_el1 := 0x34B5203520\<rparr>)) (
     seq (on_sregs (\<lambda>r. r\<lparr>ttbr1_el1 := bt_kernel bt\<rparr>)) (
     seq (on_hw (modify (\<lambda>h. h\<lparr>ttbr0 := (ttbr0 h)(cpuid h := bt_user bt)\<rparr>)))
         (on_sregs (\<lambda>r. r\<lparr>sctlr_el1 := sctlr_el1 r OR 1\<rparr>))))))))"

text \<open>In \<open>entry.S\<close>: the stack moves to the kernel's half of the address space.\<close>

definition jump_stack :: "'z kboot_scheme \<Rightarrow> ('z kboot_scheme, unit) res" where
  "jump_stack = on_sregs (\<lambda>r. r\<lparr>reg_sp := reg_sp r + KERNBASE\<rparr>)"

text \<open>A pointer difference counts words of eight bytes. Nothing calls the routine.\<close>

definition clear_bss :: "u64 \<Rightarrow> u64 \<Rightarrow> 'z kmem_scheme \<Rightarrow> ('z kmem_scheme, unit) res" where
  "clear_bss edata bss_end = modify (\<lambda>s. s\<lparr>mem := memset (mem s) edata 0 (ucast ((bss_end - edata) div 8))\<rparr>)"

definition start :: "boot_tables \<Rightarrow> linkinfo \<Rightarrow> 'z kboot_scheme \<Rightarrow> ('z kboot_scheme, nat option) res" where
  "start bt ld =
     bind (gets (\<lambda>s. cpuid (hw s))) (\<lambda>c.
     seq (if c = 0 then
            seq (init_PGD_table bt) (
            seq (init_boot_pgtbl bt)
                (modify (\<lambda>s. s\<lparr>set_pgtbl_done := True\<rparr>)))
          else
            bind (gets set_pgtbl_done) (\<lambda>b.
            if \<not> b then stop (Hang ''start'') else return ())) (
     seq (cpu_setup bt) (
     seq jump_stack
         (kmain ld))))"

section \<open>The contents of the tables\<close>

text \<open>
  Both first-level tables point to their second-level tables, and entry \<open>n\<close> of the second-level tables,
  counted through all four, is \<open>V n\<close>.
\<close>

definition tabs :: "boot_tables \<Rightarrow> (nat \<Rightarrow> u64) \<Rightarrow> memory \<Rightarrow> bool" where
  "tabs bt V m \<longleftrightarrow>
     (\<forall>g < 4. read64 m (pte_at (bt_kernel bt) g) = (bt_K_l2 bt + 4096 * g) OR 3 \<and> read64 m (pte_at (bt_user bt) g) = (bt_U_l2 bt + 4096 * g) OR 3) \<and>
     (\<forall>g < 4. \<forall>p < 512. read64 m (pte_at (bt_K_l2 bt + 4096 * g) p) = V (512 * unat g + unat p) \<and>
        read64 m (pte_at (bt_U_l2 bt + 4096 * g) p) = V (512 * unat g + unat p))"

definition table_base :: "u64 \<Rightarrow> bool" where
  "table_base a \<longleftrightarrow> page_aligned a \<and> a < 2 ^ 47"

lemma less4: "(g :: u64) < 4 \<Longrightarrow> g = 0 \<or> g = 1 \<or> g = 2 \<or> g = 3"
proof -
  assume "g < 4"
  then have "unat g < 4" by (simp add: word_less_nat_alt)
  then have "unat g = 0 \<or> unat g = 1 \<or> unat g = 2 \<or> unat g = 3" by arith
  then have "of_nat (unat g) = (0 :: u64) \<or> of_nat (unat g) = (1 :: u64) \<or> of_nat (unat g) = (2 :: u64) \<or> of_nat (unat g) = (3 :: u64)" by (elim disjE) simp_all
  then show ?thesis by simp
qed

lemma page_aligned_add: "page_aligned a \<Longrightarrow> page_aligned b \<Longrightarrow> page_aligned (a + b)"
proof -
  assume ab: "page_aligned a" "page_aligned b"
  have "unat (a + b) mod pg = (unat a + unat b) mod pg" by (simp add: unat_word_ariths mod_mod_cancel)
  also have "\<dots> = 0" using ab unfolding page_aligned_unat by (metis mod_add_eq add_0 mod_0)
  finally show "page_aligned (a + b)" by (simp add: page_aligned_unat)
qed

lemma page_mask:
  assumes "page_aligned a" "a < 2 ^ 48"
  shows "(a OR 3) AND PG_ADDR_MASK = a" "(a OR 3) AND 3 = 3"
proof -
  show "(a OR 3) AND PG_ADDR_MASK = a" using addr_of_entry [of a 3] assms by (simp add: PG_ADDR_MASK_def and.commute)
  show "(a OR 3) AND 3 = 3" by (rule bit_word_eqI) (auto simp: bit_simps)
qed

lemma table_pages:
  assumes "table_base a" "g < 4"
  shows "page_aligned a" "page_aligned (a + 0x1000)" "page_aligned (a + 0x2000 + 4096 * g)" "page_aligned (a + 0x6000 + 4096 * g)"
    "a + 0x2000 + 4096 * g < 2 ^ 48" "a + 0x6000 + 4096 * g < 2 ^ 48"
proof -
  show a: "page_aligned a" using assms(1) by (simp add: table_base_def)
  have s: "page_aligned 0x1000" "page_aligned (0x2000 + 4096 * g)" "page_aligned (0x6000 + 4096 * g)"
    using less4 [OF assms(2)] by (auto simp: page_aligned_def PGSIZE_def)
  show "page_aligned (a + 0x1000)" "page_aligned (a + 0x2000 + 4096 * g)" "page_aligned (a + 0x6000 + 4096 * g)"
    using page_aligned_add [OF a s(1)] page_aligned_add [OF a s(2)] page_aligned_add [OF a s(3)] by (simp_all add: add.assoc)
  have u: "unat a < 2 ^ 47" using assms(1) by (simp add: table_base_def word_less_nat_alt)
  have "unat (a + 0x2000 + 4096 * g) = unat a + 0x2000 + 4096 * unat g" "unat (a + 0x6000 + 4096 * g) = unat a + 0x6000 + 4096 * unat g"
    using u less4 [OF assms(2)] by (auto simp: unat_word_ariths)
  then show "a + 0x2000 + 4096 * g < 2 ^ 48" "a + 0x6000 + 4096 * g < 2 ^ 48"
    using u assms(2) by (simp_all add: word_less_nat_alt)
qed

definition blk :: "u64 \<Rightarrow> nat" where
  "blk va = 512 * unat (PGD_IDX va) + unat (PMD_IDX va)"

lemma blk_eq: "g < 4 \<Longrightarrow> p < 512 \<Longrightarrow> 512 * unat g + unat p = blk va \<longleftrightarrow> g = PGD_IDX va \<and> p = PMD_IDX va"
proof -
  assume "g < 4" "p < 512"
  then have "unat p < 512" "unat (PMD_IDX va) < 512" using idx_less(1) [of va] by (simp_all add: word_less_nat_alt)
  then have "(512 * unat g + unat p) div 512 = unat g" "(512 * unat g + unat p) mod 512 = unat p" "blk va div 512 = unat (PGD_IDX va)" "blk va mod 512 = unat (PMD_IDX va)"
    by (simp_all add: blk_def)
  then have "512 * unat g + unat p = blk va \<longleftrightarrow> unat g = unat (PGD_IDX va) \<and> unat p = unat (PMD_IDX va)" unfolding blk_def by metis
  then show ?thesis by (simp add: word_unat_eq_iff)
qed

text \<open>One round of \<open>bvmmap\<close>.\<close>

lemma bvmmap_round:
  assumes a: "table_base a" and bt: "bt = linked_tables a vec" and m: "tabs bt V (mem s)"
  shows "\<exists>t. tabs bt (V(blk va := boot_pde pa dev)) (mem t) \<and> (\<exists>m. t = s\<lparr>mem := m\<rparr>) \<and>
    bvmmap_loop (Suc fuel) bt va pa va_end dev s = (if va + PMD_SZ \<ge> va_end then Ok () t else bvmmap_loop fuel bt (va + PMD_SZ) (pa + PMD_SZ) va_end dev t)"
proof -
  let ?g = "PGD_IDX va" and ?p = "PMD_IDX va" and ?e = "boot_pde pa dev"
  define K U where "K g = a + 0x2000 + 4096 * g" and "U g = a + 0x6000 + 4096 * g" for g
  define N where "N = a + 0x1000"
  have g: "?g < 4" "?p < 512" by (rule PGD_IDX_less idx_less)+
  have g512: "h < 512" if "h < 4" for h :: u64 using that by (rule order_less_trans) simp
  have pg: "page_aligned a" "page_aligned N" "page_aligned (K h)" "page_aligned (U h)" "K h < 2 ^ 48" "U h < 2 ^ 48" if "h < 4" for h
    using table_pages [OF a that] by (simp_all add: K_def U_def N_def)
  have ne: "K h \<noteq> a" "K h \<noteq> N" "U h \<noteq> a" "U h \<noteq> N" "K h \<noteq> U h'" "U h \<noteq> K h'" "K h = K h' \<longleftrightarrow> h = h'" "U h = U h' \<longleftrightarrow> h = h'" if "h < 4" "h' < 4" for h h'
    using less4 [OF that(1)] less4 [OF that(2)] by (auto simp: K_def U_def N_def)
  have bt': "bt_kernel bt = a" "bt_user bt = N" "bt_K_l2 bt + 4096 * h = K h" "bt_U_l2 bt + 4096 * h = U h" for h
    by (simp_all add: bt linked_tables_def K_def U_def N_def)
  let ?m1 = "write64 (mem s) (pte_at (K ?g) ?p) ?e"
  let ?m2 = "write64 ?m1 (pte_at (U ?g) ?p) ?e"
  note tb = m [unfolded tabs_def bt']
  have pgd1: "read64 ?m1 (pte_at t h) = read64 (mem s) (pte_at t h)" and pgd: "read64 ?m2 (pte_at t h) = read64 (mem s) (pte_at t h)" if "h < 4" "t = a \<or> t = N" for t h
    using read_write_entry [of "K ?g" t ?p h] read_write_entry [of "U ?g" t ?p h] pg [OF g(1)] ne [OF g(1) g(1)] g g512 [OF that(1)] that(2) by auto
  have l1: "read64 (mem s) (pte_at a ?g) AND PG_ADDR_MASK = K ?g" using tb g page_mask(1) [OF pg(3,5) [OF g(1)]] by simp
  have l2: "read64 ?m1 (pte_at N ?g) AND PG_ADDR_MASK = U ?g" using tb g page_mask(1) [OF pg(4,6) [OF g(1)]] pgd1 [OF g(1), of N] by simp
  have "read64 ?m2 (pte_at (K h) j) = (V(blk va := ?e)) (512 * unat h + unat j) \<and> read64 ?m2 (pte_at (U h) j) = (V(blk va := ?e)) (512 * unat h + unat j)"
    if "h < 4" "j < 512" for h j
    using tb that g pg [OF g(1)] pg [OF that(1)] ne [OF g(1) that(1)] by (auto simp: read_write_entry blk_eq [OF that])
  then have "tabs bt (V(blk va := ?e)) ?m2" using tb pgd unfolding tabs_def bt' by simp
  moreover have "bvmmap_loop (Suc fuel) bt va pa va_end dev s =
      (if va + PMD_SZ \<ge> va_end then Ok () (s\<lparr>mem := ?m2\<rparr>) else bvmmap_loop fuel bt (va + PMD_SZ) (pa + PMD_SZ) va_end dev (s\<lparr>mem := ?m2\<rparr>))"
    by (subst bvmmap_loop.simps) (simp add: l1 l2 bt'(1,2))
  ultimately show ?thesis by (intro exI [of _ "s\<lparr>mem := ?m2\<rparr>"]) auto
qed

lemma blk_nat: "blk va = unat va div 2 ^ 21 mod 2048"
proof -
  have "PGD_IDX va = take_bit 2 (drop_bit 30 va)" "PMD_IDX va = take_bit 9 (drop_bit 21 va)"
    by (simp_all add: PGD_IDX_def PMD_IDX_def take_bit_eq_mask mask_eq_exp_minus_1)
  then have "unat (PGD_IDX va) = unat va div 2 ^ 30 mod 4" "unat (PMD_IDX va) = unat va div 2 ^ 21 mod 512"
    by (simp_all add: take_bit_eq_mod drop_bit_eq_div unat_mod_distrib unat_div_distrib)
  moreover have "unat va div 2 ^ 30 = unat va div 2 ^ 21 div 512" by (simp add: div_mult2_eq [symmetric])
  ultimately show ?thesis using mod_mult2_eq [of "unat va div 2 ^ 21" 512 4] by (simp add: blk_def)
qed

lemma next_block:
  assumes "unat va + 2 ^ 21 < 2 ^ 64"
  shows "unat (va + PMD_SZ) = unat va + 2 ^ 21" "unat (va + PMD_SZ) div 2 ^ 21 = Suc (unat va div 2 ^ 21)"
proof -
  have "unat PMD_SZ = 2 ^ 21" by (simp add: PMD_SZ_def push_bit_eq_mult)
  then show u: "unat (va + PMD_SZ) = unat va + 2 ^ 21" using assms by (simp add: unat_word_ariths)
  show "unat (va + PMD_SZ) div 2 ^ 21 = Suc (unat va div 2 ^ 21)" unfolding u by simp
qed

text \<open>The range of blocks that \<open>bvmmap\<close> fills.\<close>

definition filled :: "nat \<Rightarrow> nat \<Rightarrow> u64 \<Rightarrow> bool \<Rightarrow> (nat \<Rightarrow> u64) \<Rightarrow> nat \<Rightarrow> u64" where
  "filled b N pa dev V n = (if b \<le> n \<and> n < b + N then boot_pde (pa + of_nat (n - b) * PMD_SZ) dev else V n)"

lemma filled_step: "filled (Suc b) N (pa + PMD_SZ) dev (V(b := boot_pde pa dev)) = filled b (Suc N) pa dev V"
proof
  fix n
  show "filled (Suc b) N (pa + PMD_SZ) dev (V(b := boot_pde pa dev)) n = filled b (Suc N) pa dev V n"
  proof (cases "Suc b \<le> n")
    case True
    then have "n - b = Suc (n - Suc b)" by simp
    then show ?thesis using True by (simp add: filled_def algebra_simps)
  qed (auto simp: filled_def)
qed

lemma bvmmap_loop_spec:
  assumes a: "table_base a" and bt: "bt = linked_tables a vec"
  shows "tabs bt V (mem s) \<Longrightarrow> unat va_end = unat va + Suc N * 2 ^ 21 \<Longrightarrow> unat va_end + 2 ^ 21 < 2 ^ 64 \<Longrightarrow> blk va + Suc N \<le> 2048 \<Longrightarrow> Suc N \<le> fuel \<Longrightarrow>
    \<exists>m. bvmmap_loop fuel bt va pa va_end dev s = Ok () (s\<lparr>mem := m\<rparr>) \<and> tabs bt (filled (blk va) (Suc N) pa dev V) m"
proof (induction N arbitrary: fuel va pa V s)
  case 0
  then obtain f where f: "fuel = Suc f" by (cases fuel) auto
  have "va_end \<le> va + PMD_SZ" using 0 next_block [of va] by (simp add: word_le_nat_alt)
  then obtain m where "tabs bt (V(blk va := boot_pde pa dev)) m" "bvmmap_loop fuel bt va pa va_end dev s = Ok () (s\<lparr>mem := m\<rparr>)"
    using bvmmap_round [OF a bt 0(1), of va pa dev f va_end] f by auto
  moreover have "filled (blk va) (Suc 0) pa dev V = V(blk va := boot_pde pa dev)" by (auto simp: filled_def fun_eq_iff)
  ultimately show ?case by (intro exI [of _ m]) (simp only:)
next
  case (Suc N)
  then obtain f where f: "fuel = Suc f" by (cases fuel) auto
  note nb = next_block [of va]
  have nb': "unat va + 2 ^ 21 < 2 ^ 64" using Suc.prems by simp
  then have "\<not> va_end \<le> va + PMD_SZ" using Suc.prems nb by (simp add: word_le_nat_alt)
  then obtain m where m: "tabs bt (V(blk va := boot_pde pa dev)) m"
    "bvmmap_loop fuel bt va pa va_end dev s = bvmmap_loop f bt (va + PMD_SZ) (pa + PMD_SZ) va_end dev (s\<lparr>mem := m\<rparr>)"
    using bvmmap_round [OF a bt Suc.prems(1), of va pa dev f va_end] f by auto
  have blk: "blk (va + PMD_SZ) = Suc (blk va)" using nb(2) [OF nb'] Suc.prems(4) unfolding blk_nat by (simp add: mod_Suc)
  have "\<exists>m'. bvmmap_loop f bt (va + PMD_SZ) (pa + PMD_SZ) va_end dev (s\<lparr>mem := m\<rparr>) = Ok () (s\<lparr>mem := m, mem := m'\<rparr>) \<and>
      tabs bt (filled (blk (va + PMD_SZ)) (Suc N) (pa + PMD_SZ) dev (V(blk va := boot_pde pa dev))) m'"
  proof (rule Suc.IH [where V = "V(blk va := boot_pde pa dev)"])
    show "tabs bt (V(blk va := boot_pde pa dev)) (mem (s\<lparr>mem := m\<rparr>))" using m(1) by simp
  qed (use Suc.prems nb nb' blk f in simp_all)
  then show ?case using m(2) blk by (simp add: filled_step)
qed

lemma bvmmap_spec:
  assumes a: "table_base a" and bt: "bt = linked_tables a vec" and t: "tabs bt V (mem s)"
    and sz: "unat sz = Suc N * 2 ^ 21" "unat va + unat sz + 2 ^ 21 < 2 ^ 64" "blk va + Suc N \<le> 2048"
  shows "\<exists>m. bvmmap bt va pa sz dev s = Ok () (s\<lparr>mem := m\<rparr>) \<and> tabs bt (filled (blk va) (Suc N) pa dev V) m"
  unfolding bvmmap_def
proof (rule bvmmap_loop_spec [OF a bt t])
  show e: "unat (va + ucast sz) = unat va + Suc N * 2 ^ 21" using sz by (simp add: unat_word_ariths unsigned_ucast_eq take_bit_nat_eq_self)
  show "unat (va + ucast sz) + 2 ^ 21 < 2 ^ 64" unfolding e using sz by simp
  show "blk va + Suc N \<le> 2048" "Suc N \<le> 2 ^ 43" using sz by simp_all
qed

text \<open>The first-level tables.\<close>

definition l2_zero :: "boot_tables \<Rightarrow> memory \<Rightarrow> bool" where
  "l2_zero bt m \<longleftrightarrow> (\<forall>g < 4. \<forall>p < 512. read64 m (pte_at (bt_K_l2 bt + 4096 * g) p) = 0 \<and> read64 m (pte_at (bt_U_l2 bt + 4096 * g) p) = 0)"

lemma init_PGD_spec:
  assumes a: "table_base a" and bt: "bt = linked_tables a vec" and z: "l2_zero bt (mem s)"
  shows "\<exists>m. init_PGD_table bt s = Ok () (s\<lparr>mem := m\<rparr>) \<and> tabs bt (\<lambda>_. 0) m"
proof -
  define K U where "K g = a + 0x2000 + 4096 * g" and "U g = a + 0x6000 + 4096 * g" for g
  define N where "N = a + 0x1000"
  have g512: "h < 512" if "h < 4" for h :: u64 using that by (rule order_less_trans) simp
  have pg: "page_aligned a" "page_aligned N" using table_pages [OF a, of 0] by (simp_all add: N_def)
  have pgh: "page_aligned (K h)" "page_aligned (U h)" if "h < 4" for h
    using table_pages [OF a that] by (simp_all add: K_def U_def)
  have aN: "a \<noteq> N" by (simp add: N_def)
  have ne: "a \<noteq> K h" "N \<noteq> K h" "a \<noteq> U h" "N \<noteq> U h" if "h < 4" for h
    using less4 [OF that] by (auto simp: K_def U_def N_def)
  have bt': "bt_kernel bt = a" "bt_user bt = N" "bt_K_l2 bt + 4096 * h = K h" "bt_U_l2 bt + 4096 * h = U h" for h
    by (simp_all add: bt linked_tables_def K_def U_def N_def)
  let ?w = "\<lambda>t f m. write64 (write64 (write64 (write64 m (pte_at t 0) (f 0 OR 3)) (pte_at t 1) (f 1 OR 3)) (pte_at t 2) (f 2 OR 3)) (pte_at t 3) (f 3 OR 3)"
  let ?m = "?w N U (?w a K (mem s))"
  have run: "init_PGD_table bt s = Ok () (s\<lparr>mem := ?m\<rparr>)"
    unfolding init_PGD_table_def bt' by simp
  have w: "read64 (?w t f m) (pte_at u j) = (if t = u \<and> j < 4 then f j OR 3 else read64 m (pte_at u j))"
    if "page_aligned t" "page_aligned u" "j < 512" for t u f m and j :: u64
    using that less4 [of j] by (auto simp: read_write_entry)
  have "tabs bt (\<lambda>_. 0) ?m"
    unfolding tabs_def bt' using z [unfolded l2_zero_def bt'] g512 pg pgh ne aN by (auto simp: w)
  then show ?thesis using run by blast
qed

text \<open>The second-level tables after \<open>init_boot_pgtbl\<close>: block 512 is the kernel, blocks 64 to 87 are the devices.\<close>

definition boot_entries :: "nat \<Rightarrow> u64" where
  "boot_entries n =
     (if n = 512 then boot_pde (of_nat n * PMD_SZ) False
      else if 64 \<le> n \<and> n < 88 then boot_pde (of_nat n * PMD_SZ) True else 0)"

lemma boot_blocks:
  "blk PHYSTART = 512" "blk (KERNBASE + PHYSTART) = 512" "blk GICBASE = 64" "blk UARTBASE = 72" "blk VIRTIOBASE = 80"
  "blk (KERNBASE + GICBASE) = 64" "blk (KERNBASE + UARTBASE) = 72" "blk (KERNBASE + VIRTIOBASE) = 80"
  "unat (ucast KERN_SZ :: u32) = Suc 0 * 2 ^ 21" "unat (ucast DEV_SZ :: u32) = Suc 7 * 2 ^ 21"
  by (simp_all add: blk_nat PHYSTART_def KERNBASE_def GICBASE_def UARTBASE_def VIRTIOBASE_def KERN_SZ_def DEV_SZ_def)

lemma boot_entries_filled:
  "filled 80 (Suc 7) VIRTIOBASE True (filled 72 (Suc 7) UARTBASE True (filled 64 (Suc 7) GICBASE True (filled 80 (Suc 7) VIRTIOBASE True
     (filled 72 (Suc 7) UARTBASE True (filled 512 (Suc 0) PHYSTART False (filled 512 (Suc 0) PHYSTART False (\<lambda>_. 0))))))) = boot_entries"
proof
  fix n
  have "VIRTIOBASE + of_nat (n - 80) * PMD_SZ = of_nat n * PMD_SZ" if "80 \<le> n"
    using that by (simp add: VIRTIOBASE_def PMD_SZ_def push_bit_eq_mult of_nat_diff algebra_simps)
  moreover have "UARTBASE + of_nat (n - 72) * PMD_SZ = of_nat n * PMD_SZ" if "72 \<le> n"
    using that by (simp add: UARTBASE_def PMD_SZ_def push_bit_eq_mult of_nat_diff algebra_simps)
  moreover have "GICBASE + of_nat (n - 64) * PMD_SZ = of_nat n * PMD_SZ" if "64 \<le> n"
    using that by (simp add: GICBASE_def PMD_SZ_def push_bit_eq_mult of_nat_diff algebra_simps)
  moreover have "PHYSTART = of_nat 512 * PMD_SZ" by (simp add: PHYSTART_def PMD_SZ_def push_bit_eq_mult)
  ultimately show "filled 80 (Suc 7) VIRTIOBASE True (filled 72 (Suc 7) UARTBASE True (filled 64 (Suc 7) GICBASE True (filled 80 (Suc 7) VIRTIOBASE True
     (filled 72 (Suc 7) UARTBASE True (filled 512 (Suc 0) PHYSTART False (filled 512 (Suc 0) PHYSTART False (\<lambda>_. 0))))))) n = boot_entries n"
    unfolding filled_def boot_entries_def by (auto simp: less_Suc_eq)
qed

lemma init_boot_spec:
  assumes a: "table_base a" and bt: "bt = linked_tables a vec" and z: "l2_zero bt (mem s)"
  shows "\<exists>m. seq (init_PGD_table bt) (init_boot_pgtbl bt) s = Ok () (s\<lparr>mem := m\<rparr>) \<and> tabs bt boot_entries m"
proof -
  have step: "\<exists>m. bvmmap bt va pa sz dev (s\<lparr>mem := n\<rparr>) = Ok () (s\<lparr>mem := m\<rparr>) \<and> tabs bt (filled b (Suc N) pa dev V) m"
    if "tabs bt V n" "blk va = b" "unat sz = Suc N * 2 ^ 21" "unat va + unat sz + 2 ^ 21 < 2 ^ 64" "b + Suc N \<le> 2048" for n va pa sz dev b N V
    using bvmmap_spec [OF a bt, of V "s\<lparr>mem := n\<rparr>" sz N va pa dev] that by simp
  have bd: "unat va + unat sz + 2 ^ 21 < 2 ^ 64"
    if "va \<in> {PHYSTART, KERNBASE + PHYSTART, UARTBASE, VIRTIOBASE, KERNBASE + GICBASE, KERNBASE + UARTBASE, KERNBASE + VIRTIOBASE}"
      "sz = ucast KERN_SZ \<or> sz = ucast DEV_SZ" for va :: u64 and sz :: u32
    using that boot_blocks(9,10) by (auto simp: PHYSTART_def KERNBASE_def GICBASE_def UARTBASE_def VIRTIOBASE_def)
  obtain m0 where 0: "init_PGD_table bt s = Ok () (s\<lparr>mem := m0\<rparr>)" "tabs bt (\<lambda>_. 0) m0" using init_PGD_spec [OF assms] by blast
  obtain m1 where 1: "bvmmap bt PHYSTART PHYSTART (ucast KERN_SZ) False (s\<lparr>mem := m0\<rparr>) = Ok () (s\<lparr>mem := m1\<rparr>)"
    "tabs bt (filled 512 (Suc 0) PHYSTART False (\<lambda>_. 0)) m1" using step [OF 0(2) boot_blocks(1,9) bd] by auto
  obtain m2 where 2: "bvmmap bt (KERNBASE + PHYSTART) PHYSTART (ucast KERN_SZ) False (s\<lparr>mem := m1\<rparr>) = Ok () (s\<lparr>mem := m2\<rparr>)"
    "tabs bt (filled 512 (Suc 0) PHYSTART False (filled 512 (Suc 0) PHYSTART False (\<lambda>_. 0))) m2" using step [OF 1(2) boot_blocks(2,9) bd] by auto
  note f = step [OF _ _ boot_blocks(10) bd]
  obtain m3 where 3: "bvmmap bt UARTBASE UARTBASE (ucast DEV_SZ) True (s\<lparr>mem := m2\<rparr>) = Ok () (s\<lparr>mem := m3\<rparr>)"
    "tabs bt (filled 72 (Suc 7) UARTBASE True (filled 512 (Suc 0) PHYSTART False (filled 512 (Suc 0) PHYSTART False (\<lambda>_. 0)))) m3"
    using f [OF 2(2) boot_blocks(4)] by auto
  let ?V3 = "filled 72 (Suc 7) UARTBASE True (filled 512 (Suc 0) PHYSTART False (filled 512 (Suc 0) PHYSTART False (\<lambda>_. 0)))"
  obtain m4 where 4: "bvmmap bt VIRTIOBASE VIRTIOBASE (ucast DEV_SZ) True (s\<lparr>mem := m3\<rparr>) = Ok () (s\<lparr>mem := m4\<rparr>)"
    "tabs bt (filled 80 (Suc 7) VIRTIOBASE True ?V3) m4" using f [OF 3(2) boot_blocks(5)] by auto
  obtain m5 where 5: "bvmmap bt (KERNBASE + GICBASE) GICBASE (ucast DEV_SZ) True (s\<lparr>mem := m4\<rparr>) = Ok () (s\<lparr>mem := m5\<rparr>)"
    "tabs bt (filled 64 (Suc 7) GICBASE True (filled 80 (Suc 7) VIRTIOBASE True ?V3)) m5" using f [OF 4(2) boot_blocks(6)] by auto
  obtain m6 where 6: "bvmmap bt (KERNBASE + UARTBASE) UARTBASE (ucast DEV_SZ) True (s\<lparr>mem := m5\<rparr>) = Ok () (s\<lparr>mem := m6\<rparr>)"
    "tabs bt (filled 72 (Suc 7) UARTBASE True (filled 64 (Suc 7) GICBASE True (filled 80 (Suc 7) VIRTIOBASE True ?V3))) m6" using f [OF 5(2) boot_blocks(7)] by auto
  obtain m7 where 7: "bvmmap bt (KERNBASE + VIRTIOBASE) VIRTIOBASE (ucast DEV_SZ) True (s\<lparr>mem := m6\<rparr>) = Ok () (s\<lparr>mem := m7\<rparr>)"
    "tabs bt boot_entries m7" using f [OF 6(2) boot_blocks(8), of VIRTIOBASE True] unfolding boot_entries_filled by auto
  show ?thesis
    using 0(1) 1(1) 2(1) 3(1) 4(1) 5(1) 6(1) 7 by (intro exI [of _ m7]) (simp add: init_boot_pgtbl_def)
qed

section \<open>What the MMU makes of the tables\<close>

text \<open>
  With the value that \<open>cpu_setup\<close> gives to \<open>TCR_EL1\<close>, both halves of the address space are \<open>2 ^ 32\<close> bytes with
  pages of 4096 bytes, so that a walk starts at a table of four entries. A block entry of the second level gives
  bits 21 to 47 of the address, and its attribute index selects the type of memory in \<open>MAIR_EL1\<close>.
\<close>

definition mmu_block :: "memory \<Rightarrow> u64 \<Rightarrow> u64 \<Rightarrow> (u64 \<times> u64) option" where
  "mmu_block m root va =
     (let e1 = read64 m (pte_at root (PGD_IDX va)) in
      if e1 AND 3 = 3 then
        let e2 = read64 m (pte_at (e1 AND PG_ADDR_MASK) (PMD_IDX va)) in
        if e2 AND 3 = 1 then Some ((e2 AND 0xFFFFFFE00000) OR (va AND (PMD_SZ - 1)), drop_bit 2 e2 AND 7) else None
      else None)"

lemma tabs_walk:
  assumes a: "table_base a" and bt: "bt = linked_tables a vec" and t: "tabs bt V m" and r: "root = bt_kernel bt \<or> root = bt_user bt"
  shows "mmu_block m root va =
    (let e = V (blk va) in if e AND 3 = 1 then Some ((e AND 0xFFFFFFE00000) OR (va AND (PMD_SZ - 1)), drop_bit 2 e AND 7) else None)"
proof -
  let ?g = "PGD_IDX va"
  have g: "?g < 4" "PMD_IDX va < 512" by (rule PGD_IDX_less idx_less)+
  note pg = table_pages [OF a g(1)]
  obtain l where "read64 m (pte_at root ?g) = l OR 3" "(l OR 3) AND PG_ADDR_MASK = l" "(l OR 3) AND 3 = 3"
    "read64 m (pte_at l (PMD_IDX va)) = V (blk va)"
    using r t g page_mask [OF pg(3,5)] page_mask [OF pg(4,6)] unfolding tabs_def bt linked_tables_def blk_def by auto
  then show ?thesis by (simp add: mmu_block_def Let_def)
qed

definition pde_flags :: "bool \<Rightarrow> u64" where
  "pde_flags dev = (if dev then 0x401 else 0x40000000000731)"

lemma boot_pde_flags: "boot_pde pa dev = (pa AND 0xFFFFFFFFFFE00000) OR pde_flags dev"
proof -
  have k: "(- 2097152 :: u64) = 0xFFFFFFFFFFE00000" by simp
  have "boot_pde pa dev = (pa AND - 2097152) OR pde_flags dev"
    by (simp add: boot_pde_def pde_flags_def PMD_MASK_def PMD_SZ_def ACCESS_FLAG_def SH_IN_SH_def AP_0_def ENTRY_NS_def MEM_ATTR_IDX_def
      ENTRY_BLOCK_def ENTRY_VALID_def UXN_def push_bit_eq_mult)
  then show ?thesis unfolding k .
qed

lemma boot_pde_and: "boot_pde pa dev AND k = (pa AND (0xFFFFFFFFFFE00000 AND k)) OR (pde_flags dev AND k)"
  by (rule bit_word_eqI) (auto simp: boot_pde_flags bit_simps)

lemma boot_pde_bits:
  "boot_pde pa dev AND 3 = 1" "drop_bit 2 (boot_pde pa dev) AND 7 = (if dev then 0 else 4)"
proof -
  show "boot_pde pa dev AND 3 = 1" by (simp add: boot_pde_and pde_flags_def)
  have "drop_bit 2 (boot_pde pa dev) AND 7 = drop_bit 2 (boot_pde pa dev AND 28)"
    using drop_bit_and [of 2 "boot_pde pa dev" 28] by simp
  then show "drop_bit 2 (boot_pde pa dev) AND 7 = (if dev then 0 else 4)" by (simp add: boot_pde_and pde_flags_def drop_bit_eq_div)
qed

lemma boot_pde_addr: "(boot_pde (of_nat (blk va) * PMD_SZ) dev AND 0xFFFFFFE00000) OR (va AND (PMD_SZ - 1)) = take_bit 32 va"
proof -
  have "unat (of_nat (blk va) :: u64) = unat (take_bit 11 (drop_bit 21 va))"
    by (simp add: blk_nat take_bit_eq_mod drop_bit_eq_div unat_mod_distrib unat_div_distrib unat_of_nat_u64)
  then have "of_nat (blk va) = take_bit 11 (drop_bit 21 va)" by (rule unsigned_word_eqI)
  then have b: "of_nat (blk va) * PMD_SZ = push_bit 21 (take_bit 11 (drop_bit 21 va))" by (simp add: PMD_SZ_def push_bit_eq_mult)
  have k: "0xFFFFFFFFFFE00000 AND 0xFFFFFFE00000 = push_bit 21 (mask 27 :: u64)" "pde_flags dev AND 0xFFFFFFE00000 = 0" "PMD_SZ - 1 = mask 21"
    by (simp_all add: pde_flags_def PMD_SZ_def push_bit_eq_mult mask_eq_exp_minus_1)
  show ?thesis unfolding boot_pde_and b k by (rule bit_word_eqI) (auto simp: bit_simps)
qed

lemma div_mod_swap: "x div 2 ^ 21 mod 2048 = x mod 2 ^ 32 div 2 ^ 21" for x :: nat
  using div_exp_mod_exp_eq [of x 21 11] by simp

lemma blk_range:
  "blk va = 512 \<longleftrightarrow> PHYSTART \<le> take_bit 32 va \<and> take_bit 32 va < PHYSTART + KERN_SZ"
  "64 \<le> blk va \<and> blk va < 88 \<longleftrightarrow> GICBASE \<le> take_bit 32 va \<and> take_bit 32 va < VIRTIOBASE + DEV_SZ"
proof -
  define p where "p = unat va mod 2 ^ 32"
  have u: "unat (take_bit 32 va) = p" by (simp add: p_def take_bit_eq_mod unat_mod_distrib)
  have b: "blk va = p div 2 ^ 21" using div_mod_swap [of "unat va"] by (simp add: blk_nat p_def)
  show "blk va = 512 \<longleftrightarrow> PHYSTART \<le> take_bit 32 va \<and> take_bit 32 va < PHYSTART + KERN_SZ"
    unfolding b word_le_nat_alt word_less_nat_alt u by (auto simp: PHYSTART_def KERN_SZ_def)
  show "64 \<le> blk va \<and> blk va < 88 \<longleftrightarrow> GICBASE \<le> take_bit 32 va \<and> take_bit 32 va < VIRTIOBASE + DEV_SZ"
    unfolding b word_le_nat_alt word_less_nat_alt u by (auto simp: GICBASE_def VIRTIOBASE_def DEV_SZ_def)
qed

text \<open>
  C17: the page tables of the boot code. When the second-level tables are clear, \<open>init_PGD_table\<close> and
  \<open>init_boot_pgtbl\<close> return, and then both tables map the first two megabytes of memory and the devices
  from \<open>GICBASE\<close> to the end of the virtio area at their own address in the low half and at \<open>KERNBASE\<close> above it,
  as normal and as device memory, and nothing else.
\<close>

theorem boot_page_tables:
  assumes "table_base a" and "l2_zero (linked_tables a vec) (mem s)"
  shows "\<exists>m. seq (init_PGD_table (linked_tables a vec)) (init_boot_pgtbl (linked_tables a vec)) s = Ok () (s\<lparr>mem := m\<rparr>) \<and>
    (\<forall>va. mmu_block m (bt_kernel (linked_tables a vec)) va =
      (if PHYSTART \<le> take_bit 32 va \<and> take_bit 32 va < PHYSTART + KERN_SZ then Some (take_bit 32 va, 4)
       else if GICBASE \<le> take_bit 32 va \<and> take_bit 32 va < VIRTIOBASE + DEV_SZ then Some (take_bit 32 va, 0) else None) \<and>
      mmu_block m (bt_user (linked_tables a vec)) va = mmu_block m (bt_kernel (linked_tables a vec)) va)"
proof -
  let ?bt = "linked_tables a vec"
  obtain m where m: "seq (init_PGD_table ?bt) (init_boot_pgtbl ?bt) s = Ok () (s\<lparr>mem := m\<rparr>)" "tabs ?bt boot_entries m"
    using init_boot_spec [OF assms(1) refl assms(2)] by blast
  have "mmu_block m root va = (if PHYSTART \<le> take_bit 32 va \<and> take_bit 32 va < PHYSTART + KERN_SZ then Some (take_bit 32 va, 4)
       else if GICBASE \<le> take_bit 32 va \<and> take_bit 32 va < VIRTIOBASE + DEV_SZ then Some (take_bit 32 va, 0) else None)"
    if "root = bt_kernel ?bt \<or> root = bt_user ?bt" for root va
    unfolding tabs_walk [OF assms(1) refl m(2) that] blk_range [symmetric] boot_entries_def
    using boot_pde_addr [of va] by (auto simp: Let_def boot_pde_bits)
  then show ?thesis using m(1) by (intro exI [of _ m]) simp
qed

theorem boot_page_tables_witness:
  "\<exists>m. seq (init_PGD_table (linked_tables 0x40012000 0)) (init_boot_pgtbl (linked_tables 0x40012000 0)) empty_kmem =
       Ok () (empty_kmem\<lparr>mem := m\<rparr>) \<and>
     mmu_block m 0x40012000 0xFFFFFFFF40031234 = Some (0x40031234, 4) \<and> mmu_block m 0x40013000 0x09000018 = Some (0x09000018, 0) \<and>
     mmu_block m 0x40012000 0xFFFFFFFF40200000 = None"
proof -
  have "table_base 0x40012000" by (simp add: table_base_def page_aligned_def PGSIZE_def)
  moreover have "l2_zero (linked_tables 0x40012000 0) (mem empty_kmem)" by (simp add: l2_zero_def empty_kmem_def read64_zero)
  ultimately obtain m where m: "seq (init_PGD_table (linked_tables 0x40012000 0)) (init_boot_pgtbl (linked_tables 0x40012000 0)) empty_kmem =
      Ok () (empty_kmem\<lparr>mem := m\<rparr>)"
    "\<And>va. mmu_block m (bt_kernel (linked_tables 0x40012000 0)) va =
      (if PHYSTART \<le> take_bit 32 va \<and> take_bit 32 va < PHYSTART + KERN_SZ then Some (take_bit 32 va, 4)
       else if GICBASE \<le> take_bit 32 va \<and> take_bit 32 va < VIRTIOBASE + DEV_SZ then Some (take_bit 32 va, 0) else None)"
    "\<And>va. mmu_block m (bt_user (linked_tables 0x40012000 0)) va = mmu_block m (bt_kernel (linked_tables 0x40012000 0)) va"
    using boot_page_tables by blast
  have "bt_kernel (linked_tables 0x40012000 0) = 0x40012000" "bt_user (linked_tables 0x40012000 0) = 0x40013000" by (simp_all add: linked_tables_def)
  then show ?thesis using m
    by (intro exI [of _ m]) (simp add: take_bit_eq_mod PHYSTART_def KERN_SZ_def GICBASE_def VIRTIOBASE_def DEV_SZ_def)
qed

section \<open>Well-formed tables\<close>

text \<open>Every entry has the kind that its level asks for: a table in the first level, a block or nothing in the second.\<close>

definition tables_typed :: "boot_tables \<Rightarrow> memory \<Rightarrow> bool" where
  "tables_typed bt m \<longleftrightarrow> (\<exists>V. tabs bt V m \<and> (\<forall>n. V n AND 3 = 0 \<or> V n AND 3 = 1))"

lemma bvmmap_loop_typed:
  assumes a: "table_base a" and bt: "bt = linked_tables a vec" and e: "unat va_end + 2 ^ 21 < 2 ^ 64"
  shows "tables_typed bt (mem s) \<Longrightarrow> unat va \<le> unat va_end \<Longrightarrow> unat va_end - unat va < fuel * 2 ^ 21 \<Longrightarrow>
    \<exists>m. bvmmap_loop fuel bt va pa va_end dev s = Ok () (s\<lparr>mem := m\<rparr>) \<and> tables_typed bt m"
proof (induction fuel arbitrary: va pa s)
  case (Suc fuel)
  then obtain V where V: "tabs bt V (mem s)" "\<And>n. V n AND 3 = 0 \<or> V n AND 3 = 1" by (auto simp: tables_typed_def)
  then obtain m where m: "tabs bt (V(blk va := boot_pde pa dev)) m"
    "bvmmap_loop (Suc fuel) bt va pa va_end dev s = (if va + PMD_SZ \<ge> va_end then Ok () (s\<lparr>mem := m\<rparr>) else bvmmap_loop fuel bt (va + PMD_SZ) (pa + PMD_SZ) va_end dev (s\<lparr>mem := m\<rparr>))"
    using bvmmap_round [OF a bt V(1), of va pa dev fuel va_end] by auto
  have t: "tables_typed bt m" using m(1) V(2) boot_pde_bits(1) unfolding tables_typed_def by (intro exI [of _ "V(blk va := boot_pde pa dev)"]) simp
  have u: "unat (va + PMD_SZ) = unat va + 2 ^ 21" using next_block(1) [of va] e Suc.prems(2) by simp
  show ?case
  proof (cases "va + PMD_SZ \<ge> va_end")
    case True
    then show ?thesis using m(2) t by auto
  next
    case False
    then have "unat (va + PMD_SZ) \<le> unat va_end" "unat va_end - unat (va + PMD_SZ) < fuel * 2 ^ 21"
      using u Suc.prems(3) by (simp_all add: word_le_nat_alt)
    then show ?thesis using Suc.IH [of "s\<lparr>mem := m\<rparr>" "va + PMD_SZ" "pa + PMD_SZ"] t False m(2) by auto
  qed
qed simp



end
