(* ===== verification/Umalloc.thy ===== *)
theory Umalloc
  imports Prelude
begin

text \<open>
  The user-level allocator, \<open>src/user/umalloc.c\<close>: a ring of free blocks in the order of their addresses,
  threaded through the headers of the blocks. A header is 16 bytes; its two fields are functions of its
  address. Addresses are natural numbers, since a process has less than \<open>2 ^ 32\<close> bytes. The kernel's
  answer to \<open>sbrk\<close> is a parameter in the state.
\<close>

section \<open>State and operations\<close>

definition HDR :: nat where
  "HDR = 16"

record uheap =
  h_ptr :: "nat \<Rightarrow> nat"
  h_size :: "nat \<Rightarrow> nat"
  freep :: nat
  brk :: nat
  grant :: "nat \<Rightarrow> int \<Rightarrow> bool"

definition sbrk :: "int \<Rightarrow> uheap \<Rightarrow> (uheap, nat option) res" where
  "sbrk n =
     bind (gets id) (\<lambda>s.
     if grant s (brk s) n then seq (modify (\<lambda>s. s\<lparr>brk := nat (int (brk s) + n)\<rparr>)) (return (Some (brk s)))
     else return None)"

definition set_ptr :: "nat \<Rightarrow> nat \<Rightarrow> uheap \<Rightarrow> (uheap, unit) res" where
  "set_ptr p q = modify (\<lambda>s. s\<lparr>h_ptr := (h_ptr s)(p := q)\<rparr>)"

definition set_size :: "nat \<Rightarrow> nat \<Rightarrow> uheap \<Rightarrow> (uheap, unit) res" where
  "set_size p n = modify (\<lambda>s. s\<lparr>h_size := (h_size s)(p := n mod 2 ^ 32)\<rparr>)"

definition set_freep :: "nat \<Rightarrow> uheap \<Rightarrow> (uheap, unit) res" where
  "set_freep p = modify (\<lambda>s. s\<lparr>freep := p\<rparr>)"

text \<open>There are fewer than \<open>2 ^ 32\<close> headers, so that a loop around the ring needs no more rounds.\<close>

definition ring_fuel :: nat where
  "ring_fuel = 2 ^ 32"

fun free_find :: "nat \<Rightarrow> nat \<Rightarrow> nat \<Rightarrow> uheap \<Rightarrow> (uheap, nat) res" where
  "free_find fuel bp p =
     (if fuel = 0 then stop (Hang ''free'') else
      bind (gets (\<lambda>s. h_ptr s p)) (\<lambda>q.
      if bp > p \<and> bp < q then return p else
      if p \<ge> q \<and> (bp > p \<or> bp < q) then return p
      else free_find (fuel - 1) bp q))"

definition free_join :: "nat \<Rightarrow> nat \<Rightarrow> uheap \<Rightarrow> (uheap, unit) res" where
  "free_join bp p =
     bind (gets id) (\<lambda>s.
     let q = h_ptr s p in
     seq (if bp + HDR * h_size s bp = q then
            seq (set_size bp (h_size s bp + h_size s q)) (set_ptr bp (h_ptr s q))
          else set_ptr bp q) (
     bind (gets id) (\<lambda>s.
     seq (if p + HDR * h_size s p = bp then
            seq (set_size p (h_size s p + h_size s bp)) (set_ptr p (h_ptr s bp))
          else set_ptr p bp)
         (set_freep p))))"

definition free :: "nat \<Rightarrow> uheap \<Rightarrow> (uheap, unit) res" where
  "free ap =
     bind (gets freep) (\<lambda>f.
     bind (free_find ring_fuel (ap - HDR) f) (\<lambda>p.
     free_join (ap - HDR) p))"

definition morecore :: "nat \<Rightarrow> uheap \<Rightarrow> (uheap, nat) res" where
  "morecore nu =
     (let nu = (if nu < 4096 then 4096 else nu) in
      bind (sbrk (sint (of_nat (nu * HDR) :: u32))) (\<lambda>p.
      case p of None \<Rightarrow> return 0 | Some hp \<Rightarrow>
      seq (set_size hp nu) (
      seq (free (hp + HDR))
          (gets freep))))"

definition malloc_take :: "nat \<Rightarrow> nat \<Rightarrow> nat \<Rightarrow> uheap \<Rightarrow> (uheap, nat) res" where
  "malloc_take nunits prevp p =
     bind (gets (\<lambda>s. h_size s p)) (\<lambda>z.
     bind (if z = nunits then
             bind (gets (\<lambda>s. h_ptr s p)) (\<lambda>q.
             seq (set_ptr prevp q) (return p))
           else seq (set_size p (z - nunits)) (
                bind (gets (\<lambda>s. p + HDR * h_size s p)) (\<lambda>p.
                seq (set_size p nunits) (return p)))) (\<lambda>p.
     seq (set_freep prevp) (return (p + HDR))))"

fun malloc_loop :: "nat \<Rightarrow> nat \<Rightarrow> nat \<Rightarrow> nat \<Rightarrow> uheap \<Rightarrow> (uheap, nat) res" where
  "malloc_loop fuel nunits prevp p =
     (if fuel = 0 then stop (Hang ''malloc'') else
      bind (gets id) (\<lambda>s.
      if h_size s p \<ge> nunits then malloc_take nunits prevp p
      else if p = freep s then
        bind (morecore nunits) (\<lambda>p.
        if p = 0 then return 0 else
        bind (gets (\<lambda>s. h_ptr s p)) (\<lambda>q. malloc_loop (fuel - 1) nunits p q))
      else malloc_loop (fuel - 1) nunits p (h_ptr s p)))"

definition nunits_of :: "nat \<Rightarrow> nat" where
  "nunits_of nbytes = (nbytes + HDR - 1) div HDR + 1"

definition malloc :: "nat \<Rightarrow> nat \<Rightarrow> uheap \<Rightarrow> (uheap, nat) res" where
  "malloc base nbytes =
     bind (gets freep) (\<lambda>f.
     seq (whenever (f = 0) (
            seq (set_ptr base base) (
            seq (set_freep base)
                (set_size base 0)))) (
     bind (gets freep) (\<lambda>prevp.
     bind (gets (\<lambda>s. h_ptr s prevp)) (\<lambda>p.
     malloc_loop ring_fuel (nunits_of nbytes) prevp p))))"

declare free_find.simps [simp del] malloc_loop.simps [simp del]

section \<open>The ring of free blocks\<close>

fun path :: "(nat \<Rightarrow> nat) \<Rightarrow> nat \<Rightarrow> nat list \<Rightarrow> nat \<Rightarrow> bool" where
  "path f x [] e \<longleftrightarrow> x = e"
| "path f x (a # xs) e \<longleftrightarrow> x = a \<and> path f (f a) xs e"

lemma path_append: "path f x (xs @ ys) e \<longleftrightarrow> (\<exists>y. path f x xs y \<and> path f y ys e)"
  by (induction xs arbitrary: x) auto

lemma path_cong: "(\<And>a. a \<in> set xs \<Longrightarrow> f a = g a) \<Longrightarrow> path f x xs e = path g x xs e"
  by (induction xs arbitrary: x) auto

lemma path_upd [simp]: "a \<notin> set xs \<Longrightarrow> path (f(a := b)) x xs e = path f x xs e"
  by (induction xs arbitrary: x) auto

text \<open>The blocks of the ring in order, with a gap between each and the next: \<open>z\<close> gives their sizes.\<close>

abbreviation apart :: "(nat \<Rightarrow> nat) \<Rightarrow> nat list \<Rightarrow> bool" where
  "apart z xs \<equiv> sorted_wrt (\<lambda>a b. a + HDR * z a < b) xs"

definition ring :: "nat \<Rightarrow> uheap \<Rightarrow> nat list \<Rightarrow> bool" where
  "ring base s fs \<longleftrightarrow>
     path (h_ptr s) base (base # fs) base \<and> apart (h_size s) (base # fs) \<and> h_size s base = 0 \<and>
     (\<forall>a \<in> set fs. 0 < h_size s a) \<and> freep s \<in> set (base # fs)"

lemma apart_less: "apart z (x # xs) \<Longrightarrow> y \<in> set xs \<Longrightarrow> x < y"
  by fastforce

lemma apart_cong: "(\<And>a. a \<in> set xs \<Longrightarrow> z a = z' a) \<Longrightarrow> apart z xs = apart z' xs"
  by (induction xs) auto

lemma apart_upd: "a \<notin> set xs \<Longrightarrow> apart (z(a := n)) xs = apart z xs"
  by (rule apart_cong) auto

lemma apart_distinct: "apart z xs \<Longrightarrow> distinct xs"
  by (induction xs) fastforce+

text \<open>The search of \<open>free\<close>: the last block before \<open>bp\<close>, from any block of the ring.\<close>

lemma find_before:
  assumes "path (h_ptr s) x (us @ [t]) y" "apart (h_size s) (us @ [t])" "\<forall>u \<in> set (us @ [t]). u < bp" "bp < y \<or> y \<le> t"
    and "length us < fuel"
  shows "free_find fuel bp x s = Ok t s"
  using assms
proof (induction us arbitrary: x fuel)
  case Nil
  then show ?case by (subst free_find.simps) auto
next
  case (Cons u us)
  then obtain f where f: "fuel = Suc f" by (cases fuel) auto
  let ?q = "h_ptr s u"
  have x: "x = u" and p: "path (h_ptr s) ?q (us @ [t]) y" using Cons.prems(1) by simp_all
  then have "?q \<in> set (us @ [t])" by (cases us) auto
  then have "u < ?q" "?q < bp" using Cons.prems(2,3) by fastforce+
  moreover have "free_find f bp ?q s = Ok t s" by (rule Cons.IH [OF p]) (use Cons.prems f in auto)
  ultimately show ?case using x f by (subst free_find.simps) simp
qed

lemma find_after:
  assumes "path (h_ptr s) x zs base" "apart (h_size s) zs" "\<forall>z \<in> set zs. bp < z" "base < bp"
  shows "free_find (length zs + fuel) bp x s = free_find fuel bp base s"
  using assms
proof (induction zs arbitrary: x)
  case (Cons z zs)
  let ?q = "h_ptr s z"
  have x: "x = z" and p: "path (h_ptr s) ?q zs base" using Cons.prems(1) by simp_all
  then have "?q = base \<or> ?q \<in> set zs" by (cases zs) auto
  then have "?q = base \<or> z < ?q" using Cons.prems(2) by fastforce
  moreover have "free_find (length zs + fuel) bp ?q s = free_find fuel bp base s" by (rule Cons.IH [OF p]) (use Cons.prems in auto)
  ultimately show ?case using x Cons.prems(3,4) by (subst free_find.simps) auto
qed simp

lemma free_find_ring:
  assumes r: "ring base s (ys @ zs)" and b: "\<forall>y \<in> set ys. y < bp" "\<forall>z \<in> set zs. bp < z" "base < bp" and x: "x \<in> set (base # ys @ zs)"
    and fuel: "length (base # ys @ zs) \<le> fuel"
  shows "free_find fuel bp x s = Ok (last (base # ys)) s"
proof -
  let ?us = "butlast (base # ys)" and ?t = "last (base # ys)"
  have bu: "base # ys = ?us @ [?t]" by simp
  obtain y where y: "path (h_ptr s) base (base # ys) y" "path (h_ptr s) y zs base"
    using r path_append [of "h_ptr s" base "base # ys" zs base] by (auto simp: ring_def)
  have ap: "apart (h_size s) (base # ys @ zs)" using r unfolding ring_def by blast
  have out: "bp < y \<or> y \<le> ?t"
  proof (cases zs)
    case Nil
    then have "y = base" using y(2) by simp
    moreover have "base \<le> ?t" using ap apart_less [of "h_size s" base ys ?t] Nil by (cases ys) (auto intro: less_imp_le)
    ultimately show ?thesis by simp
  qed (use y b in auto)
  have apy: "apart (h_size s) (base # ys)" "apart (h_size s) zs" using ap by (auto simp: sorted_wrt_append)
  have before: "free_find f bp x' s = Ok ?t s" if "x' \<in> set (base # ys)" "length (base # ys) \<le> f" for x' f
  proof -
    note h = that
    obtain vs ws where vw: "base # ys = vs @ x' # ws" using split_list [OF h(1)] by blast
    let ?ws = "butlast (x' # ws)"
    have l: "last (x' # ws) = ?t" using vw by (metis last_appendR list.distinct(1))
    then have w: "x' # ws = ?ws @ [?t]" by (metis append_butlast_last_id list.distinct(1))
    have "path (h_ptr s) x' (x' # ws) y" using y(1) unfolding vw path_append by auto
    moreover have "apart (h_size s) (x' # ws)" using apy(1) unfolding vw by (simp add: sorted_wrt_append)
    moreover have "\<forall>u \<in> set (x' # ws). u < bp" using b vw by (metis Un_iff set_append set_ConsD)
    moreover have "length ?ws < f" using h(2) arg_cong [OF vw, of length] by simp
    ultimately show ?thesis using find_before [of s x' ?ws ?t y bp f] out unfolding w [symmetric] by simp
  qed
  show ?thesis
  proof (cases "x \<in> set (base # ys)")
    case True
    then show ?thesis using before fuel by simp
  next
    case False
    then obtain vs ws where vw: "zs = vs @ x # ws" using x by (metis Un_iff set_append append_Cons split_list)
    have "path (h_ptr s) x (x # ws) base" using y(2) unfolding vw path_append by auto
    moreover have "apart (h_size s) (x # ws)" using apy(2) unfolding vw by (simp add: sorted_wrt_append)
    ultimately have "free_find (length (x # ws) + (fuel - length (x # ws))) bp x s = free_find (fuel - length (x # ws)) bp base s"
      using b vw by (intro find_after) auto
    moreover have "length (base # ys) \<le> fuel - length (x # ws)" using fuel vw by simp
    ultimately show ?thesis using before [of base "fuel - length (x # ws)"] fuel vw by simp
  qed
qed

text \<open>The bytes of a block and of the free blocks.\<close>

definition ext :: "uheap \<Rightarrow> nat \<Rightarrow> nat set" where
  "ext s a = {a..<a + HDR * h_size s a}"

definition region :: "uheap \<Rightarrow> nat list \<Rightarrow> nat set" where
  "region s fs = (\<Union>a \<in> set fs. ext s a)"

lemma region_simps [simp]: "region s [] = {}" "region s (a # fs) = ext s a \<union> region s fs" "region s (xs @ ys) = region s xs \<union> region s ys"
  by (auto simp: region_def)

lemma region_cong: "(\<And>a. a \<in> set fs \<Longrightarrow> h_size t a = h_size s a) \<Longrightarrow> region t fs = region s fs"
  by (simp add: region_def ext_def)

lemma ext_join: "a + HDR * m = b \<Longrightarrow> {a..<a + HDR * m} \<union> {b..<b + HDR * n} = {a..<a + HDR * (m + n)}"
  by (auto simp: algebra_simps)

text \<open>The two halves of the end of \<open>free\<close>.\<close>

definition join_right :: "nat \<Rightarrow> nat \<Rightarrow> uheap \<Rightarrow> uheap" where
  "join_right bp q s =
     (if bp + HDR * h_size s bp = q then s\<lparr>h_size := (h_size s)(bp := (h_size s bp + h_size s q) mod 2 ^ 32), h_ptr := (h_ptr s)(bp := h_ptr s q)\<rparr>
      else s\<lparr>h_ptr := (h_ptr s)(bp := q)\<rparr>)"

definition join_left :: "nat \<Rightarrow> nat \<Rightarrow> uheap \<Rightarrow> uheap" where
  "join_left bp p s =
     (if p + HDR * h_size s p = bp then s\<lparr>h_size := (h_size s)(p := (h_size s p + h_size s bp) mod 2 ^ 32), h_ptr := (h_ptr s)(p := h_ptr s bp)\<rparr>
      else s\<lparr>h_ptr := (h_ptr s)(p := bp)\<rparr>)"

lemma free_join_run: "free_join bp p s = Ok () ((join_left bp p (join_right bp (h_ptr s p) s))\<lparr>freep := p\<rparr>)"
  by (simp add: free_join_def join_left_def join_right_def set_size_def set_ptr_def set_freep_def Let_def)

lemma join_right_spec:
  assumes p: "path (h_ptr s) q zs base" and ap: "apart (h_size s) zs" and b: "\<forall>z \<in> set zs. bp + HDR * h_size s bp \<le> z" "base < bp"
    and pos: "\<forall>z \<in> set (bp # zs). 0 < h_size s z \<and> z + HDR * h_size s z < 2 ^ 32"
  obtains zs' where "path (h_ptr (join_right bp q s)) (h_ptr (join_right bp q s) bp) zs' base" "apart (h_size (join_right bp q s)) (bp # zs')"
    "set zs' \<subseteq> set zs" "\<forall>z \<in> set (bp # zs'). 0 < h_size (join_right bp q s) z \<and> z + HDR * h_size (join_right bp q s) z < 2 ^ 32"
    "region (join_right bp q s) (bp # zs') = ext s bp \<union> region s zs" "\<And>a. a \<noteq> bp \<Longrightarrow> h_size (join_right bp q s) a = h_size s a"
    "\<And>a. a \<noteq> bp \<Longrightarrow> h_ptr (join_right bp q s) a = h_ptr s a" "h_size s bp \<le> h_size (join_right bp q s) bp"
proof (cases "bp + HDR * h_size s bp = q")
  case True
  have "bp < z" if "z \<in> set zs" for z using b(1) pos that by (fastforce simp: HDR_def)
  then have nb: "bp \<notin> set zs" by auto
  obtain z1 where z: "zs = q # z1"
  proof (cases zs)
    case Nil
    then show ?thesis using p True b(2) by simp
  next
    case (Cons z z1)
    then show ?thesis using p that by simp
  qed
  let ?t = "join_right bp q s"
  have sz: "h_size s bp + h_size s q < 2 ^ 32" using pos True z by (auto simp: HDR_def)
  then have e: "h_size ?t = (h_size s)(bp := h_size s bp + h_size s q)" "h_ptr ?t = (h_ptr s)(bp := h_ptr s q)"
    using True by (simp_all add: join_right_def)
  show ?thesis
  proof (rule that [of z1])
    show "path (h_ptr ?t) (h_ptr ?t bp) z1 base" using p z nb by (simp add: e(2))
    have "bp + HDR * h_size ?t bp = q + HDR * h_size s q" using True e(1) by (simp add: algebra_simps)
    moreover have "apart (h_size ?t) z1" by (subst apart_cong [of _ _ "h_size s"]) (use ap z nb e(1) in auto)
    ultimately show "apart (h_size ?t) (bp # z1)" using ap z by simp
    show "\<forall>z \<in> set (bp # z1). 0 < h_size ?t z \<and> z + HDR * h_size ?t z < 2 ^ 32"
      using pos z nb e True by (auto simp: algebra_simps)
    have "ext ?t bp = ext s bp \<union> ext s q" using ext_join [OF True, of "h_size s q"] e(1) by (simp add: ext_def)
    moreover have "region ?t z1 = region s z1" using nb z e(1) by (intro region_cong) auto
    ultimately show "region ?t (bp # z1) = ext s bp \<union> region s zs" by (auto simp: z)
  qed (use z e in auto)
next
  case False
  have "bp < z" if "z \<in> set zs" for z using b(1) pos that by (fastforce simp: HDR_def)
  then have nb: "bp \<notin> set zs" by auto
  let ?t = "join_right bp q s"
  have e: "h_size ?t = h_size s" "h_ptr ?t = (h_ptr s)(bp := q)" using False by (simp_all add: join_right_def)
  have "bp + HDR * h_size s bp < z" if "z \<in> set zs" for z
  proof (cases zs)
    case (Cons z0 z1)
    then have "z0 = q" using p by simp
    then have "bp + HDR * h_size s bp < z0" using False b(1) Cons by (metis le_neq_implies_less list.set_intros(1))
    moreover have "z0 \<le> z" using that ap apart_less [of "h_size s" z0 z1 z] unfolding Cons by (metis less_imp_le order_refl set_ConsD)
    ultimately show ?thesis by simp
  qed (use that in simp)
  then show ?thesis
    using p ap pos nb by (intro that [of zs]) (auto simp: e ext_def region_def)
qed

lemma join_left_spec:
  assumes p: "path (h_ptr s) base us t" "path (h_ptr s) (h_ptr s bp) zs base" and ap: "apart (h_size s) (us @ [t])" "apart (h_size s) (bp # zs)"
    and b: "t + HDR * h_size s t \<le> bp" "\<forall>u \<in> set us. u < bp" "t < bp"
    and pos: "0 < h_size s bp" "bp + HDR * h_size s bp < 2 ^ 32" and us: "us @ [t] = base # ys" and z0: "h_size s base = 0" "\<forall>y \<in> set ys. 0 < h_size s y"
      "\<forall>z \<in> set zs. 0 < h_size s z"
  obtains ws where "ring base ((join_left bp t s)\<lparr>freep := t\<rparr>) (ys @ ws)" "set ws \<subseteq> set (bp # zs)"
    "region (join_left bp t s) (ys @ ws) = region s (ys @ bp # zs)" "\<And>a. a \<notin> set ys \<Longrightarrow> h_size (join_left bp t s) a = h_size s a"
    "\<exists>a \<in> set (ys @ ws). h_size s bp \<le> h_size (join_left bp t s) a"
proof -
  have lt: "\<forall>z \<in> set (bp # zs). t < z \<and> (\<forall>u \<in> set us. u + HDR * h_size s u < z)"
    using ap b by (fastforce simp: sorted_wrt_append)
  have nt: "t \<notin> set us" "t \<notin> set zs" "bp \<notin> set us" "bp \<notin> set zs"
    using apart_distinct [OF ap(1)] apart_distinct [OF ap(2)] lt b(2) by auto
  show thesis
  proof (cases "t + HDR * h_size s t = bp")
    case True
    then have "t \<noteq> base" using z0(1) b(3) by auto
    let ?s = "join_left bp t s"
    have sz: "h_size s t + h_size s bp < 2 ^ 32" using True pos by (simp add: HDR_def)
    have e: "h_size ?s = (h_size s)(t := h_size s t + h_size s bp)" "h_ptr ?s = (h_ptr s)(t := h_ptr s bp)"
      using True sz by (simp_all add: join_left_def)
    have ty: "t \<in> set ys" using us \<open>t \<noteq> base\<close> by (metis last_ConsR last_in_set last_snoc last_ConsL)
    show thesis
    proof (rule that [of zs])
      have "path (h_ptr ?s) base ((us @ [t]) @ zs) base" using p nt by (auto simp: path_append e(2))
      moreover have "t + HDR * h_size ?s t = bp + HDR * h_size s bp" using True by (simp add: e algebra_simps)
      moreover have "apart (h_size ?s) us" "apart (h_size ?s) zs"
        using ap unfolding e(1) apart_upd [OF nt(1)] apart_upd [OF nt(2)] by (simp_all add: sorted_wrt_append)
      then have "apart (h_size ?s) ((us @ [t]) @ zs)" using ap lt nt calculation(2) by (auto simp: sorted_wrt_append e(1))
      moreover have "\<forall>a \<in> set (ys @ zs). 0 < h_size ?s a" using z0(2,3) pos(1) by (auto simp: e(1))
      ultimately show "ring base (?s\<lparr>freep := t\<rparr>) (ys @ zs)"
        unfolding us ring_def using ty z0(1) \<open>t \<noteq> base\<close> by (simp add: e(1))
      have "ext ?s a = (if a = t then ext s t \<union> ext s bp else ext s a)" for a
        using ext_join [OF True, of "h_size s bp"] by (simp add: ext_def e(1))
      then have "(\<Union>a \<in> set (ys @ zs). ext ?s a) = (\<Union>a \<in> set (ys @ zs). ext s a) \<union> ext s bp"
        using ty by (simp only: UN_extend_simps set_append) (auto split: if_splits)
      then show "region ?s (ys @ zs) = region s (ys @ bp # zs)" unfolding region_def by auto
    qed (use e ty in auto)
  next
    case False
    let ?s = "join_left bp t s"
    have e: "h_size ?s = h_size s" "h_ptr ?s = (h_ptr s)(t := bp)" using False by (simp_all add: join_left_def)
    show thesis
    proof (rule that [of "bp # zs"])
      have "path (h_ptr ?s) base ((us @ [t]) @ bp # zs) base" using p nt b(3) by (auto simp: path_append e(2))
      moreover have "apart (h_size ?s) ((us @ [t]) @ bp # zs)" using ap lt False b(1) unfolding e sorted_wrt_append by auto
      moreover have "t \<in> set (base # ys)" using us by (metis in_set_conv_decomp)
      ultimately show "ring base (?s\<lparr>freep := t\<rparr>) (ys @ bp # zs)" unfolding us using z0 pos e by (auto simp: ring_def)
    qed (auto simp: e region_def ext_def)
  qed
qed

text \<open>A block that is not in the ring, put there by \<open>free\<close>.\<close>

lemma units_bound:
  assumes "apart z xs" "\<forall>a \<in> set xs. 0 < z a \<and> m \<le> a \<and> a + HDR * z a \<le> M" "m \<le> M"
  shows "m + HDR * length xs \<le> M"
  using assms
proof (induction xs arbitrary: m)
  case (Cons a xs)
  have "m + HDR \<le> a + HDR * z a" using Cons.prems(2) by (auto simp: HDR_def)
  then have "m + HDR + HDR * length xs \<le> M"
    using Cons.prems by (intro Cons.IH) (auto intro: less_imp_le order_trans)
  then show ?case by simp
qed simp

definition limits :: "nat \<Rightarrow> uheap \<Rightarrow> bool" where
  "limits base s \<longleftrightarrow> 0 < base \<and> base + HDR \<le> brk s \<and> brk s < 2 ^ 32 \<and> (\<forall>b n. grant s b n \<longrightarrow> 0 \<le> int b + n \<and> int b + n < 2 ^ 32)"

definition within :: "nat \<Rightarrow> uheap \<Rightarrow> nat set \<Rightarrow> bool" where
  "within base s X \<longleftrightarrow> X \<subseteq> {base + HDR..<brk s}"

lemma ext_within: "within base s (ext s a) \<Longrightarrow> 0 < h_size s a \<Longrightarrow> base + HDR \<le> a \<and> a + HDR * h_size s a \<le> brk s"
  unfolding within_def ext_def HDR_def
  by (metis (no_types, lifting) add.commute atLeastLessThan_subset_iff less_add_same_cancel1 mult_pos_pos not_le zero_less_numeral)

lemma ring_block:
  assumes "ring base s fs" "within base s (region s fs)" "a \<in> set fs"
  shows "0 < h_size s a" "base + HDR \<le> a" "a + HDR * h_size s a \<le> brk s"
proof -
  show p: "0 < h_size s a" using assms(1,3) by (simp add: ring_def)
  have "within base s (ext s a)" using assms(2,3) by (auto simp: within_def region_def)
  then show "base + HDR \<le> a" "a + HDR * h_size s a \<le> brk s" using ext_within p by blast+
qed

lemma ring_length:
  assumes "ring base s fs" "within base s (region s fs)" "limits base s"
  shows "2 * length (base # fs) < ring_fuel"
proof -
  have "base + HDR + HDR * length fs \<le> brk s"
    using assms ring_block [OF assms(1,2)] by (intro units_bound [of "h_size s"]) (auto simp: ring_def limits_def)
  then show ?thesis using assms(3) by (simp add: limits_def ring_fuel_def HDR_def)
qed

lemma join_frame [simp]: "brk (join_right bp q s) = brk s" "grant (join_right bp q s) = grant s"
  "brk (join_left bp q s) = brk s" "grant (join_left bp q s) = grant s"
  by (simp_all add: join_right_def join_left_def)

lemma free_joined:
  assumes r: "ring base s (ys @ zs)" and ys: "\<forall>y \<in> set ys. y + HDR * h_size s y \<le> bp" and zs: "\<forall>z \<in> set zs. bp + HDR * h_size s bp \<le> z"
    and b: "base < bp" and pos: "0 < h_size s bp" and lim: "\<forall>a \<in> set (bp # ys @ zs). a + HDR * h_size s a < 2 ^ 32"
  obtains s' fs' where "free_join bp (last (base # ys)) s = Ok () s'" "ring base s' fs'" "region s' fs' = region s (ys @ zs) \<union> ext s bp"
    "brk s' = brk s" "grant s' = grant s" "\<And>a. a \<notin> set (bp # ys @ zs) \<Longrightarrow> h_size s' a = h_size s a"
    "\<exists>a \<in> set fs'. h_size s bp \<le> h_size s' a"
proof -
  define us where "us = butlast (base # ys)"
  define t where "t = last (base # ys)"
  have ut: "us @ [t] = base # ys" by (simp add: us_def t_def)
  note R = r [unfolded ring_def]
  have sz: "h_size s base = 0" "\<forall>a \<in> set (ys @ zs). 0 < h_size s a" using R by blast+
  have "path (h_ptr s) base ((us @ [t]) @ zs) base" "apart (h_size s) ((us @ [t]) @ zs)" using R unfolding ut append_Cons by blast+
  then have p: "path (h_ptr s) base us t" "path (h_ptr s) (h_ptr s t) zs base" and ap: "apart (h_size s) (us @ [t])" "apart (h_size s) zs"
    unfolding path_append by (auto simp: sorted_wrt_append)
  have lt: "y + HDR * h_size s y \<le> bp" "y < bp" if "y \<in> set (us @ [t])" for y
  proof -
    have "y = base \<or> 0 < h_size s y \<and> y + HDR * h_size s y \<le> bp" using that ys sz unfolding ut by auto
    then show "y + HDR * h_size s y \<le> bp" "y < bp" using b sz(1) by (auto simp: HDR_def)
  qed
  have posz: "\<forall>z \<in> set (bp # zs). 0 < h_size s z \<and> z + HDR * h_size s z < 2 ^ 32" using sz(2) pos lim by simp
  let ?s = "join_right bp (h_ptr s t) s"
  obtain zs' where z: "path (h_ptr ?s) (h_ptr ?s bp) zs' base" "apart (h_size ?s) (bp # zs')" "set zs' \<subseteq> set zs"
    "\<forall>z \<in> set (bp # zs'). 0 < h_size ?s z \<and> z + HDR * h_size ?s z < 2 ^ 32" "region ?s (bp # zs') = ext s bp \<union> region s zs"
    "\<And>a. a \<noteq> bp \<Longrightarrow> h_size ?s a = h_size s a" "\<And>a. a \<noteq> bp \<Longrightarrow> h_ptr ?s a = h_ptr s a" "h_size s bp \<le> h_size ?s bp"
    by (rule join_right_spec [OF p(2) ap(2) zs b posz]) (rule that; assumption)
  have nu: "a \<noteq> bp" if "a \<in> set (us @ [t])" for a using lt(2) [OF that] by simp
  have t: "t \<in> set (us @ [t])" "base \<in> set (us @ [t])" "set ys \<subseteq> set (us @ [t])" unfolding ut by (simp_all add: t_def subset_iff)
  have j: "path (h_ptr ?s) base us t" "apart (h_size ?s) (us @ [t])"
    using p(1) path_cong [of us "h_ptr ?s" "h_ptr s"] ap(1) apart_cong [of "us @ [t]" "h_size ?s" "h_size s"] z(6,7) nu by simp_all
  have k: "t + HDR * h_size ?s t \<le> bp" "\<forall>u \<in> set us. u < bp" "t < bp" using lt t(1) z(6) nu by auto
  have h: "h_size ?s base = 0" "\<forall>y \<in> set ys. 0 < h_size ?s y" using z(6) nu t sz by (auto simp: subset_iff)
  have i: "0 < h_size ?s bp" "bp + HDR * h_size ?s bp < 2 ^ 32" "\<forall>z \<in> set zs'. 0 < h_size ?s z" using z(4) by auto
  obtain ws where ws: "ring base ((join_left bp t ?s)\<lparr>freep := t\<rparr>) (ys @ ws)" "set ws \<subseteq> set (bp # zs')"
    "region (join_left bp t ?s) (ys @ ws) = region ?s (ys @ bp # zs')" "\<And>a. a \<notin> set ys \<Longrightarrow> h_size (join_left bp t ?s) a = h_size ?s a"
    "\<exists>a \<in> set (ys @ ws). h_size ?s bp \<le> h_size (join_left bp t ?s) a"
    by (rule join_left_spec [OF j(1) z(1) j(2) z(2) k i(1,2) ut h i(3)]) (rule that; assumption)
  let ?r = "(join_left bp t ?s)\<lparr>freep := t\<rparr>"
  have "region ?s ys = region s ys" using z(6) nu t(3) by (intro region_cong) (auto simp: subset_iff)
  moreover have "region ?r (ys @ ws) = region (join_left bp t ?s) (ys @ ws)" by (intro region_cong) simp
  ultimately have reg: "region ?r (ys @ ws) = region s (ys @ zs) \<union> ext s bp" using ws(3) z(5) by auto
  have big: "\<exists>a \<in> set (ys @ ws). h_size s bp \<le> h_size ?r a" using ws(5) z(8) by (auto intro: le_trans)
  have old: "h_size ?r a = h_size s a" if "a \<notin> set (bp # ys @ zs)" for a using that ws(4) [of a] z(6) [of a] by simp
  show thesis by (rule that [OF _ ws(1) reg _ _ old big]) (simp_all add: free_join_run t_def)
qed

lemma free_block:
  assumes r: "ring base s fs" and l: "limits base s" and w: "within base s (region s fs)" "within base s (ext s bp)"
    and d: "ext s bp \<inter> region s fs = {}" and pos: "0 < h_size s bp"
  obtains s' fs' where "free (bp + HDR) s = Ok () s'" "ring base s' fs'" "region s' fs' = region s fs \<union> ext s bp"
    "brk s' = brk s" "grant s' = grant s" "\<And>a. a \<notin> set (bp # fs) \<Longrightarrow> h_size s' a = h_size s a"
    "\<exists>a \<in> set fs'. h_size s bp \<le> h_size s' a"
proof -
  define ys where "ys = takeWhile (\<lambda>a. a < bp) fs"
  define zs where "zs = dropWhile (\<lambda>a. a < bp) fs"
  have fs: "fs = ys @ zs" by (simp add: ys_def zs_def)
  have b0: "base + HDR \<le> bp" "bp + HDR * h_size s bp \<le> brk s" using ext_within [OF w(2) pos] by simp_all
  have ys: "\<forall>y \<in> set ys. y < bp" by (auto simp: ys_def dest: set_takeWhileD)
  have self: "a \<in> ext s a" if "0 < h_size s a" for a using that by (simp add: ext_def HDR_def)
  have blk: "0 < h_size s a" "a + HDR * h_size s a \<le> brk s" "ext s bp \<inter> ext s a = {}" if "a \<in> set fs" for a
    using ring_block [OF r w(1) that] d that by (auto simp: region_def)
  have nb: "bp \<notin> set fs" using blk(3) self pos by blast
  have ap: "apart (h_size s) (base # ys @ zs)" using r unfolding ring_def fs by blast
  have zs: "\<forall>z \<in> set zs. bp < z"
  proof (cases zs)
    case (Cons z zs')
    then have "\<not> z < bp" unfolding zs_def by (metis hd_dropWhile list.discI list.sel(1))
    moreover have "z \<noteq> bp" using nb fs Cons by auto
    ultimately have "bp < z" by simp
    moreover have "\<forall>z' \<in> set zs'. z < z'" using ap Cons apart_less [of "h_size s" z zs'] by (auto simp: sorted_wrt_append)
    ultimately show ?thesis using Cons by auto
  qed simp
  have below: "\<forall>y \<in> set ys. y + HDR * h_size s y \<le> bp"
  proof
    fix y assume y: "y \<in> set ys"
    then have "bp \<notin> ext s y" using blk(3) [of y] self [OF pos] fs by auto
    then show "y + HDR * h_size s y \<le> bp" using y ys by (auto simp: ext_def)
  qed
  have above: "\<forall>z \<in> set zs. bp + HDR * h_size s bp \<le> z"
  proof
    fix z assume z: "z \<in> set zs"
    then have "z \<notin> ext s bp" using blk(1,3) [of z] self [of z] fs by auto
    then show "bp + HDR * h_size s bp \<le> z" using z zs by (auto simp: ext_def)
  qed
  have lim: "\<forall>a \<in> set (bp # ys @ zs). a + HDR * h_size s a < 2 ^ 32" using blk(2) b0(2) l by (fastforce simp: fs limits_def)
  have bb: "base < bp" using b0(1) by (simp add: HDR_def)
  have "length (base # ys @ zs) \<le> ring_fuel" "freep s \<in> set (base # ys @ zs)" using ring_length [OF r w(1) l] r by (simp_all add: fs ring_def)
  then have "free_find ring_fuel bp (freep s) s = Ok (last (base # ys)) s" using free_find_ring [OF r [unfolded fs] ys zs bb] by blast
  then have f: "free (bp + HDR) s = free_join bp (last (base # ys)) s" by (simp add: free_def)
  show thesis
    by (rule free_joined [OF r [unfolded fs] below above bb pos lim]) (rule that; simp add: f fs)
qed

section \<open>The heap: free blocks and blocks in use\<close>

text \<open>The blocks in use are a set \<open>A\<close> of headers; they and the free blocks share out the heap.\<close>

definition heap_bytes :: "uheap \<Rightarrow> nat list \<Rightarrow> nat set \<Rightarrow> nat set" where
  "heap_bytes s fs A = region s fs \<union> (\<Union>a \<in> A. ext s a)"

definition hinv :: "nat \<Rightarrow> uheap \<Rightarrow> nat list \<Rightarrow> nat set \<Rightarrow> bool" where
  "hinv base s fs A \<longleftrightarrow>
     limits base s \<and> ring base s fs \<and> within base s (heap_bytes s fs A) \<and> (\<forall>a \<in> A. 0 < h_size s a \<and> ext s a \<inter> region s fs = {}) \<and>
     (\<forall>a \<in> A. \<forall>b \<in> A. a \<noteq> b \<longrightarrow> ext s a \<inter> ext s b = {})"

definition heap_ok :: "nat \<Rightarrow> uheap \<Rightarrow> nat list \<Rightarrow> nat set \<Rightarrow> bool" where
  "heap_ok base s fs A \<longleftrightarrow> (if freep s = 0 then limits base s \<and> fs = [] \<and> A = {} else hinv base s fs A)"

lemma hinv_freep: "hinv base s fs A \<Longrightarrow> freep s \<noteq> 0"
  by (fastforce simp: hinv_def ring_def limits_def HDR_def)

lemma hinv_notin:
  assumes "hinv base s fs A" "a \<in> A"
  shows "a \<notin> set fs"
proof
  assume "a \<in> set fs"
  then have "ext s a \<subseteq> region s fs" by (auto simp: region_def)
  moreover have "a \<in> ext s a" using assms by (simp add: hinv_def ext_def HDR_def)
  ultimately show False using assms by (auto simp: hinv_def)
qed

text \<open>The invariant in a later state, in which the blocks of \<open>A\<close> have kept their sizes.\<close>

lemma hinv_update:
  assumes h: "hinv base s fs A" and r: "ring base s' fs'" and l: "limits base s'" and B: "B \<subseteq> A"
    and sz: "\<forall>a \<in> B. h_size s' a = h_size s a" and w: "region s' fs' \<subseteq> {base + HDR..<brk s'}" "brk s \<le> brk s'"
    and d: "\<forall>a \<in> B. ext s a \<inter> region s' fs' = {}"
  shows "hinv base s' fs' B"
proof -
  have e: "ext s' a = ext s a" if "a \<in> B" for a using sz that by (simp add: ext_def)
  have "ext s a \<subseteq> {base + HDR..<brk s'}" if "a \<in> B" for a using h B w(2) that by (fastforce simp: hinv_def within_def heap_bytes_def)
  then have "within base s' (heap_bytes s' fs' B)" using w(1) e by (auto simp: within_def heap_bytes_def)
  moreover have "\<forall>a \<in> B. 0 < h_size s' a" using sz B h by (auto simp: hinv_def)
  moreover have "\<forall>a \<in> B. \<forall>b \<in> B. a \<noteq> b \<longrightarrow> ext s a \<inter> ext s b = {}" using B h unfolding hinv_def by blast
  ultimately show ?thesis using r l d e by (simp add: hinv_def)
qed

lemma hinv_free:
  assumes h: "hinv base s fs A" and bp: "bp \<in> A"
  obtains s' fs' where "free (bp + HDR) s = Ok () s'" "hinv base s' fs' (A - {bp})" "region s' fs' = region s fs \<union> ext s bp"
    "brk s' = brk s" "grant s' = grant s" "\<forall>a \<in> A - {bp}. h_size s' a = h_size s a" "\<exists>a \<in> set fs'. h_size s bp \<le> h_size s' a"
proof -
  note H = h [unfolded hinv_def]
  have w: "within base s (region s fs)" "within base s (ext s bp)" using H bp by (auto simp: within_def heap_bytes_def)
  have d: "ext s bp \<inter> region s fs = {}" "0 < h_size s bp" using H bp by auto
  obtain s' fs' where f: "free (bp + HDR) s = Ok () s'" "ring base s' fs'" "region s' fs' = region s fs \<union> ext s bp"
    "brk s' = brk s" "grant s' = grant s" "\<And>a. a \<notin> set (bp # fs) \<Longrightarrow> h_size s' a = h_size s a" "\<exists>a \<in> set fs'. h_size s bp \<le> h_size s' a"
    by (rule free_block [OF conjunct1 [OF conjunct2 [OF H]] conjunct1 [OF H] w d]) (rule that; assumption)
  have sz: "\<forall>a \<in> A - {bp}. h_size s' a = h_size s a" using f(6) hinv_notin [OF h] by auto
  have "limits base s'" using H f(4,5) by (simp add: limits_def)
  moreover have "region s' fs' \<subseteq> {base + HDR..<brk s'}" using w f(3,4) by (auto simp: within_def)
  moreover have "\<forall>a \<in> A - {bp}. ext s a \<inter> region s' fs' = {}" using H bp unfolding f(3) by (simp add: Int_Un_distrib)
  ultimately have "hinv base s' fs' (A - {bp})" using f(4) sz by (intro hinv_update [OF h f(2)]) auto
  then show thesis by (rule that [OF f(1) _ f(3,4,5) sz f(7)])
qed

section \<open>More memory\<close>

lemma sint_units: "n < 2 ^ 31 \<Longrightarrow> sint (of_nat n :: u32) = int n"
  by (simp add: signed_of_nat signed_take_bit_int_eq_self)

lemma morecore_arg:
  assumes "HDR * max 4096 nu < 2 ^ 31"
  shows "sint (of_nat ((if nu < 4096 then 4096 else nu) * HDR) :: u32) = int (HDR * max 4096 nu)"
proof -
  have e: "(if nu < 4096 then 4096 else nu) * HDR = HDR * max 4096 nu" by (simp add: max_def)
  show ?thesis unfolding e by (rule sint_units [OF assms])
qed

lemma morecore_refused:
  assumes "\<not> grant s (brk s) (int (HDR * max 4096 nu))" "HDR * max 4096 nu < 2 ^ 31"
  shows "morecore nu s = Ok 0 s"
  unfolding morecore_def Let_def morecore_arg [OF assms(2)] using assms(1) by (simp add: sbrk_def)

text \<open>The new memory is a block in use, which \<open>free\<close> then puts into the ring.\<close>

lemma hinv_grown:
  assumes h: "hinv base s fs A" and n: "0 < n" "brk s + HDR * n < 2 ^ 32"
  defines "s1 \<equiv> s\<lparr>brk := brk s + HDR * n, h_size := (h_size s)(brk s := n)\<rparr>"
  shows "hinv base s1 fs (insert (brk s) A)" "region s1 fs = region s fs" "ext s1 (brk s) = {brk s..<brk s + HDR * n}" "brk s \<notin> A"
proof -
  note H = h [unfolded hinv_def]
  have in_heap: "a + HDR * h_size s a \<le> brk s \<and> a < brk s \<and> base + HDR \<le> a" if "a \<in> set fs \<union> A" for a
  proof -
    have p: "0 < h_size s a" using that H by (auto simp: ring_def)
    moreover have "within base s (ext s a)" using that H by (auto simp: within_def heap_bytes_def region_def)
    ultimately show ?thesis using ext_within [of base s a] by (auto simp: HDR_def)
  qed
  then have nb: "brk s \<notin> set fs" "brk s \<notin> A" "brk s \<noteq> base" using H by (auto simp: limits_def HDR_def)
  then show "brk s \<notin> A" by simp
  have e: "ext s1 a = ext s a" if "a \<noteq> brk s" for a using that by (simp add: ext_def s1_def)
  show new: "ext s1 (brk s) = {brk s..<brk s + HDR * n}" by (simp add: ext_def s1_def)
  show reg: "region s1 fs = region s fs" using nb by (intro region_cong) (auto simp: s1_def)
  have hs: "h_size s1 = (h_size s)(brk s := n)" "h_ptr s1 = h_ptr s" "freep s1 = freep s" by (simp_all add: s1_def)
  have nbf: "brk s \<notin> set (base # fs)" using nb by simp
  have r: "path (h_ptr s) base (base # fs) base" "apart (h_size s) (base # fs)" "h_size s base = 0" "\<forall>a \<in> set fs. 0 < h_size s a"
    "freep s \<in> set (base # fs)" using H unfolding ring_def by blast+
  have ap: "apart (h_size s1) (base # fs)" unfolding hs apart_upd [OF nbf] by (rule r(2))
  have "h_size s1 base = 0" "\<forall>a \<in> set fs. 0 < h_size s1 a" using r(3,4) nb n(1) by (simp_all add: hs)
  then have "ring base s1 fs" unfolding ring_def hs(2,3) using r(1,5) ap by blast
  moreover have "limits base s1" using H n by (auto simp: limits_def s1_def)
  moreover have "heap_bytes s fs A \<subseteq> {base + HDR..<brk s}" using H by (simp add: within_def)
  then have old: "region s fs \<subseteq> {base + HDR..<brk s}" "\<And>a. a \<in> A \<Longrightarrow> ext s a \<subseteq> {base + HDR..<brk s}"
    unfolding heap_bytes_def by (blast intro: order_trans)+
  have eA: "\<And>a. a \<in> A \<Longrightarrow> ext s1 a = ext s a" using e nb(2) by metis
  moreover have "within base s1 (heap_bytes s1 fs (insert (brk s) A))"
  proof -
    have "base + HDR \<le> brk s" "brk s1 = brk s + HDR * n" using H by (simp_all add: limits_def s1_def)
    moreover have "{base + HDR..<brk s} \<subseteq> {base + HDR..<brk s + HDR * n}" by auto
    then have "region s fs \<subseteq> {base + HDR..<brk s + HDR * n}" "\<forall>a \<in> A. ext s a \<subseteq> {base + HDR..<brk s + HDR * n}" using old by blast+
    ultimately show ?thesis unfolding within_def heap_bytes_def reg by (simp add: new eA UN_subset_iff)
  qed
  moreover have apt: "{brk s..<brk s + HDR * n} \<inter> X = {}" if "X \<subseteq> {base + HDR..<brk s}" for X using that by auto
  moreover have "\<forall>a \<in> A. 0 < h_size s1 a" "0 < h_size s1 (brk s)" using H nb(2) n(1) by (auto simp: hs)
  ultimately show "hinv base s1 fs (insert (brk s) A)"
    using H old(2) apt [OF old(1)] apt [OF old(2)] unfolding hinv_def reg by (simp add: new eA Int_commute)
qed

lemma morecore_granted:
  assumes h: "hinv base s fs A" and g: "grant s (brk s) (int (HDR * max 4096 nu))" and m: "HDR * max 4096 nu < 2 ^ 31"
  obtains s' fs' where "morecore nu s = Ok (freep s') s'" "hinv base s' fs' A" "brk s' = brk s + HDR * max 4096 nu"
    "region s' fs' = region s fs \<union> {brk s..<brk s'}" "grant s' = grant s" "\<forall>a \<in> A. h_size s' a = h_size s a" "\<exists>a \<in> set fs'. nu \<le> h_size s' a"
proof -
  define n where "n = max 4096 nu"
  let ?s = "s\<lparr>brk := brk s + HDR * n, h_size := (h_size s)(brk s := n)\<rparr>"
  have "int (brk s) + int (HDR * n) < 2 ^ 32" using h g by (auto simp: hinv_def limits_def n_def)
  then have n: "0 < n" "brk s + HDR * n < 2 ^ 32" unfolding of_nat_add [symmetric] by (simp_all add: n_def del: of_nat_add of_nat_mult)
  note H = hinv_grown [OF h n]
  obtain s' fs' where f: "free (brk s + HDR) ?s = Ok () s'" "hinv base s' fs' (insert (brk s) A - {brk s})" "region s' fs' = region ?s fs \<union> ext ?s (brk s)"
    "brk s' = brk ?s" "grant s' = grant ?s" "\<forall>a \<in> insert (brk s) A - {brk s}. h_size s' a = h_size ?s a" "\<exists>a \<in> set fs'. h_size ?s (brk s) \<le> h_size s' a"
    by (rule hinv_free [OF H(1) insertI1]) (rule that; assumption)
  have A: "insert (brk s) A - {brk s} = A" using H(4) by auto
  have if_n: "(if nu < 4096 then 4096 else nu) = n" by (simp add: n_def)
  have "n < 2 ^ 32" using n by (simp add: HDR_def)
  moreover have arg: "sint (of_nat (n * HDR) :: u32) = int (HDR * n)" using morecore_arg [OF m] unfolding if_n n_def [symmetric] .
  moreover have "nat (int (brk s) + int (HDR * n)) = brk s + HDR * n" by (metis nat_int of_nat_add)
  ultimately have run: "morecore nu s = Ok (freep s') s'"
    unfolding morecore_def Let_def if_n arg using g f(1) by (simp add: sbrk_def set_size_def n_def [symmetric] nat_add_distrib nat_mult_distrib)
  show thesis
  proof (rule that [OF run])
    show "hinv base s' fs' A" "brk s' = brk s + HDR * max 4096 nu" "grant s' = grant s" "\<forall>a \<in> A. h_size s' a = h_size s a"
      using f(2,4,5,6) H(4) unfolding A by (auto simp: n_def)
    show "region s' fs' = region s fs \<union> {brk s..<brk s'}" using f(3,4) H(2,3) by simp
    have "nu \<le> n" by (simp add: n_def)
    then show "\<exists>a \<in> set fs'. nu \<le> h_size s' a" using f(7) by (auto intro: le_trans)
  qed
qed

section \<open>Taking a block\<close>

lemma path_pred:
  assumes p: "path f x (us @ t # b # ws) e" and d: "distinct (us @ t # b # ws)" and e: "e \<noteq> b" and a: "a \<in> set (us @ t # b # ws)" "f a = b"
  shows "a = t"
proof -
  obtain vs xs where v: "us @ t # b # ws = vs @ a # xs" using split_list [OF a(1)] by blast
  then have "path f b xs e" using p a(2) unfolding v path_append by auto
  then obtain ys where "xs = b # ys" using e by (cases xs) auto
  then have "(us @ [t]) @ b # ws = (vs @ [a]) @ b # ys" using v by simp
  moreover have "b \<notin> set (us @ [t])" "b \<notin> set ws" using d by simp_all
  ultimately show ?thesis using append_Cons_eq_iff [of b "us @ [t]" ws "vs @ [a]" ys] by simp
qed

text \<open>A whole block leaves the ring.\<close>

lemma ring_split:
  assumes r: "ring base s fs" and b: "b \<in> set fs" and prev: "prev \<in> set (base # fs)" "h_ptr s prev = b"
  obtains us ys ws where "fs = ys @ b # ws" "base # ys = us @ [prev]" "path (h_ptr s) base us prev" "path (h_ptr s) (h_ptr s b) ws base"
proof -
  obtain ys ws where fs: "fs = ys @ b # ws" using split_list [OF b] by blast
  define us where "us = butlast (base # ys)"
  define t where "t = last (base # ys)"
  have ut: "base # ys = us @ [t]" by (simp add: us_def t_def)
  have bf: "base # fs = us @ t # b # ws" using ut fs by (metis append.assoc append_Cons append_Nil)
  have p: "path (h_ptr s) base (us @ t # b # ws) base" and ap: "apart (h_size s) (us @ t # b # ws)" using r unfolding ring_def bf by blast+
  have "b \<noteq> base" using apart_distinct [OF ap] b unfolding bf [symmetric] by auto
  then have "prev = t" using path_pred [OF p apart_distinct [OF ap]] prev unfolding bf by blast
  then show thesis using p fs ut by (intro that [of ys ws us]) (auto simp: path_append)
qed

lemma take_whole:
  assumes r: "ring base s fs" and b: "b \<in> set fs" "h_size s b = n" and prev: "prev \<in> set (base # fs)" "h_ptr s prev = b"
  obtains s' fs' where "malloc_take n prev b s = Ok (b + HDR) s'" "ring base s' fs'" "set fs' = set fs - {b}" "h_size s' = h_size s" "brk s' = brk s" "grant s' = grant s"
proof -
  obtain us ys ws where f: "fs = ys @ b # ws" "base # ys = us @ [prev]" "path (h_ptr s) base us prev" "path (h_ptr s) (h_ptr s b) ws base"
    by (rule ring_split [OF r b(1) prev]) (rule that; assumption)
  let ?s = "s\<lparr>h_ptr := (h_ptr s)(prev := h_ptr s b), freep := prev\<rparr>"
  have run: "malloc_take n prev b s = Ok (b + HDR) ?s" using b by (simp add: malloc_take_def set_ptr_def set_freep_def)
  have ap: "apart (h_size s) (base # ys @ b # ws)" using r unfolding ring_def f(1) by blast
  have d: "distinct (us @ prev # b # ws)" using apart_distinct [OF ap] f(2) by (metis append.assoc append_Cons append_Nil)
  have "path (h_ptr ?s) base ((us @ [prev]) @ ws) base" using f(3,4) d by (auto simp: path_append)
  moreover have "apart (h_size s) (base # ys @ ws)" using ap by (auto simp: sorted_wrt_append)
  moreover have "prev \<in> set (base # ys @ ws)" using f(2) by (metis UnI1 append_Cons in_set_conv_decomp set_append)
  ultimately have r': "ring base ?s (ys @ ws)" unfolding ring_def using r unfolding f(2) [symmetric] ring_def f(1) by simp
  have "set (ys @ ws) = set fs - {b}" using apart_distinct [OF ap] f(1) by auto
  then show thesis by (rule that [OF run r']) simp_all
qed

lemma apart_disjoint:
  assumes ap: "apart (h_size s) fs" and a: "a \<in> set fs" "b \<in> set fs" "a \<noteq> b"
  shows "ext s a \<inter> ext s b = {}"
proof -
  have "a + HDR * h_size s a < b \<or> b + HDR * h_size s b < a"
    using ap a by (induction fs) auto
  then show ?thesis by (auto simp: ext_def)
qed

text \<open>A block of the ring gives up its end.\<close>

lemma take_part:
  assumes r: "ring base s fs" and b: "b \<in> set fs" "0 < n" "n < h_size s b" "h_size s b < 2 ^ 32" and prev: "prev \<in> set (base # fs)"
  defines "a \<equiv> b + HDR * (h_size s b - n)"
  defines "s' \<equiv> s\<lparr>h_size := (h_size s)(b := h_size s b - n, a := n), freep := prev\<rparr>"
  shows "malloc_take n prev b s = Ok (a + HDR) s'" "ring base s' fs" "a \<in> ext s b" "a \<notin> set fs" "ext s b = ext s' b \<union> ext s' a" "ext s' b \<inter> ext s' a = {}" "a \<noteq> b"
proof -
  have ab: "b < a" "a < b + HDR * h_size s b" "a + HDR * n = b + HDR * h_size s b" using b by (simp_all add: a_def HDR_def)
  then show "a \<noteq> b" "a \<in> ext s b" by (simp_all add: ext_def)
  show "malloc_take n prev b s = Ok (a + HDR) s'"
    using b by (simp add: malloc_take_def set_size_def set_freep_def s'_def a_def)
  have e: "ext s' b = {b..<a}" "ext s' a = {a..<b + HDR * h_size s b}" using ab unfolding ext_def s'_def by (simp_all add: a_def [symmetric])
  then show "ext s b = ext s' b \<union> ext s' a" "ext s' b \<inter> ext s' a = {}" using ab by (auto simp: ext_def)
  have r': "path (h_ptr s) base (base # fs) base" "apart (h_size s) (base # fs)" "h_size s base = 0" "\<forall>a \<in> set fs. 0 < h_size s a"
    using r unfolding ring_def by blast+
  have nf: "a \<notin> set (base # fs)"
  proof
    assume "a \<in> set (base # fs)"
    moreover have "base < b" using apart_less [OF r'(2)] b(1) .
    ultimately have "a \<in> set fs" using ab(1) by auto
    moreover have "a \<in> ext s a" using r'(4) \<open>a \<in> set fs\<close> by (simp add: ext_def HDR_def)
    ultimately show False using apart_disjoint [of s fs a b] r'(2) b(1) ab \<open>a \<in> ext s b\<close> by auto
  qed
  then show "a \<notin> set fs" by simp
  have le: "h_size s' x \<le> h_size s x" if "x \<in> set (base # fs)" for x using that nf by (auto simp: s'_def)
  have "apart (h_size s') (base # fs)"
    by (rule sorted_wrt_mono_rel [OF _ r'(2)]) (use le in \<open>force simp: HDR_def\<close>)
  moreover have "h_size s' base = 0" "\<forall>x \<in> set fs. 0 < h_size s' x" using r'(3,4) b nf by (auto simp: s'_def)
  ultimately show "ring base s' fs" unfolding ring_def using r'(1) prev by (simp add: s'_def)
qed

lemma take_block:
  assumes r: "ring base s fs" and b: "b \<in> set (base # fs)" "0 < n" "n \<le> h_size s b" "h_size s b < 2 ^ 32"
    and prev: "prev \<in> set (base # fs)" "h_ptr s prev = b"
  obtains s' fs' a where "malloc_take n prev b s = Ok (a + HDR) s'" "ring base s' fs'" "h_size s' a = n" "region s' fs' \<union> ext s' a = region s fs"
    "region s' fs' \<inter> ext s' a = {}" "\<And>x. x \<notin> region s fs \<Longrightarrow> h_size s' x = h_size s x" "brk s' = brk s" "grant s' = grant s"
proof -
  have ap: "apart (h_size s) fs" "b \<in> set fs" using r b by (auto simp: ring_def)
  have other: "ext s x \<inter> ext s b = {}" if "x \<in> set fs" "x \<noteq> b" for x using apart_disjoint [OF ap(1) _ ap(2)] that by blast
  have reg: "ext s b \<subseteq> region s fs" using ap(2) by (auto simp: region_def)
  show thesis
  proof (cases "h_size s b = n")
    case True
    obtain s' fs' where t: "malloc_take n prev b s = Ok (b + HDR) s'" "ring base s' fs'" "set fs' = set fs - {b}" "h_size s' = h_size s" "brk s' = brk s" "grant s' = grant s"
      by (rule take_whole [OF r ap(2) True prev]) (rule that; assumption)
    have e: "ext s' x = ext s x" for x by (simp add: ext_def t(4))
    have "region s' fs' \<union> ext s' b = region s fs" "region s' fs' \<inter> ext s' b = {}"
      using other ap(2) unfolding region_def e t(3) by auto
    then show thesis by (intro that [OF t(1,2)]) (simp_all add: t True)
  next
    case False
    then have n: "n < h_size s b" using b(3) by simp
    define a where "a = b + HDR * (h_size s b - n)"
    define s' where "s' = s\<lparr>h_size := (h_size s)(b := h_size s b - n, a := n), freep := prev\<rparr>"
    note t = take_part [OF r ap(2) b(2) n b(4) prev(1), folded a_def, folded s'_def]
    have e: "ext s' x = ext s x" if "x \<noteq> b" "x \<noteq> a" for x using that by (simp add: ext_def s'_def)
    have "(\<Union>x \<in> set fs - {b}. ext s' x) = (\<Union>x \<in> set fs - {b}. ext s x)" by (rule SUP_cong) (use e t(4) in auto)
    moreover have "region s' fs = ext s' b \<union> (\<Union>x \<in> set fs - {b}. ext s' x)" using ap(2) by (auto simp: region_def)
    moreover have "region s fs = ext s b \<union> (\<Union>x \<in> set fs - {b}. ext s x)" using ap(2) by (auto simp: region_def)
    moreover have "(\<Union>x \<in> set fs - {b}. ext s x) \<inter> ext s b = {}" using other by auto
    ultimately have "region s' fs \<union> ext s' a = region s fs" "region s' fs \<inter> ext s' a = {}" using t(5,6) by auto
    moreover have "h_size s' x = h_size s x" if "x \<notin> region s fs" for x
    proof -
      have "b \<in> ext s b" using n by (simp add: ext_def HDR_def)
      then show ?thesis using that reg t(3) by (auto simp: s'_def)
    qed
    ultimately show thesis by (intro that [OF t(1,2)]) (simp_all add: s'_def)
  qed
qed

lemma hinv_take:
  assumes h: "hinv base s fs A" and b: "b \<in> set (base # fs)" "0 < n" "n \<le> h_size s b" and prev: "prev \<in> set (base # fs)" "h_ptr s prev = b"
  obtains s' fs' a where "malloc_take n prev b s = Ok (a + HDR) s'" "hinv base s' fs' (insert a A)" "a \<notin> A" "h_size s' a = n"
    "heap_bytes s' fs' (insert a A) = heap_bytes s fs A" "\<forall>x \<in> A. h_size s' x = h_size s x" "brk s' = brk s" "grant s' = grant s"
proof -
  note H = h [unfolded hinv_def]
  have r: "ring base s fs" "limits base s" "within base s (region s fs)" using H by (auto simp: within_def heap_bytes_def)
  have "b \<in> set fs" using r(1) b by (auto simp: ring_def)
  then have z: "h_size s b < 2 ^ 32" using ring_block(3) [OF r(1,3)] r(2) by (fastforce simp: limits_def HDR_def)
  obtain s' fs' a where t: "malloc_take n prev b s = Ok (a + HDR) s'" "ring base s' fs'" "h_size s' a = n" "region s' fs' \<union> ext s' a = region s fs"
    "region s' fs' \<inter> ext s' a = {}" "\<And>x. x \<notin> region s fs \<Longrightarrow> h_size s' x = h_size s x" "brk s' = brk s" "grant s' = grant s"
    by (rule take_block [OF r(1) b z prev]) (rule that; assumption)
  have self: "x \<in> ext s x" "ext s x \<inter> region s fs = {}" if "x \<in> A" for x using H that by (auto simp: ext_def HDR_def)
  have sz: "\<forall>x \<in> A. h_size s' x = h_size s x" using t(6) self by blast
  then have e: "ext s' x = ext s x" if "x \<in> A" for x using that by (simp add: ext_def)
  have "a \<in> ext s' a" using t(3) b(2) by (simp add: ext_def HDR_def)
  then have a: "a \<notin> A" using self t(4) by blast
  have hb: "heap_bytes s' fs' (insert a A) = heap_bytes s fs A" using t(4) e by (auto simp: heap_bytes_def)
  have new: "ext s x \<inter> region s' fs' = {}" "ext s x \<inter> ext s' a = {}" if "x \<in> A" for x using self(2) [OF that] t(4) by blast+
  have "limits base s'" using r(2) t(7,8) by (simp add: limits_def)
  then have "hinv base s' fs' (insert a A)"
    using H t(2,3,5,7) b(2) new sz by (auto simp: hinv_def hb e within_def Int_commute)
  then show thesis by (rule that [OF t(1) _ a t(3) hb sz t(7,8)])
qed

section \<open>The search of \<open>malloc\<close>\<close>

definition malloc_more :: "nat \<Rightarrow> nat \<Rightarrow> uheap \<Rightarrow> (uheap, nat) res" where
  "malloc_more fuel n =
     bind (morecore n) (\<lambda>p.
     if p = 0 then return 0 else bind (gets (\<lambda>s. h_ptr s p)) (\<lambda>q. malloc_loop (fuel - 1) n p q))"

lemma malloc_search:
  assumes "path (h_ptr s) p (xs @ [freep s]) e" "h_ptr s prevp = p" "freep s \<notin> set xs" "length xs < fuel"
  shows "(\<exists>prev \<in> set (prevp # xs). \<exists>b \<in> set (xs @ [freep s]).
            h_ptr s prev = b \<and> n \<le> h_size s b \<and> malloc_loop fuel n prevp p s = malloc_take n prev b s) \<or>
         (\<forall>b \<in> set (xs @ [freep s]). h_size s b < n) \<and> malloc_loop fuel n prevp p s = malloc_more (fuel - length xs) n s"
  using assms
proof (induction xs arbitrary: prevp p fuel)
  case Nil
  then have "p = freep s" "fuel \<noteq> 0" by simp_all
  then show ?case using Nil(2) by (subst (1 2) malloc_loop.simps) (simp add: malloc_more_def not_le)
next
  case (Cons a xs)
  then obtain f where f: "fuel = Suc f" by (cases fuel) auto
  have a: "p = a" "path (h_ptr s) (h_ptr s a) (xs @ [freep s]) e" "a \<noteq> freep s" "freep s \<notin> set xs" "length xs < f" using Cons.prems f by auto
  show ?case
  proof (cases "n \<le> h_size s a")
    case True
    then have "malloc_loop fuel n prevp p s = malloc_take n prevp a s" using a f by (subst malloc_loop.simps) simp
    then show ?thesis using True Cons.prems(2) a(1) by auto
  next
    case False
    then have "malloc_loop fuel n prevp p s = malloc_loop f n a (h_ptr s a) s" using a f by (subst malloc_loop.simps) simp
    then show ?thesis using Cons.IH [OF a(2) refl a(4,5)] False f by auto
  qed
qed

text \<open>The ring seen from where the search starts, which is also where it ends.\<close>

lemma ring_round:
  assumes r: "ring base s fs"
  obtains xs where "path (h_ptr s) (h_ptr s (freep s)) (xs @ [freep s]) (h_ptr s (freep s))" "freep s \<notin> set xs"
    "set (freep s # xs) = set (base # fs)" "length xs = length fs"
proof -
  have p: "path (h_ptr s) base (base # fs) base" and d: "distinct (base # fs)" and f: "freep s \<in> set (base # fs)"
    using r apart_distinct [of "h_size s" "base # fs"] unfolding ring_def by blast+
  obtain vs ws where v: "base # fs = vs @ freep s # ws" using split_list [OF f] by blast
  show thesis
  proof (rule that [of "ws @ vs"])
    have "path (h_ptr s) base vs (freep s)" "path (h_ptr s) (h_ptr s (freep s)) ws base" using p unfolding v by (auto simp: path_append)
    then show "path (h_ptr s) (h_ptr s (freep s)) ((ws @ vs) @ [freep s]) (h_ptr s (freep s))" by (auto simp: path_append)
    show "freep s \<notin> set (ws @ vs)" using d unfolding v by auto
    show "set (freep s # ws @ vs) = set (base # fs)" unfolding v by auto
    show "length (ws @ vs) = length fs" using arg_cong [OF v, of length] by simp
  qed
qed

definition taken :: "nat \<Rightarrow> uheap \<Rightarrow> nat list \<Rightarrow> nat set \<Rightarrow> nat \<Rightarrow> nat \<Rightarrow> uheap \<Rightarrow> nat list \<Rightarrow> bool" where
  "taken base s fs A n a s' fs' \<longleftrightarrow>
     hinv base s' fs' (insert a A) \<and> a \<notin> A \<and> h_size s' a = n \<and> heap_bytes s' fs' (insert a A) = heap_bytes s fs A \<and>
     (\<forall>x \<in> A. h_size s' x = h_size s x) \<and> brk s' = brk s"

lemma malloc_round:
  assumes h: "hinv base s fs A" and n: "0 < n" and fuel: "length fs < fuel"
  shows "(\<exists>a s' fs'. malloc_loop fuel n (freep s) (h_ptr s (freep s)) s = Ok (a + HDR) s' \<and> taken base s fs A n a s' fs') \<or>
         (\<forall>b \<in> set fs. h_size s b < n) \<and> malloc_loop fuel n (freep s) (h_ptr s (freep s)) s = malloc_more (fuel - length fs) n s"
proof -
  have r: "ring base s fs" using h by (simp add: hinv_def)
  obtain xs where x: "path (h_ptr s) (h_ptr s (freep s)) (xs @ [freep s]) (h_ptr s (freep s))" "freep s \<notin> set xs"
    "set (freep s # xs) = set (base # fs)" "length xs = length fs"
    by (rule ring_round [OF r]) (rule that; assumption)
  have "length xs < fuel" using fuel x(4) by simp
  from malloc_search [OF x(1) refl x(2) this, of n] show ?thesis
  proof (elim disjE bexE conjE)
    fix prev b
    assume a: "prev \<in> set (freep s # xs)" "b \<in> set (xs @ [freep s])" "h_ptr s prev = b" "n \<le> h_size s b"
      and run: "malloc_loop fuel n (freep s) (h_ptr s (freep s)) s = malloc_take n prev b s"
    have "b \<in> set (base # fs)" "prev \<in> set (base # fs)" using a(1,2) unfolding x(3) [symmetric] by auto
    from hinv_take [OF h this(1) n a(4) this(2) a(3)] show ?thesis unfolding run taken_def by metis
  next
    assume "\<forall>b \<in> set (xs @ [freep s]). h_size s b < n" "malloc_loop fuel n (freep s) (h_ptr s (freep s)) s = malloc_more (fuel - length xs) n s"
    moreover have "set fs \<subseteq> set (xs @ [freep s])" using x(3) by auto
    ultimately show ?thesis using x(4) by auto
  qed
qed

definition got :: "nat \<Rightarrow> uheap \<Rightarrow> nat list \<Rightarrow> nat set \<Rightarrow> nat \<Rightarrow> nat \<Rightarrow> uheap \<Rightarrow> nat list \<Rightarrow> bool" where
  "got base s fs A n a s' fs' \<longleftrightarrow>
     hinv base s' fs' (insert a A) \<and> a \<notin> A \<and> h_size s' a = n \<and>
     heap_bytes s' fs' (insert a A) = heap_bytes s fs A \<union> {brk s..<brk s'} \<and> (\<forall>x \<in> A. h_size s' x = h_size s x)"

lemma hinv_length:
  assumes "hinv base s fs A"
  shows "2 * length (base # fs) < ring_fuel"
proof -
  have "ring base s fs" "within base s (region s fs)" "limits base s" using assms by (auto simp: hinv_def within_def heap_bytes_def)
  then show ?thesis by (rule ring_length)
qed

lemma malloc_loop_run:
  assumes h: "hinv base s fs A" and n: "0 < n" "HDR * max 4096 n < 2 ^ 31"
  shows "(\<exists>a s' fs'. malloc_loop ring_fuel n (freep s) (h_ptr s (freep s)) s = Ok (a + HDR) s' \<and> got base s fs A n a s' fs') \<or>
         \<not> grant s (brk s) (int (HDR * max 4096 n)) \<and> malloc_loop ring_fuel n (freep s) (h_ptr s (freep s)) s = Ok 0 s"
proof -
  note len = hinv_length [OF h]
  then have "length fs < ring_fuel" by simp
  from malloc_round [OF h n(1) this] show ?thesis
  proof (elim disjE exE conjE)
    fix a s' fs' assume "malloc_loop ring_fuel n (freep s) (h_ptr s (freep s)) s = Ok (a + HDR) s'" "taken base s fs A n a s' fs'"
    then show ?thesis by (auto simp: taken_def got_def)
  next
    assume run: "malloc_loop ring_fuel n (freep s) (h_ptr s (freep s)) s = malloc_more (ring_fuel - length fs) n s"
    show ?thesis
    proof (cases "grant s (brk s) (int (HDR * max 4096 n))")
      case False
      then show ?thesis using run by (simp add: malloc_more_def morecore_refused [OF False n(2)])
    next
      case True
      obtain t gs where t: "morecore n s = Ok (freep t) t" "hinv base t gs A" "brk t = brk s + HDR * max 4096 n"
        "region t gs = region s fs \<union> {brk s..<brk t}" "grant t = grant s" "\<forall>a \<in> A. h_size t a = h_size s a" "\<exists>a \<in> set gs. n \<le> h_size t a"
        by (rule morecore_granted [OF h True n(2)]) (rule that; assumption)
      have hb: "heap_bytes t gs A = heap_bytes s fs A \<union> {brk s..<brk t}" using t(4,6) by (auto simp: heap_bytes_def ext_def)
      have "length gs < ring_fuel - length fs - 1" using hinv_length [OF t(2)] len by simp
      moreover have "malloc_more (ring_fuel - length fs) n s = malloc_loop (ring_fuel - length fs - 1) n (freep t) (h_ptr t (freep t)) t"
        using hinv_freep [OF t(2)] by (simp add: malloc_more_def t(1))
      ultimately obtain a s' fs' where "malloc_more (ring_fuel - length fs) n s = Ok (a + HDR) s'" "taken base t gs A n a s' fs'"
        using malloc_round [OF t(2) n(1)] t(7) by (metis not_le)
      moreover have "got base s fs A n a s' fs'" using calculation(2) t(6) hb by (auto simp: taken_def got_def)
      ultimately show ?thesis using run by auto
    qed
  qed
qed

lemma nunits_enough: "nbytes \<le> HDR * (nunits_of nbytes - 1)" "0 < nunits_of nbytes" "nbytes + 32 \<le> 2 ^ 31 \<Longrightarrow> HDR * max 4096 (nunits_of nbytes) < 2 ^ 31"
  by (auto simp: nunits_of_def HDR_def)

text \<open>The first call makes the ring of the static header.\<close>

lemma hinv_start:
  assumes "limits base s"
  shows "hinv base (s\<lparr>h_ptr := (h_ptr s)(base := base), freep := base, h_size := (h_size s)(base := 0)\<rparr>) [] {}"
  using assms by (simp add: hinv_def limits_def ring_def within_def heap_bytes_def)

lemma malloc_started: "freep s \<noteq> 0 \<Longrightarrow> malloc base nbytes s = malloc_loop ring_fuel (nunits_of nbytes) (freep s) (h_ptr s (freep s)) s"
  by (simp add: malloc_def whenever_def)

lemma malloc_first:
  assumes "freep s = 0" "base \<noteq> 0"
  shows "malloc base nbytes s = malloc base nbytes (s\<lparr>h_ptr := (h_ptr s)(base := base), freep := base, h_size := (h_size s)(base := 0)\<rparr>)"
  using assms by (simp add: malloc_def whenever_def set_ptr_def set_freep_def set_size_def)

lemma malloc_run:
  assumes "heap_ok base s fs A" "nbytes + 32 \<le> 2 ^ 31"
  shows "(\<exists>a s' fs'. malloc base nbytes s = Ok (a + HDR) s' \<and> got base s fs A (nunits_of nbytes) a s' fs') \<or>
         \<not> grant s (brk s) (int (HDR * max 4096 (nunits_of nbytes))) \<and>
         (\<exists>s'. malloc base nbytes s = Ok 0 s' \<and> hinv base s' fs A \<and> heap_bytes s' fs A = heap_bytes s fs A \<and> brk s' = brk s \<and>
               (\<forall>x \<in> A. h_size s' x = h_size s x))"
proof (cases "freep s = 0")
  case False
  then have h: "hinv base s fs A" using assms(1) by (simp add: heap_ok_def)
  from malloc_loop_run [OF h nunits_enough(2,3) [of nbytes]] show ?thesis
    using assms(2) h by (auto simp: malloc_started [OF False])
next
  case True
  let ?s = "s\<lparr>h_ptr := (h_ptr s)(base := base), freep := base, h_size := (h_size s)(base := 0)\<rparr>"
  have l: "limits base s" and e: "fs = []" "A = {}" using assms(1) True by (simp_all add: heap_ok_def)
  have h: "hinv base ?s fs A" and b: "base \<noteq> 0" using hinv_start [OF l] l by (simp_all add: e limits_def)
  have "malloc base nbytes s = malloc_loop ring_fuel (nunits_of nbytes) (freep ?s) (h_ptr ?s (freep ?s)) ?s"
    unfolding malloc_first [OF True b] using b by (intro malloc_started) simp
  moreover have "got base ?s fs A n a s' fs' = got base s fs A n a s' fs'" for n a s' fs' by (simp add: got_def e heap_bytes_def)
  moreover have "heap_bytes ?s fs A = heap_bytes s fs A" by (simp add: e heap_bytes_def)
  ultimately show ?thesis using malloc_loop_run [OF h nunits_enough(2,3) [of nbytes]] assms(2) h e by auto
qed

section \<open>The allocator's contract\<close>

text \<open>
  What a client relies on: every call returns, a new block is big enough and apart from the blocks
  in use, and no call moves or shrinks another block. The steps are the calls that a client
  may make; the set holds the blocks that it has.
\<close>

inductive client_step :: "(nat \<Rightarrow> 's \<Rightarrow> ('s, nat) res) \<Rightarrow> (nat \<Rightarrow> 's \<Rightarrow> ('s, unit) res) \<Rightarrow> (nat \<Rightarrow> bool) \<Rightarrow> 's \<times> nat set \<Rightarrow> 's \<times> nat set \<Rightarrow> bool"
  for alloc dealloc fits where
  allocates: "fits n \<Longrightarrow> alloc n s = Ok r t \<Longrightarrow> client_step alloc dealloc fits (s, A) (t, if r = 0 then A else insert r A)"
| deallocates: "a \<in> A \<Longrightarrow> dealloc a s = Ok () t \<Longrightarrow> client_step alloc dealloc fits (s, A) (t, A - {a})"

inductive_cases client_stepE: "client_step alloc dealloc fits x y"

locale heap_allocator =
  fixes alloc :: "nat \<Rightarrow> 's \<Rightarrow> ('s, nat) res"
    and dealloc :: "nat \<Rightarrow> 's \<Rightarrow> ('s, unit) res"
    and fits :: "nat \<Rightarrow> bool"
    and owns :: "'s \<Rightarrow> nat set \<Rightarrow> bool"
    and bytes :: "'s \<Rightarrow> nat \<Rightarrow> nat set"
  assumes bytes_apart: "owns s A \<Longrightarrow> a \<in> A \<Longrightarrow> b \<in> A \<Longrightarrow> a \<noteq> b \<Longrightarrow> bytes s a \<inter> bytes s b = {}"
    and alloc_returns: "owns s A \<Longrightarrow> fits n \<Longrightarrow> \<exists>r t. alloc n s = Ok r t \<and>
      (if r = 0 then owns t A else r \<notin> A \<and> owns t (insert r A) \<and> {r..<r + n} \<subseteq> bytes t r) \<and> (\<forall>a \<in> A. bytes t a = bytes s a)"
    and dealloc_returns: "owns s A \<Longrightarrow> a \<in> A \<Longrightarrow> \<exists>t. dealloc a s = Ok () t \<and> owns t (A - {a}) \<and> (\<forall>b \<in> A - {a}. bytes t b = bytes s b)"
begin

lemma step_keeps:
  assumes "client_step alloc dealloc fits (s, A) (t, B)" "owns s A"
  shows "owns t B \<and> (\<forall>a \<in> A \<inter> B. bytes t a = bytes s a)"
  using assms(1)
proof (rule client_stepE)
  fix n s' r t' A'
  assume h: "(s, A) = (s', A')" "(t, B) = (t', if r = 0 then A' else insert r A')" "fits n" "alloc n s' = Ok r t'"
  then show ?thesis using alloc_returns [of s A n] assms(2) by (auto split: if_splits)
next
  fix a A' s' t'
  assume "(s, A) = (s', A')" "(t, B) = (t', A' - {a})" "a \<in> A'" "dealloc a s' = Ok () t'"
  then show ?thesis using dealloc_returns [of s A a] assms(2) by auto
qed

text \<open>Along any sequence of calls the client's blocks are apart.\<close>

lemma steps_keep:
  assumes "(client_step alloc dealloc fits)\<^sup>*\<^sup>* (s, A) (t, B)" "owns s A"
  shows "owns t B"
  using assms
proof (induction "(t, B)" arbitrary: t B rule: rtranclp_induct)
  case (step y)
  obtain u C where y: "y = (u, C)" by (cases y)
  then show ?case using step step_keeps [of u C t B] by blast
qed simp

lemma steps_apart:
  "(client_step alloc dealloc fits)\<^sup>*\<^sup>* (s, A) (t, B) \<Longrightarrow> owns s A \<Longrightarrow> a \<in> B \<Longrightarrow> b \<in> B \<Longrightarrow> a \<noteq> b \<Longrightarrow> bytes t a \<inter> bytes t b = {}"
  using steps_keep bytes_apart by blast

end

text \<open>A block as its client sees it: the address after the header, and the bytes there.\<close>

definition heap_owns :: "nat \<Rightarrow> uheap \<Rightarrow> nat set \<Rightarrow> bool" where
  "heap_owns base s U \<longleftrightarrow> (\<exists>fs A. heap_ok base s fs A \<and> U = (\<lambda>a. a + HDR) ` A)"

definition payload :: "uheap \<Rightarrow> nat \<Rightarrow> nat set" where
  "payload s r = {r..<r + HDR * (h_size s (r - HDR) - 1)}"

lemma payload_ext: "payload s (a + HDR) \<subseteq> ext s a"
  by (auto simp: payload_def ext_def HDR_def)

lemma payload_apart:
  assumes "heap_owns base s U" "p \<in> U" "q \<in> U" "p \<noteq> q"
  shows "payload s p \<inter> payload s q = {}"
proof -
  obtain fs A a b where h: "heap_ok base s fs A" "p = a + HDR" "q = b + HDR" "a \<in> A" "b \<in> A" "a \<noteq> b"
    using assms by (auto simp: heap_owns_def)
  then have "ext s a \<inter> ext s b = {}" by (auto simp: heap_ok_def hinv_def split: if_splits)
  then show ?thesis using payload_ext [of s a] payload_ext [of s b] h(2,3) by blast
qed

lemma hinv_owns: "hinv base s fs A \<Longrightarrow> heap_owns base s ((\<lambda>a. a + HDR) ` A)"
  using hinv_freep [of base s fs A] by (auto simp: heap_owns_def heap_ok_def)

interpretation user_heap: heap_allocator "malloc base" free "\<lambda>n. n + 32 \<le> 2 ^ 31" "heap_owns base" payload
  for base :: nat
proof unfold_locales
  fix s U n
  assume o: "heap_owns base s U" and n: "n + 32 \<le> (2 :: nat) ^ 31"
  obtain fs A where h: "heap_ok base s fs A" and U: "U = (\<lambda>a. a + HDR) ` A" using o by (auto simp: heap_owns_def)
  from malloc_run [OF h n]
  show "\<exists>r t. malloc base n s = Ok r t \<and> (if r = 0 then heap_owns base t U else r \<notin> U \<and> heap_owns base t (insert r U) \<and> {r..<r + n} \<subseteq> payload t r) \<and>
      (\<forall>a \<in> U. payload t a = payload s a)"
  proof (elim disjE exE conjE)
    fix a t gs
    assume m: "malloc base n s = Ok (a + HDR) t" and g: "got base s fs A (nunits_of n) a t gs"
    have "a + HDR \<notin> U" "heap_owns base t (insert (a + HDR) U)" "\<forall>a \<in> U. payload t a = payload s a"
      using g hinv_owns [of base t gs "insert a A"] by (auto simp: got_def U payload_def)
    moreover have "{a + HDR..<a + HDR + n} \<subseteq> payload t (a + HDR)" using g nunits_enough(1) [of n] by (auto simp: got_def payload_def)
    moreover have "a + HDR \<noteq> 0" by (simp add: HDR_def)
    ultimately show ?thesis using m by auto
  next
    fix t
    assume "malloc base n s = Ok 0 t" "hinv base t fs A" "\<forall>x \<in> A. h_size t x = h_size s x"
    then show ?thesis using hinv_owns [of base t fs A] by (auto simp: U payload_def)
  qed
next
  fix s U p
  assume o: "heap_owns base s U" and p: "p \<in> U"
  obtain fs A a where h: "heap_ok base s fs A" and U: "U = (\<lambda>a. a + HDR) ` A" "p = a + HDR" "a \<in> A" using o p by (auto simp: heap_owns_def)
  have h': "hinv base s fs A" using h U(3) by (auto simp: heap_ok_def split: if_splits)
  obtain t gs where t: "free (a + HDR) s = Ok () t" "hinv base t gs (A - {a})" "\<forall>x \<in> A - {a}. h_size t x = h_size s x"
    by (rule hinv_free [OF h' U(3)]) (rule that; assumption)
  moreover have "U - {p} = (\<lambda>a. a + HDR) ` (A - {a})" using U by auto
  ultimately show "\<exists>t. free p s = Ok () t \<and> heap_owns base t (U - {p}) \<and> (\<forall>b \<in> U - {p}. payload t b = payload s b)"
    using hinv_owns [OF t(2)] U(2) by (auto simp: payload_def)
qed (rule payload_apart)

section \<open>What the allocator promises\<close>

text \<open>C22: \<open>malloc\<close> always returns. It returns 0 only when the kernel refuses the memory, and then the heap is
  as it was. Otherwise it returns a block of at least \<open>nbytes\<close> bytes after its header that overlaps neither a
  block in use nor a free one. No block in use changes, and no byte is lost: the free and used blocks make up the
  heap of before and what the kernel added.\<close>

theorem malloc_fresh:
  assumes "heap_ok base s fs A" "nbytes + 32 \<le> 2 ^ 31"
  shows "\<exists>r s' fs'. malloc base nbytes s = Ok r s' \<and>
           (let A' = (if r = 0 then A else insert (r - HDR) A) in
            heap_ok base s' fs' A' \<and> heap_bytes s' fs' A' = heap_bytes s fs A \<union> {brk s..<brk s'} \<and> (\<forall>a \<in> A. h_size s' a = h_size s a) \<and>
            (if r = 0 then brk s' = brk s \<and> \<not> grant s (brk s) (int (HDR * max 4096 (nunits_of nbytes)))
             else HDR \<le> r \<and> r - HDR \<notin> A \<and> nbytes \<le> HDR * (h_size s' (r - HDR) - 1)))"
  using malloc_run [OF assms]
proof (elim disjE exE conjE)
  fix a s' fs' assume m: "malloc base nbytes s = Ok (a + HDR) s'" "got base s fs A (nunits_of nbytes) a s' fs'"
  then show ?thesis using nunits_enough(1) [of nbytes] hinv_freep [of base s' fs' "insert a A"]
    by (intro exI [of _ "a + HDR"] exI [of _ s'] exI [of _ fs']) (simp add: got_def heap_ok_def Let_def HDR_def)
next
  fix s' assume m: "malloc base nbytes s = Ok 0 s'" "hinv base s' fs A"
  assume "\<not> grant s (brk s) (int (HDR * max 4096 (nunits_of nbytes)))" "heap_bytes s' fs A = heap_bytes s fs A" "brk s' = brk s" "\<forall>x \<in> A. h_size s' x = h_size s x"
  then show ?thesis using m hinv_freep [OF m(2)]
    by (intro exI [of _ 0] exI [of _ s'] exI [of _ fs]) (simp add: heap_ok_def)
qed

definition heap0 :: uheap where
  "heap0 = \<lparr>h_ptr = (\<lambda>_. 0), h_size = (\<lambda>_. 0), freep = 0, brk = 8192, grant = (\<lambda>b n. 0 \<le> int b + n \<and> int b + n < 2 ^ 32)\<rparr>"

lemma heap0_ok: "heap_ok 4096 heap0 [] {}"
  by (simp add: heap_ok_def heap0_def limits_def HDR_def)

theorem malloc_fresh_witness:
  "heap_ok 4096 heap0 [] {} \<and>
   (\<exists>r s' fs'. malloc 4096 100 heap0 = Ok r s' \<and> r \<noteq> 0 \<and> heap_ok 4096 s' fs' {r - HDR} \<and> heap_bytes s' fs' {r - HDR} = {8192..<brk s'})"
proof -
  have "max 4096 (nunits_of 100) = 4096" by (simp add: nunits_of_def HDR_def)
  then have g: "grant heap0 (brk heap0) (int (HDR * max 4096 (nunits_of 100)))" by (simp only:) (simp add: heap0_def HDR_def)
  have b: "heap_bytes heap0 [] {} = {}" "brk heap0 = 8192" by (simp_all add: heap_bytes_def heap0_def)
  have "(100::nat) + 32 \<le> 2 ^ 31" by simp
  from malloc_fresh [OF heap0_ok this] show ?thesis
    unfolding Let_def b Un_empty_left using g [unfolded b] heap0_ok by (elim exE) (auto split: if_splits)
qed

text \<open>C23: whatever calls a program makes, of \<open>malloc\<close> for less than two gigabytes and of \<open>free\<close> for blocks that it
  has, the blocks that it has never overlap, and the next such call returns.\<close>

theorem malloc_history:
  assumes s: "limits base s" "freep s = 0" and run: "(client_step (malloc base) free (\<lambda>n. n + 32 \<le> 2 ^ 31))\<^sup>*\<^sup>* (s, {}) (t, U)"
  shows "(\<forall>p \<in> U. \<forall>q \<in> U. p \<noteq> q \<longrightarrow> payload t p \<inter> payload t q = {}) \<and>
    (\<forall>n. n + 32 \<le> 2 ^ 31 \<longrightarrow> (\<exists>r u. malloc base n t = Ok r u \<and> (r \<noteq> 0 \<longrightarrow> r \<notin> U \<and> {r..<r + n} \<subseteq> payload u r))) \<and>
    (\<forall>p \<in> U. \<exists>u. free p t = Ok () u)"
proof -
  have "heap_owns base s {}" using s by (auto simp: heap_owns_def heap_ok_def)
  note own = user_heap.steps_keep [OF run this]
  show ?thesis using user_heap.bytes_apart [OF own] user_heap.alloc_returns [OF own] user_heap.dealloc_returns [OF own] by (metis (full_types))
qed

theorem malloc_history_witness:
  "\<exists>t p. (client_step (malloc 4096) free (\<lambda>n. n + 32 \<le> 2 ^ 31))\<^sup>*\<^sup>* (heap0, {}) (t, {p}) \<and> (\<exists>u. free p t = Ok () u)"
proof -
  have "max 4096 (nunits_of 100) = 4096" by (simp add: nunits_of_def HDR_def)
  then have "grant heap0 (brk heap0) (int (HDR * max 4096 (nunits_of 100)))" by (simp only:) (simp add: heap0_def HDR_def)
  then obtain a t where m: "malloc 4096 100 heap0 = Ok (a + HDR) t" using malloc_run [OF heap0_ok, of 100] by auto
  then have "client_step (malloc 4096) free (\<lambda>n. n + 32 \<le> 2 ^ 31) (heap0, {}) (t, {a + HDR})"
    using client_step.allocates [of "\<lambda>n. n + 32 \<le> 2 ^ 31" 100 "malloc 4096" heap0 "a + HDR" t free "{}"] by (simp add: HDR_def)
  then have r: "(client_step (malloc 4096) free (\<lambda>n. n + 32 \<le> 2 ^ 31))\<^sup>*\<^sup>* (heap0, {}) (t, {a + HDR})" by (rule r_into_rtranclp)
  moreover have "limits 4096 heap0" "freep heap0 = 0" by (simp_all add: heap0_def limits_def HDR_def)
  ultimately show ?thesis using malloc_history [of 4096 heap0 t "{a + HDR}"] by blast
qed

text \<open>C24: \<open>free\<close> of a block in use returns, and puts exactly its bytes into the free blocks. The ring stays sorted
  with a gap between any two neighbours, that is, the block has been merged with every free block it touches.
  No other block in use changes.\<close>

theorem free_coalesces:
  assumes "heap_ok base s fs A" "bp \<in> A"
  shows "\<exists>s' fs'. free (bp + HDR) s = Ok () s' \<and> heap_ok base s' fs' (A - {bp}) \<and> region s' fs' = region s fs \<union> ext s bp \<and>
           apart (h_size s') (base # fs') \<and> (\<forall>a \<in> A - {bp}. h_size s' a = h_size s a) \<and> brk s' = brk s"
proof -
  have h: "hinv base s fs A" using assms by (auto simp: heap_ok_def split: if_splits)
  obtain s' fs' where f: "free (bp + HDR) s = Ok () s'" "hinv base s' fs' (A - {bp})" "region s' fs' = region s fs \<union> ext s bp"
    "brk s' = brk s" "grant s' = grant s" "\<forall>a \<in> A - {bp}. h_size s' a = h_size s a" "\<exists>a \<in> set fs'. h_size s bp \<le> h_size s' a"
    by (rule hinv_free [OF h assms(2)]) (rule that; assumption)
  have "heap_ok base s' fs' (A - {bp})" using hinv_freep [OF f(2)] f(2) by (simp add: heap_ok_def)
  moreover have "apart (h_size s') (base # fs')" using f(2) unfolding hinv_def ring_def by blast
  ultimately show ?thesis using f(1,3,4,6) by blast
qed

definition heap1 :: uheap where
  "heap1 = heap0\<lparr>h_ptr := (\<lambda>a. if a = 4096 then 8192 else 4096), h_size := (\<lambda>a. if a = 4096 then 0 else 8), freep := 4096, brk := 8448\<rparr>"

lemma heap1_ok: "heap_ok 4096 heap1 [8192] {8320}"
  by (simp add: heap_ok_def hinv_def heap1_def heap0_def limits_def HDR_def ring_def within_def heap_bytes_def ext_def)

theorem free_coalesces_witness:
  "heap_ok 4096 heap1 [8192] {8320} \<and>
   (\<exists>s' fs'. free (8320 + HDR) heap1 = Ok () s' \<and> heap_ok 4096 s' fs' {} \<and> region s' fs' = {8192..<8448})"
proof -
  have "region heap1 [8192] \<union> ext heap1 8320 = {8192..<8448}" by (auto simp: ext_def heap1_def HDR_def)
  then show ?thesis using free_coalesces [OF heap1_ok, of 8320] heap1_ok by auto
qed

text \<open>\<open>malloc\<close> of \<open>2 ^ 32 - 1\<close> bytes does not fail. The size in bytes is cut to 32 bits on its way to \<open>sbrk\<close>: the
  kernel adds 16 bytes, enough for the header alone, and the block returned starts where the memory of the process ends.\<close>

theorem malloc_wraps:
  assumes "limits base s" "freep s = 0" "grant s (brk s) 16"
  shows "\<exists>s'. malloc base (2 ^ 32 - 1) s = Ok (brk s + HDR) s' \<and> brk s' = brk s + HDR \<and> h_size s' (brk s) = 2 ^ 28 + 1"
proof -
  have b: "base \<noteq> 0" "base < brk s" using assms(1) by (auto simp: limits_def HDR_def)
  have n: "nunits_of (2 ^ 32 - 1) = 2 ^ 28 + 1" by (simp add: nunits_of_def HDR_def)
  let ?s = "s\<lparr>h_ptr := (h_ptr s)(base := base), freep := base, h_size := (h_size s)(base := 0)\<rparr>"
  let ?t = "?s\<lparr>brk := brk s + 16, h_size := (h_size ?s)(brk s := 2 ^ 28 + 1)\<rparr>"
  let ?u = "?t\<lparr>h_ptr := (h_ptr ?t)(brk s := base, base := brk s)\<rparr>"
  have "free_find ring_fuel (brk s) base ?t = Ok base ?t" using b by (subst free_find.simps) (simp add: ring_fuel_def)
  then have "free (brk s + HDR) ?t = Ok () ?u" using b
    by (simp add: free_def free_join_run join_right_def join_left_def HDR_def)
  moreover have "sint (of_nat ((2 ^ 28 + 1) * HDR) :: u32) = 16" by (simp add: HDR_def)
  moreover have "nat (int (brk s) + 16) = brk s + 16" by simp
  ultimately have m: "morecore (2 ^ 28 + 1) ?s = Ok base ?u" using assms(3)
    by (simp add: morecore_def sbrk_def set_size_def)
  have run: "malloc_loop (ring_fuel - 1) (2 ^ 28 + 1) base (brk s) ?u = Ok (brk s + HDR) (?u\<lparr>h_ptr := (h_ptr ?u)(base := base)\<rparr>)"
    using b by (subst malloc_loop.simps) (simp add: ring_fuel_def malloc_take_def set_ptr_def set_freep_def)
  have "malloc_loop ring_fuel (2 ^ 28 + 1) base base ?s = malloc_loop (ring_fuel - 1) (2 ^ 28 + 1) base (brk s) ?u"
    using b m by (subst malloc_loop.simps) (simp add: ring_fuel_def)
  moreover have "malloc base (2 ^ 32 - 1) s = malloc_loop ring_fuel (2 ^ 28 + 1) base base ?s"
    unfolding malloc_first [OF assms(2) b(1)] n [symmetric] by (subst malloc_started) (use b in simp_all)
  ultimately show ?thesis unfolding run using b by (simp add: HDR_def)
qed

theorem malloc_wraps_witness:
  "limits 4096 heap0 \<and> (\<exists>s'. malloc 4096 (2 ^ 32 - 1) heap0 = Ok (8192 + HDR) s' \<and> brk s' = 8192 + HDR)"
proof -
  have "limits 4096 heap0" "freep heap0 = 0" "grant heap0 (brk heap0) 16" "brk heap0 = 8192" by (simp_all add: heap0_def limits_def HDR_def)
  then show ?thesis using malloc_wraps [of 4096 heap0] by auto
qed

end
