(* ===== verification/UserMem.thy ===== *)
theory UserMem
  imports Vm
begin

text \<open>
  What the routines of \<open>src/kernel/vm.c\<close> that copy between kernel and user do to user memory: the
  mapped pages of an address space, read as one array of bytes. \<open>copyout\<close> is an update of that
  array, \<open>copyin\<close> reads it, and \<open>copyinstr\<close> takes a NUL-terminated string out of it.
\<close>

section \<open>User memory as an array of bytes\<close>

text \<open>
  The page tables ignore the address bits above 31, so user memory is what is mapped below
  \<open>2 ^ 32\<close>. In a well-formed address space different pages are mapped to different frames and no
  frame is a page table.
\<close>

definition uframe :: "u64 \<Rightarrow> u64" where
  "uframe e = P2V (e AND PG_ADDR_MASK)"

definition user_byte :: "memory \<Rightarrow> u64 \<Rightarrow> u64 \<Rightarrow> byte option" where
  "user_byte m pt va =
     (case pt_map m pt va of None \<Rightarrow> None | Some e \<Rightarrow> Some (m (uframe e + va mod PGSIZE)))"

definition uspace :: "memory \<Rightarrow> u64 \<Rightarrow> u64 set \<Rightarrow> bool" where
  "uspace m pt F \<longleftrightarrow>
     pt_inv m pt F \<and>
     (\<forall>va e. pt_map m pt va = Some e \<longrightarrow> e AND PG_ADDR_MASK \<noteq> 0 \<and> uframe e \<notin> F \<and>
        (\<forall>q. pt_path q \<longrightarrow> pt_node m pt q \<noteq> Some (uframe e))) \<and>
     (\<forall>a b e f. pt_map m pt a = Some e \<longrightarrow> pt_map m pt b = Some f \<longrightarrow> uframe e = uframe f \<longrightarrow> same_vpn a b)"

lemma P2V_aligned: "page_aligned pa \<Longrightarrow> page_aligned (P2V pa)"
proof -
  assume "page_aligned pa"
  then have "(unat pa + unat KERNBASE) mod 2 ^ 64 mod pg = 0"
    by (auto simp: page_aligned_unat KERNBASE_def mod_mod_cancel)
  then show ?thesis by (simp add: page_aligned_unat P2V_def unat_word_ariths)
qed

lemma frame_aligned [simp]: "page_aligned (uframe e)"
proof -
  have "take_bit 12 (e AND PG_ADDR_MASK) = 0"
    by (rule bit_word_eqI) (simp add: bit_take_bit_iff bit_and_iff addr_mask_bits)
  then have "page_aligned (e AND PG_ADDR_MASK)"
    by (simp add: page_aligned_def take_bit_eq_mod PGSIZE_def)
  then show ?thesis unfolding uframe_def by (rule P2V_aligned)
qed

lemma page_split: "va - PGROUNDDOWN va = va mod PGSIZE"
  by (simp add: PGROUNDDOWN_diff)

lemma idx_bits:
  "PGD_IDX va = take_bit 2 (drop_bit 30 va)" "PMD_IDX va = take_bit 9 (drop_bit 21 va)"
  "PTE_IDX va = take_bit 9 (drop_bit 12 va)"
  by (simp_all add: PGD_IDX_def PMD_IDX_def PTE_IDX_def take_bit_eq_mask mask_eq_exp_minus_1)

lemma take_drop_eq_iff:
  "take_bit n (drop_bit k a) = take_bit n (drop_bit k b) \<longleftrightarrow>
     (\<forall>i. k \<le> i \<longrightarrow> i < k + n \<longrightarrow> bit a i = bit b i)"
  for a b :: u64
proof
  assume eq: "take_bit n (drop_bit k a) = take_bit n (drop_bit k b)"
  show "\<forall>i. k \<le> i \<longrightarrow> i < k + n \<longrightarrow> bit a i = bit b i"
  proof (intro allI impI)
    fix i
    assume i: "k \<le> i" "i < k + n"
    have "bit (take_bit n (drop_bit k a)) (i - k) = bit (take_bit n (drop_bit k b)) (i - k)"
      by (simp only: eq)
    moreover have "i - k < n" using i by simp
    ultimately show "bit a i = bit b i" using i by (simp add: bit_take_bit_iff bit_drop_bit_eq)
  qed
next
  assume "\<forall>i. k \<le> i \<longrightarrow> i < k + n \<longrightarrow> bit a i = bit b i"
  then show "take_bit n (drop_bit k a) = take_bit n (drop_bit k b)"
    by (intro bit_word_eqI) (auto simp: bit_take_bit_iff bit_drop_bit_eq)
qed

lemma same_vpn_bits: "same_vpn a b \<longleftrightarrow> (\<forall>i. 12 \<le> i \<longrightarrow> i < 32 \<longrightarrow> bit a i = bit b i)"
proof -
  have "(12 \<le> i \<and> i < 21) \<or> (21 \<le> i \<and> i < 30) \<or> (30 \<le> i \<and> i < 32) \<longleftrightarrow> 12 \<le> i \<and> i < 32" for i :: nat
    by auto
  then show ?thesis
    unfolding same_vpn_def idx_bits take_drop_eq_iff by (simp del: bit_numeral_iff) blast
qed

lemma PGROUNDDOWN_bit: "bit (PGROUNDDOWN a) i \<longleftrightarrow> bit a i \<and> 12 \<le> i"
  using bit_imp_le_length [of a i]
  by (auto simp: PGROUNDDOWN_def PGSIZE_mask bit_and_iff bit_not_iff bit_mask_iff not_less)

lemma same_vpn_PGROUNDDOWN: "same_vpn (PGROUNDDOWN a) b \<longleftrightarrow> same_vpn a b"
  by (auto simp: same_vpn_bits PGROUNDDOWN_bit)

lemma same_vpn_iff:
  assumes "a < 2 ^ 32" "b < 2 ^ 32"
  shows "same_vpn a b \<longleftrightarrow> PGROUNDDOWN a = PGROUNDDOWN b"
proof -
  have high: "\<not> bit x i" if "x < 2 ^ 32" "32 \<le> i" for x :: u64 and i
  proof -
    have "take_bit 32 x = x"
      using that(1) by (intro unsigned_word_eqI [where 'a = nat])
        (simp add: take_bit_eq_mod unat_mod_distrib word_less_nat_alt)
    then show ?thesis using that(2) by (metis bit_take_bit_iff not_le)
  qed
  show ?thesis
  proof
    assume "same_vpn a b"
    then show "PGROUNDDOWN a = PGROUNDDOWN b"
      using high [OF assms(1)] high [OF assms(2)]
      by (intro bit_word_eqI) (auto simp: PGROUNDDOWN_bit same_vpn_bits not_le [symmetric])
  next
    assume eq: "PGROUNDDOWN a = PGROUNDDOWN b"
    have "bit (PGROUNDDOWN a) i = bit (PGROUNDDOWN b) i" for i by (simp only: eq)
    then show "same_vpn a b" by (auto simp: same_vpn_bits PGROUNDDOWN_bit)
  qed
qed

lemma pt_map_vpn: "same_vpn a b \<Longrightarrow> pt_map m pt a = pt_map m pt b"
  unfolding same_vpn_def pt_map_def by (elim conjE) (simp only:)


text \<open>Writing inside a frame leaves the tables alone.\<close>

lemma frame_write_entry:
  assumes u: "uspace m pt F" "pt_map m pt va = Some e" and "pt_path q" "pt_node m pt q = Some t" "j < 512"
    and other: "\<forall>x. PGROUNDDOWN x \<noteq> uframe e \<longrightarrow> m' x = m x"
  shows "read64 m' (pte_at t j) = read64 m (pte_at t j)"
proof -
  have "t \<noteq> uframe e" using assms unfolding uspace_def by metis
  moreover have "page_aligned t"
    using u(1) assms(3,4) by (auto simp: uspace_def dest: pt_inv_kpage)
  ultimately show ?thesis using other \<open>j < 512\<close> by (intro read_entry_other) auto
qed

lemma frame_write_node:
  assumes u: "uspace m pt F" "pt_map m pt va = Some e"
    and other: "\<forall>x. PGROUNDDOWN x \<noteq> uframe e \<longrightarrow> m' x = m x" and "pt_path q"
  shows "pt_node m' pt q = pt_node m pt q"
  using assms(4)
proof (induction q rule: rev_induct)
  case Nil
  then show ?case by simp
next
  case (snoc j q)
  have j: "pt_path q" "j < 512" using snoc.prems path_prefix by auto
  show ?case
  proof (cases "pt_node m pt q")
    case None
    then show ?thesis using snoc.IH [OF j(1)] by (simp add: node_snoc)
  next
    case (Some t)
    with frame_write_entry [OF u j(1) Some j(2) other] snoc.IH [OF j(1)]
    show ?thesis by (simp add: node_snoc)
  qed
qed

lemma frame_write_map:
  assumes u: "uspace m pt F" "pt_map m pt va = Some e"
    and other: "\<forall>x. PGROUNDDOWN x \<noteq> uframe e \<longrightarrow> m' x = m x"
  shows "pt_map m' pt = pt_map m pt"
proof
  fix a
  have n: "pt_node m' pt [PGD_IDX a, PMD_IDX a] = pt_node m pt [PGD_IDX a, PMD_IDX a]"
    by (rule frame_write_node [OF u other path_idx(2)])
  show "pt_map m' pt a = pt_map m pt a"
  proof (cases "pt_node m pt [PGD_IDX a, PMD_IDX a]")
    case None
    with n show ?thesis unfolding pt_map_def by (simp del: pt_node.simps)
  next
    case (Some t)
    have "read64 m' (pte_at t (PTE_IDX a)) = read64 m (pte_at t (PTE_IDX a))"
      by (rule frame_write_entry [OF u path_idx(2) Some idx_less(2) other])
    with n Some show ?thesis unfolding pt_map_def by (simp del: pt_node.simps)
  qed
qed

lemma frame_write_uspace:
  assumes u: "uspace m pt F" "pt_map m pt va = Some e"
    and other: "\<forall>x. PGROUNDDOWN x \<noteq> uframe e \<longrightarrow> m' x = m x"
  shows "uspace m' pt F"
proof -
  have inv: "pt_inv m pt F" using u by (simp add: uspace_def)
  note node' = frame_write_node [OF u other]
  have "pt_inv m' pt F"
    unfolding pt_inv_def
  proof (intro conjI allI impI ballI)
    show "kpage x" if "x \<in> F" for x using that inv by (auto simp: pt_inv_def)
    show "kpage x" "x \<notin> F" if "pt_path q" "pt_node m' pt q = Some x" for q x
      using that node' [OF that(1)] pt_inv_kpage [OF inv that(1)] pt_inv_not_free [OF inv that(1)]
      by auto
    show "q1 = q2" if "pt_path q1" "pt_path q2" "pt_node m' pt q1 = Some x" "pt_node m' pt q2 = Some x" for q1 q2 x
      using that node' [OF that(1)] node' [OF that(2)] pt_inv_inj [OF inv that(1,2)] by auto
  qed
  moreover have "pt_map m' pt = pt_map m pt" by (rule frame_write_map [OF u other])
  ultimately show ?thesis using u(1) node' unfolding uspace_def by (metis (no_types, lifting))
qed

text \<open>Storing bytes at a user address, within one page.\<close>

definition user_write :: "(u64 \<Rightarrow> byte option) \<Rightarrow> u64 \<Rightarrow> byte list \<Rightarrow> u64 \<Rightarrow> byte option" where
  "user_write f va bs a = (if unat (a - va) < length bs then Some (bs ! unat (a - va)) else f a)"


lemma in_frame:
  "PGROUNDDOWN (uframe e + a mod PGSIZE) = uframe e"
proof -
  have "unat (a mod PGSIZE) < pg" by (simp add: unat_mod_PGSIZE)
  then show ?thesis using page_offset [of "uframe e" "unat (a mod PGSIZE)"] by simp
qed

lemma same_page_offset:
  assumes "unat (va mod PGSIZE) + k < pg"
  shows "PGROUNDDOWN (va + of_nat k) = PGROUNDDOWN va"
proof -
  have "va + of_nat k = PGROUNDDOWN va + of_nat (unat (va mod PGSIZE) + k)"
    by (simp add: PGROUNDDOWN_diff)
  moreover have "PGROUNDDOWN (PGROUNDDOWN va + of_nat (unat (va mod PGSIZE) + k)) = PGROUNDDOWN va"
    using assms by (intro page_offset) simp_all
  ultimately show ?thesis by (simp only:)
qed

lemma write_in_page:
  assumes "page_aligned p" "unat off + length bs \<le> pg" "PGROUNDDOWN x \<noteq> p"
  shows "write_mem m (p + off) bs x = m x"
proof -
  have "\<not> unat (x - (p + off)) < length bs"
  proof
    assume l: "unat (x - (p + off)) < length bs"
    define k where "k = unat (x - (p + off))"
    have "x = p + of_nat (unat off + k)"
      unfolding k_def by (simp add: algebra_simps)
    moreover have "PGROUNDDOWN (p + of_nat (unat off + k)) = p"
      using assms l by (intro page_offset) (auto simp: k_def)
    ultimately show False using assms(3) by simp
  qed
  then show ?thesis by (simp add: write_mem_apply)
qed

lemma user_chunk:
  assumes u: "uspace m pt F" "pt_map m pt va = Some e" and va: "va < 2 ^ 32"
    and len: "unat (va mod PGSIZE) + length bs \<le> pg"
    and m': "m' = write_mem m (uframe e + va mod PGSIZE) bs"
  shows "uspace m' pt F" "pt_map m' pt = pt_map m pt"
    "a < 2 ^ 32 \<Longrightarrow> user_byte m' pt a = user_write (user_byte m pt) va bs a"
proof -
  have other: "\<forall>x. PGROUNDDOWN x \<noteq> uframe e \<longrightarrow> m' x = m x"
    using write_in_page [OF frame_aligned len] by (simp add: m')
  show "uspace m' pt F" by (rule frame_write_uspace [OF u other])
  show map': "pt_map m' pt = pt_map m pt" by (rule frame_write_map [OF u other])
  assume a: "a < 2 ^ 32"
  show "user_byte m' pt a = user_write (user_byte m pt) va bs a"
  proof (cases "PGROUNDDOWN a = PGROUNDDOWN va")
    case True
    then have "pt_map m pt a = Some e"
      using pt_map_vpn [of a va m pt] same_vpn_iff [OF a va] u(2) by simp
    moreover have "a mod PGSIZE - va mod PGSIZE = a - va"
      using True by (simp add: PGROUNDDOWN_diff algebra_simps)
    then have "uframe e + a mod PGSIZE - (uframe e + va mod PGSIZE) = a - va" by simp
    ultimately show ?thesis
      unfolding user_byte_def user_write_def map' by (simp add: m' write_mem_apply)
  next
    case False
    have "\<not> unat (a - va) < length bs"
    proof
      assume l: "unat (a - va) < length bs"
      have "a = va + of_nat (unat (a - va))" by simp
      with same_page_offset [of va "unat (a - va)"] l len False show False by simp
    qed
    moreover have "m' (uframe f + a mod PGSIZE) = m (uframe f + a mod PGSIZE)" if "pt_map m pt a = Some f" for f
    proof -
      have "uframe f \<noteq> uframe e"
        using u that False same_vpn_iff [OF a va] unfolding uspace_def by blast
      then show ?thesis using other in_frame [of f a] by metis
    qed
    ultimately show ?thesis
      unfolding user_byte_def user_write_def map' by (auto split: option.split)
  qed
qed

lemma unat_chunk_len: "unat (chunk_len va len) = min (pg - unat va mod pg) (unat len)"
proof -
  have "va mod PGSIZE \<le> PGSIZE"
    by (simp add: word_le_nat_alt unat_mod_PGSIZE) (simp add: PGSIZE_def)
  then have "unat (PGSIZE - va mod PGSIZE) = pg - unat va mod pg"
    by (simp add: unat_sub unat_mod_PGSIZE) (simp add: PGSIZE_def)
  then show ?thesis by (simp add: chunk_len_def page_split Let_def word_less_nat_alt min_def)
qed

text \<open>The start of the next round of the two copying loops.\<close>

lemma next_page:
  assumes "unat (chunk_len va len) < unat len"
  shows "PGROUNDDOWN va + PGSIZE = va + chunk_len va len"
proof -
  have "unat (chunk_len va len) = pg - unat va mod pg" using assms by (simp add: unat_chunk_len)
  then have "unat (va mod PGSIZE) + unat (chunk_len va len) = pg" by (simp add: unat_mod_PGSIZE)
  then have "va mod PGSIZE + chunk_len va len = PGSIZE"
    by (metis PGSIZE_def of_nat_add of_nat_numeral of_nat_unat ucast_id)
  then show ?thesis by (simp add: PGROUNDDOWN_diff algebra_simps)
qed

lemma user_write_append:
  assumes "length xs + length ys < 2 ^ 64"
  shows "user_write (user_write f va xs) (va + of_nat (length xs)) ys = user_write f va (xs @ ys)"
proof
  fix a
  define d where "d = unat (a - va)"
  have d: "d < 2 ^ 64" using unsigned_less [of "a - va", where 'a = nat] by (simp add: d_def)
  have u: "unat (a - (va + of_nat (length xs))) =
      (if length xs \<le> d then d - length xs else d + 2 ^ 64 - length xs)"
  proof -
    have "a - (va + of_nat (length xs)) = (a - va) - of_nat (length xs)" by simp
    moreover have "unat (of_nat (length xs) :: u64) = length xs"
      using assms by (intro unat_of_nat_u64) simp
    ultimately show ?thesis
      unfolding d_def by (simp only: unat_sub_if_size [of "a - va"] word_size) simp
  qed
  show "user_write (user_write f va xs) (va + of_nat (length xs)) ys a = user_write f va (xs @ ys) a"
    unfolding user_write_def u d_def [symmetric] using assms d by (auto simp: nth_append)
qed


lemma user_write_Nil [simp]: "user_write f va [] = f"
  by (simp add: user_write_def fun_eq_iff)

lemma copyout_loop_writes:
  assumes "uspace (mem s) pt F" "length src = unat len" "unat dst + unat len \<le> 2 ^ 32"
    "\<forall>i < unat len. pt_map (mem s) pt (dst + of_nat i) \<noteq> None" "unat len < fuel"
  shows "\<exists>m. copyout_loop fuel pt dst src len s = Ok 0 (s\<lparr>mem := m\<rparr>) \<and>
    uspace m pt F \<and> pt_map m pt = pt_map (mem s) pt \<and>
    (\<forall>a. a < 2 ^ 32 \<longrightarrow> user_byte m pt a = user_write (user_byte (mem s) pt) dst src a)"
  using assms
proof (induction fuel arbitrary: s dst src len)
  case 0
  then show ?case by simp
next
  case (Suc fuel)
  show ?case
  proof (cases "len = 0")
    case True
    with Suc.prems show ?thesis by (intro exI [of _ "mem s"]) (simp add: copyout_loop.simps)
  next
    case False
    then have len: "0 < unat len" using unat_gt_0 by blast
    from Suc.prems(4) len obtain e where e: "pt_map (mem s) pt dst = Some e" by force
    define n where "n = chunk_len dst len"
    have n: "unat n = min (pg - unat dst mod pg) (unat len)" by (simp add: n_def unat_chunk_len)
    have npos: "0 < unat n" using n len by simp
    let ?m = "write_mem (mem s) (uframe e + dst mod PGSIZE) (take (unat n) src)"
    let ?s = "s\<lparr>mem := ?m\<rparr>"
    have dst: "dst < 2 ^ 32" using Suc.prems(3) len by (simp add: word_less_nat_alt)
    have tl: "length (take (unat n) src) = unat n" using Suc.prems(2) n by simp
    have "unat (dst mod PGSIZE) + length (take (unat n) src) \<le> pg"
      unfolding tl n unat_mod_PGSIZE by simp
    note c = user_chunk [OF Suc.prems(1) e dst this refl]
    have nz: "e AND PG_ADDR_MASK \<noteq> 0" and inv: "pt_inv (mem s) pt F"
      using Suc.prems(1) e by (auto simp: uspace_def)
    have "pt_map (mem s) pt (PGROUNDDOWN dst) = Some e"
      using pt_map_vpn [of "PGROUNDDOWN dst" dst] same_vpn_PGROUNDDOWN [of dst dst] e
      by (simp add: same_vpn_def)
    then have run: "copyout_loop (Suc fuel) pt dst src len s =
        copyout_loop fuel pt (PGROUNDDOWN dst + PGSIZE) (drop (unat n) src) (len - n) ?s"
      using False nz by (simp add: copyout_loop.simps [of "Suc fuel"] walkaddr_lookup [OF inv] n_def
          Let_def page_split uframe_def P2V_def algebra_simps)
    have left: "unat (len - n) = unat len - unat n"
      using n by (simp add: unat_sub word_le_nat_alt)
    have fuel: "unat len - unat n < fuel" using Suc.prems(5) npos len by linarith
    have next_dst: "PGROUNDDOWN dst + PGSIZE = dst + of_nat (unat n)" if "unat n < unat len"
      using next_page [of dst len] that by (simp add: n_def)
    let ?dst = "PGROUNDDOWN dst + PGSIZE" and ?src = "drop (unat n) src"
    have rest: "unat ?dst + unat (len - n) \<le> 2 ^ 32 \<and>
        (\<forall>i < unat (len - n). pt_map ?m pt (?dst + of_nat i) \<noteq> None)" if "unat n < unat len"
    proof -
      have "unat (of_nat (unat n) :: u64) = unat n" by simp
      then have "unat (dst + of_nat (unat n)) = unat dst + unat n"
        using Suc.prems(3) that by (simp add: unat_word_ariths)
      moreover have "pt_map (mem s) pt (dst + of_nat (unat n) + of_nat i) \<noteq> None" if "i < unat len - unat n" for i
      proof -
        have "unat n + i < unat len" using that by simp
        with Suc.prems(4) have "pt_map (mem s) pt (dst + of_nat (unat n + i)) \<noteq> None" by blast
        then show ?thesis by (simp only: of_nat_add add.assoc) blast
      qed
      ultimately show ?thesis unfolding next_dst [OF that] left c(2)
        using Suc.prems(3) that by simp
    qed
    show ?thesis
    proof (cases "unat n < unat len")
      case True
      have "\<exists>m. copyout_loop fuel pt ?dst ?src (len - n) ?s = Ok 0 (?s\<lparr>mem := m\<rparr>) \<and>
          uspace m pt F \<and> pt_map m pt = pt_map (mem ?s) pt \<and>
          (\<forall>a. a < 2 ^ 32 \<longrightarrow> user_byte m pt a = user_write (user_byte (mem ?s) pt) ?dst ?src a)"
        using c(1) rest [OF True] Suc.prems(2) left fuel by (intro Suc.IH) simp_all
      then obtain m where m: "copyout_loop fuel pt ?dst ?src (len - n) ?s = Ok 0 (?s\<lparr>mem := m\<rparr>)"
          "uspace m pt F" "pt_map m pt = pt_map (mem ?s) pt"
          "\<forall>a. a < 2 ^ 32 \<longrightarrow> user_byte m pt a = user_write (user_byte (mem ?s) pt) ?dst ?src a"
        by blast
      have "user_byte m pt a = user_write (user_byte (mem s) pt) dst src a" if a: "a < 2 ^ 32" for a
      proof -
        have "user_byte m pt a = user_write (user_byte (mem ?s) pt) ?dst ?src a"
          using m(4) a by blast
        also have "\<dots> = user_write (user_write (user_byte (mem s) pt) dst (take (unat n) src)) ?dst ?src a"
          using c(3) [OF a] by (simp add: user_write_def)
        also have "\<dots> = user_write (user_byte (mem s) pt) dst (take (unat n) src @ ?src) a"
          using user_write_append [of "take (unat n) src" ?src "user_byte (mem s) pt" dst] Suc.prems(2,3) True
          unfolding tl next_dst [OF True] by simp
        finally show ?thesis by simp
      qed
      then show ?thesis using m c(2) run by (intro exI [of _ m]) simp
    next
      case False
      then have nl: "unat n = unat len" using n by simp
      then have "n = len" by (rule unsigned_word_eqI)
      moreover have "?src = []" "take (unat n) src = src" using Suc.prems(2) nl by simp_all
      moreover have "fuel \<noteq> 0" using Suc.prems(5) len by simp
      ultimately show ?thesis
        using run c by (intro exI [of _ ?m]) (simp add: copyout_loop.simps [of fuel])
    qed
  qed
qed


lemma user_chunk_read:
  assumes e: "pt_map m pt va = Some e" and va: "va < 2 ^ 32" and len: "unat (va mod PGSIZE) + n \<le> pg"
  shows "read_mem m (uframe e + va mod PGSIZE) n = map (\<lambda>i. the (user_byte m pt (va + of_nat i))) [0..<n]"
proof (rule nth_equalityI)
  fix i
  assume "i < length (read_mem m (uframe e + va mod PGSIZE) n)"
  then have i: "i < n" by simp
  have page: "PGROUNDDOWN (va + of_nat i) = PGROUNDDOWN va" using len i by (intro same_page_offset) simp
  then have "pt_map m pt (va + of_nat i) = Some e"
    using pt_map_vpn [of "va + of_nat i" va m pt] same_vpn_PGROUNDDOWN [of "va + of_nat i" va]
      same_vpn_PGROUNDDOWN [of va va] e by (simp add: same_vpn_def)
  moreover have "(va + of_nat i) mod PGSIZE = va mod PGSIZE + of_nat i"
    using page by (simp add: PGROUNDDOWN_diff algebra_simps)
  ultimately show "read_mem m (uframe e + va mod PGSIZE) n ! i =
      map (\<lambda>i. the (user_byte m pt (va + of_nat i))) [0..<n] ! i"
    using i by (simp add: user_byte_def add.assoc)
qed simp

lemma copyin_loop_reads:
  assumes "uspace (mem s) pt F" "unat src + unat len \<le> 2 ^ 32"
    "\<forall>i < unat len. pt_map (mem s) pt (src + of_nat i) \<noteq> None" "unat len < fuel"
  shows "copyin_loop fuel pt src len acc s =
    Ok (0, acc @ map (\<lambda>i. the (user_byte (mem s) pt (src + of_nat i))) [0..<unat len]) s"
  using assms
proof (induction fuel arbitrary: src len acc)
  case 0
  then show ?case by simp
next
  case (Suc fuel)
  show ?case
  proof (cases "len = 0")
    case True
    then show ?thesis by (simp add: copyin_loop.simps)
  next
    case False
    then have len: "0 < unat len" using unat_gt_0 by blast
    from Suc.prems(3) len obtain e where e: "pt_map (mem s) pt src = Some e" by force
    define n where "n = chunk_len src len"
    have n: "unat n = min (pg - unat src mod pg) (unat len)" by (simp add: n_def unat_chunk_len)
    have npos: "0 < unat n" using n len by simp
    have src: "src < 2 ^ 32" using Suc.prems(2) len by (simp add: word_less_nat_alt)
    have nz: "e AND PG_ADDR_MASK \<noteq> 0" and inv: "pt_inv (mem s) pt F"
      using Suc.prems(1) e by (auto simp: uspace_def)
    let ?bs = "map (\<lambda>i. the (user_byte (mem s) pt (src + of_nat i))) [0..<unat n]"
    have bs: "read_mem (mem s) (uframe e + src mod PGSIZE) (unat n) = ?bs"
      by (rule user_chunk_read [OF e src]) (simp add: n unat_mod_PGSIZE)
    have "pt_map (mem s) pt (PGROUNDDOWN src) = Some e"
      using pt_map_vpn [of "PGROUNDDOWN src" src] same_vpn_PGROUNDDOWN [of src src] e
      by (simp add: same_vpn_def)
    moreover have "P2V ((e AND PG_ADDR_MASK) + src mod PGSIZE) = uframe e + src mod PGSIZE"
      by (simp add: uframe_def P2V_def)
    ultimately have run: "copyin_loop (Suc fuel) pt src len acc s =
        copyin_loop fuel pt (PGROUNDDOWN src + PGSIZE) (len - n) (acc @ ?bs) s"
      using False nz bs by (simp add: copyin_loop.simps [of "Suc fuel"] walkaddr_lookup [OF inv] n_def
          Let_def page_split)
    have left: "unat (len - n) = unat len - unat n"
      using n by (simp add: unat_sub word_le_nat_alt)
    show ?thesis
    proof (cases "unat n < unat len")
      case True
      have nd: "PGROUNDDOWN src + PGSIZE = src + of_nat (unat n)"
        using next_page [of src len] True by (simp add: n_def)
      have "unat (src + of_nat (unat n)) = unat src + unat n"
        using Suc.prems(2) True by (simp add: unat_word_ariths)
      moreover have "pt_map (mem s) pt (src + of_nat (unat n) + of_nat i) \<noteq> None" if "i < unat len - unat n" for i
      proof -
        have "unat n + i < unat len" using that by simp
        with Suc.prems(3) have "pt_map (mem s) pt (src + of_nat (unat n + i)) \<noteq> None" by blast
        then show ?thesis by (simp only: of_nat_add add.assoc) blast
      qed
      moreover have "unat len - unat n < fuel" using Suc.prems(4) npos len by linarith
      ultimately have "copyin_loop fuel pt (src + of_nat (unat n)) (len - n) (acc @ ?bs) s =
          Ok (0, (acc @ ?bs) @ map (\<lambda>i. the (user_byte (mem s) pt (src + of_nat (unat n) + of_nat i)))
            [0..<unat (len - n)]) s"
        using Suc.prems(1,2) left True by (intro Suc.IH) simp_all
      moreover have "map (\<lambda>i. the (user_byte (mem s) pt (src + of_nat (unat n) + of_nat i))) [0..<unat (len - n)] =
          map (\<lambda>i. the (user_byte (mem s) pt (src + of_nat i))) [unat n..<unat len]"
        using True left by (intro nth_equalityI) (simp_all add: add.assoc)
      moreover have "[0..<unat len] = [0..<unat n] @ [unat n..<unat len]"
        using upt_add_eq_append [of 0 "unat n" "unat len - unat n"] True by simp
      ultimately show ?thesis unfolding run nd by simp
    next
      case False
      then have nl: "unat n = unat len" using n by simp
      then have "n = len" by (rule unsigned_word_eqI)
      moreover have "fuel \<noteq> 0" using Suc.prems(4) len by simp
      ultimately show ?thesis using run by (simp add: copyin_loop.simps [of fuel])
    qed
  qed
qed

section \<open>Strings from user memory\<close>

lemma copyinstr_chunk_result:
  assumes "copyinstr_chunk m p n maxlen dst = (b, dst', maxlen')" "n \<le> unat maxlen"
  shows "\<exists>cs. 0 \<notin> set cs \<and>
    (if b then dst' = dst @ cs @ [0] \<and> length cs < n
     else dst' = dst @ cs \<and> length cs = n \<and> unat maxlen' = unat maxlen - n)"
  using assms
proof (induction n arbitrary: p maxlen dst)
  case 0
  then show ?case by auto
next
  case (Suc n)
  show ?case
  proof (cases "m p = 0")
    case True
    with Suc.prems show ?thesis by (intro exI [of _ "[]"]) auto
  next
    case False
    have d: "unat (maxlen - 1) = unat maxlen - 1"
      using Suc.prems(2) by (intro unat_minus_one) auto
    have "copyinstr_chunk m (p + 1) n (maxlen - 1) (dst @ [m p]) = (b, dst', maxlen')"
      using Suc.prems(1) False by simp
    moreover have "n \<le> unat (maxlen - 1)" using Suc.prems(2) d by simp
    ultimately obtain cs where "0 \<notin> set cs"
        "if b then dst' = (dst @ [m p]) @ cs @ [0] \<and> length cs < n
         else dst' = (dst @ [m p]) @ cs \<and> length cs = n \<and> unat maxlen' = unat (maxlen - 1) - n"
      using Suc.IH by blast
    with False d show ?thesis by (intro exI [of _ "m p # cs"]) (auto split: if_splits)
  qed
qed

definition cstring_or_part :: "nat \<Rightarrow> int \<times> byte list \<Rightarrow> bool" where
  "cstring_or_part n r \<longleftrightarrow> length (snd r) \<le> n \<and>
     (fst r = 0 \<and> (\<exists>cs. snd r = cs @ [0] \<and> 0 \<notin> set cs) \<or> fst r = - 1 \<and> 0 \<notin> set (snd r))"

lemma copyinstr_loop_result:
  assumes "pt_inv (mem s) pt F" "unat maxlen < fuel" "0 \<notin> set dst"
  shows "\<exists>r. copyinstr_loop fuel pt va maxlen dst s = Ok r s \<and> cstring_or_part (length dst + unat maxlen) r"
  using assms(2,3)
proof (induction fuel arbitrary: va maxlen dst)
  case 0
  then show ?case by simp
next
  case (Suc fuel)
  show ?case
  proof (cases "maxlen = 0")
    case True
    with Suc.prems show ?thesis by (simp add: copyinstr_loop.simps cstring_or_part_def)
  next
    case max: False
    then have pos: "0 < unat maxlen" using unat_gt_0 by blast
    define pa0 where "pa0 = (case pt_map (mem s) pt (PGROUNDDOWN va) of None \<Rightarrow> 0 | Some e \<Rightarrow> e AND PG_ADDR_MASK)"
    have w: "walkaddr pt (PGROUNDDOWN va) s = Ok pa0 s"
      unfolding pa0_def by (rule walkaddr_lookup [OF assms(1)])
    show ?thesis
    proof (cases "pa0 = 0")
      case True
      with max w Suc.prems show ?thesis
        by (simp add: copyinstr_loop.simps cstring_or_part_def)
    next
      case False
      obtain b dst' maxlen' where c: "copyinstr_chunk (mem s) (P2V (pa0 + (va - PGROUNDDOWN va)))
          (unat (chunk_len va maxlen)) maxlen dst = (b, dst', maxlen')"
        by (metis prod_cases3)
      have n: "unat (chunk_len va maxlen) = min (pg - unat va mod pg) (unat maxlen)" by (rule unat_chunk_len)
      from copyinstr_chunk_result [OF c] n obtain cs where cs: "0 \<notin> set cs"
          "if b then dst' = dst @ cs @ [0] \<and> length cs < unat (chunk_len va maxlen)
           else dst' = dst @ cs \<and> length cs = unat (chunk_len va maxlen) \<and>
             unat maxlen' = unat maxlen - unat (chunk_len va maxlen)"
        by auto
      show ?thesis
      proof (cases b)
        case True
        have "copyinstr_loop (Suc fuel) pt va maxlen dst s = Ok (0, dst') s"
          using max w False c True by (simp add: copyinstr_loop.simps [of "Suc fuel"])
        moreover have "cstring_or_part (length dst + unat maxlen) (0, dst')"
          using cs True n Suc.prems(2) by (auto simp: cstring_or_part_def intro: exI [of _ "dst @ cs"])
        ultimately show ?thesis by blast
      next
        case nb: False
        have "copyinstr_loop (Suc fuel) pt va maxlen dst s =
            copyinstr_loop fuel pt (PGROUNDDOWN va + PGSIZE) maxlen' dst' s"
          using max w False c nb by (simp add: copyinstr_loop.simps [of "Suc fuel"])
        moreover have "\<exists>r. copyinstr_loop fuel pt (PGROUNDDOWN va + PGSIZE) maxlen' dst' s = Ok r s \<and>
            cstring_or_part (length dst' + unat maxlen') r"
          using cs nb n pos Suc.prems by (intro Suc.IH) auto
        moreover have "length dst' + unat maxlen' = length dst + unat maxlen"
          using cs nb n by auto
        ultimately show ?thesis by metis
      qed
    qed
  qed
qed

section \<open>Properties\<close>

text \<open>
  C15: In a well-formed address space \<open>copyout\<close> to a mapped range returns 0, \<open>copyin\<close> of the same
  range then returns exactly the bytes that were written, whatever pages the range crosses, and
  every other byte of user memory is as before.
\<close>

theorem copyout_copyin_roundtrip:
  assumes "uspace (mem s) pt F" and "length src = unat len" and "unat dst + unat len \<le> 2 ^ 32"
    and "\<forall>i < unat len. pt_map (mem s) pt (dst + of_nat i) \<noteq> None"
  shows "\<exists>t. copyout pt dst src len s = Ok 0 t \<and> copyin pt dst len t = Ok (0, src) t \<and>
    (\<forall>a. a < 2 ^ 32 \<longrightarrow> unat len \<le> unat (a - dst) \<longrightarrow> user_byte (mem t) pt a = user_byte (mem s) pt a)"
proof -
  obtain m where m: "copyout pt dst src len s = Ok 0 (s\<lparr>mem := m\<rparr>)" "uspace m pt F"
      "pt_map m pt = pt_map (mem s) pt"
      "\<forall>a. a < 2 ^ 32 \<longrightarrow> user_byte m pt a = user_write (user_byte (mem s) pt) dst src a"
    using copyout_loop_writes [OF assms, of "Suc (unat len)"] by (auto simp: copyout_def)
  have "the (user_byte m pt (dst + of_nat i)) = src ! i" if i: "i < unat len" for i
  proof -
    have iu: "unat (of_nat i :: u64) = i" using i assms(3) by (intro unat_of_nat_u64) simp
    then have "dst + of_nat i < 2 ^ 32"
      using i assms(3) by (simp add: word_less_nat_alt unat_word_ariths)
    with m(4) i iu assms(2) show ?thesis by (simp add: user_write_def)
  qed
  then have "map (\<lambda>i. the (user_byte m pt (dst + of_nat i))) [0..<unat len] = src"
    using assms(2) by (intro nth_equalityI) simp_all
  moreover have "copyin pt dst len (s\<lparr>mem := m\<rparr>) =
      Ok (0, [] @ map (\<lambda>i. the (user_byte m pt (dst + of_nat i))) [0..<unat len]) (s\<lparr>mem := m\<rparr>)"
    using copyin_loop_reads [of "s\<lparr>mem := m\<rparr>" pt F dst len "Suc (unat len)" "[]"] m(2,3) assms(3,4)
    by (simp add: copyin_def)
  ultimately show ?thesis
    using m(1,4) assms(2) by (intro exI [of _ "s\<lparr>mem := m\<rparr>"]) (simp add: user_write_def)
qed

text \<open>An address space with one page, at address 0.\<close>

definition us_root :: u64 where "us_root = 0xFFFFFFFF40001000"
definition us_pmd :: u64 where "us_pmd = 0xFFFFFFFF40002000"
definition us_pte :: u64 where "us_pte = 0xFFFFFFFF40003000"
definition us_frame :: u64 where "us_frame = 0xFFFFFFFF40004000"

definition us_example :: kmem where
  "us_example = \<lparr>hw = idle_mach, mem =
     write64 (write64 (write64 (\<lambda>_. 0)
       (pte_at us_root 0) (V2P us_pmd OR ENTRY_TABLE OR ENTRY_VALID))
       (pte_at us_pmd 0) (V2P us_pte OR ENTRY_TABLE OR ENTRY_VALID))
       (pte_at us_pte 0) (leaf_entry (V2P us_frame) AP_1),
     freelist = 0\<rparr>"

lemma us_pages: "kpage us_root" "kpage us_pmd" "kpage us_pte" "kpage us_frame"
  by (simp_all add: us_root_def us_pmd_def us_pte_def us_frame_def kpage_def KERNBASE_def
      page_aligned_def PGSIZE_def)

lemma us_distinct: "us_root \<noteq> us_pmd" "us_root \<noteq> us_pte" "us_pmd \<noteq> us_pte"
    "us_root \<noteq> us_frame" "us_pmd \<noteq> us_frame" "us_pte \<noteq> us_frame"
  by (simp_all add: us_root_def us_pmd_def us_pte_def us_frame_def)

lemmas us_neq [simp] = us_distinct us_distinct [symmetric]

lemma us_entry:
  assumes "kpage p" "i < 512"
  shows "read64 (mem us_example) (pte_at p i) =
    (if i \<noteq> 0 then 0 else if p = us_root then V2P us_pmd OR ENTRY_TABLE OR ENTRY_VALID
     else if p = us_pmd then V2P us_pte OR ENTRY_TABLE OR ENTRY_VALID
     else if p = us_pte then leaf_entry (V2P us_frame) AP_1 else 0)"
proof -
  have "read64 (mem us_example) (pte_at p i) =
      (if us_pte = p \<and> 0 = i then leaf_entry (V2P us_frame) AP_1
       else if us_pmd = p \<and> 0 = i then V2P us_pte OR ENTRY_TABLE OR ENTRY_VALID
       else if us_root = p \<and> 0 = i then V2P us_pmd OR ENTRY_TABLE OR ENTRY_VALID else 0)"
    using assms us_pages by (simp add: us_example_def read_write_entry read64_zero)
  then show ?thesis using us_distinct by metis
qed

lemma us_step:
  assumes "i < 512"
  shows "pt_node (mem us_example) us_root (i # q) = (if i = 0 then pt_node (mem us_example) us_pmd q else None)"
    "pt_node (mem us_example) us_pmd (i # q) = (if i = 0 then pt_node (mem us_example) us_pte q else None)"
  using us_entry [OF us_pages(1) assms] us_entry [OF us_pages(2) assms]
  by (simp_all add: Let_def valid_new entry_table_new us_pages)

lemma us_node:
  assumes "pt_path q"
  shows "pt_node (mem us_example) us_root q =
    (if q = [] then Some us_root else if q = [0] then Some us_pmd else if q = [0, 0] then Some us_pte else None)"
proof -
  consider "q = []" | i where "q = [i]" "i < 512" | i j where "q = [i, j]" "i < 512" "j < 512"
    using assms by (cases q; cases "tl q") (auto simp: pt_path_def)
  then show ?thesis by cases (auto simp: us_step simp del: pt_node.simps(2))
qed

lemma us_map: "pt_map (mem us_example) us_root va =
    (if same_vpn va 0 then Some (leaf_entry (V2P us_frame) AP_1) else None)"
proof -
  have idx0: "PGD_IDX 0 = 0" "PMD_IDX 0 = 0" "PTE_IDX 0 = 0"
    by (simp_all add: PGD_IDX_def PMD_IDX_def PTE_IDX_def)
  have "read64 (mem us_example) (pte_at us_pte (PTE_IDX va)) =
      (if PTE_IDX va = 0 then leaf_entry (V2P us_frame) AP_1 else 0)"
    using us_entry [OF us_pages(3) idx_less(2), of va] by auto
  then show ?thesis
    unfolding pt_map_def us_node [OF path_idx(2)] same_vpn_def idx0
    by (auto simp: Let_def leaf_entry_valid)
qed

lemma us_frame_entry: "uframe (leaf_entry (V2P us_frame) AP_1) = us_frame"
    "leaf_entry (V2P us_frame) AP_1 AND PG_ADDR_MASK \<noteq> 0"
proof -
  have "leaf_entry (V2P us_frame) AP_1 AND PG_ADDR_MASK = V2P us_frame"
    using V2P_kpage [OF us_pages(4)] by (intro leaf_entry_addr) (auto simp: ap_ok_def AP_1_def AP_MASK_def)
  moreover have "V2P us_frame \<noteq> 0" by (simp add: us_frame_def V2P_def KERNBASE_def)
  ultimately show "uframe (leaf_entry (V2P us_frame) AP_1) = us_frame"
      "leaf_entry (V2P us_frame) AP_1 AND PG_ADDR_MASK \<noteq> 0"
    by (simp_all add: uframe_def)
qed

lemma us_example_ok: "uspace (mem us_example) us_root {}"
proof -
  have "pt_inv (mem us_example) us_root {}"
    unfolding pt_inv_def
  proof (intro conjI allI impI ballI)
    show "kpage x" if "x \<in> {}" for x using that by simp
    show "kpage x" "x \<notin> {}" if "pt_path q" "pt_node (mem us_example) us_root q = Some x" for q x
      using that us_node [OF that(1)] us_pages by (auto split: if_splits)
    show "q1 = q2" if "pt_path q1" "pt_path q2" "pt_node (mem us_example) us_root q1 = Some x"
        "pt_node (mem us_example) us_root q2 = Some x" for q1 q2 x
      using that us_node [OF that(1)] us_node [OF that(2)] by (auto simp del: pt_node.simps split: if_splits)
  qed
  moreover have "same_vpn a b" if "same_vpn a 0" "same_vpn b 0" for a b
    using that by (simp add: same_vpn_def)
  ultimately show ?thesis
    unfolding uspace_def us_map by (auto simp: us_frame_entry us_node split: if_splits)
qed

theorem copyout_copyin_roundtrip_witness:
  "\<exists>t. copyout us_root 0x10 [104, 105, 33] 3 us_example = Ok 0 t \<and>
     copyin us_root 0x10 3 t = Ok (0, [104, 105, 33]) t"
proof -
  have "same_vpn (0x10 + of_nat i) 0" if "i < 3" for i
  proof -
    have "PGROUNDDOWN (0 + of_nat (0x10 + i)) = 0"
      using that by (intro page_offset) (simp_all add: page_aligned_def)
    then show ?thesis using same_vpn_PGROUNDDOWN [of "0x10 + of_nat i" 0] by (simp add: same_vpn_def)
  qed
  then have "\<forall>i < unat (3 :: u64). pt_map (mem us_example) us_root (0x10 + of_nat i) \<noteq> None"
    by (simp add: us_map)
  from copyout_copyin_roundtrip [OF us_example_ok _ _ this, of "[104, 105, 33]"]
  show ?thesis by auto
qed



end
