(* ===== verification/SchedInv.thy ===== *)
theory SchedInv
  imports Sched
begin

text \<open>
  The scheduler of \<open>src/kernel/proc.c\<close> on several CPUs: a step relation whose steps are the
  stretches of kernel code between two switches, the invariant that a process runs on one CPU at
  most, and what \<open>sleep\<close>, \<open>wakeup\<close>, \<open>kill\<close> and a pass of \<open>scheduler\<close> do.
\<close>

section \<open>Several CPUs\<close>

text \<open>
  Between two switches a thread runs a stretch of kernel code. \<open>run_step\<close> is one such stretch on
  one of the four CPUs: the scheduler dispatching a process that was never run, that had yielded
  or that had slept (with the interrupt state \<open>saved\<close> that the process's \<open>sched\<close> kept), a process
  giving up the CPU, a process going to sleep under a lock, and calls of \<open>wakeup\<close> and \<open>kill\<close>.
\<close>

definition on_cpu :: "nat \<Rightarrow> 'z ktable_scheme \<Rightarrow> 'z ktable_scheme" where
  "on_cpu c s = s\<lparr>hw := (hw s)\<lparr>mpidr := of_nat c\<rparr>\<rparr>"

inductive run_step :: "'z ktable_scheme \<Rightarrow> 'z ktable_scheme \<Rightarrow> bool" where
  dispatch_new: "c < 4 \<Longrightarrow> cpu_proc (cpus (hw s) c) = None \<Longrightarrow>
    scheduler_pass (on_cpu c s) = Ok (Some p) t \<Longrightarrow> unlock (ProcLock p) t = Ok () u \<Longrightarrow> run_step s u"
| dispatch_yielded: "c < 4 \<Longrightarrow> cpu_proc (cpus (hw s) c) = None \<Longrightarrow>
    scheduler_pass (on_cpu c s) = Ok (Some p) t \<Longrightarrow> yield_finish saved p t = Ok () u \<Longrightarrow> run_step s u"
| dispatch_sleeper: "c < 4 \<Longrightarrow> cpu_proc (cpus (hw s) c) = None \<Longrightarrow>
    scheduler_pass (on_cpu c s) = Ok (Some p) t \<Longrightarrow> lk \<noteq> ProcLock p \<Longrightarrow>
    seq (sleep_finish saved p lk) (unlock lk) t = Ok () u \<Longrightarrow> run_step s u"
| give_up: "c < 4 \<Longrightarrow> cpu_proc (cpus (hw s) c) = Some p \<Longrightarrow>
    yield (on_cpu c s) = Stop Switched t \<Longrightarrow> scheduler_back p t = Ok () u \<Longrightarrow> run_step s u"
| block: "c < 4 \<Longrightarrow> cpu_proc (cpus (hw s) c) = Some p \<Longrightarrow> lk \<noteq> ProcLock p \<Longrightarrow>
    seq (lock lk) (sleep ch lk) (on_cpu c s) = (Stop Switched t :: ('z ktable_scheme, unit) res) \<Longrightarrow>
    scheduler_back p t = Ok () u \<Longrightarrow> run_step s u"
| wake: "c < 4 \<Longrightarrow> wakeup ch (on_cpu c s) = Ok () u \<Longrightarrow> run_step s u"
| send_kill: "c < 4 \<Longrightarrow> kill pid (on_cpu c s) = Ok r u \<Longrightarrow> run_step s u"

text \<open>
  The invariant between stretches: no lock is held, a process is RUNNING exactly while one CPU
  has it as its process, and a process that can run has a page table.
\<close>

definition cpu_quiet :: "mach \<Rightarrow> nat \<Rightarrow> bool" where
  "cpu_quiet h c \<longleftrightarrow> noff (cpus h c) = 0 \<and> intena (cpus h c) = (daif h c AND DAIF_I = 0)"

definition sched_inv :: "'z ktable_scheme \<Rightarrow> bool" where
  "sched_inv s \<longleftrightarrow>
     (\<forall>lk. lock_free lk (hw s)) \<and> (\<forall>c < 4. cpu_quiet (hw s) c) \<and>
     (\<forall>p. p_state (procs s p) = RUNNING \<longleftrightarrow> (\<exists>c < 4. cpu_proc (cpus (hw s) c) = Some p)) \<and>
     (\<forall>c < 4. \<forall>d < 4. \<forall>p. cpu_proc (cpus (hw s) c) = Some p \<longrightarrow> cpu_proc (cpus (hw s) d) = Some p \<longrightarrow> c = d) \<and>
     (\<forall>p. p_state (procs s p) \<in> {RUNNABLE, RUNNING, SLEEPING} \<longrightarrow> p_pagetable (procs s p) \<noteq> 0)"

lemma cpuid_on_cpu [simp]: "c < 4 \<Longrightarrow> cpuid (hw (on_cpu c s)) = c"
proof -
  assume c: "c < 4"
  have "of_nat c AND (3 :: u64) = take_bit 2 (of_nat c)"
    by (simp add: take_bit_eq_mask mask_eq_exp_minus_1)
  moreover have "unat (of_nat c :: u64) = c" using c by (intro unat_of_nat_u64) simp
  ultimately show ?thesis using c
    by (simp add: on_cpu_def cpuid_def take_bit_eq_mod unat_mod_distrib)
qed

lemma on_cpu_simps [simp]:
  "procs (on_cpu c s) = procs s" "cpus (hw (on_cpu c s)) = cpus (hw s)"
  "daif (hw (on_cpu c s)) = daif (hw s)" "lock_free lk (hw (on_cpu c s)) = lock_free lk (hw s)"
  "locks (hw (on_cpu c s)) = locks (hw s)"
  by (simp_all add: on_cpu_def lock_free_def)

lemma mycpu_on_cpu [simp]: "c < 4 \<Longrightarrow> mycpu (hw (on_cpu c s)) = cpus (hw s) c"
  by (simp add: mycpu_def)

lemma cpu_ok_on_cpu: "c < 4 \<Longrightarrow> cpu_quiet (hw s) c \<Longrightarrow> cpu_ok (hw (on_cpu c s))"
  by (simp add: cpu_ok_def cpu_quiet_def intr_get_def)

text \<open>Changing the interrupt state of the running CPU.\<close>

definition set_intr :: "bool \<Rightarrow> mach \<Rightarrow> mach" where
  "set_intr b h = (upd_mycpu (\<lambda>c. c\<lparr>intena := b\<rparr>) h)\<lparr>daif := (daif h)(cpuid h :=
     (if b then daif h (cpuid h) AND NOT DAIF_I else daif h (cpuid h) OR DAIF_I))\<rparr>"

definition with_intr :: "bool \<Rightarrow> 'z ktable_scheme \<Rightarrow> 'z ktable_scheme" where
  "with_intr b s = s\<lparr>hw := set_intr b (hw s)\<rparr>"

lemma daif_clear_set: "(d AND NOT DAIF_I) OR DAIF_I = d OR DAIF_I"
  by (rule bit_word_eqI) (auto simp: bit_or_iff bit_and_iff bit_not_iff)

lemma daif_cleared: "(d AND NOT DAIF_I) AND DAIF_I = 0"
  by (rule bit_word_eqI) (auto simp: bit_and_iff bit_not_iff)

lemma daif_set: "(d OR DAIF_I) AND DAIF_I = DAIF_I"
  by (rule bit_word_eqI) (auto simp: bit_and_iff bit_or_iff)

lemma set_intr_simps [simp]:
  "cpuid (set_intr b h) = cpuid h" "noff (mycpu (set_intr b h)) = noff (mycpu h)"
  "cpu_proc (mycpu (set_intr b h)) = cpu_proc (mycpu h)"
  "lock_free lk (set_intr b h) = lock_free lk h" "intr_get (set_intr b h) = b"
  "intena (mycpu (set_intr b h)) = b"
  by (auto simp: set_intr_def mach_defs lock_free_def daif_cleared daif_set)

lemma cpu_ok_set_intr: "noff (mycpu h) = 0 \<Longrightarrow> cpu_ok (set_intr b h)"
  by (simp add: cpu_ok_def)

lemma intena_held:
  assumes "noff (mycpu h) = 0"
  shows "upd_mycpu (\<lambda>c. c\<lparr>intena := b\<rparr>) (acq lk h) = acq lk (set_intr b h)"
  using assms
  by (intro mach_eqI)
     (auto simp: acq_def pushed_def set_intr_def mach_defs fun_eq_iff daif_clear_set daif_cleared daif_set)

lemma sched_finish_held:
  "noff (mycpu (hw s)) = 0 \<Longrightarrow> sched_finish b (held lk s) = Ok () (held lk (with_intr b s))"
  by (simp add: sched_finish_def on_hw_def held_def with_intr_def intena_held)


lemma with_intr_simps [simp]:
  "procs (with_intr b s) = procs s" "lock_free lk (hw (with_intr b s)) = lock_free lk (hw s)"
  "noff (mycpu (hw (with_intr b s))) = noff (mycpu (hw s))"
  by (simp_all add: with_intr_def)

lemma cpu_ok_with_intr: "noff (mycpu (hw s)) = 0 \<Longrightarrow> cpu_ok (hw (with_intr b s))"
  by (simp add: with_intr_def cpu_ok_set_intr)

lemma acq_sti:
  assumes "noff (mycpu h) = 0"
  shows "acq lk (h\<lparr>daif := (daif h)(cpuid h := daif h (cpuid h) AND NOT DAIF_I)\<rparr>) = acq lk (set_intr True h)"
  using assms
  by (intro mach_eqI)
     (auto simp: acq_def pushed_def set_intr_def mach_defs fun_eq_iff)

lemma scheduler_pass_intr:
  assumes "noff (mycpu (hw s)) = 0" "lock_free (ProcLock 0) (hw s)"
  shows "scheduler_pass s = scheduler_from all_procs (with_intr True s)"
proof -
  let ?h = "(hw s)\<lparr>daif := (daif (hw s))(cpuid (hw s) := daif (hw s) (cpuid (hw s)) AND NOT DAIF_I)\<rparr>"
  have "lock_free (ProcLock 0) ?h" using assms(2) by (simp add: lock_free_def)
  then have "lock (ProcLock 0) (s\<lparr>hw := ?h\<rparr>) = lock (ProcLock 0) (with_intr True s)"
    using acq_sti [OF assms(1)] assms(2) by (simp add: held_def with_intr_def)
  moreover have "all_procs = 0 # [1..<NPROC]" by (simp add: NPROC_def upt_conv_Cons)
  ultimately show ?thesis
    by (simp add: scheduler_pass_def sti_def on_hw_def [of "modify _"] del: lock_run)
qed

lemma scheduler_pass_run:
  assumes inv: "sched_inv s" and c: "c < 4" and r: "scheduler_pass (on_cpu c s) = Ok (Some p) t"
  shows "t = held (ProcLock p) (dispatched p (with_intr True (on_cpu c s)))"
    "p_state (procs s p) = RUNNABLE" "p < NPROC"
proof -
  let ?s = "with_intr True (on_cpu c s)"
  have noff: "noff (mycpu (hw (on_cpu c s))) = 0" and free: "lock_free lk (hw (on_cpu c s))" for lk
    using inv c by (simp_all add: sched_inv_def cpu_quiet_def)
  have "scheduler_from all_procs ?s =
      (case List.find (\<lambda>p. p_state (procs ?s p) = RUNNABLE) all_procs of
         None \<Rightarrow> Ok None ?s | Some p \<Rightarrow> Ok (Some p) (held (ProcLock p) (dispatched p ?s)))"
    using inv noff free cpu_ok_with_intr [OF noff]
    by (intro scheduler_from_run) (auto simp: sched_inv_def)
  with r scheduler_pass_intr [OF noff free]
  have "List.find (\<lambda>p. p_state (procs ?s p) = RUNNABLE) all_procs = Some p"
      and t: "t = held (ProcLock p) (dispatched p ?s)"
    by (auto split: option.splits)
  then show "p_state (procs s p) = RUNNABLE" "p < NPROC"
    by (auto simp: find_Some_iff)
  show "t = held (ProcLock p) (dispatched p ?s)" by (rule t)
qed

text \<open>How a step moves the invariant: a CPU takes a process, drops it, or keeps what it has.\<close>

definition cpu_frame :: "nat \<Rightarrow> 'z ktable_scheme \<Rightarrow> 'z ktable_scheme \<Rightarrow> bool" where
  "cpu_frame c s u \<longleftrightarrow> locks (hw u) = locks (hw s) \<and> cpu_quiet (hw u) c \<and>
     (\<forall>d. d \<noteq> c \<longrightarrow> cpus (hw u) d = cpus (hw s) d \<and> daif (hw u) d = daif (hw s) d)"

definition same_pt :: "'z ktable_scheme \<Rightarrow> 'z ktable_scheme \<Rightarrow> bool" where
  "same_pt s u \<longleftrightarrow> (\<forall>q. p_pagetable (procs u q) = p_pagetable (procs s q) \<and>
     (p_state (procs u q) \<in> {RUNNABLE, RUNNING, SLEEPING} \<longrightarrow>
      p_state (procs s q) \<in> {RUNNABLE, RUNNING, SLEEPING}))"

lemma inv_frame:
  assumes "sched_inv s" "cpu_frame c s u" "same_pt s u"
  shows "(\<forall>lk. lock_free lk (hw u)) \<and> (\<forall>d < 4. cpu_quiet (hw u) d) \<and>
    (\<forall>p. p_state (procs u p) \<in> {RUNNABLE, RUNNING, SLEEPING} \<longrightarrow> p_pagetable (procs u p) \<noteq> 0)"
proof -
  have "cpu_quiet (hw u) d" if "d < 4" for d
    using assms(1,2) that by (cases "d = c") (auto simp: sched_inv_def cpu_frame_def cpu_quiet_def)
  moreover have "lock_free lk (hw u)" for lk
    using assms(1,2) by (simp add: sched_inv_def cpu_frame_def lock_free_def)
  moreover have "p_pagetable (procs u p) \<noteq> 0" if "p_state (procs u p) \<in> {RUNNABLE, RUNNING, SLEEPING}" for p
    using assms(1,3) that unfolding sched_inv_def same_pt_def by metis
  ultimately show ?thesis by blast
qed

lemma inv_start:
  assumes inv: "sched_inv s" and "c < 4" "cpu_frame c s u" "same_pt s u"
    and none: "cpu_proc (cpus (hw s) c) = None" and some: "cpu_proc (cpus (hw u) c) = Some p"
    and "p_state (procs s p) = RUNNABLE" "p_state (procs u p) = RUNNING"
    and others: "\<And>q. q \<noteq> p \<Longrightarrow> (p_state (procs u q) = RUNNING) = (p_state (procs s q) = RUNNING)"
  shows "sched_inv u"
proof -
  have run: "p_state (procs s q) = RUNNING \<longleftrightarrow> (\<exists>d < 4. cpu_proc (cpus (hw s) d) = Some q)" for q
    using inv unfolding sched_inv_def by blast
  have cpu: "cpu_proc (cpus (hw u) d) = (if d = c then Some p else cpu_proc (cpus (hw s) d))" for d
    using assms(3) some by (simp add: cpu_frame_def)
  have np: "cpu_proc (cpus (hw s) d) \<noteq> Some p" if "d < 4" for d
    using run [of p] assms(7) that by auto
  have "p_state (procs u q) = RUNNING \<longleftrightarrow> (\<exists>d < 4. cpu_proc (cpus (hw u) d) = Some q)" for q
  proof (cases "q = p")
    case True
    then show ?thesis using assms(2,8) cpu by auto
  next
    case False
    then have "cpu_proc (cpus (hw u) d) = Some q \<longleftrightarrow> cpu_proc (cpus (hw s) d) = Some q" for d
      using cpu [of d] none by auto
    then show ?thesis using run [of q] others [OF False] by simp
  qed
  moreover have "d = e" if "d < 4" "e < 4" "cpu_proc (cpus (hw u) d) = Some q" "cpu_proc (cpus (hw u) e) = Some q" for d e q
    using that np cpu inv unfolding sched_inv_def by (auto split: if_splits)
  ultimately show ?thesis using inv_frame [OF inv assms(3,4)] unfolding sched_inv_def by blast
qed

lemma inv_stop:
  assumes inv: "sched_inv s" and "c < 4" "cpu_frame c s u" "same_pt s u"
    and some: "cpu_proc (cpus (hw s) c) = Some p" and none: "cpu_proc (cpus (hw u) c) = None"
    and "p_state (procs u p) \<noteq> RUNNING"
    and others: "\<And>q. q \<noteq> p \<Longrightarrow> (p_state (procs u q) = RUNNING) = (p_state (procs s q) = RUNNING)"
  shows "sched_inv u"
proof -
  have run: "p_state (procs s q) = RUNNING \<longleftrightarrow> (\<exists>d < 4. cpu_proc (cpus (hw s) d) = Some q)" for q
    using inv unfolding sched_inv_def by blast
  have uniq: "d = e" if "d < 4" "e < 4" "cpu_proc (cpus (hw s) d) = Some q" "cpu_proc (cpus (hw s) e) = Some q" for d e q
    using inv that unfolding sched_inv_def by blast
  have cpu: "cpu_proc (cpus (hw u) d) = (if d = c then None else cpu_proc (cpus (hw s) d))" for d
    using assms(3) none by (simp add: cpu_frame_def)
  have "p_state (procs u q) = RUNNING \<longleftrightarrow> (\<exists>d < 4. cpu_proc (cpus (hw u) d) = Some q)" for q
  proof (cases "q = p")
    case True
    then show ?thesis using assms(2,7) cpu uniq some by auto
  next
    case False
    then have "cpu_proc (cpus (hw u) d) = Some q \<longleftrightarrow> cpu_proc (cpus (hw s) d) = Some q" for d
      using cpu [of d] some by auto
    then show ?thesis using run [of q] others [OF False] by simp
  qed
  moreover have "d = e" if "d < 4" "e < 4" "cpu_proc (cpus (hw u) d) = Some q" "cpu_proc (cpus (hw u) e) = Some q" for d e q
    using that cpu uniq by (auto split: if_splits)
  ultimately show ?thesis using inv_frame [OF inv assms(3,4)] unfolding sched_inv_def by blast
qed

lemma inv_keep:
  assumes inv: "sched_inv s" and "cpu_frame c s u" "same_pt s u"
    and "cpu_proc (cpus (hw u) c) = cpu_proc (cpus (hw s) c)"
    and "\<And>q. (p_state (procs u q) = RUNNING) = (p_state (procs s q) = RUNNING)"
  shows "sched_inv u"
proof -
  have "cpu_proc (cpus (hw u) d) = cpu_proc (cpus (hw s) d)" for d
    using assms(2,4) by (cases "d = c") (auto simp: cpu_frame_def)
  then show ?thesis using inv inv_frame [OF inv assms(2,3)] assms(5) unfolding sched_inv_def by simp
qed


lemma dispatched_frame:
  assumes "sched_inv s" "c < 4" "p_state (procs s p) = RUNNABLE"
  shows "cpu_frame c s (with_intr b (dispatched p (with_intr True (on_cpu c s))))"
    "cpu_proc (cpus (hw (with_intr b (dispatched p (with_intr True (on_cpu c s))))) c) = Some p"
    "procs (with_intr b (dispatched p (with_intr True (on_cpu c s)))) =
      (procs s)(p := (procs s p)\<lparr>p_state := RUNNING\<rparr>)"
proof -
  let ?u = "with_intr b (dispatched p (with_intr True (on_cpu c s)))"
  have q: "noff (cpus (hw s) c) = 0" using assms(1,2) by (simp add: sched_inv_def cpu_quiet_def)
  have id: "unat ((of_nat c :: u64) AND 3) = c" using cpuid_on_cpu [OF assms(2), of s] by (simp add: cpuid_def on_cpu_def)
  show "procs ?u = (procs s)(p := (procs s p)\<lparr>p_state := RUNNING\<rparr>)"
    by (simp add: dispatched_def)
  show "cpu_proc (cpus (hw ?u) c) = Some p"
    using id by (simp add: dispatched_def with_intr_def with_proc_def with_ttbr0_def set_intr_def on_cpu_def mach_defs upd_proc_def)
  show "cpu_frame c s ?u"
    using id q by (auto simp: cpu_frame_def cpu_quiet_def dispatched_def with_intr_def with_proc_def with_ttbr0_def
        set_intr_def on_cpu_def mach_defs upd_proc_def daif_cleared daif_set)
qed


lemma daif_clear_clear:
  assumes "d AND DAIF_I = 0"
  shows "d AND NOT DAIF_I = d"
proof (rule bit_word_eqI)
  fix n
  have "bit (d AND DAIF_I) n \<longleftrightarrow> bit (0 :: u64) n" by (simp only: assms)
  then show "n < LENGTH(64) \<Longrightarrow> bit (d AND NOT DAIF_I) n \<longleftrightarrow> bit d n"
    by (auto simp: bit_and_iff bit_not_iff)
qed

lemma set_intr_id:
  assumes "intr_get h" "intena (mycpu h)"
  shows "set_intr True h = h"
proof -
  have "(cpus h (cpuid h))\<lparr>intena := True\<rparr> = cpus h (cpuid h)" using assms(2) by (simp add: mycpu_def)
  moreover have "daif h (cpuid h) AND NOT DAIF_I = daif h (cpuid h)"
    using assms(1) by (intro daif_clear_clear) (simp add: intr_get_def)
  ultimately show ?thesis
    by (intro mach_eqI) (simp_all add: set_intr_def upd_mycpu_def)
qed

lemma with_intr_dispatched:
  "with_intr True (dispatched p (with_intr True s)) = dispatched p (with_intr True s)"
proof -
  let ?d = "dispatched p (with_intr True s)"
  have "intr_get (hw ?d)" "intena (mycpu (hw ?d))"
    by (simp_all add: dispatched_def with_intr_def with_proc_def with_ttbr0_def set_intr_def mach_defs
        upd_proc_def daif_cleared)
  then show ?thesis by (simp add: with_intr_def [of _ ?d] set_intr_id)
qed

lemma inv_dispatched:
  assumes inv: "sched_inv s" and c: "c < 4" and "cpu_proc (cpus (hw s) c) = None"
    and "p_state (procs s p) = RUNNABLE" and "f = id \<or> f = (\<lambda>pr. pr\<lparr>p_chan := None\<rparr>)"
  shows "sched_inv (upd_proc p f (with_intr b (dispatched p (with_intr True (on_cpu c s)))))"
proof -
  note d = dispatched_frame [OF inv c assms(4), of b]
  show ?thesis
    using assms(4,5) d
    by (intro inv_start [OF inv c _ _ assms(3), of _ p])
       (auto simp: cpu_frame_def same_pt_def cpu_quiet_def)
qed

lemma run_start:
  assumes inv: "sched_inv s" and c: "c < 4"
  shows "cpu_ok (hw (on_cpu c s))" "noff (mycpu (hw (on_cpu c s))) = 0" "lock_free lk (hw (on_cpu c s))"
  using inv c by (auto simp: sched_inv_def cpu_quiet_def intro: cpu_ok_on_cpu)

lemma upd_proc_ident [simp]: "upd_proc p id s = s"
  by (simp add: upd_proc_def)

lemma with_intr_upd_proc: "with_intr b (upd_proc p f s) = upd_proc p f (with_intr b s)"
  by (simp add: with_intr_def upd_proc_def)

lemma inv_dispatch:
  assumes inv: "sched_inv s" and c: "c < 4" and none: "cpu_proc (cpus (hw s) c) = None"
    and r: "scheduler_pass (on_cpu c s) = Ok (Some p) t"
  shows "unlock (ProcLock p) t = Ok () u \<Longrightarrow> sched_inv u"
    "yield_finish saved p t = Ok () u \<Longrightarrow> sched_inv u"
    "lk \<noteq> ProcLock p \<Longrightarrow> seq (sleep_finish saved p lk) (unlock lk) t = Ok () u \<Longrightarrow> sched_inv u"
proof -
  note t = scheduler_pass_run [OF inv c r]
  note s0 = run_start [OF inv c]
  let ?w = "dispatched p (with_intr True (on_cpu c s))"
  have ok: "cpu_ok (hw ?w)" "noff (mycpu (hw ?w)) = 0" "lock_free l (hw ?w)" for l
    using s0 cpu_ok_with_intr [of "on_cpu c s" True] by (simp_all add: dispatched_def)
  note inv' = inv_dispatched [OF inv c none t(2)]
  have okb: "cpu_ok (hw (with_intr b ?w))" for b by (rule cpu_ok_with_intr) (rule ok)
  show "sched_inv u" if "unlock (ProcLock p) t = Ok () u"
    using that inv' [of id True] ok t(1) unfolding with_intr_dispatched by simp
  show "sched_inv u" if "yield_finish saved p t = Ok () u"
    using that inv' [of id saved] ok okb t(1) by (simp add: yield_finish_def sched_finish_held)
  show "sched_inv u" if "lk \<noteq> ProcLock p" "seq (sleep_finish saved p lk) (unlock lk) t = Ok () u"
    using that inv' [of "\<lambda>pr. pr\<lparr>p_chan := None\<rparr>" saved] ok okb t(1)
    by (simp add: sleep_finish_def sched_finish_held)
qed

lemma stopped_frame:
  assumes "sched_inv s" "c < 4"
  shows "cpu_frame c s (with_proc None (upd_proc p f (on_cpu c s)))"
    "cpu_proc (cpus (hw (with_proc None (upd_proc p f (on_cpu c s)))) c) = None"
proof -
  have q: "cpu_quiet (hw s) c" using assms by (simp add: sched_inv_def)
  have id: "unat ((of_nat c :: u64) AND 3) = c" using cpuid_on_cpu [OF assms(2), of s] by (simp add: cpuid_def on_cpu_def)
  show "cpu_frame c s (with_proc None (upd_proc p f (on_cpu c s)))"
      "cpu_proc (cpus (hw (with_proc None (upd_proc p f (on_cpu c s)))) c) = None"
    using id q by (simp_all add: cpu_frame_def cpu_quiet_def with_proc_def on_cpu_def mach_defs upd_proc_def)
qed

lemma inv_stopped:
  assumes inv: "sched_inv s" and c: "c < 4" and some: "cpu_proc (cpus (hw s) c) = Some p"
    and f: "\<And>pr. p_state (f pr) \<in> {RUNNABLE, SLEEPING} \<and> p_pagetable (f pr) = p_pagetable pr"
  shows "sched_inv (with_proc None (upd_proc p f (on_cpu c s)))"
proof -
  have "p_state (procs s p) = RUNNING" using inv c some unfolding sched_inv_def by blast
  then have "same_pt s (with_proc None (upd_proc p f (on_cpu c s)))"
    using f by (auto simp: same_pt_def)
  then show ?thesis
    using f [of "procs s p"] stopped_frame [OF inv c] by (intro inv_stop [OF inv c _ _ some]) auto
qed

lemma inv_give_up:
  assumes inv: "sched_inv s" and c: "c < 4" and some: "cpu_proc (cpus (hw s) c) = Some p"
    and "yield (on_cpu c s) = Stop Switched t" "scheduler_back p t = Ok () u"
  shows "sched_inv u"
proof -
  note s0 = run_start [OF inv c]
  let ?s = "upd_proc p (\<lambda>pr. pr\<lparr>p_state := RUNNABLE\<rparr>) (on_cpu c s)"
  have "sched (held (ProcLock p) ?s) = (Stop Switched (held (ProcLock p) ?s) :: ('a ktable_scheme, unit) res)"
    using s0 c some by (intro sched_switches) simp_all
  then have "t = held (ProcLock p) ?s"
    using assms(4) s0 c some by (simp add: yield_def curproc_def)
  then have "u = with_proc None ?s"
    using assms(5) s0 by (simp add: scheduler_back_run)
  then show ?thesis using inv_stopped [OF inv c some, of "\<lambda>pr. pr\<lparr>p_state := RUNNABLE\<rparr>"] by simp
qed

lemma inv_block:
  assumes inv: "sched_inv s" and c: "c < 4" and some: "cpu_proc (cpus (hw s) c) = Some p" and "lk \<noteq> ProcLock p"
    and "seq (lock lk) (sleep ch lk) (on_cpu c s) = (Stop Switched t :: ('z ktable_scheme, unit) res)"
    and "scheduler_back p t = Ok () u"
  shows "sched_inv u"
proof -
  note s0 = run_start [OF inv c]
  let ?s = "upd_proc p (asleep ch) (on_cpu c s)"
  have "t = held (ProcLock p) ?s"
    using assms(4,5) s0 c some by (simp add: sleep_run)
  then have "u = with_proc None ?s"
    using assms(6) s0 by (simp add: scheduler_back_run)
  then show ?thesis using inv_stopped [OF inv c some, of "asleep ch"] by (simp add: asleep_def)
qed

lemma inv_on_cpu_procs:
  assumes inv: "sched_inv s" and c: "c < 4"
    and f: "\<And>q. p_pagetable (f q) = p_pagetable (procs s q) \<and> (p_state (f q) = p_state (procs s q) \<or>
      p_state (procs s q) = SLEEPING \<and> p_state (f q) = RUNNABLE)"
  shows "sched_inv ((on_cpu c s)\<lparr>procs := f\<rparr>)"
proof -
  have q: "cpu_quiet (hw s) c" using assms by (simp add: sched_inv_def)
  have "cpu_frame c s ((on_cpu c s)\<lparr>procs := f\<rparr>)"
    using q by (simp add: cpu_frame_def cpu_quiet_def)
  moreover have "same_pt s ((on_cpu c s)\<lparr>procs := f\<rparr>)"
    using f unfolding same_pt_def by (metis insert_iff ktable.select_convs(1) ktable.update_convs(1) ktable.surjective)
  ultimately show ?thesis
    using f by (intro inv_keep [OF inv]) (auto, metis procstate.distinct, metis procstate.distinct)
qed


lemma sched_inv_step: "run_step s u \<Longrightarrow> sched_inv s \<Longrightarrow> sched_inv u"
proof (induction rule: run_step.induct)
  case (dispatch_new c s p t u)
  then show ?case using inv_dispatch(1) by blast
next
  case (dispatch_yielded c s p t saved u)
  then show ?case using inv_dispatch(2) by blast
next
  case (dispatch_sleeper c s p t lk saved u)
  then show ?case using inv_dispatch(3) by blast
next
  case (give_up c s p t u)
  then show ?case using inv_give_up by blast
next
  case (block c s p lk ch t u)
  then show ?case using inv_block by blast
next
  case (wake c ch s u)
  then have "u = (on_cpu c s)\<lparr>procs := (\<lambda>p. if p < NPROC then wake_on ch (procs s p) else procs s p)\<rparr>"
    using run_start [OF wake.prems wake.hyps(1)] by (simp add: wakeup_run table_free_def cong: if_cong)
  then show ?case
    using inv_on_cpu_procs [OF wake.prems wake.hyps(1), of "\<lambda>p. if p < NPROC then wake_on ch (procs s p) else procs s p"]
    by (simp add: wake_on_def)
next
  case (send_kill c pid s r u)
  note s0 = run_start [OF send_kill.prems send_kill.hyps(1)]
  have id: "sched_inv (on_cpu c s)"
    using inv_on_cpu_procs [OF send_kill.prems send_kill.hyps(1), of "procs s"] by (simp add: on_cpu_def)
  have "sched_inv (upd_proc p killed (on_cpu c s))" for p
    using inv_on_cpu_procs [OF send_kill.prems send_kill.hyps(1), of "(procs s)(p := killed (procs s p))"]
    by (simp add: upd_proc_def killed_def)
  with id send_kill.hyps(2) s0 show ?case
    by (auto simp: kill_def kill_from_run split: option.splits)
qed

lemma sched_inv_steps: "run_step\<^sup>*\<^sup>* s u \<Longrightarrow> sched_inv s \<Longrightarrow> sched_inv u"
  by (induction rule: rtranclp_induct) (auto dest: sched_inv_step)

text \<open>An idle CPU with a process to run takes it.\<close>

lemma scheduler_dispatch:
  assumes inv: "sched_inv s" and c: "c < 4" and none: "cpu_proc (cpus (hw s) c) = None"
    and "p < NPROC" "p_state (procs s p) = RUNNABLE" "\<forall>q < p. p_state (procs s q) \<noteq> RUNNABLE"
  shows "scheduler_pass (on_cpu c s) = Ok (Some p) (held (ProcLock p) (dispatched p (with_intr True (on_cpu c s))))"
proof -
  let ?s = "with_intr True (on_cpu c s)"
  note s0 = run_start [OF inv c]
  have "List.find (\<lambda>p. p_state (procs ?s p) = RUNNABLE) all_procs = Some p"
    using assms(4-6) unfolding find_Some_iff by (intro exI [of _ p]) simp
  moreover have "scheduler_from all_procs ?s =
      (case List.find (\<lambda>p. p_state (procs ?s p) = RUNNABLE) all_procs of
         None \<Rightarrow> Ok None ?s | Some p \<Rightarrow> Ok (Some p) (held (ProcLock p) (dispatched p ?s)))"
    using inv s0 cpu_ok_with_intr [OF s0(2)] by (intro scheduler_from_run) (auto simp: sched_inv_def)
  ultimately show ?thesis using scheduler_pass_intr [OF s0(2,3)] by simp
qed

section \<open>Properties\<close>


text \<open>Two processes that can run, and no CPU that runs anything.\<close>

definition idle_proc :: proc where
  "idle_proc = \<lparr>p_state = UNUSED, p_parent = None, p_chan = None, p_killed = 0, p_xstate = 0, p_pid = 0,
     p_kstack = 0, p_sz = 0, p_pagetable = 0, p_trapframe = 0, p_context = 0, p_ofile = (\<lambda>_. None),
     p_cwd = None, p_name = (\<lambda>_. 0)\<rparr>"

definition sched_example :: ktable where
  "sched_example = \<lparr>hw = idle_mach\<lparr>cpus := (\<lambda>_. \<lparr>cpu_proc = None, noff = 0, intena = True\<rparr>)\<rparr>,
     mem = (\<lambda>_. 0), freelist = 0,
     procs = (\<lambda>_. idle_proc)
       (0 := idle_proc\<lparr>p_state := RUNNABLE, p_pid := 1, p_pagetable := 0xFFFFFFFF40005000\<rparr>,
        1 := idle_proc\<lparr>p_state := RUNNABLE, p_pid := 2, p_pagetable := 0xFFFFFFFF40006000\<rparr>),
     initproc = Some 0, nextpid = 3, fork_first = False\<rparr>"

lemma sched_example_inv: "sched_inv sched_example"
  by (auto simp: sched_inv_def sched_example_def idle_mach_def lock_free_def cpu_quiet_def idle_proc_def
      split: if_splits)

lemma sched_example_step:
  "run_step sched_example (dispatched 0 (with_intr True (on_cpu 2 sched_example)))"
proof -
  let ?w = "dispatched 0 (with_intr True (on_cpu 2 sched_example))"
  have none: "cpu_proc (cpus (hw sched_example) 2) = None" by (simp add: sched_example_def)
  have r: "scheduler_pass (on_cpu 2 sched_example) = Ok (Some 0) (held (ProcLock 0) ?w)"
    by (rule scheduler_dispatch [OF sched_example_inv _ none])
       (simp_all add: sched_example_def NPROC_def)
  have "cpu_ok (hw ?w)" "lock_free (ProcLock 0) (hw ?w)"
    using run_start [OF sched_example_inv, of 2] cpu_ok_with_intr [of "on_cpu 2 sched_example" True]
    by (simp_all add: dispatched_def)
  then show ?thesis
    by (intro run_step.dispatch_new [OF _ none r]) simp_all
qed


text \<open>
  C25: The scheduler does not miss work: on an idle CPU a pass over the table ends by switching to
  the first process that is RUNNABLE, now RUNNING and the CPU's process, with its lock held and
  its page table installed; and if there is none the pass ends with every process as it was.
\<close>

theorem scheduler_takes_first_runnable:
  assumes "sched_inv s" and "c < 4" and "cpu_proc (cpus (hw s) c) = None"
  shows "\<exists>t. scheduler_pass (on_cpu c s) = Ok (List.find (\<lambda>p. p_state (procs s p) = RUNNABLE) [0..<NPROC]) t \<and>
    (case List.find (\<lambda>p. p_state (procs s p) = RUNNABLE) [0..<NPROC] of
       None \<Rightarrow> procs t = procs s
     | Some p \<Rightarrow> procs t = (procs s)(p := (procs s p)\<lparr>p_state := RUNNING\<rparr>) \<and> holding (ProcLock p) (hw t) \<and>
         cpu_proc (cpus (hw t) c) = Some p \<and> ttbr0 (hw t) c = V2P (p_pagetable (procs s p)))"
proof -
  let ?s = "with_intr True (on_cpu c s)"
  note s0 = run_start [OF assms(1,2)]
  have from_run: "scheduler_from all_procs ?s =
      (case List.find (\<lambda>p. p_state (procs ?s p) = RUNNABLE) all_procs of
         None \<Rightarrow> Ok None ?s | Some p \<Rightarrow> Ok (Some p) (held (ProcLock p) (dispatched p ?s)))"
    using assms(1) s0 cpu_ok_with_intr [OF s0(2)] by (intro scheduler_from_run) (auto simp: sched_inv_def)
  have id: "unat ((of_nat c :: u64) AND 3) = c"
    using cpuid_on_cpu [OF assms(2), of s] by (simp add: cpuid_def on_cpu_def)
  have "cpu_proc (cpus (hw (held (ProcLock p) (dispatched p ?s))) c) = Some p"
      "ttbr0 (hw (held (ProcLock p) (dispatched p ?s))) c = V2P (p_pagetable (procs s p))" for p
    using id by (simp_all add: held_def acq_def pushed_def dispatched_def with_intr_def with_proc_def
        with_ttbr0_def set_intr_def on_cpu_def mach_defs upd_proc_def)
  moreover have "procs (held (ProcLock p) (dispatched p ?s)) = (procs s)(p := (procs s p)\<lparr>p_state := RUNNING\<rparr>)" for p
    by (simp add: dispatched_def)
  ultimately show ?thesis
    using scheduler_pass_intr [OF s0(2,3)] from_run by (auto split: option.split)
qed

theorem scheduler_takes_first_runnable_witness:
  "\<exists>t. scheduler_pass (on_cpu 1 sched_example) = Ok (Some 0) t \<and> p_state (procs t 0) = RUNNING \<and>
     p_state (procs t 1) = RUNNABLE \<and> holding (ProcLock 0) (hw t) \<and> cpu_proc (cpus (hw t) 1) = Some 0"
proof -
  have f: "List.find (\<lambda>p. p_state (procs sched_example p) = RUNNABLE) [0..<NPROC] = Some 0"
    by (simp add: NPROC_def upt_conv_Cons sched_example_def)
  show ?thesis
    using scheduler_takes_first_runnable [OF sched_example_inv, of 1] unfolding f
    by (auto simp: sched_example_def)
qed




text \<open>
  C27: \<open>kill\<close> marks exactly the first process in the table that has the given pid and, if it sleeps,
  makes it RUNNABLE, returning 0; if no process has that pid it returns -1 and changes nothing.
\<close>

theorem kill_first_match:
  assumes "table_free s"
  shows "kill pid s =
    (case List.find (\<lambda>p. p_pid (procs s p) = pid) [0..<NPROC] of
       None \<Rightarrow> Ok (- 1) s
     | Some p \<Rightarrow> Ok 0 (upd_proc p (\<lambda>pr. pr\<lparr>p_killed := 1,
         p_state := (if p_state pr = SLEEPING then RUNNABLE else p_state pr)\<rparr>) s))"
proof -
  have eq: "killed = (\<lambda>pr. pr\<lparr>p_killed := 1,
      p_state := (if p_state pr = SLEEPING then RUNNABLE else p_state pr)\<rparr>)"
    by (simp add: fun_eq_iff killed_def)
  show ?thesis
    unfolding eq [symmetric]
    using assms kill_from_run [of s all_procs pid] by (simp add: kill_def table_free_def)
qed

theorem kill_first_match_witness:
  "kill 2 sched_example = Ok 0 (upd_proc 1 (\<lambda>pr. pr\<lparr>p_killed := 1,
     p_state := (if p_state pr = SLEEPING then RUNNABLE else p_state pr)\<rparr>) sched_example) \<and>
   kill 7 sched_example = Ok (- 1) sched_example"
proof -
  have "table_free sched_example"
    by (simp add: table_free_def sched_example_def idle_mach_def cpu_ok_def lock_free_def mach_defs)
  moreover have "List.find (\<lambda>p. p_pid (procs sched_example p) = 2) [0..<NPROC] = Some 1"
    by (simp add: NPROC_def upt_conv_Cons sched_example_def)
  moreover have "List.find (\<lambda>p. p_pid (procs sched_example p) = 7) [0..<NPROC] = None"
    by (auto simp: find_None_iff sched_example_def idle_proc_def)
  ultimately show ?thesis by (simp add: kill_first_match)
qed

end
