(* ===== verification/Example.thy ===== *)
theory Example
  imports Trap UserMem SchedInv
begin

text \<open>
  A concrete kernel state at which the properties of the later theories are instantiated: process 0
  runs on the only busy CPU, no lock is held, the caches are empty, and user memory is the page of
  \<open>us_example\<close>.
\<close>

definition empty_buf :: buf where
  "empty_buf = \<lparr>b_valid = False, b_disk = False, b_dev = 0, b_blockno = 0, b_refcnt = 0, b_prev = 0, b_next = 0,
     b_data = replicate BSIZE 0\<rparr>"

definition idle_disk :: vdisk where
  "idle_disk = \<lparr>vq_desc = (\<lambda>_. \<lparr>d_addr = NoAddr, d_len = 0, d_flags = 0, d_next = 0\<rparr>), av_ring = (\<lambda>_. 0), av_idx = 0,
     us_ring = (\<lambda>_. 0), us_idx = 0, vd_free = (\<lambda>i. i < NUM), vd_used_idx = 0, vd_buf = (\<lambda>_. None),
     vd_status = (\<lambda>_. 0), vd_ops = (\<lambda>_. \<lparr>rq_type = 0, rq_reserved = 0, rq_sector = 0\<rparr>), regs = (\<lambda>_. 0),
     bufs = (\<lambda>_. empty_buf), medium = (\<lambda>_. replicate BSIZE 0)\<rparr>"

definition empty_inode :: inode where
  "empty_inode = \<lparr>i_dev = 0, i_inum = 0, i_ref = 0, i_valid = False, i_type = 0, i_major = 0, i_minor = 0, i_nlink = 0,
     i_size = 0, i_addrs = (\<lambda>_. 0)\<rparr>"

definition empty_pipe :: pipe where
  "empty_pipe = \<lparr>pi_data = (\<lambda>_. 0), nread = 0, nwrite = 0, readopen = True, writeopen = True\<rparr>"

definition empty_file :: file_rec where
  "empty_file = \<lparr>f_type = FD_NONE, f_ref = 0, f_readable = False, f_writable = False, f_pipe = 0, f_ip = None,
     f_off = 0, f_major = 0\<rparr>"

definition example_procs :: "nat \<Rightarrow> proc" where
  "example_procs = (\<lambda>_. idle_proc)(0 := idle_proc\<lparr>p_state := RUNNING, p_pid := 1, p_sz := 4096, p_pagetable := us_root\<rparr>)"

definition kernel_example :: kgic where
  "kernel_example = \<lparr>hw = idle_mach, mem = mem us_example, freelist = 0,
     procs = example_procs, initproc = Some 0, nextpid = 2, fork_first = False,
     slocks = (\<lambda>_. \<lparr>sl_locked = False, sl_name = [], sl_pid = 0\<rparr>), vd = idle_disk, device = id,
     lg = \<lparr>lg_start = 2, lg_size = 30, lg_outstanding = 0, lg_committing = False, lg_dev = 1, lh_n = 0, lh_block = (\<lambda>_. 0)\<rparr>,
     fsb = \<lparr>sb_magic = 0x10203040, sb_size = 1000, sb_nblocks = 954, sb_ninodes = 200, sb_nlog = 30, sb_logstart = 2,
       sb_inodestart = 32, sb_bmapstart = 45\<rparr>,
     inodes = (\<lambda>_. empty_inode),
     uart_regs = (\<lambda>_. 0), uart_sent = [], uart_rx = [], uart_full = (\<lambda>_. False), uart_tx_buf = (\<lambda>_. 0),
     uart_tx_w = 0, uart_tx_r = 0, panicked = False,
     cons_buf = (\<lambda>_. 0), cons_r = 0, cons_w = 0, cons_e = 0, pr_locking = True,
     pipes = (\<lambda>_. empty_pipe), files = (\<lambda>_. empty_file), devsws = (\<lambda>_. \<lparr>dev_read = None, dev_write = None\<rparr>),
     stack_junk = (\<lambda>_. 0),
     gicd = (\<lambda>_. 0), gicc = (\<lambda>_. 0), gic_pending = [], isrs = (\<lambda>_. None), ticks = 0,
     cntp_ctl = (\<lambda>_. 0), cntp_cval = (\<lambda>_. 0), cntfrq = (\<lambda>_. 0), cntpct = (\<lambda>_. 0), started = False\<rparr>"

lemma kernel_example_simps [simp]:
  "hw kernel_example = idle_mach" "mem kernel_example = mem us_example" "procs kernel_example = example_procs"
  "vd kernel_example = idle_disk" "pipes kernel_example = (\<lambda>_. empty_pipe)" "files kernel_example = (\<lambda>_. empty_file)"
  "inodes kernel_example = (\<lambda>_. empty_inode)" "freelist kernel_example = 0" "initproc kernel_example = Some 0"
  "slocks kernel_example = (\<lambda>_. \<lparr>sl_locked = False, sl_name = [], sl_pid = 0\<rparr>)"
  by (simp_all add: kernel_example_def)

lemma running_example [simp]: "running 0 kernel_example"
  by (simp add: running_def kernel_example_def example_procs_def NPROC_def)
     (simp add: idle_mach_def mycpu_def mach_defs)

end
