(* ===== verification/Ring.thy ===== *)
theory Ring
  imports Prelude
begin

text \<open>
  Ring buffers with free-running 32-bit indices, as the pipe and the console input have them: the
  contents are read off the array between the two indices, and the index arithmetic may wrap. The
  locale holds for every size that divides \<open>2 ^ 32\<close>; it is interpreted for the buffer sizes of the
  kernel in the theories of its two clients.
\<close>

definition ring_list :: "nat \<Rightarrow> (nat \<Rightarrow> byte) \<Rightarrow> u32 \<Rightarrow> u32 \<Rightarrow> byte list" where
  "ring_list N d r w = map (\<lambda>i. d ((unat r + i) mod N)) [0..<unat (w - r)]"

lemma length_ring_list [simp]: "length (ring_list N d r w) = unat (w - r)"
  by (simp add: ring_list_def)

lemma ring_list_empty [simp]: "ring_list N d r r = []"
  by (simp add: ring_list_def)

lemma unat_pred: "x \<noteq> 0 \<Longrightarrow> unat x = Suc (unat (x - 1))" for x :: u32
proof -
  assume "x \<noteq> 0"
  then have "0 < unat x" by (metis unat_gt_0)
  then have "1 \<le> unat x" by simp
  then show ?thesis using unat_sub_if_size [of x 1] by simp
qed

locale ring =
  fixes N :: nat
  assumes size_pos: "0 < N" and size_small: "N < 2 ^ 32" and size_dvd: "N dvd 2 ^ 32"
begin

lemma mod_wrap: "(n mod 2 ^ 32) mod N = n mod N"
  using size_dvd by (rule mod_mod_cancel)

lemma index_add: "unat (r + of_nat i :: u32) mod N = (unat r + i) mod N"
proof -
  have "unat (r + of_nat i :: u32) = (unat r + i) mod 2 ^ 32"
    by (simp add: unat_word_ariths unat_of_nat mod_simps)
  then show ?thesis by (simp only: mod_wrap)
qed

lemma index_write: "unat w mod N = (unat r + unat (w - r)) mod N" for r w :: u32
  using index_add [of r "unat (w - r)"] by simp

lemma index_neq: "i < j \<Longrightarrow> j < N \<Longrightarrow> (a + i) mod N \<noteq> (a + j) mod N"
proof
  assume ij: "i < j" "j < N" and eq: "(a + i) mod N = (a + j) mod N"
  then have "N dvd (a + j) - (a + i)" by (metis mod_eq_dvd_iff_nat add_le_cancel_left less_imp_le)
  with ij show False by (simp add: dvd_imp_le nat_dvd_not_less)
qed

lemma step_size: "unat (w - r) < N \<Longrightarrow> unat (w + 1 - r) = Suc (unat (w - r))" for r w :: u32
proof -
  assume "unat (w - r) < N"
  then have small: "Suc (unat (w - r)) < 2 ^ 32" using size_small by simp
  have "w + 1 - r = (w - r) + 1" by simp
  then show ?thesis using small by (simp only: unat_word_ariths) simp
qed

lemma ring_put:
  assumes "unat (w - r) < N"
  shows "ring_list N (d(unat w mod N := c)) r (w + 1) = ring_list N d r w @ [c]"
proof -
  let ?k = "unat (w - r)" and ?d = "d(unat w mod N := c)"
  have "map (\<lambda>i. ?d ((unat r + i) mod N)) [0..<?k] = map (\<lambda>i. d ((unat r + i) mod N)) [0..<?k]"
    using assms index_neq [of _ ?k "unat r"] index_write [of w r] by (intro map_cong) auto
  then show ?thesis
    using step_size [OF assms] index_write [of w r] by (simp add: ring_list_def)
qed

lemma ring_take:
  assumes "r \<noteq> w"
  shows "ring_list N d r w = d (unat r mod N) # ring_list N d (r + 1) w"
proof -
  have "w - r \<noteq> 0" "w - (r + 1) = (w - r) - 1" using assms by simp_all
  then have k: "unat (w - r) = Suc (unat (w - (r + 1)))" using unat_pred by metis
  have "(unat (r + 1) + i) mod N = (unat r + Suc i) mod N" for i
    using index_add [of "r + 1" i] index_add [of r "Suc i"] by (simp add: add.assoc)
  then show ?thesis
    unfolding ring_list_def k by (simp add: upt_conv_Cons map_Suc_upt [symmetric] del: upt_Suc)
qed

lemma ring_unput:
  assumes "unat (w - r) \<le> N" and "r \<noteq> w"
  shows "ring_list N d r (w - 1) = butlast (ring_list N d r w)"
proof -
  have "w - r \<noteq> 0" "w - 1 - r = (w - r) - 1" using assms by simp_all
  then have "unat (w - r) = Suc (unat (w - 1 - r))" using unat_pred by metis
  then show ?thesis by (simp add: ring_list_def)
qed

end

end
