(* ===== verification/PipeSpec.thy ===== *)
theory PipeSpec
  imports Example Ring
begin

text \<open>
  Pipes as byte queues. A pipe's ring and counters stand for a list of at most 512 bytes;
  \<open>pipewrite\<close> and \<open>piperead\<close> are proved to append to it and to take from its front the bytes that
  they copy from and to user memory.
\<close>

section \<open>The queue\<close>

interpretation pipe_ring: ring PIPESIZE
  by unfold_locales (simp_all add: PIPESIZE_def)

definition pipe_queue :: "pipe \<Rightarrow> byte list" where
  "pipe_queue x = ring_list PIPESIZE (pi_data x) (nread x) (nwrite x)"

definition pipe_inv :: "pipe \<Rightarrow> bool" where
  "pipe_inv x \<longleftrightarrow> unat (nwrite x - nread x) \<le> PIPESIZE"

lemma length_pipe_queue: "length (pipe_queue x) = unat (nwrite x - nread x)"
  by (simp add: pipe_queue_def)

lemma pipe_inv_queue: "pipe_inv x \<longleftrightarrow> length (pipe_queue x) \<le> PIPESIZE"
  by (simp add: pipe_inv_def length_pipe_queue)

lemma pipe_full_iff: "pipe_full x \<longleftrightarrow> length (pipe_queue x) = PIPESIZE"
proof -
  have "pipe_full x \<longleftrightarrow> nwrite x - nread x = of_nat PIPESIZE"
    by (auto simp: pipe_full_def algebra_simps)
  also have "\<dots> \<longleftrightarrow> unat (nwrite x - nread x) = unat (of_nat PIPESIZE :: u32)"
    by (rule word_unat_eq_iff)
  finally show ?thesis by (simp add: length_pipe_queue PIPESIZE_def)
qed

lemma pipe_put_queue:
  assumes "length (pipe_queue x) < PIPESIZE"
  shows "pipe_queue (pipe_put c x) = pipe_queue x @ [c]"
  using assms by (simp add: pipe_queue_def pipe_put_def pipe_ring.ring_put)

lemma pipe_empty_iff: "nread x = nwrite x \<longleftrightarrow> pipe_queue x = []"
  using length_pipe_queue [of x] by (auto simp: unat_eq_zero)

lemma pipe_take_queue:
  assumes "pipe_queue x \<noteq> []"
  shows "pipe_queue x = pi_data x (unat (nread x) mod PIPESIZE) # pipe_queue (x\<lparr>nread := nread x + 1\<rparr>)"
  using assms pipe_empty_iff [of x] pipe_ring.ring_take [of "nread x" "nwrite x" "pi_data x"]
  by (simp add: pipe_queue_def)

section \<open>Executing the operations\<close>

lemma pipes_held [simp]:
  "pipes (held lk s) = pipes s" "pipes_update f (held lk s) = held lk (pipes_update f s)"
  by (simp_all add: held_def)

lemma get_pipe_run [simp]: "get_pipe pi s = Ok (pipes s pi) s"
  by (simp add: get_pipe_def)

lemma modify_pipe_run [simp]: "modify_pipe pi f s = Ok () (s\<lparr>pipes := (pipes s)(pi := f (pipes s pi))\<rparr>)"
  by (simp add: modify_pipe_def)

text \<open>One byte of user memory.\<close>

definition mapped_at :: "memory \<Rightarrow> u64 \<Rightarrow> u64 \<Rightarrow> nat \<Rightarrow> bool" where
  "mapped_at m pt va n \<longleftrightarrow> unat va + n \<le> 2 ^ 32 \<and> (\<forall>i < n. pt_map m pt (va + of_nat i) \<noteq> None)"

definition user_bytes :: "memory \<Rightarrow> u64 \<Rightarrow> u64 \<Rightarrow> nat \<Rightarrow> byte list" where
  "user_bytes m pt va n = map (\<lambda>i. the (user_byte m pt (va + of_nat i))) [0..<n]"

lemma unat_add_small: "unat va + n \<le> 2 ^ 32 \<Longrightarrow> unat (va + of_nat n) = unat va + n" for va :: u64
  by (simp add: unat_word_ariths unat_of_nat_u64)

lemma mapped_at_byte:
  assumes "mapped_at m pt va n" and "i < n"
  shows "unat (va + of_nat i) + 1 \<le> 2 ^ 32" "pt_map m pt (va + of_nat i) \<noteq> None"
  using assms unat_add_small [of va i] by (auto simp: mapped_at_def)

lemma copyin_byte:
  assumes "uspace (mem s) pt F" and "mapped_at (mem s) pt va n" and "i < n"
  shows "copyin pt (va + of_nat i) 1 s = Ok (0, [the (user_byte (mem s) pt (va + of_nat i))]) s"
  using copyin_loop_reads [OF assms(1), of "va + of_nat i" 1 "Suc (unat 1)" "[]"] mapped_at_byte [OF assms(2,3)]
  by (simp add: copyin_def)

lemma copyout_byte:
  assumes "uspace (mem s) pt F" and "mapped_at (mem s) pt va n" and "i < n"
  shows "\<exists>m. copyout pt (va + of_nat i) [c] 1 s = Ok 0 (s\<lparr>mem := m\<rparr>) \<and> uspace m pt F \<and>
    pt_map m pt = pt_map (mem s) pt \<and>
    (\<forall>a. a < 2 ^ 32 \<longrightarrow> user_byte m pt a = user_write (user_byte (mem s) pt) (va + of_nat i) [c] a)"
  using copyout_loop_writes [OF assms(1), of "[c]" 1 "va + of_nat i" "Suc (unat 1)"] mapped_at_byte [OF assms(2,3)]
  by (simp add: copyout_def)

text \<open>The critical section of a pipe, with the process table free.\<close>

lemma unlock_pipe: "running p s \<Longrightarrow> unlock (PipeLock pi) (held (PipeLock pi) s) = Ok () s"
  using running_cpu [of p s] by simp

lemma woken_simps [simp]:
  "hw (woken ch s) = hw s" "mem (woken ch s) = mem s"
  by (simp_all add: woken_def)

lemma pipes_woken [simp]: "pipes (woken ch s) = pipes s"
  by (simp add: woken_def)

lemma wakeup_pipe:
  "running p s \<Longrightarrow> wakeup ch (held (PipeLock pi) s) = Ok () (held (PipeLock pi) (woken ch s))"
  by (simp add: wakeup_held woken_def)

lemma running_pipes [simp]: "running p (s\<lparr>pipes := f\<rparr>) = running p s" "running p (s\<lparr>mem := m\<rparr>) = running p s"
  by (simp_all add: running_def)

text \<open>What \<open>pipewrite\<close> and \<open>piperead\<close> do last.\<close>

lemma pipe_finish:
  assumes "running p s"
  shows "seq (wakeup ch) (seq (unlock (PipeLock pi)) (return v)) (held (PipeLock pi) s) = Ok v (woken ch s)"
  using running_cpu [OF assms] wakeup_pipe [OF assms, of ch pi] by simp

lemma user_bytes_Suc:
  "i < n \<Longrightarrow> drop i (user_bytes m pt va n) = the (user_byte m pt (va + of_nat i)) # drop (Suc i) (user_bytes m pt va n)"
  by (simp add: user_bytes_def Cons_nth_drop_Suc [symmetric])

lemma pipewrite_loop_run:
  assumes "running p s" and "uspace (mem s) (p_pagetable (procs s p)) F"
    and "mapped_at (mem s) (p_pagetable (procs s p)) addr (i + k)"
    and "length (pipe_queue (pipes s pi)) + k \<le> PIPESIZE"
  shows "\<exists>x. pipewrite_loop p pi addr i k (held (PipeLock pi) s) =
      Ok (int (i + k)) (woken (ChanPipeRead pi) (s\<lparr>pipes := (pipes s)(pi := x)\<rparr>)) \<and>
    readopen x = readopen (pipes s pi) \<and> writeopen x = writeopen (pipes s pi) \<and>
    pipe_queue x = pipe_queue (pipes s pi) @ drop i (user_bytes (mem s) (p_pagetable (procs s p)) addr (i + k))"
  using assms
proof (induction k arbitrary: s i)
  case 0
  then show ?case
    using pipe_finish [of p s "ChanPipeRead pi" pi "int i"]
    by (intro exI [of _ "pipes s pi"]) (simp add: user_bytes_def)
next
  case (Suc k)
  let ?pt = "p_pagetable (procs s p)" and ?x = "pipes s pi"
  let ?c = "the (user_byte (mem s) ?pt (addr + of_nat i))"
  let ?s = "s\<lparr>pipes := (pipes s)(pi := pipe_put ?c ?x)\<rparr>"
  have room: "length (pipe_queue ?x) < PIPESIZE" using Suc.prems(4) by simp
  then have q: "pipe_queue (pipe_put ?c ?x) = pipe_queue ?x @ [?c]" by (rule pipe_put_queue)
  have cp: "copyin ?pt (addr + of_nat i) 1 (held (PipeLock pi) s) = Ok (0, [?c]) (held (PipeLock pi) s)"
    using copyin_byte [of "held (PipeLock pi) s"] Suc.prems(2,3) by simp
  have step: "pipewrite_loop p pi addr i (Suc k) (held (PipeLock pi) s) =
      pipewrite_loop p pi addr (Suc i) k (held (PipeLock pi) ?s)"
    using room cp by (simp add: pipe_full_iff)
  have "running p ?s" "uspace (mem ?s) (p_pagetable (procs ?s p)) F"
      "mapped_at (mem ?s) (p_pagetable (procs ?s p)) addr (Suc i + k)"
      "length (pipe_queue (pipes ?s pi)) + k \<le> PIPESIZE"
    using Suc.prems q by simp_all
  then obtain x where x: "pipewrite_loop p pi addr (Suc i) k (held (PipeLock pi) ?s) =
      Ok (int (Suc i + k)) (woken (ChanPipeRead pi) (?s\<lparr>pipes := (pipes ?s)(pi := x)\<rparr>))"
    "readopen x = readopen (pipes ?s pi)" "writeopen x = writeopen (pipes ?s pi)"
    "pipe_queue x = pipe_queue (pipes ?s pi) @ drop (Suc i) (user_bytes (mem ?s) (p_pagetable (procs ?s p)) addr (Suc i + k))"
    using Suc.IH [of ?s "Suc i"] by blast
  have upd: "?s\<lparr>pipes := (pipes ?s)(pi := x)\<rparr> = s\<lparr>pipes := (pipes s)(pi := x)\<rparr>" by simp
  have "pipewrite_loop p pi addr i (Suc k) (held (PipeLock pi) s) =
      Ok (int (i + Suc k)) (woken (ChanPipeRead pi) (s\<lparr>pipes := (pipes s)(pi := x)\<rparr>))"
    unfolding step x(1) upd by simp
  moreover have "readopen x = readopen ?x" "writeopen x = writeopen ?x"
    using x(2,3) by (simp_all add: pipe_put_def)
  moreover have "pipe_queue x = pipe_queue ?x @ drop i (user_bytes (mem s) ?pt addr (i + Suc k))"
    using x(4) q user_bytes_Suc [of i "i + Suc k" "mem s" ?pt addr] by simp
  ultimately show ?case by blast
qed

lemma user_write_Cons:
  assumes "length bs < 2 ^ 32" and "g a = user_write f va [c] a"
  shows "user_write g (va + 1) bs a = user_write f va (c # bs) a"
proof -
  have "user_write g (va + 1) bs a = user_write (user_write f va [c]) (va + of_nat (length [c])) bs a"
    using assms(2) by (simp add: user_write_def)
  also have "\<dots> = user_write f va ([c] @ bs) a"
    using assms(1) by (subst user_write_append) simp_all
  finally show ?thesis by simp
qed

lemma piperead_loop_run:
  assumes "uspace (mem s) (p_pagetable (procs s p)) F"
    and "mapped_at (mem s) (p_pagetable (procs s p)) addr (i + k)"
    and "n = min k (length (pipe_queue (pipes s pi)))"
  shows "\<exists>m x. piperead_loop p pi addr i k s = Ok (int (i + n)) (s\<lparr>mem := m, pipes := (pipes s)(pi := x)\<rparr>) \<and>
    uspace m (p_pagetable (procs s p)) F \<and> pt_map m (p_pagetable (procs s p)) = pt_map (mem s) (p_pagetable (procs s p)) \<and>
    readopen x = readopen (pipes s pi) \<and> writeopen x = writeopen (pipes s pi) \<and>
    pipe_queue x = drop n (pipe_queue (pipes s pi)) \<and>
    (\<forall>a. a < 2 ^ 32 \<longrightarrow> user_byte m (p_pagetable (procs s p)) a =
       user_write (user_byte (mem s) (p_pagetable (procs s p))) (addr + of_nat i) (take n (pipe_queue (pipes s pi))) a)"
  using assms
proof (induction k arbitrary: s i n)
  case 0
  then show ?case by (intro exI [of _ "mem s"] exI [of _ "pipes s pi"]) simp
next
  case (Suc k)
  let ?pt = "p_pagetable (procs s p)" and ?x = "pipes s pi"
  show ?case
  proof (cases "pipe_queue ?x = []")
    case True
    then show ?thesis using Suc.prems
      by (intro exI [of _ "mem s"] exI [of _ ?x]) (simp add: pipe_empty_iff)
  next
    case False
    let ?c = "pi_data ?x (unat (nread ?x) mod PIPESIZE)" and ?x' = "?x\<lparr>nread := nread ?x + 1\<rparr>"
    note q = pipe_take_queue [OF False]
    let ?s = "s\<lparr>pipes := (pipes s)(pi := ?x')\<rparr>"
    obtain m where m: "copyout ?pt (addr + of_nat i) [?c] 1 ?s = Ok 0 (?s\<lparr>mem := m\<rparr>)" "uspace m ?pt F"
        "pt_map m ?pt = pt_map (mem s) ?pt"
        "\<forall>a. a < 2 ^ 32 \<longrightarrow> user_byte m ?pt a = user_write (user_byte (mem s) ?pt) (addr + of_nat i) [?c] a"
      using copyout_byte [of ?s ?pt F addr "i + Suc k" i ?c] Suc.prems(1,2) by auto
    let ?t = "?s\<lparr>mem := m\<rparr>" and ?n = "min k (length (pipe_queue ?x'))"
    have n: "n = Suc ?n" using Suc.prems(3) q by (simp add: min_def)
    have "uspace (mem ?t) (p_pagetable (procs ?t p)) F" using m(2) by simp
    moreover have "mapped_at (mem ?t) (p_pagetable (procs ?t p)) addr (Suc i + k)"
      using m(3) Suc.prems(2) by (simp add: mapped_at_def)
    moreover have "?n = min k (length (pipe_queue (pipes ?t pi)))" by simp
    ultimately obtain m' x where raw:
        "piperead_loop p pi addr (Suc i) k ?t = Ok (int (Suc i + ?n)) (?t\<lparr>mem := m', pipes := (pipes ?t)(pi := x)\<rparr>)"
        "uspace m' (p_pagetable (procs ?t p)) F \<and> pt_map m' (p_pagetable (procs ?t p)) = pt_map (mem ?t) (p_pagetable (procs ?t p)) \<and>
         readopen x = readopen (pipes ?t pi) \<and> writeopen x = writeopen (pipes ?t pi) \<and> pipe_queue x = drop ?n (pipe_queue (pipes ?t pi))"
        "\<forall>a. a < 2 ^ 32 \<longrightarrow> user_byte m' (p_pagetable (procs ?t p)) a = user_write (user_byte (mem ?t) (p_pagetable (procs ?t p)))
           (addr + of_nat (Suc i)) (take ?n (pipe_queue (pipes ?t pi))) a"
      using Suc.IH [of ?t "Suc i" ?n] by blast
    then have IH: "piperead_loop p pi addr (Suc i) k ?t = Ok (int (Suc i + ?n)) (?t\<lparr>mem := m', pipes := (pipes ?t)(pi := x)\<rparr>)"
        "uspace m' ?pt F" "pt_map m' ?pt = pt_map m ?pt"
        "readopen x = readopen ?x" "writeopen x = writeopen ?x" "pipe_queue x = drop ?n (pipe_queue ?x')"
        "\<forall>a. a < 2 ^ 32 \<longrightarrow> user_byte m' ?pt a =
           user_write (user_byte m ?pt) (addr + of_nat (Suc i)) (take ?n (pipe_queue ?x')) a" by simp_all
    have "piperead_loop p pi addr i (Suc k) s = piperead_loop p pi addr (Suc i) k ?t"
      using False m(1) by (simp add: pipe_empty_iff Let_def)
    moreover have "?t\<lparr>mem := m', pipes := (pipes ?t)(pi := x)\<rparr> = s\<lparr>mem := m', pipes := (pipes s)(pi := x)\<rparr>" by simp
    ultimately have "piperead_loop p pi addr i (Suc k) s = Ok (int (i + n)) (s\<lparr>mem := m', pipes := (pipes s)(pi := x)\<rparr>)"
      unfolding IH(1) n by (simp only: add_Suc add_Suc_right)
    moreover have small: "?n < 2 ^ 32" using Suc.prems(2) by (auto simp: mapped_at_def min_def)
    have "user_byte m' ?pt a = user_write (user_byte (mem s) ?pt) (addr + of_nat i) (take n (pipe_queue ?x)) a"
      if "a < 2 ^ 32" for a
      using that IH(7) m(4) q n small
        user_write_Cons [of "take ?n (pipe_queue ?x')" "user_byte m ?pt" a "user_byte (mem s) ?pt" "addr + of_nat i" ?c]
      by (simp add: add.assoc add.commute [of 1])
    moreover have "pt_map m' ?pt = pt_map (mem s) ?pt" using IH(3) m(3) by (rule trans)
    moreover have "pipe_queue x = drop n (pipe_queue ?x)" using IH(6) n q by simp
    ultimately show ?thesis using IH(2,4,5) by blast
  qed
qed

section \<open>Properties\<close>

lemma us_mapped: "mapped_at (mem us_example) us_root 0 2"
  by (auto simp: mapped_at_def us_map less_2_cases_iff same_vpn_def PGD_IDX_def PMD_IDX_def PTE_IDX_def)

text \<open>
  C31: A write that fits appends exactly the bytes of the writer's buffer to the pipe, in order,
  returns their number, and makes every process that waits for data on this pipe RUNNABLE. The
  pipe never holds more than 512 bytes.
\<close>

theorem pipewrite_appends:
  assumes "running p s" and "uspace (mem s) (p_pagetable (procs s p)) F"
    and "mapped_at (mem s) (p_pagetable (procs s p)) addr n"
    and "length (pipe_queue (pipes s pi)) + n \<le> PIPESIZE"
  shows "\<exists>t. pipewrite pi addr (int n) s = Ok (int n) t \<and> pipe_inv (pipes t pi) \<and> mem t = mem s \<and> hw t = hw s \<and>
    pipe_queue (pipes t pi) = pipe_queue (pipes s pi) @ user_bytes (mem s) (p_pagetable (procs s p)) addr n \<and>
    (\<forall>q < NPROC. p_state (procs s q) = SLEEPING \<and> p_chan (procs s q) = Some (ChanPipeRead pi) \<longrightarrow>
       p_state (procs t q) = RUNNABLE)"
proof -
  note run = running_cpu [OF assms(1)]
  obtain x where x: "pipewrite_loop p pi addr 0 n (held (PipeLock pi) s) =
      Ok (int n) (woken (ChanPipeRead pi) (s\<lparr>pipes := (pipes s)(pi := x)\<rparr>))"
    "pipe_queue x = pipe_queue (pipes s pi) @ user_bytes (mem s) (p_pagetable (procs s p)) addr n"
    using pipewrite_loop_run [of p s F addr 0 n pi] assms by auto
  have "length (user_bytes (mem s) (p_pagetable (procs s p)) addr n) = n" by (simp add: user_bytes_def)
  with x(2) assms(4) have "pipe_inv x" by (simp add: pipe_inv_queue)
  with x run show ?thesis
    by (intro exI [of _ "woken (ChanPipeRead pi) (s\<lparr>pipes := (pipes s)(pi := x)\<rparr>)"])
       (simp add: pipewrite_def curproc_run woken_def wake_on_def)
qed

theorem pipewrite_appends_witness:
  "\<exists>t. pipewrite 0 0 2 kernel_example = Ok 2 t \<and> pipe_inv (pipes t 0) \<and>
     pipe_queue (pipes t 0) = user_bytes (mem us_example) us_root 0 2"
proof -
  have "mapped_at (mem us_example) us_root 0 2"
    by (rule us_mapped)
  then show ?thesis
    using pipewrite_appends [OF running_example, of "{}" 0 2 0] us_example_ok
    by (auto simp: example_procs_def pipe_queue_def empty_pipe_def PIPESIZE_def)
qed

text \<open>
  C32: A read from a pipe that holds data, or whose write side is closed, takes the first bytes of
  the pipe, as many as asked for and there are, puts them in order into the reader's buffer, and
  returns their number: 0 exactly at the end of the stream. No other byte of the reader's memory
  changes, and waiting writers become RUNNABLE.
\<close>

theorem piperead_takes:
  assumes "running p s" and "uspace (mem s) (p_pagetable (procs s p)) F"
    and "mapped_at (mem s) (p_pagetable (procs s p)) addr n"
    and "pipe_queue (pipes s pi) \<noteq> [] \<or> \<not> writeopen (pipes s pi)"
    and "k = min n (length (pipe_queue (pipes s pi)))"
  shows "\<exists>t. piperead pi addr (int n) s = Ok (int k) t \<and> pipe_queue (pipes t pi) = drop k (pipe_queue (pipes s pi)) \<and>
    (\<forall>a. a < 2 ^ 32 \<longrightarrow> user_byte (mem t) (p_pagetable (procs s p)) a =
       user_write (user_byte (mem s) (p_pagetable (procs s p))) addr (take k (pipe_queue (pipes s pi))) a) \<and>
    (\<forall>q < NPROC. p_state (procs s q) = SLEEPING \<and> p_chan (procs s q) = Some (ChanPipeWrite pi) \<longrightarrow>
       p_state (procs t q) = RUNNABLE)"
proof -
  let ?h = "held (PipeLock pi) s" and ?pt = "p_pagetable (procs s p)"
  note run = running_cpu [OF assms(1)]
  obtain m x where x: "piperead_loop p pi addr 0 n ?h = Ok (int k) (held (PipeLock pi) (s\<lparr>mem := m, pipes := (pipes s)(pi := x)\<rparr>))"
      "pipe_queue x = drop k (pipe_queue (pipes s pi))"
      "\<forall>a. a < 2 ^ 32 \<longrightarrow> user_byte m ?pt a = user_write (user_byte (mem s) ?pt) addr (take k (pipe_queue (pipes s pi))) a"
    using piperead_loop_run [of ?h p F addr 0 n k pi] assms by auto
  let ?t = "s\<lparr>mem := m, pipes := (pipes s)(pi := x)\<rparr>"
  have "seq (wakeup (ChanPipeWrite pi)) (seq (unlock (PipeLock pi)) (return (int k))) (held (PipeLock pi) ?t) =
      Ok (int k) (woken (ChanPipeWrite pi) ?t)"
    using assms(1) by (intro pipe_finish) simp
  then have "piperead pi addr (int n) s = Ok (int k) (woken (ChanPipeWrite pi) ?t)"
    using run x(1) assms(4) by (auto simp: piperead_def piperead_wait_def curproc_run pipe_empty_iff)
  with x show ?thesis
    by (intro exI [of _ "woken (ChanPipeWrite pi) ?t"]) (simp add: woken_def wake_on_def)
qed

theorem piperead_takes_witness:
  "let x = pipe_put 104 empty_pipe; s = kernel_example\<lparr>pipes := (\<lambda>_. x)\<rparr> in
   \<exists>t. piperead 0 0 2 s = Ok 1 t \<and> pipe_queue (pipes t 0) = [] \<and> user_byte (mem t) us_root 0 = Some 104"
proof -
  let ?x = "pipe_put 104 empty_pipe" and ?s = "kernel_example\<lparr>pipes := (\<lambda>_. pipe_put 104 empty_pipe)\<rparr>"
  have q: "pipe_queue ?x = [104]"
    using pipe_put_queue [of empty_pipe 104] by (simp add: pipe_queue_def empty_pipe_def PIPESIZE_def)
  have "mapped_at (mem us_example) us_root 0 2"
    by (rule us_mapped)
  then show ?thesis
    using piperead_takes [of 0 ?s "{}" 0 2 0 1] us_example_ok q
    by (auto simp: example_procs_def user_write_def)
qed



end
