(* ===== verification/Crash.thy ===== *)
theory Crash
  imports Prelude
begin

text \<open>
  Specifications of code that may be cut off. \<open>runs_to P m Q C\<close> says of every run of \<open>m\<close> from a state
  with \<open>P\<close>: it returns, and \<open>Q\<close> holds of the result and the state; or it gives up the CPU and never
  comes back, and then \<open>C\<close> holds of the state it leaves. It does not panic, hang, spin or do
  anything undefined. With a \<open>C\<close> that never holds this is total correctness.
\<close>

definition runs_to ::
  "('s \<Rightarrow> bool) \<Rightarrow> ('s \<Rightarrow> ('s, 'a) res) \<Rightarrow> ('a \<Rightarrow> 's \<Rightarrow> bool) \<Rightarrow> ('s \<Rightarrow> bool) \<Rightarrow> bool" where
  "runs_to P m Q C \<longleftrightarrow>
     (\<forall>s. P s \<longrightarrow> (case m s of Ok x t \<Rightarrow> Q x t | Stop e t \<Rightarrow> e = Switched \<and> C t))"

lemma runs_toI:
  "(\<And>s. P s \<Longrightarrow> (\<exists>x t. m s = Ok x t \<and> Q x t) \<or> (\<exists>t. m s = Stop Switched t \<and> C t)) \<Longrightarrow> runs_to P m Q C"
  by (fastforce simp: runs_to_def)

lemma runs_toD:
  "runs_to P m Q C \<Longrightarrow> P s \<Longrightarrow> (\<exists>x t. m s = Ok x t \<and> Q x t) \<or> (\<exists>t. m s = Stop Switched t \<and> C t)"
  by (cases "m s") (fastforce simp: runs_to_def)+

lemma runs_to_total: "runs_to P m Q (\<lambda>_. False) \<Longrightarrow> P s \<Longrightarrow> \<exists>x t. m s = Ok x t \<and> Q x t"
  by (auto dest: runs_toD)

lemma runs_to_conseq:
  assumes "runs_to P m Q C" "\<And>s. P' s \<Longrightarrow> P s" "\<And>x s. Q x s \<Longrightarrow> Q' x s" "\<And>s. C s \<Longrightarrow> C' s"
  shows "runs_to P' m Q' C'"
  using assms by (fastforce simp: runs_to_def split: res.splits)

lemma runs_to_pre: "runs_to P m Q C \<Longrightarrow> (\<And>s. P' s \<Longrightarrow> P s) \<Longrightarrow> runs_to P' m Q C"
  by (rule runs_to_conseq)

lemma runs_to_return: "(\<And>s. P s \<Longrightarrow> Q x s) \<Longrightarrow> runs_to P (return x) Q C"
  by (simp add: runs_to_def)

lemma runs_to_bind:
  "runs_to P m R C \<Longrightarrow> (\<And>x. runs_to (R x) (f x) Q C) \<Longrightarrow> runs_to P (bind m f) Q C"
  by (fastforce simp: runs_to_def split: res.splits)

lemma runs_to_seq:
  "runs_to P m (\<lambda>_. R) C \<Longrightarrow> runs_to R n Q C \<Longrightarrow> runs_to P (seq m n) Q C"
  by (fastforce simp: runs_to_def split: res.splits)

lemma runs_to_gets: "(\<And>s. P s \<Longrightarrow> f s = v) \<Longrightarrow> runs_to P (g v) Q C \<Longrightarrow> runs_to P (bind (gets f) g) Q C"
  by (simp add: runs_to_def)

lemma runs_to_modify: "(\<And>s. P s \<Longrightarrow> Q () (f s)) \<Longrightarrow> runs_to P (modify f) Q C"
  by (simp add: runs_to_def)

lemma runs_to_whenever:
  "(b \<Longrightarrow> runs_to P m Q C) \<Longrightarrow> (\<And>s. \<not> b \<Longrightarrow> P s \<Longrightarrow> Q () s) \<Longrightarrow> runs_to P (whenever b m) Q C"
  by (simp add: runs_to_def)

lemma runs_to_if:
  "(b \<Longrightarrow> runs_to P m Q C) \<Longrightarrow> (\<not> b \<Longrightarrow> runs_to P n Q C) \<Longrightarrow> runs_to P (if b then m else n) Q C"
  by simp

lemma runs_to_pure: "(b \<Longrightarrow> runs_to P m Q C) \<Longrightarrow> runs_to (\<lambda>s. b \<and> P s) m Q C"
  by (simp add: runs_to_def)

text \<open>A loop over indices, with an invariant for each index.\<close>

lemma runs_to_for_each:
  assumes "\<And>i. i < n \<Longrightarrow> runs_to (I i) (f i) (\<lambda>_. I (Suc i)) C"
  shows "runs_to (I 0) (for_each [0..<n] f) (\<lambda>_. I n) C"
proof -
  have "runs_to (I i) (for_each [i..<n] f) (\<lambda>_. I n) C" if "i \<le> n" for i
    using that
  proof (induction "n - i" arbitrary: i)
    case 0
    then show ?case by (simp add: runs_to_def)
  next
    case (Suc k)
    then have "i < n" by simp
    then have "[i..<n] = i # [Suc i..<n]" by (rule upt_conv_Cons)
    moreover have "runs_to (I (Suc i)) (for_each [Suc i..<n] f) (\<lambda>_. I n) C" using Suc \<open>i < n\<close> by simp
    ultimately show ?case using assms [OF \<open>i < n\<close>] by (simp add: runs_to_seq)
  qed
  then show ?thesis by simp
qed

section \<open>Panics\<close>

text \<open>The routine panics with the message \<open>msg\<close>, or is cut off.\<close>

definition panics :: "('s \<Rightarrow> bool) \<Rightarrow> ('s \<Rightarrow> ('s, 'a) res) \<Rightarrow> string \<Rightarrow> ('s \<Rightarrow> bool) \<Rightarrow> bool" where
  "panics P m msg C \<longleftrightarrow>
     (\<forall>s. P s \<longrightarrow> (case m s of Ok x t \<Rightarrow> False | Stop e t \<Rightarrow> e = Panic msg \<or> e = Switched \<and> C t))"

lemma panics_panic: "panics P (panic msg) msg C"
  by (simp add: panics_def)

lemma panics_bind: "runs_to P m R C \<Longrightarrow> (\<And>x. panics (R x) (f x) msg C) \<Longrightarrow> panics P (bind m f) msg C"
  by (fastforce simp: panics_def runs_to_def split: res.splits)

lemma panics_seq: "runs_to P m (\<lambda>_. R) C \<Longrightarrow> panics R n msg C \<Longrightarrow> panics P (seq m n) msg C"
  by (fastforce simp: panics_def runs_to_def split: res.splits)

lemma panics_gets: "(\<And>s. P s \<Longrightarrow> f s = v) \<Longrightarrow> panics P (g v) msg C \<Longrightarrow> panics P (bind (gets f) g) msg C"
  by (simp add: panics_def)

end
