(* ===== verification/DiskSpec.thy ===== *)
theory DiskSpec
  imports Virtio Crash
begin

text \<open>
  What the disk driver promises: \<open>virtio_disk_rw\<close> moves one block between a buffer and the disk and
  leaves everything else as it was. The device is known by \<open>device_ok\<close>, which states the block
  device of the virtio specification for one request in the queue. A device that may fail is one
  that can stop answering at any time, before or after a request has taken effect; this is how
  a power failure shows. Whole requests take effect or do not: the specification
  gives no such guarantee for a block of two sectors, it is the file system's assumption.
\<close>

section \<open>The device\<close>

definition sectors :: "(nat \<Rightarrow> byte list) \<Rightarrow> nat \<Rightarrow> nat \<Rightarrow> byte list" where
  "sectors m sec n = concat (map m [sec..<sec + n])"

definition put_sectors :: "(nat \<Rightarrow> byte list) \<Rightarrow> nat \<Rightarrow> nat \<Rightarrow> byte list \<Rightarrow> nat \<Rightarrow> byte list" where
  "put_sectors m sec n bs = (\<lambda>k. if sec \<le> k \<and> k < sec + n then take 512 (drop (512 * (k - sec)) bs) else m k)"

text \<open>The next request of the available ring: three descriptors for header, data and status.\<close>

definition serve :: "vdisk \<Rightarrow> vdisk" where
  "serve d =
     (let i0 = unat (av_ring d (unat (us_idx d) mod NUM)); e0 = vq_desc d i0;
          e1 = vq_desc d (unat (d_next e0)); e2 = vq_desc d (unat (d_next e1)) in
      case (d_addr e0, d_addr e1, d_addr e2) of
        (OpAddr j, BufAddr b, StatusAddr k) \<Rightarrow>
          let rq = vd_ops d j; sec = unat (rq_sector rq); n = unat (d_len e1) div 512;
              d = (if rq_type rq = VIRTIO_BLK_T_OUT
                   then d\<lparr>medium := put_sectors (medium d) sec n (b_data (bufs d b))\<rparr>
                   else upd_buf b (\<lambda>x. x\<lparr>b_data := sectors (medium d) sec n\<rparr>) d) in
          d\<lparr>vd_status := (vd_status d)(k := 0),
            us_ring := (us_ring d)(unat (us_idx d) mod NUM := of_nat i0), us_idx := us_idx d + 1\<rparr>
      | _ \<Rightarrow> d)"

definition device_ok :: "bool \<Rightarrow> (vdisk \<Rightarrow> vdisk) \<Rightarrow> bool" where
  "device_ok may_fail dev \<longleftrightarrow>
     (\<forall>d. av_idx d = us_idx d + 1 \<longrightarrow>
        (\<exists>r. dev d = (serve d)\<lparr>regs := r\<rparr>) \<or>
        may_fail \<and> (\<exists>r. dev d = d\<lparr>regs := r\<rparr> \<or> dev d = d\<lparr>medium := medium (serve d), regs := r\<rparr>))"

section \<open>Blocks\<close>

definition disk_block :: "(nat \<Rightarrow> byte list) \<Rightarrow> nat \<Rightarrow> byte list" where
  "disk_block m k = sectors m (2 * k) 2"

lemma disk_block_put:
  assumes "length bs = BSIZE"
  shows "disk_block (put_sectors m (2 * k) 2 bs) = (disk_block m)(k := bs)"
proof
  fix j
  have "take 512 bs @ take 512 (drop 512 bs) = bs" using assms append_take_drop_id [of 512 bs] by (simp add: BSIZE_def)
  moreover have "j < k \<or> k < j \<or> j = k" by arith
  ultimately show "disk_block (put_sectors m (2 * k) 2 bs) j = ((disk_block m)(k := bs)) j"
    by (auto simp: disk_block_def sectors_def put_sectors_def upt_rec)
qed

lemma length_put_sectors:
  "\<forall>k. length (m k) = 512 \<Longrightarrow> length bs = BSIZE \<Longrightarrow> length (put_sectors m (2 * j) 2 bs k) = 512"
  by (auto simp: put_sectors_def BSIZE_def)

lemma length_disk_block: "\<forall>k. length (m k) = 512 \<Longrightarrow> length (disk_block m j) = BSIZE"
  by (simp add: disk_block_def sectors_def upt_rec BSIZE_def)

section \<open>The kernel state\<close>

lemma kdisk_held [simp]:
  "vd (held lk s) = vd s" "vd_update f (held lk s) = held lk (vd_update f s)" "device (held lk s) = device s"
  "kdisk.more (held lk s) = kdisk.more s"
  by (simp_all add: held_def)

lemma kdisk_upd_proc [simp]:
  "vd (upd_proc i g s) = vd s" "vd_update f (upd_proc i g s) = upd_proc i g (vd_update f s)"
  "device (upd_proc i g s) = device s" "slocks (upd_proc i g s) = slocks s" "kdisk.more (upd_proc i g s) = kdisk.more s"
  by (simp_all add: upd_proc_def)

lemma kdisk_with_proc [simp]:
  "vd (with_proc p s) = vd s" "vd_update f (with_proc p s) = with_proc p (vd_update f s)"
  "device (with_proc p s) = device s" "slocks (with_proc p s) = slocks s" "kdisk.more (with_proc p s) = kdisk.more s"
  by (simp_all add: with_proc_def)

lemma kdisk_dispatched [simp]:
  "vd (dispatched p s) = vd s" "device (dispatched p s) = device s" "slocks (dispatched p s) = slocks s"
  "kdisk.more (dispatched p s) = kdisk.more s"
  by (simp_all add: dispatched_def with_ttbr0_def)

lemma kdisk_woken [simp]:
  "vd (woken ch s) = vd s" "vd_update f (woken ch s) = woken ch (vd_update f s)" "device (woken ch s) = device s"
  "slocks (woken ch s) = slocks s" "kdisk.more (woken ch s) = kdisk.more s"
  by (simp_all add: woken_def cong: if_cong)

lemma woken_proc [simp]:
  "p_pid (procs (woken ch s) q) = p_pid (procs s q)" "p_pagetable (procs (woken ch s) q) = p_pagetable (procs s q)"
  "p_chan (procs (woken ch s) q) = p_chan (procs s q)" "hw (woken ch s) = hw s"
  by (simp_all add: woken_def wake_on_def)

text \<open>The CPU outside any critical section.\<close>

definition quiet :: "'z kbase_scheme \<Rightarrow> bool" where
  "quiet s \<longleftrightarrow> cpu_ok (hw s) \<and> noff (mycpu (hw s)) = 0 \<and> (\<forall>lk. lock_free lk (hw s))"

lemma running_quiet:
  "running p s \<longleftrightarrow> quiet s \<and> cpu_proc (mycpu (hw s)) = Some p \<and> p < NPROC \<and> p_state (procs s p) = RUNNING"
  by (auto simp: running_def quiet_def)

lemma quietD: "quiet s \<Longrightarrow> cpu_ok (hw s)" "quiet s \<Longrightarrow> noff (mycpu (hw s)) = 0" "quiet s \<Longrightarrow> lock_free lk (hw s)"
  by (simp_all add: quiet_def)

lemma wakeup_quiet:
  assumes "quiet s" "\<And>q. lk \<noteq> ProcLock q"
  shows "wakeup ch (held lk s) = Ok () (held lk (woken ch s))"
proof -
  have "table_free (held lk s)" using quietD [OF assms(1)] assms(2) by (auto simp: table_free_def)
  from wakeup_run [OF this, of ch] show ?thesis by (simp add: woken_def cong: if_cong)
qed

section \<open>Interrupts\<close>

lemma get_vd_run [simp]: "get_vd f s = Ok (f (vd s)) s"
  by (simp add: get_vd_def)

lemma modify_vd_run [simp]: "modify_vd f s = Ok () (s\<lparr>vd := f (vd s)\<rparr>)"
  by (simp add: modify_vd_def)

lemma reg_run [simp]:
  "read_reg r s = Ok (regs (vd s) r) s"
  "write_reg r v s = Ok () (s\<lparr>vd := (vd s)\<lparr>regs := (regs (vd s))(r := v)\<rparr>\<rparr>)"
  by (simp_all add: read_reg_def write_reg_def)

lemma buf_run [simp]:
  "get_buf i s = Ok (bufs (vd s) i) s" "modify_buf i f s = Ok () (s\<lparr>vd := upd_buf i f (vd s)\<rparr>)"
  by (simp_all add: get_buf_def modify_buf_def)

definition acked :: "vdisk \<Rightarrow> vdisk" where
  "acked d = d\<lparr>regs := (regs d)(VIRTIO_MMIO_INTERRUPT_ACK := regs d VIRTIO_MMIO_INTERRUPT_STATUS AND 3)\<rparr>"

lemma intr_loop_idle:
  "vd_used_idx (vd s) = us_idx (vd s) \<Longrightarrow> fuel \<noteq> 0 \<Longrightarrow> virtio_intr_loop fuel s = Ok () s"
  by (subst virtio_intr_loop.simps) simp

lemma virtio_disk_intr_idle:
  assumes "quiet s" "vd_used_idx (vd s) = us_idx (vd s)"
  shows "virtio_disk_intr s = Ok () (s\<lparr>vd := acked (vd s)\<rparr>)"
  using assms quietD [OF assms(1)]
  by (simp add: virtio_disk_intr_def intr_loop_idle acked_def)

lemma virtio_disk_intr_one:
  assumes "quiet s" "us_idx (vd s) = vd_used_idx (vd s) + 1"
    and "unat (us_ring (vd s) (unat (vd_used_idx (vd s)) mod NUM)) = i" "i < NUM"
    and "vd_status (vd s) i = 0" "vd_buf (vd s) i = Some b"
  shows "virtio_disk_intr s =
    Ok () (woken (ChanBuf b) (s\<lparr>vd := (upd_buf b (\<lambda>x. x\<lparr>b_disk := False\<rparr>) (acked (vd s)))\<lparr>vd_used_idx := us_idx (vd s)\<rparr>\<rparr>))"
proof -
  let ?s = "s\<lparr>vd := upd_buf b (\<lambda>x. x\<lparr>b_disk := False\<rparr>) (acked (vd s))\<rparr>"
  have q: "quiet ?s" using assms(1) by (simp add: quiet_def)
  have ne: "vd_used_idx (vd s) \<noteq> us_idx (vd s)" using assms(2) by simp
  have "virtio_intr_loop (2 ^ 16) (held VdiskLock (s\<lparr>vd := acked (vd s)\<rparr>)) =
      Ok () (held VdiskLock (woken (ChanBuf b) (s\<lparr>vd := (upd_buf b (\<lambda>x. x\<lparr>b_disk := False\<rparr>) (acked (vd s)))\<lparr>vd_used_idx := us_idx (vd s)\<rparr>\<rparr>)))"
    using assms ne wakeup_quiet [OF q, of VdiskLock "ChanBuf b"]
    by (subst virtio_intr_loop.simps) (simp add: acked_def Let_def upd_buf_def intr_loop_idle)
  then show ?thesis using quietD [OF assms(1)] by (simp add: virtio_disk_intr_def acked_def)
qed

section \<open>Waiting for the device\<close>

text \<open>Up to the run of the device: the process sleeps and the CPU is in the scheduler.\<close>

definition dozing :: "nat \<Rightarrow> nat \<Rightarrow> 'z kdisk_scheme \<Rightarrow> 'z kdisk_scheme" where
  "dozing p b s = (with_proc None (upd_proc p (asleep (ChanBuf b)) s))\<lparr>vd := device s (vd s)\<rparr>"

lemma dozing_simps [simp]:
  "vd (dozing p b s) = device s (vd s)" "device (dozing p b s) = device s" "slocks (dozing p b s) = slocks s"
  "kdisk.more (dozing p b s) = kdisk.more s"
  "procs (dozing p b s) = (procs s)(p := asleep (ChanBuf b) (procs s p))"
  "quiet (dozing p b s) = quiet s"
  by (simp_all add: dozing_def quiet_def with_proc_def [symmetric])

lemma disk_sleep_run:
  assumes "running p s"
  shows "disk_sleep b (held VdiskLock s) =
    (case virtio_disk_intr (dozing p b s) of
       Stop e t \<Rightarrow> Stop e t
     | Ok _ t \<Rightarrow> bind (scheduler_from [p]) (\<lambda>r.
         if r = None then stop Switched else sleep_finish (intr_get (hw s)) p VdiskLock) t)"
proof -
  note run = running_cpu [OF assms]
  have "(sleep (ChanBuf b) VdiskLock (held VdiskLock s) :: (_, unit) res) =
      Stop Switched (held (ProcLock p) (upd_proc p (asleep (ChanBuf b)) s))"
    using run by (intro sleep_run) simp_all
  moreover have "scheduler_back p (held (ProcLock p) (upd_proc p (asleep (ChanBuf b)) s)) =
      Ok () (with_proc None (upd_proc p (asleep (ChanBuf b)) s))"
    using run by (intro scheduler_back_run) simp_all
  moreover have "intena (mycpu (acq VdiskLock (hw s))) = intr_get (hw s)"
    using run(2) by (simp add: acq_def pushed_def mycpu_def cpuid_def)
  ultimately show ?thesis
    using run by (simp add: disk_sleep_def curproc_run resume_after_def dozing_def del: scheduler_from.simps split: res.splits)
qed

lemma sched_finish_doze:
  assumes "noff (mycpu (hw s)) = 0"
  shows "sched_finish (intr_get (hw s)) (held lk s) = Ok () (held lk s)"
proof -
  have "upd_mycpu (\<lambda>c. c\<lparr>intena := intr_get (hw s)\<rparr>) (acq lk (hw s)) = acq lk (hw s)"
    using assms by (intro mach_eqI) (simp_all add: acq_def pushed_def mach_defs fun_eq_iff)
  then show ?thesis by (simp add: sched_finish_def on_hw_def held_def)
qed

lemma disk_sleep_wakes:
  assumes run: "running p s" and pt: "p_pagetable (procs s p) \<noteq> 0"
    and intr: "virtio_disk_intr (dozing p b s) = Ok () (woken (ChanBuf b) t)"
    and t: "procs t = procs (dozing p b s)" "hw t = hw (dozing p b s)"
  shows "\<exists>u. disk_sleep b (held VdiskLock s) = Ok () (held VdiskLock u) \<and> running p u \<and>
    vd u = vd t \<and> device u = device t \<and> slocks u = slocks t \<and> kdisk.more u = kdisk.more t \<and>
    p_pid (procs u p) = p_pid (procs s p) \<and> p_pagetable (procs u p) = p_pagetable (procs s p)"
proof -
  let ?w = "woken (ChanBuf b) t"
  note r = running_cpu [OF run]
  have q: "quiet s" using run by (simp add: running_quiet)
  then have qw: "quiet ?w" using t(2) by (simp add: quiet_def dozing_def)
  have pw: "procs ?w p = (procs s p)\<lparr>p_chan := Some (ChanBuf b), p_state := RUNNABLE\<rparr>"
    using r(5) t(1) by (simp add: woken_def wake_on_def asleep_def)
  have sched: "scheduler_from [p] ?w = Ok (Some p) (held (ProcLock p) (dispatched p ?w))"
    using quietD [OF qw] pw pt by (subst scheduler_from_run) simp_all
  let ?d = "dispatched p ?w"
  let ?u = "upd_proc p (\<lambda>pr. pr\<lparr>p_chan := None\<rparr>) ?d"
  have qd: "quiet ?d" using qw by (simp add: quiet_def dispatched_def)
  have ig: "intr_get (hw ?d) = intr_get (hw s)"
    using t(2) by (simp add: dispatched_def with_ttbr0_def with_proc_def dozing_def mach_defs)
  have "sched_finish (intr_get (hw s)) (held (ProcLock p) ?d) = Ok () (held (ProcLock p) ?d)"
    using sched_finish_doze [OF quietD(2) [OF qd]] ig by simp
  then have "sleep_finish (intr_get (hw s)) p VdiskLock (held (ProcLock p) ?d) = Ok () (held VdiskLock ?u)"
    using quietD [OF qd] by (simp add: sleep_finish_def)
  then have "disk_sleep b (held VdiskLock s) = Ok () (held VdiskLock ?u)"
    using sched intr by (simp add: disk_sleep_run [OF run])
  moreover have "running p ?u"
    using qd r(5) by (simp add: running_quiet quiet_def dispatched_def)
  moreover have "procs ?d p = (procs ?w p)\<lparr>p_state := RUNNING\<rparr>" by (simp add: dispatched_def)
  ultimately show ?thesis using pw by (intro exI [of _ ?u]) simp
qed

lemma disk_sleep_dies:
  assumes run: "running p s" and used: "vd_used_idx (device s (vd s)) = us_idx (device s (vd s))"
  shows "\<exists>u. disk_sleep b (held VdiskLock s) = Stop Switched u \<and> vd u = acked (device s (vd s))"
proof -
  note r = running_cpu [OF run]
  let ?t = "(dozing p b s)\<lparr>vd := acked (device s (vd s))\<rparr>"
  have q: "quiet (dozing p b s)" using run by (simp add: running_quiet)
  then have "virtio_disk_intr (dozing p b s) = Ok () ?t"
    using virtio_disk_intr_idle [OF q] used by simp
  moreover have "scheduler_from [p] ?t = Ok None ?t"
    using quietD [OF q] r(5) by (subst scheduler_from_run) (simp_all add: asleep_def)
  ultimately show ?thesis by (simp add: disk_sleep_run [OF run])
qed

section \<open>Requests\<close>

definition disk_idle :: "vdisk \<Rightarrow> bool" where
  "disk_idle d \<longleftrightarrow> (\<forall>i < NUM. vd_free d i) \<and> av_idx d = us_idx d \<and> vd_used_idx d = us_idx d"

lemma running_woken: "running p s \<Longrightarrow> running p (woken ch s)"
  by (simp add: running_quiet quiet_def) (simp add: woken_def wake_on_def)

lemma running_vd [simp]: "running p (vd_update f s) = running p s"
  by (simp add: running_def)

lemma upt_NUM: "[0..<NUM] = [0, 1, 2] @ [3..<8]"
  by (simp add: NUM_def upt_conv_Cons)

definition claimed :: "vdisk \<Rightarrow> vdisk" where
  "claimed d = d\<lparr>vd_free := (vd_free d)(0 := False, 1 := False, 2 := False)\<rparr>"

lemma alloc3_desc_idle:
  assumes "disk_idle (vd s)"
  shows "alloc3_desc s = Ok (Some (0, 1, 2)) (s\<lparr>vd := claimed (vd s)\<rparr>)"
proof -
  have "vd_free (vd s) 0" "vd_free (vd s) 1" "vd_free (vd s) 2"
    using assms by (simp_all add: disk_idle_def NUM_def)
  then show ?thesis by (simp add: alloc3_desc_def alloc_desc_def upt_NUM claimed_def)
qed

definition request :: "nat \<Rightarrow> bool \<Rightarrow> vdisk \<Rightarrow> vdisk" where
  "request b write d = format_request b write (ucast (b_blockno (bufs d b) * (of_nat BSIZE div 512))) 0 1 2 (claimed d)"

lemma virtio_disk_start_run:
  assumes "running p s" "disk_idle (vd s)"
  shows "virtio_disk_start b write s = Ok 0 (held VdiskLock (s\<lparr>vd := request b write (vd s)\<rparr>))"
  using running_cpu [OF assms(1)] assms(2)
  by (simp add: virtio_disk_start_def alloc3_desc_idle request_def Let_def)

definition freed :: "nat \<Rightarrow> vdisk \<Rightarrow> vdisk" where
  "freed i d = (upd_desc i (\<lambda>e. e\<lparr>d_addr := NoAddr, d_len := 0, d_flags := 0, d_next := 0\<rparr>) d)\<lparr>vd_free := (vd_free d)(i := True)\<rparr>"

lemma free_desc_run:
  assumes "quiet s" "i < NUM" "\<not> vd_free (vd s) i"
  shows "free_desc (int i) (held VdiskLock s) = Ok () (held VdiskLock (woken ChanDiskFree (s\<lparr>vd := freed i (vd s)\<rparr>)))"
proof -
  have "quiet (s\<lparr>vd := freed i (vd s)\<rparr>)" using assms(1) by (simp add: quiet_def)
  from wakeup_quiet [OF this, of VdiskLock ChanDiskFree] assms(2,3) show ?thesis
    by (simp add: free_desc_def freed_def upd_desc_def)
qed

lemma freed_simps [simp]:
  "vd_free (freed i d) = (vd_free d)(i := True)" "j \<noteq> i \<Longrightarrow> vq_desc (freed i d) j = vq_desc d j"
  "bufs (freed i d) = bufs d" "medium (freed i d) = medium d" "us_idx (freed i d) = us_idx d"
  "av_idx (freed i d) = av_idx d" "vd_used_idx (freed i d) = vd_used_idx d"
  by (simp_all add: freed_def upd_desc_def)

lemma quiet_simps [simp]: "quiet (vd_update f s) = quiet s" "quiet (woken ch s) = quiet s"
  by (simp_all add: quiet_def)

text \<open>Freeing the three descriptors of a request.\<close>

lemma free_chain_run:
  fixes s :: "'z kdisk_scheme"
  assumes "quiet s" "\<forall>i < 3. \<not> vd_free (vd s) i"
    and "d_flags (vq_desc (vd s) 0) AND VRING_DESC_F_NEXT \<noteq> 0" "d_next (vq_desc (vd s) 0) = 1"
    and "d_flags (vq_desc (vd s) 1) AND VRING_DESC_F_NEXT \<noteq> 0" "d_next (vq_desc (vd s) 1) = 2"
    and "d_flags (vq_desc (vd s) 2) AND VRING_DESC_F_NEXT = 0"
  shows "vd_free_chain 0 (held VdiskLock s) =
    Ok () (held VdiskLock (woken ChanDiskFree (woken ChanDiskFree (woken ChanDiskFree (s\<lparr>vd := freed 2 (freed 1 (freed 0 (vd s)))\<rparr>)))))"
proof -
  have n: "0 < NUM" "1 < NUM" "2 < NUM" by (simp_all add: NUM_def)
  let ?s1 = "woken ChanDiskFree (s\<lparr>vd := freed 0 (vd s)\<rparr>)"
  let ?s2 = "woken ChanDiskFree (?s1\<lparr>vd := freed 1 (vd ?s1)\<rparr>)"
  have f0: "free_desc 0 (held VdiskLock s) = Ok () (held VdiskLock ?s1)"
    using free_desc_run [of s 0] assms(1,2) n by simp
  have f1: "free_desc 1 (held VdiskLock ?s1) = Ok () (held VdiskLock ?s2)"
    using free_desc_run [of ?s1 1] assms(1,2) n by simp
  have f2: "free_desc 2 (held VdiskLock ?s2) = Ok () (held VdiskLock (woken ChanDiskFree (?s2\<lparr>vd := freed 2 (vd ?s2)\<rparr>)))"
    using free_desc_run [of ?s2 2] assms(1,2) n by simp
  show ?thesis
    unfolding vd_free_chain_def NUM_def
    using assms f0 f1 f2 by (simp add: free_chain_loop.simps NUM_def)
qed

section \<open>Reading and writing a block\<close>

definition answered :: "nat \<Rightarrow> bool \<Rightarrow> nat \<Rightarrow> vdisk \<Rightarrow> vdisk" where
  "answered b write k d =
     (if write then d\<lparr>medium := put_sectors (medium d) (2 * k) 2 (b_data (bufs d b))\<rparr>
      else upd_buf b (\<lambda>x. x\<lparr>b_data := disk_block (medium d) k\<rparr>) d)
     \<lparr>vd_status := (vd_status d)(0 := 0), us_ring := (us_ring d)(unat (us_idx d) mod NUM := 0), us_idx := us_idx d + 1\<rparr>"

lemma request_simps [simp]:
  "us_idx (request b w d) = us_idx d" "vd_used_idx (request b w d) = vd_used_idx d" "av_idx (request b w d) = av_idx d + 1"
  "medium (request b w d) = medium d" "vd_buf (request b w d) = (vd_buf d)(0 := Some b)"
  "bufs (request b w d) = (bufs d)(b := (bufs d b)\<lparr>b_disk := True\<rparr>)"
  "vd_free (request b w d) = (vd_free d)(0 := False, 1 := False, 2 := False)"
  by (simp_all add: request_def format_request_def claimed_def upd_desc_def upd_buf_def Let_def)

lemma request_desc:
  "d_flags (vq_desc (request b w d) 0) = VRING_DESC_F_NEXT" "d_next (vq_desc (request b w d) 0) = 1"
  "d_flags (vq_desc (request b w d) 1) = (if w then VRING_DESC_F_NEXT else VRING_DESC_F_NEXT OR VRING_DESC_F_WRITE)"
  "d_next (vq_desc (request b w d) 1) = 2"
  "d_flags (vq_desc (request b w d) 2) = VRING_DESC_F_WRITE"
  by (simp_all add: request_def format_request_def claimed_def upd_desc_def upd_buf_def Let_def)

lemma sector_no:
  assumes "unat (w :: u32) < 2 ^ 31"
  shows "unat (ucast (w * (of_nat BSIZE div 512)) :: u64) = 2 * unat w"
proof -
  have "(of_nat BSIZE div 512 :: u32) = 2" by (simp add: BSIZE_def)
  moreover have eq: "unat (w * 2) = 2 * unat w" using assms by (simp add: unat_mult_lem [THEN iffD1] mult.commute)
  moreover have "unat (w * 2) < 2 ^ 64" using assms eq by simp
  ultimately show ?thesis by (simp add: unsigned_ucast_eq take_bit_nat_eq_self)
qed

lemma serve_request:
  assumes "av_idx d = us_idx d" "unat (b_blockno (bufs d b)) < 2 ^ 31"
  shows "serve (request b w d) = answered b w (unat (b_blockno (bufs d b))) (request b w d)"
  using sector_no [OF assms(2)] assms(1)
  by (simp add: serve_def request_def format_request_def claimed_def upd_desc_def upd_buf_def Let_def answered_def
      BSIZE_def disk_block_def VIRTIO_BLK_T_OUT_def VIRTIO_BLK_T_IN_def)

text \<open>
  The kernel between two requests: process \<open>p\<close> runs, the disk is idle, the sleep locks, the rest of
  the state, the buffers and the blocks of the disk are \<open>K\<close>, \<open>Z\<close>, \<open>B\<close> and \<open>D\<close>.
\<close>

definition disk_at ::
  "bool \<Rightarrow> nat \<Rightarrow> int \<Rightarrow> (slid \<Rightarrow> sleeplock) \<Rightarrow> 'z \<Rightarrow> (nat \<Rightarrow> buf) \<Rightarrow> (nat \<Rightarrow> byte list) \<Rightarrow> 'z kdisk_scheme \<Rightarrow> bool" where
  "disk_at f p pid K Z B D s \<longleftrightarrow>
     running p s \<and> p_pid (procs s p) = pid \<and> p_pagetable (procs s p) \<noteq> 0 \<and>
     device_ok f (device s) \<and> disk_idle (vd s) \<and> (\<forall>k. length (medium (vd s) k) = 512) \<and>
     slocks s = K \<and> kdisk.more s = Z \<and> bufs (vd s) = B \<and> disk_block (medium (vd s)) = D"

lemma virtio_disk_end_run:
  assumes "running p u" "\<forall>i < 3. \<not> vd_free (vd u) i"
    and "d_flags (vq_desc (vd u) 0) AND VRING_DESC_F_NEXT \<noteq> 0" "d_next (vq_desc (vd u) 0) = 1"
    and "d_flags (vq_desc (vd u) 1) AND VRING_DESC_F_NEXT \<noteq> 0" "d_next (vq_desc (vd u) 1) = 2"
    and "d_flags (vq_desc (vd u) 2) AND VRING_DESC_F_NEXT = 0"
  shows "\<exists>v. virtio_disk_end 0 (held VdiskLock u) = Ok () v \<and> running p v \<and>
    vd v = freed 2 (freed 1 (freed 0 ((vd u)\<lparr>vd_buf := (vd_buf (vd u))(0 := None)\<rparr>))) \<and>
    device v = device u \<and> slocks v = slocks u \<and> kdisk.more v = kdisk.more u \<and>
    p_pid (procs v p) = p_pid (procs u p) \<and> p_pagetable (procs v p) = p_pagetable (procs u p)"
proof -
  let ?u = "u\<lparr>vd := (vd u)\<lparr>vd_buf := (vd_buf (vd u))(0 := None)\<rparr>\<rparr>"
  let ?v = "woken ChanDiskFree (woken ChanDiskFree (woken ChanDiskFree (?u\<lparr>vd := freed 2 (freed 1 (freed 0 (vd ?u)))\<rparr>)))"
  have q: "quiet ?u" using assms(1) by (simp add: running_quiet)
  have "vd_free_chain 0 (held VdiskLock ?u) = Ok () (held VdiskLock ?v)"
    using free_chain_run [OF q] assms(2-) by simp
  moreover have "running p ?v" using assms(1) by (simp add: running_woken)
  ultimately show ?thesis using running_cpu [OF assms(1)]
    by (intro exI [of _ ?v]) (simp add: virtio_disk_end_def)
qed

lemma answered_simps [simp]:
  "us_idx (answered b w k d) = us_idx d + 1" "vd_used_idx (answered b w k d) = vd_used_idx d" "av_idx (answered b w k d) = av_idx d"
  "vd_free (answered b w k d) = vd_free d" "vq_desc (answered b w k d) = vq_desc d" "vd_buf (answered b w k d) = vd_buf d"
  "medium (answered b w k d) = (if w then put_sectors (medium d) (2 * k) 2 (b_data (bufs d b)) else medium d)"
  "bufs (answered b w k d) = (if w then bufs d else (bufs d)(b := (bufs d b)\<lparr>b_data := disk_block (medium d) k\<rparr>))"
  "vd_status (answered b w k d) 0 = 0" "us_ring (answered b w k d) (unat (us_idx d) mod NUM) = 0"
  by (simp_all add: answered_def upd_buf_def)

lemma acked_simps [simp]:
  "us_idx (acked d) = us_idx d" "vd_used_idx (acked d) = vd_used_idx d" "av_idx (acked d) = av_idx d"
  "vd_free (acked d) = vd_free d" "vq_desc (acked d) = vq_desc d" "vd_buf (acked d) = vd_buf d"
  "medium (acked d) = medium d" "bufs (acked d) = bufs d"
  by (simp_all add: acked_def)

lemma flags_next:
  "VRING_DESC_F_NEXT \<noteq> 0" "VRING_DESC_F_WRITE AND VRING_DESC_F_NEXT = 0"
  "(if w then VRING_DESC_F_NEXT else VRING_DESC_F_NEXT OR VRING_DESC_F_WRITE) AND VRING_DESC_F_NEXT \<noteq> 0"
  by (simp_all add: VRING_DESC_F_NEXT_def VRING_DESC_F_WRITE_def)

lemma disk_rw_answers:
  assumes run: "running p s" and pt: "p_pagetable (procs s p) \<noteq> 0" and idle: "disk_idle (vd s)"
    and ans: "device s (request b w (vd s)) = (answered b w k (request b w (vd s)))\<lparr>regs := r\<rparr>"
  shows "\<exists>t. virtio_disk_rw b w s = Ok () t \<and> running p t \<and> disk_idle (vd t) \<and>
    p_pid (procs t p) = p_pid (procs s p) \<and> p_pagetable (procs t p) = p_pagetable (procs s p) \<and>
    device t = device s \<and> slocks t = slocks s \<and> kdisk.more t = kdisk.more s \<and>
    bufs (vd t) = (bufs (vd s))(b := (bufs (vd s) b)\<lparr>
      b_data := (if w then b_data (bufs (vd s) b) else disk_block (medium (vd s)) k), b_disk := False\<rparr>) \<and>
    medium (vd t) = (if w then put_sectors (medium (vd s)) (2 * k) 2 (b_data (bufs (vd s) b)) else medium (vd s))"
proof -
  let ?d = "request b w (vd s)"
  let ?s = "s\<lparr>vd := ?d\<rparr>" and ?e = "device s ?d"
  let ?doz = "dozing p b ?s" and ?g = "(upd_buf b (\<lambda>x. x\<lparr>b_disk := False\<rparr>) (acked ?e))\<lparr>vd_used_idx := us_idx ?e\<rparr>"
  have start: "virtio_disk_start b w s = Ok 0 (held VdiskLock ?s)" by (rule virtio_disk_start_run [OF run idle])
  have run': "running p ?s" using run by simp
  have q: "quiet ?doz" using run' by (simp add: running_quiet)
  have "us_ring (answered b w k ?d) (unat (us_idx (vd s)) mod NUM) = 0"
    using answered_simps(10) [of b w k ?d] by simp
  moreover have "0 < NUM" by (simp add: NUM_def)
  ultimately have "virtio_disk_intr ?doz = Ok () (woken (ChanBuf b) (?doz\<lparr>vd := ?g\<rparr>))"
    using virtio_disk_intr_one [OF q, of 0 b] ans idle by (simp add: disk_idle_def)
  from disk_sleep_wakes [OF run' _ this] pt obtain u where
      u: "disk_sleep b (held VdiskLock ?s) = Ok () (held VdiskLock u)" "running p u" "vd u = ?g"
      and frame: "device u = device s" "slocks u = slocks s" "kdisk.more u = kdisk.more s"
      "p_pid (procs u p) = p_pid (procs s p)" "p_pagetable (procs u p) = p_pagetable (procs s p)"
    by auto
  have desc: "vq_desc (vd u) = vq_desc ?d" "\<forall>i < 3. \<not> vd_free (vd u) i"
    using u(3) ans by (auto simp: upd_buf_def less_Suc_eq numeral_3_eq_3)
  obtain v where v: "virtio_disk_end 0 (held VdiskLock u) = Ok () v" "running p v"
      "vd v = freed 2 (freed 1 (freed 0 ((vd u)\<lparr>vd_buf := (vd_buf (vd u))(0 := None)\<rparr>)))"
      and frame': "device v = device u" "slocks v = slocks u" "kdisk.more v = kdisk.more u"
      "p_pid (procs v p) = p_pid (procs u p)" "p_pagetable (procs v p) = p_pagetable (procs u p)"
    using virtio_disk_end_run [OF u(2) desc(2)] unfolding desc(1) request_desc by (auto simp: flags_next)
  have "virtio_disk_rw b w s = Ok () v"
    using start u v(1) by (simp add: virtio_disk_rw_def upd_buf_def)
  moreover have "disk_idle (vd v)"
    using idle u(3) v(3) ans by (simp add: disk_idle_def upd_buf_def)
  moreover have "bufs (vd v) = (bufs (vd s))(b := (bufs (vd s) b)\<lparr>
      b_data := (if w then b_data (bufs (vd s) b) else disk_block (medium (vd s)) k), b_disk := False\<rparr>)"
    using u(3) v(3) ans by (cases w) (simp_all add: upd_buf_def)
  moreover have "medium (vd v) = (if w then put_sectors (medium (vd s)) (2 * k) 2 (b_data (bufs (vd s) b)) else medium (vd s))"
    using u(3) v(3) ans by (simp add: upd_buf_def)
  ultimately show ?thesis using v(2) frame frame' by metis
qed

lemma disk_rw_dies:
  assumes run: "running p s" and idle: "disk_idle (vd s)"
    and dies: "device s (request b w (vd s)) = (request b w (vd s))\<lparr>medium := m, regs := r\<rparr>"
  shows "\<exists>t. virtio_disk_rw b w s = Stop Switched t \<and> medium (vd t) = m"
proof -
  let ?s = "s\<lparr>vd := request b w (vd s)\<rparr>"
  have run': "running p ?s" using run by simp
  obtain u where "disk_sleep b (held VdiskLock ?s) = Stop Switched u" "vd u = acked (device ?s (vd ?s))"
    using disk_sleep_dies [OF run', of b] dies idle by (auto simp: disk_idle_def)
  then show ?thesis
    using virtio_disk_start_run [OF run idle, of b w] dies by (simp add: virtio_disk_rw_def)
qed

lemma disk_rw:
  assumes "unat (b_blockno (B b)) < 2 ^ 31" "length (b_data (B b)) = BSIZE" "\<not> b_disk (B b)"
  shows "runs_to (disk_at f p pid K Z B D) (virtio_disk_rw b w)
    (\<lambda>_. disk_at f p pid K Z (if w then B else B(b := (B b)\<lparr>b_data := D (unat (b_blockno (B b)))\<rparr>))
       (if w then D(unat (b_blockno (B b)) := b_data (B b)) else D))
    (\<lambda>t. f \<and> (disk_block (medium (vd t)) = D \<or> w \<and> disk_block (medium (vd t)) = D(unat (b_blockno (B b)) := b_data (B b))))"
proof (rule runs_toI)
  fix s :: "'a kdisk_scheme"
  assume at: "disk_at f p pid K Z B D s"
  let ?k = "unat (b_blockno (B b))" and ?d = "request b w (vd s)"
  have run: "running p s" and idle: "disk_idle (vd s)" and B: "bufs (vd s) = B" and D: "disk_block (medium (vd s)) = D"
    and pt: "p_pagetable (procs s p) \<noteq> 0"
    using at by (simp_all add: disk_at_def)
  have serve: "serve ?d = answered b w ?k ?d"
    using serve_request [of "vd s" b w] idle assms(1) B by (simp add: disk_idle_def)
  have "device_ok f (device s)" "av_idx ?d = us_idx ?d + 1" using at idle by (simp_all add: disk_at_def disk_idle_def)
  then consider (ans) r where "device s ?d = (answered b w ?k ?d)\<lparr>regs := r\<rparr>"
    | (lost) r where "f" "device s ?d = ?d\<lparr>regs := r\<rparr>"
    | (cut) r where "f" "device s ?d = ?d\<lparr>medium := medium (answered b w ?k ?d), regs := r\<rparr>"
    unfolding device_ok_def serve [symmetric] by blast
  then show "(\<exists>x t. virtio_disk_rw b w s = Ok x t \<and> disk_at f p pid K Z (if w then B else B(b := (B b)\<lparr>b_data := D ?k\<rparr>))
       (if w then D(?k := b_data (B b)) else D) t) \<or>
    (\<exists>t. virtio_disk_rw b w s = Stop Switched t \<and>
       f \<and> (disk_block (medium (vd t)) = D \<or> w \<and> disk_block (medium (vd t)) = D(?k := b_data (B b))))"
  proof cases
    case ans
    have "(bufs (vd s) b)\<lparr>b_data := (if w then b_data (bufs (vd s) b) else D ?k), b_disk := False\<rparr> =
        (if w then B else B(b := (B b)\<lparr>b_data := D ?k\<rparr>)) b"
      using B assms(3) by simp
    with disk_rw_answers [OF run pt idle ans] at B D assms(2) show ?thesis
      by (auto simp: disk_at_def disk_block_put length_put_sectors)
  next
    case lost
    then have "device s ?d = ?d\<lparr>medium := medium (vd s), regs := r\<rparr>" by simp
    from disk_rw_dies [OF run idle this] lost(1) D show ?thesis by auto
  next
    case cut
    from disk_rw_dies [OF run idle cut(2)] cut(1) B D assms(2) show ?thesis by (auto simp: disk_block_put)
  qed
qed

end
