(* ===== verification/BioSpec.thy ===== *)
theory BioSpec
  imports Bio DiskSpec
begin

text \<open>
  What the buffer cache promises. The cache of a device stands for: the contents \<open>C\<close> of every
  block, as the kernel sees it; the blocks \<open>D\<close> of the disk; the number \<open>R\<close> of references to each
  block; and the blocks \<open>H\<close> whose buffers the running process holds, with their buffers. A block
  without references has the contents that it has on the disk, so that its buffer may be taken for
  another block. The lemmas at the end say what each routine of \<open>src/kernel/bio.c\<close> does to these.
\<close>

section \<open>The list of buffers\<close>

text \<open>\<open>xs\<close> are the buffers from \<open>a\<close> to \<open>z\<close>, linked both ways.\<close>

fun linked :: "(nat \<Rightarrow> buf) \<Rightarrow> nat \<Rightarrow> nat list \<Rightarrow> nat \<Rightarrow> bool" where
  "linked B a [] z \<longleftrightarrow> b_next (B a) = z \<and> b_prev (B z) = a"
| "linked B a (x # xs) z \<longleftrightarrow> b_next (B a) = x \<and> b_prev (B x) = a \<and> linked B x xs z"

definition lru :: "(nat \<Rightarrow> buf) \<Rightarrow> nat list \<Rightarrow> bool" where
  "lru B xs \<longleftrightarrow> linked B bhead xs bhead \<and> distinct xs \<and> set xs = {..<NBUF}"

lemma linked_append: "linked B a (xs @ y # ys) z \<longleftrightarrow> linked B a xs y \<and> linked B y ys z"
  by (induction xs arbitrary: a) auto

lemma linked_cong:
  "(\<And>i. i \<in> set (a # xs) \<Longrightarrow> b_next (B' i) = b_next (B i)) \<Longrightarrow> (\<And>i. i \<in> set (xs @ [z]) \<Longrightarrow> b_prev (B' i) = b_prev (B i)) \<Longrightarrow>
   linked B' a xs z = linked B a xs z"
  by (induction xs arbitrary: a) auto

lemma linked_ends:
  "linked B a xs z \<Longrightarrow> b_next (B a) = hd (xs @ [z])" "linked B a xs z \<Longrightarrow> b_prev (B z) = last (a # xs)"
  by (induction xs arbitrary: a) auto

text \<open>The two searches of \<open>bget\<close>.\<close>

lemma bget_cached_run:
  assumes "linked (bufs (vd s)) a xs bhead" "bhead \<notin> set xs" "length xs < fuel"
  shows "bget_cached fuel dev blk (hd (xs @ [bhead])) s =
    Ok (List.find (\<lambda>x. b_dev (bufs (vd s) x) = dev \<and> b_blockno (bufs (vd s) x) = blk) xs) s"
  using assms
proof (induction xs arbitrary: a fuel)
  case Nil
  then show ?case by (simp add: bget_cached.simps [of fuel])
next
  case (Cons x xs)
  then show ?case
    using Cons.IH [of x "fuel - 1"] linked_ends(1) [of "bufs (vd s)" x xs bhead]
    by (simp add: bget_cached.simps [of fuel])
qed

lemma bget_unused_run:
  assumes "linked (bufs (vd s)) bhead xs z" "bhead \<notin> set xs" "length xs < fuel"
  shows "bget_unused fuel (last (bhead # xs)) s =
    Ok (List.find (\<lambda>x. b_refcnt (bufs (vd s) x) = 0) (rev xs)) s"
  using assms
proof (induction xs arbitrary: z fuel rule: rev_induct)
  case Nil
  then show ?case by (simp add: bget_unused.simps [of fuel])
next
  case (snoc x xs)
  from snoc.prems(1) have l: "linked (bufs (vd s)) bhead xs x" by (simp add: linked_append)
  from linked_ends(2) [OF l] snoc.IH [OF l, of "fuel - 1"] snoc.prems show ?case
    by (simp add: bget_unused.simps [of fuel])
qed

section \<open>Moving a buffer to the front\<close>

definition set_prev :: "nat \<Rightarrow> nat \<Rightarrow> (nat \<Rightarrow> buf) \<Rightarrow> nat \<Rightarrow> buf" where
  "set_prev i v B = B(i := (B i)\<lparr>b_prev := v\<rparr>)"

definition set_next :: "nat \<Rightarrow> nat \<Rightarrow> (nat \<Rightarrow> buf) \<Rightarrow> nat \<Rightarrow> buf" where
  "set_next i v B = B(i := (B i)\<lparr>b_next := v\<rparr>)"

lemma upd_buf_links:
  "upd_buf i (\<lambda>y. y\<lparr>b_prev := v\<rparr>) d = d\<lparr>bufs := set_prev i v (bufs d)\<rparr>"
  "upd_buf i (\<lambda>y. y\<lparr>b_next := v\<rparr>) d = d\<lparr>bufs := set_next i v (bufs d)\<rparr>"
  by (simp_all add: upd_buf_def set_prev_def set_next_def)

definition moved :: "nat \<Rightarrow> (nat \<Rightarrow> buf) \<Rightarrow> nat \<Rightarrow> buf" where
  "moved b B0 =
     (let B1 = set_prev (b_next (B0 b)) (b_prev (B0 b)) B0;
          B2 = set_next (b_prev (B1 b)) (b_next (B1 b)) B1;
          B3 = set_next b (b_next (B2 bhead)) B2; B4 = set_prev b bhead B3;
          B5 = set_prev (b_next (B4 bhead)) b B4
      in set_next bhead b B5)"

lemma brelse_move_run: "brelse_move b s = Ok () (s\<lparr>vd := (vd s)\<lparr>bufs := moved b (bufs (vd s))\<rparr>\<rparr>)"
  by (simp add: brelse_move_def moved_def upd_buf_links Let_def)

lemma set_links [simp]:
  "b_prev (set_prev i v B j) = (if j = i then v else b_prev (B j))" "b_next (set_prev i v B j) = b_next (B j)"
  "b_next (set_next i v B j) = (if j = i then v else b_next (B j))" "b_prev (set_next i v B j) = b_prev (B j)"
  by (simp_all add: set_prev_def set_next_def)

text \<open>Nothing but the links changes.\<close>

definition unlink :: "buf \<Rightarrow> buf" where
  "unlink x = x\<lparr>b_prev := 0, b_next := 0\<rparr>"

lemma unlink_set [simp]: "unlink (set_prev i v B j) = unlink (B j)" "unlink (set_next i v B j) = unlink (B j)"
  by (simp_all add: unlink_def set_prev_def set_next_def)

lemma unlink_moved: "unlink (moved b B i) = unlink (B i)"
  by (simp add: moved_def Let_def)

lemma unlinkD:
  "unlink x = unlink y \<Longrightarrow> b_valid x = b_valid y \<and> b_disk x = b_disk y \<and> b_dev x = b_dev y \<and> b_blockno x = b_blockno y \<and>
     b_refcnt x = b_refcnt y \<and> b_data x = b_data y"
  by (cases x; cases y) (simp add: unlink_def)

text \<open>A stretch of the list between new neighbours.\<close>

lemma linked_relink:
  assumes "us \<noteq> []" "distinct us" "linked B a us z"
    and "b_next (M a') = hd us" "b_prev (M (hd us)) = a'" "b_next (M (last us)) = z'" "b_prev (M z') = last us"
    and "\<And>i. i \<in> set us \<Longrightarrow> i \<noteq> last us \<Longrightarrow> b_next (M i) = b_next (B i)"
    and "\<And>i. i \<in> set us \<Longrightarrow> i \<noteq> hd us \<Longrightarrow> b_prev (M i) = b_prev (B i)"
  shows "linked M a' us z'"
  using assms
proof (induction us arbitrary: a a')
  case Nil
  then show ?case by simp
next
  case (Cons u us)
  show ?case
  proof (cases us)
    case Nil
    with Cons.prems show ?thesis by simp
  next
    case (Cons v r)
    with Cons.prems(2,3) have "u \<noteq> last us" "b_next (B u) = v" "b_prev (B v) = u" "v \<noteq> u" by auto
    then have nv: "b_next (M u) = v" "b_prev (M v) = u" using Cons Cons.prems(8) [of u] Cons.prems(9) [of v] by auto
    have "linked M u us z'"
      using Cons.prems Cons nv by (intro Cons.IH [of u u]) auto
    with Cons Cons.prems(4,5) show ?thesis by simp
  qed
qed

lemma linked_first: "linked B a xs z \<Longrightarrow> b_prev (B (hd (xs @ [z]))) = a"
  by (cases xs) auto

lemma moved_links:
  assumes "b \<noteq> bhead" "b_prev (B b) \<noteq> b" "b_next (B b) \<noteq> b" "b_next (B bhead) = b \<longrightarrow> b_prev (B b) = bhead"
    and "h = (if b_prev (B b) = bhead then b_next (B b) else b_next (B bhead))"
  shows "b_next (moved b B j) = (if j = bhead then b else if j = b then h else if j = b_prev (B b) then b_next (B b) else b_next (B j))"
    "b_prev (moved b B j) = (if j = h then b else if j = b then bhead else if j = b_next (B b) then b_prev (B b) else b_prev (B j))"
  using assms by (auto simp: moved_def Let_def)

lemma lru_moved:
  assumes "lru B (us @ b # vs)"
  shows "lru (moved b B) (b # us @ vs)"
proof -
  let ?p = "last (bhead # us)" and ?n = "hd (vs @ [bhead])" and ?M = "moved b B"
  have l: "linked B bhead us b" "linked B b vs bhead" and d: "distinct (us @ b # vs)" "set (us @ b # vs) = {..<NBUF}"
    using assms by (auto simp: lru_def linked_append)
  have b: "b \<noteq> bhead" "bhead \<notin> set us" "bhead \<notin> set vs" using d(2) by auto
  have pn: "b_prev (B b) = ?p" "b_next (B b) = ?n" using linked_ends [OF l(1)] linked_ends [OF l(2)] by auto
  have nb: "?p \<noteq> b" "?n \<noteq> b" using b d(1) by (auto simp: hd_append)
  have hn: "b_next (B bhead) = hd (us @ [b])" using linked_ends(1) [OF l(1)] by simp
  let ?h = "hd (us @ vs @ [bhead])"
  have h: "?h = (if b_prev (B b) = bhead then b_next (B b) else b_next (B bhead))"
  proof (cases "us = []")
    case False
    then have "last us \<noteq> bhead" using b(2) last_in_set by metis
    with False show ?thesis using pn hn by (simp add: hd_append)
  qed (use pn in simp)
  have "b_next (B bhead) = b \<longrightarrow> b_prev (B b) = bhead" using hn pn d(1) by (cases us) auto
  note M = moved_links [OF b(1) _ _ this h, unfolded pn, OF nb]
  have "linked ?M b (us @ vs) bhead"
  proof (cases us)
    case Nil
    have "linked ?M b vs bhead = linked B b vs bhead"
    proof (rule linked_cong)
      fix i assume "i \<in> set (b # vs)"
      then show "b_next (?M i) = b_next (B i)" using M(1) [of i] Nil pn b by auto
    next
      fix i assume "i \<in> set (vs @ [bhead])"
      then show "b_prev (?M i) = b_prev (B i)" using M(2) [of i] Nil linked_first [OF l(2)] b d(1) by auto
    qed
    with l(2) Nil show ?thesis by simp
  next
    case (Cons u us')
    have nh: "?n \<noteq> ?h" "\<And>i. i \<in> set us \<Longrightarrow> i \<noteq> ?n" using Cons b d(1) by (auto simp: hd_append)
    have lu: "last us \<in> set us" using Cons by (intro last_in_set) simp
    have us: "linked ?M b us ?n"
    proof (rule linked_relink [OF _ _ l(1)])
      show "b_next (?M b) = hd us" "b_prev (?M (hd us)) = b" using M(1) [of b] M(2) [of "hd us"] Cons b by auto
      have "last us \<noteq> bhead" "last us \<noteq> b" using lu b d(1) by auto
      then show "b_next (?M (last us)) = ?n" using M(1) [of "last us"] Cons by simp
      show "b_prev (?M ?n) = last us" using M(2) [of ?n] nh nb Cons by auto
      show "b_next (?M i) = b_next (B i)" if "i \<in> set us" "i \<noteq> last us" for i using M(1) [of i] that Cons b d(1) by auto
      show "b_prev (?M i) = b_prev (B i)" if "i \<in> set us" "i \<noteq> hd us" for i using M(2) [of i] that Cons nh d(1) by auto
    qed (use Cons d(1) in auto)
    show ?thesis
    proof (cases vs)
      case Nil
      with us show ?thesis by simp
    next
      case (Cons v vs')
      have "linked ?M v vs' bhead = linked B v vs' bhead"
      proof (rule linked_cong)
        fix i assume i: "i \<in> set (v # vs')"
        then have "i \<noteq> last us" using lu Cons d(1) by auto
        with i show "b_next (?M i) = b_next (B i)" using M(1) [of i] Cons \<open>us = u # us'\<close> b d(1) by auto
      next
        fix i assume "i \<in> set (vs' @ [bhead])"
        then show "b_prev (?M i) = b_prev (B i)" using M(2) [of i] Cons \<open>us = u # us'\<close> b d(1) by auto
      qed
      with us Cons l(2) show ?thesis by (simp add: linked_append)
    qed
  qed
  then show ?thesis using M(1) [of bhead] M(2) [of b] d b nb by (auto simp: lru_def hd_append)
qed

section \<open>What the cache stands for\<close>

definition block_of :: "buf \<Rightarrow> nat" where
  "block_of x = unat (b_blockno x)"

text \<open>The buffer \<open>x\<close> with index \<open>i\<close> and sleep lock \<open>k\<close>.\<close>

definition buf_rel ::
  "u32 \<Rightarrow> int \<Rightarrow> (nat \<Rightarrow> byte list) \<Rightarrow> (nat \<Rightarrow> byte list) \<Rightarrow> (nat \<Rightarrow> nat) \<Rightarrow> (nat \<Rightarrow> nat option) \<Rightarrow> sleeplock \<Rightarrow> nat \<Rightarrow> buf \<Rightarrow> bool" where
  "buf_rel dv pid D C R H k i x \<longleftrightarrow>
     \<not> b_disk x \<and> length (b_data x) = BSIZE \<and>
     (if b_dev x = dv then
        unat (b_refcnt x) = R (block_of x) \<and> (if b_valid x then b_data x = C (block_of x) else C (block_of x) = D (block_of x)) \<and>
        (H (block_of x) = None \<or> H (block_of x) = Some i) \<and> sl_locked k = (H (block_of x) = Some i) \<and>
        (H (block_of x) = Some i \<longrightarrow> sl_pid k = pid \<and> b_valid x \<and> 0 < R (block_of x))
      else b_refcnt x = 0 \<and> \<not> sl_locked k)"

definition cache_rel ::
  "u32 \<Rightarrow> int \<Rightarrow> (nat \<Rightarrow> buf) \<Rightarrow> (slid \<Rightarrow> sleeplock) \<Rightarrow> nat list \<Rightarrow> (nat \<Rightarrow> byte list) \<Rightarrow> (nat \<Rightarrow> byte list) \<Rightarrow> (nat \<Rightarrow> nat) \<Rightarrow> (nat \<Rightarrow> nat option) \<Rightarrow> bool" where
  "cache_rel dv pid B K xs D C R H \<longleftrightarrow>
     lru B xs \<and> (\<forall>i < NBUF. buf_rel dv pid D C R H (K (SBuf i)) i (B i)) \<and>
     inj_on (\<lambda>i. block_of (B i)) {i. i < NBUF \<and> b_dev (B i) = dv} \<and>
     (\<forall>n. R n = 0 \<longrightarrow> C n = D n \<and> H n = None) \<and>
     (\<forall>n. 0 < R n \<longrightarrow> (\<exists>i < NBUF. b_dev (B i) = dv \<and> block_of (B i) = n))"

definition bstate ::
  "u32 \<Rightarrow> bool \<Rightarrow> nat \<Rightarrow> int \<Rightarrow> 'z \<Rightarrow> (nat \<Rightarrow> byte list) \<Rightarrow> (nat \<Rightarrow> byte list) \<Rightarrow> (nat \<Rightarrow> nat) \<Rightarrow> (nat \<Rightarrow> nat option) \<Rightarrow> 'z kdisk_scheme \<Rightarrow> bool" where
  "bstate dv f p pid Z D C R H s \<longleftrightarrow>
     (\<exists>B K xs. disk_at f p pid K Z B D s \<and> cache_rel dv pid B K xs D C R H)"

lemma lru_upd: "b_next x = b_next (B b) \<Longrightarrow> b_prev x = b_prev (B b) \<Longrightarrow> lru (B(b := x)) xs = lru B xs"
  unfolding lru_def by (subst linked_cong [of bhead xs "B(b := x)" B bhead]) auto

lemma cache_relD:
  assumes "cache_rel dv pid B K xs D C R H"
  shows "lru B xs" "i < NBUF \<Longrightarrow> buf_rel dv pid D C R H (K (SBuf i)) i (B i)"
    "i < NBUF \<Longrightarrow> j < NBUF \<Longrightarrow> b_dev (B i) = dv \<Longrightarrow> b_dev (B j) = dv \<Longrightarrow> block_of (B i) = block_of (B j) \<Longrightarrow> i = j"
    "R n = 0 \<Longrightarrow> C n = D n" "R n = 0 \<Longrightarrow> H n = None"
    "0 < R n \<Longrightarrow> \<exists>i < NBUF. b_dev (B i) = dv \<and> block_of (B i) = n"
  using assms by (auto simp: cache_rel_def inj_on_def)

text \<open>A change of one buffer and of what it stands for.\<close>

lemma cache_rel_upd:
  assumes c: "cache_rel dv pid B K xs D C R H" and b: "b < NBUF" "b_dev (B b) = dv"
    and x: "b_dev x = dv" "b_blockno x = b_blockno (B b)" "b_next x = b_next (B b)" "b_prev x = b_prev (B b)"
    and off: "\<And>m. m \<noteq> block_of (B b) \<Longrightarrow> D' m = D m \<and> C' m = C m \<and> R' m = R m \<and> H' m = H m"
    and k: "\<And>i. i \<noteq> b \<Longrightarrow> K' (SBuf i) = K (SBuf i)"
    and r: "buf_rel dv pid D' C' R' H' (K' (SBuf b)) b x"
    and z: "R' (block_of x) = 0 \<longrightarrow> C' (block_of x) = D' (block_of x) \<and> H' (block_of x) = None"
  shows "cache_rel dv pid (B(b := x)) K' xs D' C' R' H'"
proof -
  have n: "block_of x = block_of (B b)" using x(2) by (simp add: block_of_def)
  have inj: "inj_on (\<lambda>i. block_of (B i)) {i. i < NBUF \<and> b_dev (B i) = dv}" using c by (simp add: cache_rel_def)
  have other: "buf_rel dv pid D' C' R' H' (K' (SBuf i)) i (B i)" if i: "i < NBUF" "i \<noteq> b" for i
  proof (cases "b_dev (B i) = dv")
    case True
    then have "block_of (B i) \<noteq> block_of (B b)" using inj i b by (auto dest: inj_onD)
    moreover have "buf_rel dv pid D C R H (K (SBuf i)) i (B i)" using c i by (simp add: cache_rel_def)
    ultimately show ?thesis using off k [OF i(2)] by (simp add: buf_rel_def)
  next
    case False
    then show ?thesis using c i k [OF i(2)] by (auto simp: cache_rel_def buf_rel_def)
  qed
  have "inj_on (\<lambda>i. block_of ((B(b := x)) i)) {i. i < NBUF \<and> b_dev ((B(b := x)) i) = dv}"
  proof -
    have "(\<lambda>i. block_of ((B(b := x)) i)) = (\<lambda>i. block_of (B i))" using n by (auto simp: fun_eq_iff)
    moreover have "{i. i < NBUF \<and> b_dev ((B(b := x)) i) = dv} = {i. i < NBUF \<and> b_dev (B i) = dv}" using x(1) b by auto
    ultimately show ?thesis using inj by simp
  qed
  moreover have "\<exists>i < NBUF. b_dev ((B(b := x)) i) = dv \<and> block_of ((B(b := x)) i) = m" if pos: "0 < R' m" for m
  proof (cases "m = block_of (B b)")
    case True
    then show ?thesis using b x(1) n by (intro exI [of _ b]) simp
  next
    case False
    then obtain i where i: "i < NBUF" "b_dev (B i) = dv" "block_of (B i) = m"
      using pos off [OF False] cache_relD(6) [OF c, of m] by auto
    then show ?thesis using False by (intro exI [of _ i]) auto
  qed
  moreover have "R' m = 0 \<longrightarrow> C' m = D' m \<and> H' m = None" for m
    using z off [of m] c n by (cases "m = block_of (B b)") (auto simp: cache_rel_def)
  moreover have "lru (B(b := x)) xs" using c x(3,4) by (simp add: lru_upd cache_rel_def)
  ultimately show ?thesis using other r unfolding cache_rel_def by auto
qed

text \<open>A buffer without references, taken for a block that is not in the cache.\<close>

lemma cache_rel_recycle:
  assumes c: "cache_rel dv pid B K xs D C R H" and b: "b < NBUF" "b_refcnt (B b) = 0"
    and n: "\<forall>i < NBUF. b_dev (B i) = dv \<longrightarrow> block_of (B i) \<noteq> n" "n < 2 ^ 32"
  shows "cache_rel dv pid (B(b := (B b)\<lparr>b_dev := dv, b_blockno := of_nat n, b_valid := False, b_refcnt := 1\<rparr>)) K xs D C (R(n := 1)) H"
proof -
  let ?x = "(B b)\<lparr>b_dev := dv, b_blockno := of_nat n, b_valid := False, b_refcnt := 1\<rparr>"
  have bn: "block_of ?x = n" using n(2) by (simp add: block_of_def unat_of_nat take_bit_nat_eq_self)
  have R: "R n = 0" using c n(1) by (auto simp: cache_rel_def)
  then have n0: "C n = D n" "H n = None" using c by (auto simp: cache_rel_def)
  have rb: "buf_rel dv pid D C R H (K (SBuf b)) b (B b)" using c b by (simp add: cache_rel_def)
  then have "b_dev (B b) = dv \<longrightarrow> R (block_of (B b)) = 0" using b(2) by (auto simp: buf_rel_def)
  then have unl: "\<not> sl_locked (K (SBuf b))" using rb c by (auto simp: buf_rel_def cache_rel_def split: if_splits)
  have "buf_rel dv pid D C (R(n := 1)) H (K (SBuf b)) b ?x"
    using rb bn n0 unl by (simp add: buf_rel_def)
  moreover have "buf_rel dv pid D C (R(n := 1)) H (K (SBuf i)) i (B i)" if "i < NBUF" for i
  proof -
    have "buf_rel dv pid D C R H (K (SBuf i)) i (B i)" "b_dev (B i) = dv \<longrightarrow> block_of (B i) \<noteq> n"
      using c n(1) that by (auto simp: cache_rel_def)
    then show ?thesis by (auto simp: buf_rel_def)
  qed
  moreover have "inj_on (\<lambda>i. block_of ((B(b := ?x)) i)) {i. i < NBUF \<and> b_dev ((B(b := ?x)) i) = dv}"
  proof (rule inj_onI)
    fix i j
    assume "i \<in> {i. i < NBUF \<and> b_dev ((B(b := ?x)) i) = dv}" "j \<in> {i. i < NBUF \<and> b_dev ((B(b := ?x)) i) = dv}"
      "block_of ((B(b := ?x)) i) = block_of ((B(b := ?x)) j)"
    moreover have "inj_on (\<lambda>i. block_of (B i)) {i. i < NBUF \<and> b_dev (B i) = dv}" using c by (simp add: cache_rel_def)
    ultimately show "i = j" using bn n(1) by (cases "i = b"; cases "j = b") (auto dest: inj_onD)
  qed
  moreover have "\<exists>i < NBUF. b_dev ((B(b := ?x)) i) = dv \<and> block_of ((B(b := ?x)) i) = m" if "0 < (R(n := 1)) m" for m
  proof (cases "m = n")
    case True
    then show ?thesis using b bn by (intro exI [of _ b]) simp
  next
    case False
    then have "0 < R m" using that by simp
    then obtain i where i: "i < NBUF" "b_dev (B i) = dv" "block_of (B i) = m" using cache_relD(6) [OF c, of m] by auto
    then have "i \<noteq> b" using rb b(2) \<open>0 < R m\<close> by (auto simp: buf_rel_def)
    then show ?thesis using i by (intro exI [of _ i]) simp
  qed
  moreover have "lru (B(b := ?x)) xs" using c by (simp add: lru_upd cache_rel_def)
  moreover have "\<forall>m. (R(n := 1)) m = 0 \<longrightarrow> C m = D m \<and> H m = None" using c by (auto simp: cache_rel_def)
  ultimately show ?thesis unfolding cache_rel_def by auto
qed

section \<open>The routines\<close>

lemma disk_at_buf:
  "disk_at f p pid K Z B D s \<Longrightarrow> disk_at f p pid K Z (B(b := g (B b))) D (s\<lparr>vd := upd_buf b g (vd s)\<rparr>)"
  by (simp add: disk_at_def disk_idle_def upd_buf_def)

lemma disk_at_bufs:
  "disk_at f p pid K Z B D s \<Longrightarrow> disk_at f p pid K Z B' D (s\<lparr>vd := (vd s)\<lparr>bufs := B'\<rparr>\<rparr>)"
  by (simp add: disk_at_def disk_idle_def)

lemma kdisk_upd_slock [simp]:
  "vd (upd_slock l g s) = vd s" "device (upd_slock l g s) = device s" "kdisk.more (upd_slock l g s) = kdisk.more s"
  by (simp_all add: upd_slock_def)

lemma disk_at_slock: "disk_at f p pid K Z B D s \<Longrightarrow> disk_at f p pid (K(l := g (K l))) Z B D (upd_slock l g s)"
  by (simp add: disk_at_def running_def)

lemma disk_at_woken: "disk_at f p pid K Z B D s \<Longrightarrow> disk_at f p pid K Z B D (woken ch s)"
  by (simp add: disk_at_def running_woken)

lemma held_buf:
  assumes c: "cache_rel dv pid B K xs D C R H" and h: "H n = Some b"
  shows "b < NBUF" "b_dev (B b) = dv" "block_of (B b) = n" "b_valid (B b)" "b_data (B b) = C n"
    "length (C n) = BSIZE" "unat (b_refcnt (B b)) = R n" "0 < R n" "sl_locked (K (SBuf b))" "sl_pid (K (SBuf b)) = pid"
    "\<not> b_disk (B b)"
proof -
  have "R n \<noteq> 0" using cache_relD(5) [OF c, of n] h by auto
  then obtain i where i: "i < NBUF" "b_dev (B i) = dv" "block_of (B i) = n" using cache_relD(6) [OF c, of n] by auto
  moreover from this cache_relD(2) [OF c i(1)] h have "i = b" by (simp add: buf_rel_def)
  ultimately show "b < NBUF" "b_dev (B b) = dv" "block_of (B b) = n" by simp_all
  with cache_relD(2) [OF c, of b] h show "b_valid (B b)" "b_data (B b) = C n"
    "length (C n) = BSIZE" "unat (b_refcnt (B b)) = R n" "0 < R n" "sl_locked (K (SBuf b))" "sl_pid (K (SBuf b)) = pid"
    "\<not> b_disk (B b)"
    by (auto simp: buf_rel_def split: if_splits)
qed

text \<open>A change of the data or the reference count of a buffer that is held.\<close>

lemma bstate_modify:
  assumes "bstate dv f p pid Z D C R H s" and h: "H n = Some b"
    and g: "\<And>x. b_dev (g x) = b_dev x \<and> b_blockno (g x) = b_blockno x \<and> b_next (g x) = b_next x \<and> b_prev (g x) = b_prev x \<and>
        b_valid (g x) = b_valid x \<and> b_disk (g x) = b_disk x"
    and d: "\<And>x. b_data x = C n \<Longrightarrow> unat (b_refcnt x) = R n \<Longrightarrow> b_data (g x) = c \<and> unat (b_refcnt (g x)) = r"
    and len: "length c = BSIZE" "0 < r"
  shows "bstate dv f p pid Z D (C(n := c)) (R(n := r)) H (s\<lparr>vd := upd_buf b g (vd s)\<rparr>)"
proof -
  from assms(1) obtain B K xs where at: "disk_at f p pid K Z B D s" and cr: "cache_rel dv pid B K xs D C R H"
    by (auto simp: bstate_def)
  note hb = held_buf [OF cr h]
  have "b_data (g (B b)) = c" "unat (b_refcnt (g (B b))) = r" using d [of "B b"] hb by auto
  moreover have "block_of (g (B b)) = n" using hb(3) g by (simp add: block_of_def)
  ultimately have "buf_rel dv pid D (C(n := c)) (R(n := r)) H (K (SBuf b)) b (g (B b))"
    using g hb len h by (simp add: buf_rel_def)
  then have "cache_rel dv pid (B(b := g (B b))) K xs D (C(n := c)) (R(n := r)) H"
    using g hb len \<open>block_of (g (B b)) = n\<close> by (intro cache_rel_upd [OF cr]) simp_all
  with disk_at_buf [OF at] show ?thesis unfolding bstate_def by blast
qed

lemma bstate_running: "bstate dv f p pid Z D C R H s \<Longrightarrow> running p s"
  by (auto simp: bstate_def disk_at_def)

lemma bstate_held:
  assumes "bstate dv f p pid Z D C R H s" "H n = Some b"
  shows "length (C n) = BSIZE" "0 < R n" "b_data (bufs (vd s) b) = C n" "block_of (bufs (vd s) b) = n"
proof -
  from assms(1) obtain B K xs where at: "disk_at f p pid K Z B D s" and cr: "cache_rel dv pid B K xs D C R H"
    by (auto simp: bstate_def)
  from held_buf [OF cr assms(2)] at show "length (C n) = BSIZE" "0 < R n" "b_data (bufs (vd s) b) = C n" "block_of (bufs (vd s) b) = n"
    by (auto simp: disk_at_def)
qed

lemma bpin_spec:
  assumes "H n = Some b" "R n + 1 < 2 ^ 32"
  shows "runs_to (bstate dv f p pid Z D C R H) (bpin b) (\<lambda>_. bstate dv f p pid Z D C (R(n := R n + 1)) H) (\<lambda>_. False)"
proof (rule runs_toI)
  fix s :: "'a kdisk_scheme"
  assume s: "bstate dv f p pid Z D C R H s"
  let ?g = "\<lambda>x. x\<lparr>b_refcnt := b_refcnt x + 1\<rparr>"
  have "bpin b s = Ok () (s\<lparr>vd := upd_buf b ?g (vd s)\<rparr>)"
    using running_cpu [OF bstate_running [OF s]] by (simp add: bpin_def)
  moreover have "bstate dv f p pid Z D (C(n := C n)) (R(n := R n + 1)) H (s\<lparr>vd := upd_buf b ?g (vd s)\<rparr>)"
    using assms bstate_held [OF s assms(1)]
    by (intro bstate_modify [OF s]) (simp_all add: unat_plus_simple [THEN iffD1] no_olen_add_nat)
  ultimately show "(\<exists>x t. bpin b s = Ok x t \<and> bstate dv f p pid Z D C (R(n := R n + 1)) H t) \<or>
      (\<exists>t. bpin b s = Stop Switched t \<and> False)"
    by simp
qed

lemma unat_dec: "0 < unat (w :: u32) \<Longrightarrow> unat (w - 1) = unat w - 1"
  by (metis unat_gt_0 unat_minus_one)

lemma bunpin_spec:
  assumes "H n = Some b" "1 < R n"
  shows "runs_to (bstate dv f p pid Z D C R H) (bunpin b) (\<lambda>_. bstate dv f p pid Z D C (R(n := R n - 1)) H) (\<lambda>_. False)"
proof (rule runs_toI)
  fix s :: "'a kdisk_scheme"
  assume s: "bstate dv f p pid Z D C R H s"
  let ?g = "\<lambda>x. x\<lparr>b_refcnt := b_refcnt x - 1\<rparr>"
  have "bunpin b s = Ok () (s\<lparr>vd := upd_buf b ?g (vd s)\<rparr>)"
    using running_cpu [OF bstate_running [OF s]] by (simp add: bunpin_def)
  moreover have "bstate dv f p pid Z D (C(n := C n)) (R(n := R n - 1)) H (s\<lparr>vd := upd_buf b ?g (vd s)\<rparr>)"
    using assms bstate_held [OF s assms(1)] by (intro bstate_modify [OF s]) (simp_all add: unat_dec)
  ultimately show "(\<exists>x t. bunpin b s = Ok x t \<and> bstate dv f p pid Z D C (R(n := R n - 1)) H t) \<or>
      (\<exists>t. bunpin b s = Stop Switched t \<and> False)"
    by simp
qed

text \<open>Writing into the data of a buffer that is held.\<close>

lemma set_data_spec:
  assumes "H n = Some b" "length (C n) = BSIZE \<Longrightarrow> length (g (C n)) = BSIZE"
  shows "runs_to (bstate dv f p pid Z D C R H) (modify_buf b (\<lambda>x. x\<lparr>b_data := g (b_data x)\<rparr>))
    (\<lambda>_. bstate dv f p pid Z D (C(n := g (C n))) R H) (\<lambda>_. False)"
proof (rule runs_toI)
  fix s :: "'a kdisk_scheme"
  assume s: "bstate dv f p pid Z D C R H s"
  let ?g = "\<lambda>x. x\<lparr>b_data := g (b_data x)\<rparr>"
  have "bstate dv f p pid Z D (C(n := g (C n))) (R(n := R n)) H (s\<lparr>vd := upd_buf b ?g (vd s)\<rparr>)"
    using assms bstate_held [OF s assms(1)] by (intro bstate_modify [OF s]) simp_all
  then show "(\<exists>x t. modify_buf b ?g s = Ok x t \<and> bstate dv f p pid Z D (C(n := g (C n))) R H t) \<or>
      (\<exists>t. modify_buf b ?g s = Stop Switched t \<and> False)"
    by simp
qed

lemma bwrite_spec:
  assumes h: "H n = Some b" and n: "n < 2 ^ 31"
  shows "runs_to (bstate dv f p pid Z D C R H) (bwrite b) (\<lambda>_. bstate dv f p pid Z (D(n := C n)) C R H)
    (\<lambda>t. f \<and> (disk_block (medium (vd t)) = D \<or> disk_block (medium (vd t)) = D(n := C n)))"
proof (rule runs_toI)
  fix s :: "'a kdisk_scheme"
  assume s: "bstate dv f p pid Z D C R H s"
  then obtain B K xs where at: "disk_at f p pid K Z B D s" and cr: "cache_rel dv pid B K xs D C R H"
    by (auto simp: bstate_def)
  note hb = held_buf [OF cr h]
  have bn: "unat (b_blockno (B b)) = n" using hb(3) by (simp add: block_of_def)
  have eq: "bwrite b s = virtio_disk_rw b True s"
    using holdingsleep_run [OF bstate_running [OF s], of "SBuf b"] at hb(9,10) by (simp add: bwrite_def disk_at_def)
  have "cache_rel dv pid (B(b := B b)) K xs (D(n := C n)) C R H"
    using hb h by (intro cache_rel_upd [OF cr]) (simp_all add: buf_rel_def)
  moreover have "runs_to (disk_at f p pid K Z B D) (virtio_disk_rw b True) (\<lambda>_. disk_at f p pid K Z B (D(n := C n)))
      (\<lambda>t. f \<and> (disk_block (medium (vd t)) = D \<or> disk_block (medium (vd t)) = D(n := C n)))"
    using disk_rw [of B b f p pid K Z D True] hb bn n by simp
  note runs_toD [OF this at]
  ultimately show "(\<exists>x t. bwrite b s = Ok x t \<and> bstate dv f p pid Z (D(n := C n)) C R H t) \<or>
    (\<exists>t. bwrite b s = Stop Switched t \<and> f \<and> (disk_block (medium (vd t)) = D \<or> disk_block (medium (vd t)) = D(n := C n)))"
    unfolding eq bstate_def by auto
qed

lemma cache_rel_moved:
  assumes c: "cache_rel dv pid B K xs D C R H" and b: "b < NBUF"
  shows "\<exists>ys. cache_rel dv pid (moved b B) K ys D C R H"
proof -
  have "b \<in> set xs" using cache_relD(1) [OF c] b by (simp add: lru_def)
  then obtain us vs where xs: "xs = us @ b # vs" by (auto dest: split_list)
  have l: "lru (moved b B) (b # us @ vs)" using cache_relD(1) [OF c] xs by (intro lru_moved) simp
  note u = unlinkD [OF unlink_moved [of b B]]
  have bo: "block_of (moved b B i) = block_of (B i)" for i using u [of i] by (simp add: block_of_def)
  have "buf_rel dv pid D C R H k i (moved b B i) = buf_rel dv pid D C R H k i (B i)" for k i
    using u [of i] bo [of i] by (simp add: buf_rel_def)
  with c l u bo show ?thesis unfolding cache_rel_def by (intro exI [of _ "b # us @ vs"]) simp
qed

lemma brelse_spec:
  assumes h: "H n = Some b" and clean: "1 < R n \<or> C n = D n"
  shows "runs_to (bstate dv f p pid Z D C R H) (brelse b)
    (\<lambda>_. bstate dv f p pid Z D C (R(n := R n - 1)) (H(n := None))) (\<lambda>_. False)"
proof (rule runs_toI)
  fix s :: "'a kdisk_scheme"
  assume s: "bstate dv f p pid Z D C R H s"
  then obtain B K xs where at: "disk_at f p pid K Z B D s" and cr: "cache_rel dv pid B K xs D C R H"
    by (auto simp: bstate_def)
  note hb = held_buf [OF cr h] and run = bstate_running [OF s]
  let ?k = "\<lambda>k. k\<lparr>sl_locked := False, sl_pid := 0\<rparr>" and ?g = "\<lambda>x. x\<lparr>b_refcnt := b_refcnt x - 1\<rparr>"
  let ?K = "K(SBuf b := ?k (K (SBuf b)))" and ?B = "B(b := ?g (B b))" and ?R = "R(n := R n - 1)" and ?H = "H(n := None)"
  let ?u = "woken (ChanBufLock b) (upd_slock (SBuf b) ?k s)"
  let ?t = "?u\<lparr>vd := upd_buf b ?g (vd ?u)\<rparr>"
  have at1: "disk_at f p pid ?K Z ?B D ?t"
    using disk_at_buf [OF disk_at_woken [OF disk_at_slock [OF at]]] .
  have bo: "block_of (?g (B b)) = n" using hb(3) by (simp add: block_of_def)
  have R1: "unat (b_refcnt (B b) - 1) = R n - 1" using hb(7,8) by (simp add: unat_dec)
  have "buf_rel dv pid D C ?R ?H (?K (SBuf b)) b (?g (B b))"
    using hb bo R1 by (simp add: buf_rel_def)
  then have cr1: "cache_rel dv pid ?B ?K xs D C ?R ?H"
    using hb bo clean by (intro cache_rel_upd [OF cr]) auto
  obtain ys where cr2: "cache_rel dv pid (moved b ?B) ?K ys D C ?R ?H" using cache_rel_moved [OF cr1 hb(1)] by blast
  have at2: "disk_at f p pid ?K Z (moved b ?B) D (?t\<lparr>vd := (vd ?t)\<lparr>bufs := moved b (bufs (vd ?t))\<rparr>\<rparr>)"
    using disk_at_bufs [OF at1] at1 by (simp add: disk_at_def)
  have free: "lock_free BcacheLock (hw ?u)" "cpu_ok (hw ?u)" using running_cpu [OF run] by simp_all
  have "brelse b s = seq (lock BcacheLock) (seq (modify_buf b ?g) (bind (get_buf b) (\<lambda>x.
      seq (whenever (b_refcnt x = 0) (brelse_move b)) (unlock BcacheLock)))) ?u"
    using holdingsleep_run [OF run, of "SBuf b"] releasesleep_run [OF run, of "SBuf b"] at hb(9,10)
    by (simp add: brelse_def disk_at_def)
  then have "brelse b s = Ok () ?t \<or> brelse b s = Ok () (?t\<lparr>vd := (vd ?t)\<lparr>bufs := moved b (bufs (vd ?t))\<rparr>\<rparr>)"
    using free by (auto simp: brelse_move_run)
  then have "\<exists>v. brelse b s = Ok () v \<and> bstate dv f p pid Z D C ?R ?H v"
    using at1 at2 cr1 cr2 unfolding bstate_def by blast
  then show "(\<exists>x t. brelse b s = Ok x t \<and> bstate dv f p pid Z D C ?R ?H t) \<or>
      (\<exists>t. brelse b s = Stop Switched t \<and> False)"
    by blast
qed

section \<open>Getting a buffer\<close>

text \<open>There is a buffer for the block: it is in the cache, or one has no references.\<close>

lemma unused_exists:
  assumes c: "cache_rel dv pid B K xs D C R H" and few: "card {n. 0 < R n} < NBUF"
  shows "\<exists>i < NBUF. b_refcnt (B i) = 0"
proof (rule ccontr)
  assume "\<not> ?thesis"
  then have pos: "b_refcnt (B i) \<noteq> 0" if "i < NBUF" for i using that by blast
  have dev: "b_dev (B i) = dv" "0 < R (block_of (B i))" if "i < NBUF" for i
  proof -
    show d: "b_dev (B i) = dv" using cache_relD(2) [OF c that] pos [OF that] by (auto simp: buf_rel_def split: if_splits)
    have "unat (b_refcnt (B i)) = R (block_of (B i))" using cache_relD(2) [OF c that] d by (simp add: buf_rel_def)
    moreover have "0 < unat (b_refcnt (B i))" using pos [OF that] by (simp add: unat_gt_0)
    ultimately show "0 < R (block_of (B i))" by simp
  qed
  have "inj_on (\<lambda>i. block_of (B i)) {..<NBUF}"
    by (rule inj_onI) (use cache_relD(3) [OF c] dev(1) in auto)
  then have "card ((\<lambda>i. block_of (B i)) ` {..<NBUF}) = NBUF" by (simp add: card_image)
  moreover have "{n. 0 < R n} = (\<lambda>i. block_of (B i)) ` {..<NBUF}"
  proof
    show "{n. 0 < R n} \<subseteq> (\<lambda>i. block_of (B i)) ` {..<NBUF}" by (fastforce dest: cache_relD(6) [OF c])
    show "(\<lambda>i. block_of (B i)) ` {..<NBUF} \<subseteq> {n. 0 < R n}" using dev(2) by auto
  qed
  ultimately show False using few by simp
qed

lemma find_SomeD: "List.find P xs = Some x \<Longrightarrow> x \<in> set xs \<and> P x"
  by (induction xs) (auto split: if_splits)

lemma bget_finish:
  assumes at: "disk_at f p pid K Z B D s" and l: "\<not> sl_locked (K (SBuf b))"
  shows "\<exists>t. (seq (unlock BcacheLock) (seq (acquiresleep (SBuf b)) (return b))) (held BcacheLock (s\<lparr>vd := upd_buf b g (vd s)\<rparr>)) = Ok b t \<and>
    disk_at f p pid (K(SBuf b := (K (SBuf b))\<lparr>sl_locked := True, sl_pid := pid\<rparr>)) Z (B(b := g (B b))) D t"
proof -
  let ?u = "s\<lparr>vd := upd_buf b g (vd s)\<rparr>" and ?k = "\<lambda>k. k\<lparr>sl_locked := True, sl_pid := pid\<rparr>"
  have run: "running p s" "slocks s = K" "p_pid (procs s p) = pid" using at by (simp_all add: disk_at_def)
  then have "running p ?u" by simp
  from acquiresleep_free [OF this, of "SBuf b"] l run(2,3) running_cpu [OF run(1)]
    disk_at_slock [OF disk_at_buf [OF at, of b g], of "SBuf b" ?k]
  show ?thesis by simp
qed

lemma bget_run:
  assumes at: "disk_at f p pid K Z B D s" and cr: "cache_rel dv pid B K xs D C R H"
    and n: "n < 2 ^ 32" "H n = None" "R n + 1 < 2 ^ 32" and room: "0 < R n \<or> card {m. 0 < R m} < NBUF"
  shows "\<exists>b B' t. bget dv (of_nat n) s = Ok b t \<and> b < NBUF \<and> b_dev (B' b) = dv \<and> block_of (B' b) = n \<and>
    disk_at f p pid (K(SBuf b := (K (SBuf b))\<lparr>sl_locked := True, sl_pid := pid\<rparr>)) Z B' D t \<and>
    cache_rel dv pid B' K xs D C (R(n := R n + 1)) H"
proof -
  let ?P = "\<lambda>x. b_dev (B x) = dv \<and> b_blockno (B x) = of_nat n" and ?Q = "\<lambda>x. b_refcnt (B x) = 0"
  have bno: "b_blockno x = of_nat n \<longleftrightarrow> block_of x = n" for x
    using n(1) by (auto simp: block_of_def unat_of_nat take_bit_nat_eq_self)
  have run: "running p s" and B: "bufs (vd s) = B" using at by (simp_all add: disk_at_def)
  note cpu = running_cpu [OF run]
  have l: "linked B bhead xs bhead" "set xs = {..<NBUF}" "distinct xs" using cache_relD(1) [OF cr] by (auto simp: lru_def)
  have len: "length xs < Suc NBUF" using distinct_card [OF l(3)] l(2) by simp
  have search: "bget_cached (Suc NBUF) dv (of_nat n) (b_next (B bhead)) (held BcacheLock s) = Ok (List.find ?P xs) (held BcacheLock s)"
    using bget_cached_run [of "held BcacheLock s" bhead xs "Suc NBUF" dv "of_nat n"] linked_ends(1) [OF l(1)] l(1,2) len B by simp
  have unused: "bget_unused (Suc NBUF) (b_prev (B bhead)) (held BcacheLock s) = Ok (List.find ?Q (rev xs)) (held BcacheLock s)"
    using bget_unused_run [of "held BcacheLock s" xs bhead "Suc NBUF"] linked_ends(2) [OF l(1)] l(1,2) len B by simp
  show ?thesis
  proof (cases "List.find ?P xs")
    case (Some b)
    then have b: "b < NBUF" "b_dev (B b) = dv" "block_of (B b) = n" using l(2) bno by (auto simp: find_Some_iff)
    let ?g = "\<lambda>x. x\<lparr>b_refcnt := b_refcnt x + 1\<rparr>"
    have rel: "buf_rel dv pid D C R H (K (SBuf b)) b (B b)" using cache_relD(2) [OF cr b(1)] .
    then have unl: "\<not> sl_locked (K (SBuf b))" and ref: "unat (b_refcnt (B b)) = R n" using b n(2) by (simp_all add: buf_rel_def)
    have "unat (b_refcnt (B b) + 1) = R n + 1" using ref n(3) by (simp add: unat_plus_simple [THEN iffD1] no_olen_add_nat)
    moreover have "block_of (?g (B b)) = n" using b(3) by (simp add: block_of_def)
    ultimately have "buf_rel dv pid D C (R(n := R n + 1)) H (K (SBuf b)) b (?g (B b))"
      using rel b n(2) by (auto simp: buf_rel_def)
    then have "cache_rel dv pid (B(b := ?g (B b))) K xs D C (R(n := R n + 1)) H"
      using b \<open>block_of (?g (B b)) = n\<close> by (intro cache_rel_upd [OF cr]) auto
    moreover obtain t where t: "(seq (unlock BcacheLock) (seq (acquiresleep (SBuf b)) (return b))) (held BcacheLock (s\<lparr>vd := upd_buf b ?g (vd s)\<rparr>)) = Ok b t"
        "disk_at f p pid (K(SBuf b := (K (SBuf b))\<lparr>sl_locked := True, sl_pid := pid\<rparr>)) Z (B(b := ?g (B b))) D t"
      using bget_finish [OF at unl, of ?g] by blast
    moreover have "bget dv (of_nat n) s = Ok b t" using t(1) search Some cpu(3) B by (simp add: bget_def)
    ultimately show ?thesis using b \<open>block_of (?g (B b)) = n\<close>
      by (intro exI [of _ b] exI [of _ "B(b := ?g (B b))"] exI [of _ t]) simp
  next
    case None
    then have nc: "\<forall>i < NBUF. b_dev (B i) = dv \<longrightarrow> block_of (B i) \<noteq> n" using l(2) bno by (auto simp: find_None_iff)
    then have R0: "R n = 0" using cache_relD(6) [OF cr, of n] by auto
    with room unused_exists [OF cr] obtain i where "i < NBUF" "b_refcnt (B i) = 0" by auto
    then obtain b where f: "List.find ?Q (rev xs) = Some b" using l(2) by (cases "List.find ?Q (rev xs)") (auto simp: find_None_iff)
    then have b: "b < NBUF" "b_refcnt (B b) = 0" using l(2) find_SomeD [OF f] by auto
    let ?g = "\<lambda>x. x\<lparr>b_dev := dv, b_blockno := of_nat n, b_valid := False, b_refcnt := 1\<rparr>"
    have rel: "buf_rel dv pid D C R H (K (SBuf b)) b (B b)" using cache_relD(2) [OF cr b(1)] .
    then have unl: "\<not> sl_locked (K (SBuf b))" using b(2) by (auto simp: buf_rel_def split: if_splits)
    have "cache_rel dv pid (B(b := ?g (B b))) K xs D C (R(n := 1)) H" by (rule cache_rel_recycle [OF cr b nc n(1)])
    moreover have "block_of (?g (B b)) = n" using n(1) by (simp add: block_of_def unat_of_nat take_bit_nat_eq_self)
    moreover obtain t where t: "(seq (unlock BcacheLock) (seq (acquiresleep (SBuf b)) (return b))) (held BcacheLock (s\<lparr>vd := upd_buf b ?g (vd s)\<rparr>)) = Ok b t"
        "disk_at f p pid (K(SBuf b := (K (SBuf b))\<lparr>sl_locked := True, sl_pid := pid\<rparr>)) Z (B(b := ?g (B b))) D t"
      using bget_finish [OF at unl, of ?g] by blast
    moreover have "bget dv (of_nat n) s = Ok b t" using t(1) search None unused f cpu(3) B by (simp add: bget_def)
    ultimately show ?thesis using b R0
      by (intro exI [of _ b] exI [of _ "B(b := ?g (B b))"] exI [of _ t]) simp
  qed
qed

lemma bread_spec:
  assumes n: "n < 2 ^ 31" "H n = None" "R n + 1 < 2 ^ 32" and room: "0 < R n \<or> card {m. 0 < R m} < NBUF"
  shows "runs_to (bstate dv f p pid Z D C R H) (bread dv (of_nat n))
    (\<lambda>b. bstate dv f p pid Z D C (R(n := R n + 1)) (H(n \<mapsto> b))) (\<lambda>t. f \<and> disk_block (medium (vd t)) = D)"
proof (rule runs_toI)
  fix s :: "'a kdisk_scheme"
  assume s: "bstate dv f p pid Z D C R H s"
  then obtain B0 K xs where "disk_at f p pid K Z B0 D s" "cache_rel dv pid B0 K xs D C R H" by (auto simp: bstate_def)
  from bget_run [OF this _ n(2,3) room] n(1) obtain b B t where get: "bget dv (of_nat n) s = Ok b t"
      and b: "b < NBUF" "b_dev (B b) = dv" "block_of (B b) = n"
      and at: "disk_at f p pid (K(SBuf b := (K (SBuf b))\<lparr>sl_locked := True, sl_pid := pid\<rparr>)) Z B D t"
      and cr: "cache_rel dv pid B K xs D C (R(n := R n + 1)) H"
    by auto
  let ?R = "R(n := R n + 1)" and ?H = "H(n \<mapsto> b)" and ?K = "K(SBuf b := (K (SBuf b))\<lparr>sl_locked := True, sl_pid := pid\<rparr>)"
  have rel: "buf_rel dv pid D C ?R H (K (SBuf b)) b (B b)" using cache_relD(2) [OF cr b(1)] .
  have Bt: "bufs (vd t) = B" using at by (simp add: disk_at_def)
  show "(\<exists>x t. bread dv (of_nat n) s = Ok x t \<and> bstate dv f p pid Z D C ?R (H(n \<mapsto> x)) t) \<or>
    (\<exists>t. bread dv (of_nat n) s = Stop Switched t \<and> f \<and> disk_block (medium (vd t)) = D)"
  proof (cases "b_valid (B b)")
    case True
    then have "buf_rel dv pid D C ?R ?H (?K (SBuf b)) b (B b)" using rel b by (auto simp: buf_rel_def)
    then have "cache_rel dv pid (B(b := B b)) ?K xs D C ?R ?H" using b by (intro cache_rel_upd [OF cr]) auto
    then have "bstate dv f p pid Z D C ?R ?H t" using at unfolding bstate_def by auto
    then show ?thesis using get True Bt by (simp add: bread_def)
  next
    case False
    let ?x = "(B b)\<lparr>b_data := D n, b_valid := True\<rparr>"
    have len: "length (D n) = BSIZE" using at length_disk_block [of "medium (vd t)" n] by (auto simp: disk_at_def)
    have bo: "block_of ?x = n" using b(3) by (simp add: block_of_def)
    have CD: "C n = D n" using rel b False by (simp add: buf_rel_def)
    then have "buf_rel dv pid D C ?R ?H (?K (SBuf b)) b ?x" using rel b bo len by (simp add: buf_rel_def)
    then have cr': "cache_rel dv pid (B(b := ?x)) ?K xs D C ?R ?H" using b bo by (intro cache_rel_upd [OF cr]) auto
    have "unat (b_blockno (B b)) = n" "length (b_data (B b)) = BSIZE" "\<not> b_disk (B b)"
      using b(3) rel by (simp_all add: block_of_def buf_rel_def)
    then have "runs_to (disk_at f p pid ?K Z B D) (virtio_disk_rw b False)
        (\<lambda>_. disk_at f p pid ?K Z (B(b := (B b)\<lparr>b_data := D n\<rparr>)) D) (\<lambda>t. f \<and> disk_block (medium (vd t)) = D)"
      using disk_rw [of B b f p pid ?K Z D False] n(1) by simp
    from runs_toD [OF this at] consider (ok) u where "virtio_disk_rw b False t = Ok () u" "disk_at f p pid ?K Z (B(b := (B b)\<lparr>b_data := D n\<rparr>)) D u"
      | (cut) u where "virtio_disk_rw b False t = Stop Switched u" "f" "disk_block (medium (vd u)) = D"
      by auto
    then show ?thesis
    proof cases
      case ok
      from disk_at_buf [OF ok(2), of b "\<lambda>x. x\<lparr>b_valid := True\<rparr>"] cr'
      have "bstate dv f p pid Z D C ?R ?H (u\<lparr>vd := upd_buf b (\<lambda>x. x\<lparr>b_valid := True\<rparr>) (vd u)\<rparr>)"
        unfolding bstate_def by auto
      then show ?thesis using get False Bt ok(1) by (simp add: bread_def)
    next
      case cut
      then show ?thesis using get False Bt by (simp add: bread_def)
    qed
  qed
qed

end
