(* ===== verification/LogSpec.thy ===== *)
theory LogSpec
  imports Log BioSpec
begin

text \<open>
  The write-ahead log makes transactions atomic. \<open>commit\<close> runs on a disk that may fail at any time;
  whenever it does, \<open>recover_from_log\<close> on the disk that is left gives a file system in which either
  all blocks of the transaction are written or none is.
\<close>

section \<open>Integers in a block\<close>

lemma length_put32 [simp]: "off + 4 \<le> length bs \<Longrightarrow> length (put32 bs off v) = length bs"
  by (simp add: put32_def put_bytes_def)

lemma get32_put32_same: "off + 4 \<le> length bs \<Longrightarrow> get32 (put32 bs off v) off = v"
  by (simp add: get32_def put32_def put_bytes_def le_word_bytes)

lemma get32_put32_other:
  assumes "off + 4 \<le> length bs" "off' + 4 \<le> off \<or> off + 4 \<le> off'"
  shows "get32 (put32 bs off v) off' = get32 bs off'"
proof -
  have "take 4 (drop off' (put32 bs off v)) = take 4 (drop off' bs)"
  proof (rule nth_equalityI)
    show "length (take 4 (drop off' (put32 bs off v))) = length (take 4 (drop off' bs))" using assms(1) by simp
    fix i assume "i < length (take 4 (drop off' (put32 bs off v)))"
    then have "i < 4" "off' + i < length bs" using assms(1) by auto
    then show "take 4 (drop off' (put32 bs off v)) ! i = take 4 (drop off' bs) ! i"
      using assms by (auto simp: put32_def put_bytes_def nth_append)
  qed
  then show ?thesis by (simp add: get32_def)
qed

section \<open>The header block\<close>

definition hdr_n :: "byte list \<Rightarrow> nat" where
  "hdr_n c = nat (sint (get32 c 0))"

definition hdr_block :: "byte list \<Rightarrow> nat \<Rightarrow> nat" where
  "hdr_block c i = nat (sint (get32 c (4 + 4 * i)))"

text \<open>What \<open>write_head\<close> makes of the block.\<close>

definition put_blocks :: "nat \<Rightarrow> (nat \<Rightarrow> nat) \<Rightarrow> byte list \<Rightarrow> byte list" where
  "put_blocks m bl c = fold (\<lambda>i c. put32 c (4 + 4 * i) (of_nat (bl i))) [0..<m] c"

definition put_header :: "nat \<Rightarrow> (nat \<Rightarrow> nat) \<Rightarrow> byte list \<Rightarrow> byte list" where
  "put_header n bl c = put_blocks n bl (put32 c 0 (of_nat n))"

lemma put_blocks_Suc: "put_blocks (Suc m) bl c = put32 (put_blocks m bl c) (4 + 4 * m) (of_nat (bl m))"
  by (simp add: put_blocks_def)

lemma put_blocks_simps:
  assumes "length c = BSIZE" "m \<le> LOGSIZE"
  shows "length (put_blocks m bl c) = BSIZE \<and> get32 (put_blocks m bl c) 0 = get32 c 0 \<and>
    (\<forall>i < LOGSIZE. get32 (put_blocks m bl c) (4 + 4 * i) = (if i < m then of_nat (bl i) else get32 c (4 + 4 * i)))"
  using assms(2)
proof (induction m)
  case 0
  then show ?case using assms(1) by (simp add: put_blocks_def)
next
  case (Suc m)
  let ?c = "put_blocks m bl c"
  have IH: "length ?c = BSIZE" "get32 ?c 0 = get32 c 0"
      "\<forall>i < LOGSIZE. get32 ?c (4 + 4 * i) = (if i < m then of_nat (bl i) else get32 c (4 + 4 * i))"
    using Suc by auto
  have fit: "4 + 4 * m + 4 \<le> length ?c" using IH(1) Suc.prems by (simp add: BSIZE_def LOGSIZE_def MAXOPBLOCKS_def)
  have "get32 (put32 ?c (4 + 4 * m) (of_nat (bl m))) (4 + 4 * i) = (if i < Suc m then of_nat (bl i) else get32 c (4 + 4 * i))"
    if "i < LOGSIZE" for i
  proof (cases "i = m")
    case True
    then show ?thesis using get32_put32_same [OF fit] by simp
  next
    case False
    then have "4 + 4 * i + 4 \<le> 4 + 4 * m \<or> 4 + 4 * m + 4 \<le> 4 + 4 * i" by arith
    then show ?thesis using get32_put32_other [OF fit] IH(3) that False by auto
  qed
  then show ?case using IH fit get32_put32_other [OF fit, of 0] by (simp add: put_blocks_Suc)
qed

lemma sint_of_nat: "k < 2 ^ 31 \<Longrightarrow> sint (of_nat k :: u32) = int k"
  by (simp add: signed_of_nat signed_take_bit_int_eq_self)

text \<open>The header lists the \<open>n\<close> blocks \<open>bl 0\<close> to \<open>bl (n - 1)\<close>.\<close>

definition header :: "byte list \<Rightarrow> nat \<Rightarrow> (nat \<Rightarrow> nat) \<Rightarrow> bool" where
  "header c n bl \<longleftrightarrow> n \<le> LOGSIZE \<and> get32 c 0 = of_nat n \<and> (\<forall>i < n. get32 c (4 + 4 * i) = of_nat (bl i) \<and> bl i < 2 ^ 31)"

lemma header_int:
  assumes "header c n bl"
  shows "sint (get32 c 0) = int n" "i < n \<Longrightarrow> sint (get32 c (4 + 4 * i)) = int (bl i)"
    "hdr_n c = n" "i < n \<Longrightarrow> hdr_block c i = bl i"
proof -
  have "n < 2 ^ 31" using assms by (simp add: header_def LOGSIZE_def MAXOPBLOCKS_def)
  then show "sint (get32 c 0) = int n" "i < n \<Longrightarrow> sint (get32 c (4 + 4 * i)) = int (bl i)"
    using assms by (simp_all add: header_def sint_of_nat)
  then show "hdr_n c = n" "i < n \<Longrightarrow> hdr_block c i = bl i" by (simp_all add: hdr_n_def hdr_block_def)
qed

lemma header_put_header:
  assumes "length c = BSIZE" "n \<le> LOGSIZE" "\<And>i. i < n \<Longrightarrow> bl i < 2 ^ 31"
  shows "header (put_header n bl c) n bl" "length (put_header n bl c) = BSIZE"
proof -
  let ?c = "put32 c 0 (of_nat n)"
  have c: "length ?c = BSIZE" "get32 ?c 0 = of_nat n"
    using assms(1) get32_put32_same [of 0 c "of_nat n"] by (simp_all add: BSIZE_def)
  note P = put_blocks_simps [OF c(1) assms(2), of bl]
  show "length (put_header n bl c) = BSIZE" using P by (simp add: put_header_def)
  show "header (put_header n bl c) n bl" using P c(2) assms(2,3) by (simp add: put_header_def header_def)
qed

section \<open>What a disk recovers to\<close>

definition log_area :: "nat \<Rightarrow> nat \<Rightarrow> nat set" where
  "log_area sz st = {st..<st + sz}"

text \<open>The blocks of the disk \<open>d\<close> after the log that starts at \<open>st\<close> has been installed.\<close>

definition recover_disk :: "nat \<Rightarrow> (nat \<Rightarrow> byte list) \<Rightarrow> nat \<Rightarrow> byte list" where
  "recover_disk st d = fold (\<lambda>i e. e(hdr_block (d st) i := d (st + i + 1))) [0..<hdr_n (d st)] d"

definition same_home :: "nat \<Rightarrow> nat \<Rightarrow> (nat \<Rightarrow> byte list) \<Rightarrow> (nat \<Rightarrow> byte list) \<Rightarrow> bool" where
  "same_home sz st d e \<longleftrightarrow> (\<forall>k. k \<notin> log_area sz st \<longrightarrow> d k = e k)"

definition log_ok :: "nat \<Rightarrow> nat \<Rightarrow> (nat \<Rightarrow> byte list) \<Rightarrow> bool" where
  "log_ok sz st d \<longleftrightarrow> (\<exists>n bl. header (d st) n bl \<and> n < sz \<and> (\<forall>i < n. bl i \<notin> log_area sz st))"

definition installed :: "nat \<Rightarrow> (nat \<Rightarrow> nat) \<Rightarrow> (nat \<Rightarrow> byte list) \<Rightarrow> (nat \<Rightarrow> byte list) \<Rightarrow> nat \<Rightarrow> byte list" where
  "installed m bl v d = fold (\<lambda>i e. e(bl i := v i)) [0..<m] d"

lemma installed_Suc: "installed (Suc m) bl v d = (installed m bl v d)(bl m := v m)"
  by (simp add: installed_def)

lemma installed_0 [simp]: "installed 0 bl v d = d"
  by (simp add: installed_def)

lemma installed_other: "(\<And>i. i < m \<Longrightarrow> bl i \<noteq> k) \<Longrightarrow> installed m bl v d k = d k"
  by (induction m) (auto simp: installed_Suc)

lemma installed_value:
  "(\<And>i. i < m \<Longrightarrow> v i = w (bl i)) \<Longrightarrow> installed m bl v d k = (if k \<in> bl ` {..<m} then w k else d k)"
proof (induction m)
  case (Suc m)
  then have "installed m bl v d k = (if k \<in> bl ` {..<m} then w k else d k)" by simp
  then show ?case using Suc.prems [of m] by (simp add: installed_Suc lessThan_Suc)
qed simp

text \<open>Installing again from the start does not depend on what was already installed.\<close>

lemma installed_again:
  assumes "\<And>k. k \<notin> bl ` {..<m} \<Longrightarrow> d k = e k"
  shows "installed m bl v d = installed m bl v e"
proof -
  have "fold (\<lambda>i e. e(bl i := v i)) xs d = fold (\<lambda>i e. e(bl i := v i)) xs e" if "\<forall>k. k \<notin> bl ` set xs \<longrightarrow> d k = e k" for xs d e
    using that
  proof (induction xs arbitrary: d e)
    case Nil
    then show ?case by (simp add: fun_eq_iff)
  next
    case (Cons i xs)
    have "\<forall>k. k \<notin> bl ` set xs \<longrightarrow> (d(bl i := v i)) k = (e(bl i := v i)) k" using Cons.prems by simp
    from Cons.IH [OF this] show ?case by simp
  qed
  then show ?thesis using assms by (simp add: installed_def atLeast0LessThan)
qed

lemma recover_disk_header:
  assumes "header (d st) n bl"
  shows "recover_disk st d = installed n bl (\<lambda>i. d (st + i + 1)) d"
proof -
  note h = header_int [OF assms]
  have "fold (\<lambda>i e. e(hdr_block (d st) i := d (st + i + 1))) [0..<n] e = fold (\<lambda>i e. e(bl i := d (st + i + 1))) [0..<n] e" for e
    by (rule fold_cong) (simp_all add: h(4))
  then show ?thesis using h(3) by (simp add: recover_disk_def installed_def)
qed

section \<open>The state of the log\<close>

text \<open>The cache as in the theory of the buffer cache, the log structure, and the rest of the state.\<close>

definition lstate ::
  "bool \<Rightarrow> nat \<Rightarrow> int \<Rightarrow> log \<Rightarrow> 'z \<Rightarrow> (nat \<Rightarrow> byte list) \<Rightarrow> (nat \<Rightarrow> byte list) \<Rightarrow> (nat \<Rightarrow> nat) \<Rightarrow> (nat \<Rightarrow> nat option) \<Rightarrow> 'z klog_scheme \<Rightarrow> bool" where
  "lstate f p pid G Y D C R H s \<longleftrightarrow>
     bstate (u32_of_int (lg_dev G)) f p pid (kdisk.more s) D C R H s \<and> lg s = G \<and> klog.more s = Y"

definition disk_of :: "'z kdisk_scheme \<Rightarrow> nat \<Rightarrow> byte list" where
  "disk_of s = disk_block (medium (vd s))"

text \<open>The run was cut off by the disk, whose blocks then have the property \<open>X\<close>.\<close>

definition crash :: "bool \<Rightarrow> ((nat \<Rightarrow> byte list) \<Rightarrow> bool) \<Rightarrow> 'z kdisk_scheme \<Rightarrow> bool" where
  "crash f X t \<longleftrightarrow> f \<and> X (disk_of t)"

lemma bstate_more: "bstate dv f p pid Z D C R H s \<Longrightarrow> kdisk.more s = Z"
  by (auto simp: bstate_def disk_at_def)

lemma klog_more: "kdisk.more s = kdisk.more t \<Longrightarrow> lg s = lg t \<and> klog.more s = klog.more t"
  by (cases s; cases t) simp

lemma lift_spec:
  fixes m :: "'z klog_scheme \<Rightarrow> ('z klog_scheme, 'a) res"
  assumes "\<And>Z. runs_to (bstate (u32_of_int (lg_dev G)) f p pid Z D C R H) m
      (\<lambda>x. bstate (u32_of_int (lg_dev G)) f p pid Z (D' x) (C' x) (R' x) (H' x)) E"
    and "\<And>t. E t \<Longrightarrow> E' t"
  shows "runs_to (lstate f p pid G Y D C R H) m (\<lambda>x. lstate f p pid G Y (D' x) (C' x) (R' x) (H' x)) E'"
proof (rule runs_toI)
  fix s
  assume s: "lstate f p pid G Y D C R H s"
  then have "bstate (u32_of_int (lg_dev G)) f p pid (kdisk.more s) D C R H s" by (simp add: lstate_def)
  from runs_toD [OF assms(1) this]
  show "(\<exists>x t. m s = Ok x t \<and> lstate f p pid G Y (D' x) (C' x) (R' x) (H' x) t) \<or> (\<exists>t. m s = Stop Switched t \<and> E' t)"
  proof (elim disjE exE conjE)
    fix x t
    assume t: "m s = Ok x t" "bstate (u32_of_int (lg_dev G)) f p pid (kdisk.more s) (D' x) (C' x) (R' x) (H' x) t"
    from bstate_more [OF t(2)] klog_more [of t s] s t show ?thesis by (auto simp: lstate_def)
  qed (use assms(2) in blast)
qed

lemma bread_l:
  assumes "n < 2 ^ 31" "H n = None" "R n + 1 < 2 ^ 32" "0 < R n \<or> card {m. 0 < R m} < NBUF" "X D"
  shows "runs_to (lstate f p pid G Y D C R H) (bread (u32_of_int (lg_dev G)) (of_nat n))
    (\<lambda>b. lstate f p pid G Y D C (R(n := R n + 1)) (H(n \<mapsto> b))) (crash f X)"
  by (rule lift_spec [OF bread_spec [of n H R, OF assms(1-4)]]) (use assms(5) in \<open>simp add: crash_def disk_of_def\<close>)

lemma bwrite_l:
  assumes "H n = Some b" "n < 2 ^ 31" "X D" "X (D(n := C n))"
  shows "runs_to (lstate f p pid G Y D C R H) (bwrite b) (\<lambda>_. lstate f p pid G Y (D(n := C n)) C R H) (crash f X)"
  by (rule lift_spec [OF bwrite_spec [of H n b, OF assms(1,2)]]) (metis assms(3,4) crash_def disk_of_def)

lemma brelse_l:
  assumes "H n = Some b" "1 < R n \<or> C n = D n"
  shows "runs_to (lstate f p pid G Y D C R H) (brelse b) (\<lambda>_. lstate f p pid G Y D C (R(n := R n - 1)) (H(n := None))) E"
  by (rule lift_spec [OF brelse_spec [of H n b R C D, OF assms]]) simp

lemma bunpin_l:
  assumes "H n = Some b" "1 < R n"
  shows "runs_to (lstate f p pid G Y D C R H) (bunpin b) (\<lambda>_. lstate f p pid G Y D C (R(n := R n - 1)) H) E"
  by (rule lift_spec [OF bunpin_spec [of H n b R, OF assms]]) simp

lemma set_data_l:
  assumes "H n = Some b" "length (C n) = BSIZE \<Longrightarrow> length (g (C n)) = BSIZE"
  shows "runs_to (lstate f p pid G Y D C R H) (modify_buf b (\<lambda>x. x\<lparr>b_data := g (b_data x)\<rparr>))
    (\<lambda>_. lstate f p pid G Y D (C(n := g (C n))) R H) E"
  by (rule lift_spec [OF set_data_spec [of H n b C g, OF assms]]) simp_all

lemma get_data_l:
  assumes "H n = Some b"
    and "\<And>x. b_data x = C n \<Longrightarrow> length (C n) = BSIZE \<Longrightarrow> runs_to (lstate f p pid G Y D C R H) (m x) Q E"
  shows "runs_to (lstate f p pid G Y D C R H) (bind (get_buf b) m) Q E"
proof (rule runs_toI)
  fix s
  assume s: "lstate f p pid G Y D C R H s"
  then have "b_data (bufs (vd s) b) = C n" "length (C n) = BSIZE"
    using bstate_held [of _ f p pid _ D C R H s n b] assms(1) by (auto simp: lstate_def)
  from runs_toD [OF assms(2) [OF this] s]
  show "(\<exists>x t. bind (get_buf b) m s = Ok x t \<and> Q x t) \<or> (\<exists>t. bind (get_buf b) m s = Stop Switched t \<and> E t)" by simp
qed

lemma length_l:
  assumes "H n = Some b" "length (C n) = BSIZE \<Longrightarrow> runs_to (lstate f p pid G Y D C R H) m Q E"
  shows "runs_to (lstate f p pid G Y D C R H) m Q E"
proof (rule runs_toI)
  fix s
  assume s: "lstate f p pid G Y D C R H s"
  then have "length (C n) = BSIZE" using bstate_held(1) [of _ f p pid _ D C R H s n b] assms(1) by (auto simp: lstate_def)
  from runs_toD [OF assms(2) [OF this] s] show "(\<exists>x t. m s = Ok x t \<and> Q x t) \<or> (\<exists>t. m s = Stop Switched t \<and> E t)" .
qed

lemma get_log_l: "runs_to (lstate f p pid G Y D C R H) (m (h G)) Q E \<Longrightarrow> runs_to (lstate f p pid G Y D C R H) (bind (get_log h) m) Q E"
  unfolding get_log_def by (rule runs_to_gets [where v = "h G"]) (simp_all add: lstate_def)

lemma modify_log_l:
  assumes "lg_dev (h G) = lg_dev G"
  shows "runs_to (lstate f p pid G Y D C R H) (modify_log h) (\<lambda>_. lstate f p pid (h G) Y D C R H) E"
  unfolding modify_log_def
  by (rule runs_to_modify) (use assms in \<open>auto simp: lstate_def bstate_def disk_at_def running_def\<close>)

section \<open>Copying between the log and the home blocks\<close>

lemma u32_block: "u32_of_int (int k) = of_nat k" "u32_of_int (int k + int i + 1) = of_nat (k + i + 1)"
  by (simp_all add: u32_of_int_def)

text \<open>What it takes to have the blocks \<open>a\<close> and \<open>c\<close> in buffers at the same time.\<close>

definition two_buffers :: "(nat \<Rightarrow> nat) \<Rightarrow> (nat \<Rightarrow> nat option) \<Rightarrow> nat \<Rightarrow> nat \<Rightarrow> bool" where
  "two_buffers R H a c \<longleftrightarrow> a \<noteq> c \<and> a < 2 ^ 31 \<and> c < 2 ^ 31 \<and> H a = None \<and> H c = None \<and>
     R a + 1 < 2 ^ 32 \<and> R c + 1 < 2 ^ 32 \<and>
     (0 < R a \<or> card {m. 0 < R m} < NBUF) \<and> (0 < R c \<or> card {m. 0 < (R(a := R a + 1)) m} < NBUF)"

text \<open>Both buffers are read, \<open>a\<close> first, and \<open>m\<close> runs with them.\<close>

lemma two_breads:
  assumes t: "two_buffers R H a c" and X: "X D"
    and m: "\<And>x y. runs_to (lstate f p pid G Y D C (R(a := R a + 1, c := R c + 1)) (H(a \<mapsto> x, c \<mapsto> y))) (m x y) Q (crash f X)"
  shows "runs_to (lstate f p pid G Y D C R H)
    (bind (bread (u32_of_int (lg_dev G)) (of_nat a)) (\<lambda>x. bind (bread (u32_of_int (lg_dev G)) (of_nat c)) (m x))) Q (crash f X)"
proof (rule runs_to_bind)
  show "runs_to (lstate f p pid G Y D C R H) (bread (u32_of_int (lg_dev G)) (of_nat a))
      (\<lambda>x. lstate f p pid G Y D C (R(a := R a + 1)) (H(a \<mapsto> x))) (crash f X)"
    using t X by (intro bread_l) (simp_all add: two_buffers_def)
next
  fix x
  show "runs_to (lstate f p pid G Y D C (R(a := R a + 1)) (H(a \<mapsto> x)))
      (bind (bread (u32_of_int (lg_dev G)) (of_nat c)) (m x)) Q (crash f X)"
  proof (rule runs_to_bind)
    show "runs_to (lstate f p pid G Y D C (R(a := R a + 1)) (H(a \<mapsto> x))) (bread (u32_of_int (lg_dev G)) (of_nat c))
        (\<lambda>y. lstate f p pid G Y D C ((R(a := R a + 1))(c := (R(a := R a + 1)) c + 1)) (H(a \<mapsto> x, c \<mapsto> y))) (crash f X)"
      using t X by (intro bread_l) (simp_all add: two_buffers_def)
  qed (use m t in \<open>simp add: two_buffers_def\<close>)
qed

lemma two_brelses:
  assumes "a \<noteq> c" "H a = Some x" "H c = Some y" "1 < R c \<or> C c = D c" "1 < R a \<or> C a = D a"
  shows "runs_to (lstate f p pid G Y D C R H) (seq (brelse y) (brelse x))
    (\<lambda>_. lstate f p pid G Y D C (R(a := R a - 1, c := R c - 1)) (H(a := None, c := None))) E"
proof (rule runs_to_seq)
  show "runs_to (lstate f p pid G Y D C R H) (brelse y) (\<lambda>_. lstate f p pid G Y D C (R(c := R c - 1)) (H(c := None))) E"
    using assms by (intro brelse_l) simp_all
  have "runs_to (lstate f p pid G Y D C (R(c := R c - 1)) (H(c := None))) (brelse x)
      (\<lambda>_. lstate f p pid G Y D C ((R(c := R c - 1))(a := (R(c := R c - 1)) a - 1)) ((H(c := None))(a := None))) E"
    using assms by (intro brelse_l) simp_all
  then show "runs_to (lstate f p pid G Y D C (R(c := R c - 1)) (H(c := None))) (brelse x)
      (\<lambda>_. lstate f p pid G Y D C (R(a := R a - 1, c := R c - 1)) (H(a := None, c := None))) E"
    using assms(1) by (simp add: fun_upd_twist)
qed

lemma write_log_one_spec:
  assumes G: "lg_start G = int st" "lh_block G i = int c" "a = st + i + 1"
    and t: "two_buffers R H a c" and R: "0 < R c" and X: "X D" "X (D(a := C c))"
  shows "runs_to (lstate f p pid G Y D C R H) (write_log_one i)
    (\<lambda>_. lstate f p pid G Y (D(a := C c)) (C(a := C c)) R H) (crash f X)"
  unfolding write_log_one_def
proof (rule get_log_l, simp only: id_apply G(1,2) u32_block G(3) [symmetric], rule two_breads [of R H a c X D, OF t X(1)])
  fix x y
  let ?R = "R(a := R a + 1, c := R c + 1)" and ?H = "H(a \<mapsto> x, c \<mapsto> y)"
  have ac: "a \<noteq> c" "a < 2 ^ 31" "H a = None" "H c = None" using t by (simp_all add: two_buffers_def)
  show "runs_to (lstate f p pid G Y D C ?R ?H)
      (bind (get_buf y) (\<lambda>z. seq (modify_buf x (\<lambda>w. w\<lparr>b_data := b_data z\<rparr>)) (seq (bwrite x) (seq (brelse y) (brelse x)))))
      (\<lambda>_. lstate f p pid G Y (D(a := C c)) (C(a := C c)) R H) (crash f X)"
  proof (rule get_data_l [of ?H c y])
    fix z :: buf
    assume z: "b_data z = C c" "length (C c) = BSIZE"
    show "runs_to (lstate f p pid G Y D C ?R ?H) (seq (modify_buf x (\<lambda>w. w\<lparr>b_data := b_data z\<rparr>)) (seq (bwrite x) (seq (brelse y) (brelse x))))
      (\<lambda>_. lstate f p pid G Y (D(a := C c)) (C(a := C c)) R H) (crash f X)"
    proof (rule runs_to_seq [OF _ runs_to_seq])
      show "runs_to (lstate f p pid G Y D C ?R ?H) (modify_buf x (\<lambda>w. w\<lparr>b_data := b_data z\<rparr>))
          (\<lambda>_. lstate f p pid G Y D (C(a := C c)) ?R ?H) (crash f X)"
        using set_data_l [of ?H a x C "\<lambda>_. b_data z" f p pid G Y D ?R "crash f X"] z ac by simp
      show "runs_to (lstate f p pid G Y D (C(a := C c)) ?R ?H) (bwrite x) (\<lambda>_. lstate f p pid G Y (D(a := C c)) (C(a := C c)) ?R ?H) (crash f X)"
        using bwrite_l [of ?H a x X D "C(a := C c)" f p pid G Y ?R] X ac by simp
      have "?R(a := ?R a - 1, c := ?R c - 1) = R" "?H(a := None, c := None) = H" using ac by (auto simp: fun_eq_iff)
      then show "runs_to (lstate f p pid G Y (D(a := C c)) (C(a := C c)) ?R ?H) (seq (brelse y) (brelse x))
          (\<lambda>_. lstate f p pid G Y (D(a := C c)) (C(a := C c)) R H) (crash f X)"
        using two_brelses [of a c ?H x y ?R "C(a := C c)" "D(a := C c)" f p pid G Y "crash f X"] ac R by simp
    qed
  qed (use ac in simp)
qed

lemma install_one_spec:
  assumes G: "lg_start G = int st" "lh_block G i = int c" "a = st + i + 1"
    and t: "two_buffers R H a c" and R: "r \<or> 0 < R c" and clean: "C a = D a" and X: "X D" "X (D(c := C a))"
  shows "runs_to (lstate f p pid G Y D C R H) (install_one r i)
    (\<lambda>_. lstate f p pid G Y (D(c := C a)) (C(c := C a)) (if r then R else R(c := R c - 1)) H) (crash f X)"
  unfolding install_one_def
proof (rule get_log_l, simp only: id_apply G(1,2) u32_block G(3) [symmetric], rule two_breads [of R H a c X D, OF t X(1)])
  fix x y
  let ?R = "R(a := R a + 1, c := R c + 1)" and ?H = "H(a \<mapsto> x, c \<mapsto> y)"
  let ?S = "if r then ?R else ?R(c := R c)" and ?D = "D(c := C a)" and ?C = "C(c := C a)"
  have ac: "a \<noteq> c" "c < 2 ^ 31" "H a = None" "H c = None" using t by (simp_all add: two_buffers_def)
  show "runs_to (lstate f p pid G Y D C ?R ?H)
      (bind (get_buf x) (\<lambda>z. seq (modify_buf y (\<lambda>w. w\<lparr>b_data := b_data z\<rparr>)) (seq (bwrite y)
        (seq (whenever (\<not> r) (bunpin y)) (seq (brelse x) (brelse y))))))
      (\<lambda>_. lstate f p pid G Y ?D ?C (if r then R else R(c := R c - 1)) H) (crash f X)"
  proof (rule get_data_l [of ?H a x])
    fix z :: buf
    assume z: "b_data z = C a" "length (C a) = BSIZE"
    show "runs_to (lstate f p pid G Y D C ?R ?H) (seq (modify_buf y (\<lambda>w. w\<lparr>b_data := b_data z\<rparr>)) (seq (bwrite y)
        (seq (whenever (\<not> r) (bunpin y)) (seq (brelse x) (brelse y)))))
      (\<lambda>_. lstate f p pid G Y ?D ?C (if r then R else R(c := R c - 1)) H) (crash f X)"
    proof (rule runs_to_seq [OF _ runs_to_seq [OF _ runs_to_seq]])
      show "runs_to (lstate f p pid G Y D C ?R ?H) (modify_buf y (\<lambda>w. w\<lparr>b_data := b_data z\<rparr>))
          (\<lambda>_. lstate f p pid G Y D ?C ?R ?H) (crash f X)"
        using set_data_l [of ?H c y C "\<lambda>_. b_data z" f p pid G Y D ?R "crash f X"] z by simp
      show "runs_to (lstate f p pid G Y D ?C ?R ?H) (bwrite y) (\<lambda>_. lstate f p pid G Y ?D ?C ?R ?H) (crash f X)"
        using bwrite_l [of ?H c y X D ?C f p pid G Y ?R] X ac by simp
      show "runs_to (lstate f p pid G Y ?D ?C ?R ?H) (whenever (\<not> r) (bunpin y)) (\<lambda>_. lstate f p pid G Y ?D ?C ?S ?H) (crash f X)"
        using bunpin_l [of ?H c y ?R f p pid G Y ?D ?C "crash f X"] R by (intro runs_to_whenever) auto
      have "?S(c := ?S c - 1, a := ?S a - 1) = (if r then R else R(c := R c - 1))" "?H(c := None, a := None) = H"
        using ac by (auto simp: fun_eq_iff)
      then show "runs_to (lstate f p pid G Y ?D ?C ?S ?H) (seq (brelse x) (brelse y))
          (\<lambda>_. lstate f p pid G Y ?D ?C (if r then R else R(c := R c - 1)) H) (crash f X)"
        using two_brelses [of c a ?H y x ?S ?C ?D f p pid G Y "crash f X"] ac clean by simp
    qed
  qed (use ac in simp)
qed

section \<open>Writing the header\<close>

lemma write_head_loop:
  assumes h: "H st = Some b" and n: "n \<le> LOGSIZE" and bl: "\<And>i. i < n \<Longrightarrow> lh_block l i = int (bl i)"
    and len: "length c = BSIZE"
  shows "runs_to (lstate f p pid G Y D (C(st := c)) R H)
    (for_each [0..<n] (\<lambda>i. modify_buf b (\<lambda>x. x\<lparr>b_data := put32 (b_data x) (4 + 4 * i) (u32_of_int (lh_block l i))\<rparr>)))
    (\<lambda>_. lstate f p pid G Y D (C(st := put_blocks n bl c)) R H) E"
proof -
  let ?I = "\<lambda>i. lstate f p pid G Y D (C(st := put_blocks i bl c)) R H"
  have "runs_to (?I i) (modify_buf b (\<lambda>x. x\<lparr>b_data := put32 (b_data x) (4 + 4 * i) (u32_of_int (lh_block l i))\<rparr>)) (\<lambda>_. ?I (Suc i)) E"
    if i: "i < n" for i
  proof -
    let ?C = "C(st := put_blocks i bl c)"
    have "length (put_blocks i bl c) = BSIZE" using put_blocks_simps [OF len, of i] i n by simp
    then have fit: "4 + 4 * i + 4 \<le> length (put_blocks i bl c)" using i n by (simp add: BSIZE_def LOGSIZE_def MAXOPBLOCKS_def)
    have "?C(st := put32 (?C st) (4 + 4 * i) (u32_of_int (lh_block l i))) = C(st := put_blocks (Suc i) bl c)"
      using bl [OF i] by (simp add: put_blocks_Suc u32_block)
    then show ?thesis
      using set_data_l [of H st b ?C "\<lambda>d. put32 d (4 + 4 * i) (u32_of_int (lh_block l i))" f p pid G Y D R E] h fit by simp
  qed
  from runs_to_for_each [of n ?I, OF this] show ?thesis by (simp add: put_blocks_def)
qed

lemma write_head_spec:
  assumes G: "lg_start G = int st" "lh_n G = int n" "\<And>i. i < n \<Longrightarrow> lh_block G i = int (bl i)"
    and n: "n \<le> LOGSIZE" "st < 2 ^ 31" "H st = None" "R st + 1 < 2 ^ 32" "0 < R st \<or> card {m. 0 < R m} < NBUF"
    and X: "X D" "X (D(st := put_header n bl (C st)))"
  shows "runs_to (lstate f p pid G Y D C R H) write_head
    (\<lambda>_. lstate f p pid G Y (D(st := put_header n bl (C st))) (C(st := put_header n bl (C st))) R H) (crash f X)"
  unfolding write_head_def
proof (rule get_log_l, simp only: id_apply G(1,2) u32_block nat_int, rule runs_to_bind)
  show "runs_to (lstate f p pid G Y D C R H) (bread (u32_of_int (lg_dev G)) (of_nat st))
      (\<lambda>b. lstate f p pid G Y D C (R(st := R st + 1)) (H(st \<mapsto> b))) (crash f X)"
    using n X(1) by (intro bread_l) simp_all
next
  fix b
  let ?R = "R(st := R st + 1)" and ?H = "H(st \<mapsto> b)" and ?hd = "put32 (C st) 0 (of_nat n)" and ?c = "put_header n bl (C st)"
  show "runs_to (lstate f p pid G Y D C ?R ?H) (seq (modify_buf b (\<lambda>x. x\<lparr>b_data := put32 (b_data x) 0 (of_nat n)\<rparr>))
      (seq (for_each [0..<n] (\<lambda>i. modify_buf b (\<lambda>x. x\<lparr>b_data := put32 (b_data x) (4 + 4 * i) (u32_of_int (lh_block G i))\<rparr>)))
      (seq (bwrite b) (brelse b)))) (\<lambda>_. lstate f p pid G Y (D(st := ?c)) (C(st := ?c)) R H) (crash f X)"
  proof (rule length_l [of ?H st b], simp, rule runs_to_seq [OF _ runs_to_seq [OF _ runs_to_seq]])
    assume len: "length (C st) = BSIZE"
    then have len0: "length ?hd = BSIZE" by (simp add: BSIZE_def)
    show "runs_to (lstate f p pid G Y D C ?R ?H) (modify_buf b (\<lambda>x. x\<lparr>b_data := put32 (b_data x) 0 (of_nat n)\<rparr>))
        (\<lambda>_. lstate f p pid G Y D (C(st := ?hd)) ?R ?H) (crash f X)"
      using set_data_l [of ?H st b C "\<lambda>d. put32 d 0 (of_nat n)" f p pid G Y D ?R "crash f X"] len0 by simp
    show "runs_to (lstate f p pid G Y D (C(st := ?hd)) ?R ?H)
        (for_each [0..<n] (\<lambda>i. modify_buf b (\<lambda>x. x\<lparr>b_data := put32 (b_data x) (4 + 4 * i) (u32_of_int (lh_block G i))\<rparr>)))
        (\<lambda>_. lstate f p pid G Y D (C(st := ?c)) ?R ?H) (crash f X)"
      unfolding put_header_def by (rule write_head_loop) (use n(1) G(3) len0 in auto)
    show "runs_to (lstate f p pid G Y D (C(st := ?c)) ?R ?H) (bwrite b) (\<lambda>_. lstate f p pid G Y (D(st := ?c)) (C(st := ?c)) ?R ?H) (crash f X)"
      using bwrite_l [of ?H st b X D "C(st := ?c)" f p pid G Y ?R] X n(2) by simp
    show "runs_to (lstate f p pid G Y (D(st := ?c)) (C(st := ?c)) ?R ?H) (brelse b) (\<lambda>_. lstate f p pid G Y (D(st := ?c)) (C(st := ?c)) R H) (crash f X)"
      using brelse_l [of ?H st b ?R "C(st := ?c)" "D(st := ?c)" f p pid G Y "crash f X"] n(3) by (simp add: fun_upd_idem)
  qed
qed

section \<open>Commit\<close>

text \<open>
  A transaction that is ready to be committed: its \<open>n\<close> blocks are pinned in the cache, are not blocks
  of the log, and are the only blocks that differ from the disk; the log on the disk is empty; a
  buffer is left for the blocks of the log.
\<close>

definition ready ::
  "nat \<Rightarrow> nat \<Rightarrow> nat \<Rightarrow> (nat \<Rightarrow> nat) \<Rightarrow> log \<Rightarrow> (nat \<Rightarrow> byte list) \<Rightarrow> (nat \<Rightarrow> byte list) \<Rightarrow> (nat \<Rightarrow> nat) \<Rightarrow> bool" where
  "ready sz st n bl G D C R \<longleftrightarrow>
     lg_start G = int st \<and> lh_n G = int n \<and> (\<forall>i < n. lh_block G i = int (bl i)) \<and>
     lg_size G = int sz \<and> n < sz \<and> n \<le> LOGSIZE \<and> st + sz \<le> 2 ^ 31 \<and>
     (\<forall>i < n. bl i \<notin> log_area sz st \<and> bl i < 2 ^ 31 \<and> 0 < R (bl i)) \<and> inj_on bl {..<n} \<and>
     (\<forall>k. R k + 1 < 2 ^ 32) \<and> finite {k. 0 < R k} \<and> card {k. 0 < R k} < NBUF \<and>
     (\<forall>k. k \<notin> bl ` {..<n} \<longrightarrow> C k = D k) \<and> get32 (D st) 0 = 0 \<and> length (C st) = BSIZE"

text \<open>Contents with the first \<open>i\<close> blocks of the transaction in the log.\<close>

definition logged :: "nat \<Rightarrow> (nat \<Rightarrow> nat) \<Rightarrow> (nat \<Rightarrow> byte list) \<Rightarrow> nat \<Rightarrow> (nat \<Rightarrow> byte list) \<Rightarrow> nat \<Rightarrow> byte list" where
  "logged st bl C i d = (\<lambda>k. if st < k \<and> k \<le> st + i then C (bl (k - st - 1)) else d k)"

lemma logged_Suc: "(logged st bl C i d)(st + i + 1 := C (bl i)) = logged st bl C (Suc i) d"
proof
  fix k
  show "((logged st bl C i d)(st + i + 1 := C (bl i))) k = logged st bl C (Suc i) d k"
    by (cases "k = st + i + 1") (auto simp: logged_def)
qed

lemma logged_simps:
  "logged st bl C i d st = d st" "j < i \<Longrightarrow> logged st bl C i d (st + j + 1) = C (bl j)"
  "k \<notin> log_area sz st \<Longrightarrow> i < sz \<Longrightarrow> logged st bl C i d k = d k"
  by (auto simp: logged_def log_area_def)

lemma card_step:
  assumes "finite {k. 0 < R k}" "card {k. 0 < R k} < NBUF" "\<And>k. 0 < R' k \<Longrightarrow> 0 < (R k :: nat)"
  shows "card {k. 0 < R' k} < NBUF"
proof -
  have "{k. 0 < R' k} \<subseteq> {k. 0 < R k}" using assms(3) by auto
  then show ?thesis using card_mono [OF assms(1)] assms(2) by (meson le_less_trans)
qed

lemma area_simps [simp]:
  "0 < sz \<Longrightarrow> st \<in> log_area sz st" "i + 1 < sz \<Longrightarrow> st + i + 1 \<in> log_area sz st" "i + 1 < sz \<Longrightarrow> Suc (st + i) \<in> log_area sz st"
  by (auto simp: log_area_def)

lemma ready_buffers:
  assumes r: "ready sz st n bl G D C R" and i: "i < n" and R': "\<And>k. R' k \<le> R k" and c: "0 < R' (bl i)"
  shows "two_buffers R' (\<lambda>_. None) (st + i + 1) (bl i)"
proof -
  have "bl i \<notin> log_area sz st" "i + 1 < sz" "bl i < 2 ^ 31" "st + i + 1 < 2 ^ 31"
    using r i by (auto simp: ready_def)
  moreover from this have "bl i \<noteq> st + i + 1" using area_simps(2) [of i sz st] by metis
  moreover have "card {k. 0 < R' k} < NBUF"
    by (rule card_step [of R]) (use r R' in \<open>auto simp: ready_def intro: less_le_trans\<close>)
  moreover have "R' k + 1 < 2 ^ 32" for k using r R' [of k] by (auto simp: ready_def intro: le_less_trans)
  ultimately show ?thesis using c by (simp add: two_buffers_def)
qed

lemma write_log_spec:
  assumes r: "ready sz st n bl G D C R" and X: "\<And>i. i \<le> n \<Longrightarrow> X (logged st bl C i D)"
  shows "runs_to (lstate f p pid G Y D C R (\<lambda>_. None)) write_log
    (\<lambda>_. lstate f p pid G Y (logged st bl C n D) (logged st bl C n C) R (\<lambda>_. None)) (crash f X)"
proof -
  let ?I = "\<lambda>i. lstate f p pid G Y (logged st bl C i D) (logged st bl C i C) R (\<lambda>_. None)"
  have step: "runs_to (?I i) (write_log_one i) (\<lambda>_. ?I (Suc i)) (crash f X)" if i: "i < n" for i
  proof -
    let ?a = "st + i + 1" and ?D = "logged st bl C i D" and ?C = "logged st bl C i C"
    have G: "lg_start G = int st" "lh_block G i = int (bl i)" and h: "bl i \<notin> log_area sz st" "i < sz"
      using r i by (auto simp: ready_def)
    have Cb: "?C (bl i) = C (bl i)" using h by (simp add: logged_simps)
    have "runs_to (lstate f p pid G Y ?D ?C R (\<lambda>_. None)) (write_log_one i)
        (\<lambda>_. lstate f p pid G Y (?D(?a := ?C (bl i))) (?C(?a := ?C (bl i))) R (\<lambda>_. None)) (crash f X)"
      using X [of i] X [of "Suc i"] i Cb
      by (intro write_log_one_spec [OF G refl ready_buffers [OF r i]]) (use r in \<open>auto simp: ready_def logged_Suc [simplified]\<close>)
    then show ?thesis using Cb by (simp only: logged_Suc)
  qed
  from runs_to_for_each [of n ?I, OF this] have "runs_to (?I 0) (for_each [0..<n] write_log_one) (\<lambda>_. ?I n) (crash f X)" .
  moreover have "logged st bl C 0 d = d" for d by (auto simp: logged_def fun_eq_iff)
  ultimately show ?thesis
    unfolding write_log_def using r by (intro get_log_l) (simp add: ready_def)
qed

text \<open>With the header written, installing. The log blocks hold what the home blocks are to become.\<close>

definition unpinned :: "nat \<Rightarrow> (nat \<Rightarrow> nat) \<Rightarrow> (nat \<Rightarrow> nat) \<Rightarrow> nat \<Rightarrow> nat" where
  "unpinned i bl R = (\<lambda>k. if k \<in> bl ` {..<i} then R k - 1 else R k)"

lemma install_commit_spec:
  assumes r: "ready sz st n bl G D C R" and clean: "\<And>j. j < n \<Longrightarrow> C2 (st + j + 1) = C (bl j) \<and> D2 (st + j + 1) = C (bl j)"
    and home: "\<And>j. j < n \<Longrightarrow> C2 (bl j) = C (bl j)"
    and X: "\<And>i. i \<le> n \<Longrightarrow> X (installed i bl (\<lambda>j. C (bl j)) D2)"
  shows "runs_to (lstate f p pid G Y D2 C2 R (\<lambda>_. None)) (install_trans False)
    (\<lambda>_. lstate f p pid G Y (installed n bl (\<lambda>j. C (bl j)) D2) C2 (unpinned n bl R) (\<lambda>_. None)) (crash f X)"
proof -
  let ?D = "\<lambda>i. installed i bl (\<lambda>j. C (bl j)) D2"
  let ?I = "\<lambda>i. lstate f p pid G Y (?D i) C2 (unpinned i bl R) (\<lambda>_. None)"
  have step: "runs_to (?I i) (install_one False i) (\<lambda>_. ?I (Suc i)) (crash f X)" if i: "i < n" for i
  proof -
    let ?a = "st + i + 1" and ?R = "unpinned i bl R"
    have G: "lg_start G = int st" "lh_block G i = int (bl i)" and h: "i + 1 < sz" "0 < R (bl i)"
      and area: "\<And>j. j < n \<Longrightarrow> bl j \<notin> log_area sz st" and inj: "inj_on bl {..<n}"
      using r i by (auto simp: ready_def)
    have fresh: "bl i \<notin> bl ` {..<i}" using inj i by (auto dest: inj_onD)
    have "?D i ?a = D2 ?a" using area h(1) i area_simps(2) [of i sz st] by (intro installed_other) (metis less_trans)
    then have Da: "C2 ?a = ?D i ?a" "C2 ?a = C (bl i)" using clean [OF i] by simp_all
    have "runs_to (lstate f p pid G Y (?D i) C2 ?R (\<lambda>_. None)) (install_one False i)
        (\<lambda>_. lstate f p pid G Y ((?D i)(bl i := C2 ?a)) (C2(bl i := C2 ?a)) (if False then ?R else ?R(bl i := ?R (bl i) - 1)) (\<lambda>_. None)) (crash f X)"
    proof (rule install_one_spec [OF G refl ready_buffers [OF r i]])
      show "X (?D i)" "X ((?D i)(bl i := C2 ?a))" using X [of i] X [of "Suc i"] i Da(2) by (simp_all add: installed_Suc)
      show "?R k \<le> R k" for k by (simp add: unpinned_def)
      show "0 < ?R (bl i)" "False \<or> 0 < ?R (bl i)" using h(2) fresh by (simp_all add: unpinned_def)
    qed (rule Da(1))
    moreover have "(?D i)(bl i := C2 ?a) = ?D (Suc i)" using Da(2) by (simp add: installed_Suc)
    moreover have "C2(bl i := C2 ?a) = C2" using Da(2) home [OF i] by (simp add: fun_upd_idem)
    moreover have "?R(bl i := ?R (bl i) - 1) = unpinned (Suc i) bl R"
      using fresh by (auto simp: unpinned_def lessThan_Suc fun_eq_iff)
    ultimately show ?thesis by simp
  qed
  from runs_to_for_each [of n ?I, OF this] have "runs_to (?I 0) (for_each [0..<n] (install_one False)) (\<lambda>_. ?I n) (crash f X)" .
  moreover have "unpinned 0 bl R = R" by (simp add: unpinned_def)
  ultimately show ?thesis
    unfolding install_trans_def using r by (intro get_log_l) (simp add: ready_def)
qed

text \<open>The disk \<open>d\<close> recovers to \<open>D\<close> or to \<open>C\<close>, outside the blocks of the log.\<close>

definition atomic :: "nat \<Rightarrow> nat \<Rightarrow> (nat \<Rightarrow> byte list) \<Rightarrow> (nat \<Rightarrow> byte list) \<Rightarrow> (nat \<Rightarrow> byte list) \<Rightarrow> bool" where
  "atomic sz st D C d \<longleftrightarrow> log_ok sz st d \<and> (same_home sz st (recover_disk st d) D \<or> same_home sz st (recover_disk st d) C)"

lemma header_empty: "get32 c 0 = 0 \<Longrightarrow> header c 0 bl"
  by (simp add: header_def)

lemma atomic_empty:
  assumes "get32 (d st) 0 = 0" "same_home sz st d D \<or> same_home sz st d C" "0 < sz"
  shows "atomic sz st D C d"
proof -
  have h: "header (d st) 0 bl" for bl by (rule header_empty [OF assms(1)])
  have "log_ok sz st d" unfolding log_ok_def using h assms(3) by blast
  moreover have "recover_disk st d = d" using recover_disk_header [of d st 0 undefined] h by simp
  ultimately show ?thesis using assms(2) by (simp add: atomic_def)
qed

lemma atomic_full:
  assumes h: "header (d st) n bl" "n < sz" and a: "\<And>i. i < n \<Longrightarrow> bl i \<notin> log_area sz st"
    and l: "\<And>i. i < n \<Longrightarrow> d (st + i + 1) = C (bl i)"
    and k: "\<And>k. k \<notin> log_area sz st \<Longrightarrow> k \<notin> bl ` {..<n} \<Longrightarrow> d k = C k"
  shows "atomic sz st D C d"
proof -
  have "log_ok sz st d" unfolding log_ok_def using h a by blast
  moreover have "recover_disk st d k = (if k \<in> bl ` {..<n} then C k else d k)" for k
    unfolding recover_disk_header [of d st n bl, OF h(1)] by (rule installed_value) (rule l)
  ultimately show ?thesis using k by (simp add: atomic_def same_home_def)
qed

text \<open>The disk in the phases of a commit.\<close>

lemma atomic_logging:
  assumes r: "ready sz st n bl G D C R" and i: "i \<le> n"
  shows "atomic sz st D C (logged st bl C i D)"
  using r i by (intro atomic_empty) (auto simp: ready_def logged_simps same_home_def)

lemma atomic_installing:
  assumes r: "ready sz st n bl G D C R" and i: "i \<le> n" and h: "header c n bl"
  shows "atomic sz st D C (installed i bl (\<lambda>j. C (bl j)) ((logged st bl C n D)(st := c)))" (is "atomic sz st D C ?d")
proof (rule atomic_full)
  show sz: "n < sz" using r by (simp add: ready_def)
  have bl: "bl j \<notin> log_area sz st" if "j < n" for j using r that by (auto simp: ready_def)
  have keep: "?d k = ((logged st bl C n D)(st := c)) k" if "k \<in> log_area sz st" for k
    by (rule installed_other) (use bl i that in auto)
  show "header (?d st) n bl" using keep [of st] h sz by simp
  show "bl j \<notin> log_area sz st" if "j < n" for j using bl that .
  show "?d (st + j + 1) = C (bl j)" if "j < n" for j
  proof -
    have "j + 1 < sz" using r that by (auto simp: ready_def)
    then show ?thesis using keep [of "st + j + 1"] that logged_simps(2) [of j n st bl C D] by simp
  qed
  show "?d k = C k" if "k \<notin> log_area sz st" "k \<notin> bl ` {..<n}" for k
  proof -
    have "?d k = ((logged st bl C n D)(st := c)) k" by (rule installed_other) (use that i in auto)
    then show ?thesis using that r by (auto simp: ready_def logged_simps)
  qed
qed

text \<open>At the end cache and disk agree.\<close>

lemma installed_all:
  assumes r: "ready sz st n bl G D C R"
  shows "installed n bl (\<lambda>j. C (bl j)) ((logged st bl C n D)(st := c)) = (logged st bl C n C)(st := c)"
proof
  fix k
  have bl: "bl j \<notin> log_area sz st" if "j < n" for j using r that by (auto simp: ready_def)
  have "installed n bl (\<lambda>j. C (bl j)) ((logged st bl C n D)(st := c)) k =
      (if k \<in> bl ` {..<n} then C k else ((logged st bl C n D)(st := c)) k)"
    by (rule installed_value) simp
  also have "\<dots> = ((logged st bl C n C)(st := c)) k"
  proof (cases "k \<in> bl ` {..<n}")
    case True
    then have k: "k \<notin> log_area sz st" using bl by auto
    then have "k \<noteq> st" using area_simps(1) [of sz st] r by (auto simp: ready_def)
    with k show ?thesis using True r by (simp add: ready_def logged_simps)
  next
    case False
    then show ?thesis using r by (simp add: ready_def logged_def)
  qed
  finally show "installed n bl (\<lambda>j. C (bl j)) ((logged st bl C n D)(st := c)) k = ((logged st bl C n C)(st := c)) k" .
qed

lemma commit_spec:
  assumes r: "ready sz st n bl G D C R"
  shows "runs_to (lstate f p pid G Y D C R (\<lambda>_. None)) commit
    (\<lambda>_ s. \<exists>D'. lstate f p pid (G\<lparr>lh_n := 0\<rparr>) Y D' D' (unpinned n bl R) (\<lambda>_. None) s \<and>
       same_home sz st D' C \<and> get32 (D' st) 0 = 0) (crash f (atomic sz st D C))"
    (is "runs_to ?P commit ?Q ?E")
proof -
  have G: "lg_start G = int st" "lh_n G = int n" "\<And>i. i < n \<Longrightarrow> lh_block G i = int (bl i)" "n \<le> LOGSIZE" "st < 2 ^ 31" and sz: "n < sz"
    and bl: "\<And>i. i < n \<Longrightarrow> bl i \<notin> log_area sz st" "\<And>i. i < n \<Longrightarrow> bl i < 2 ^ 31"
    and R: "\<And>k. R k + 1 < 2 ^ 32" "finite {k. 0 < R k}" "card {k. 0 < R k} < NBUF"
    and clean: "\<And>k. k \<notin> bl ` {..<n} \<Longrightarrow> C k = D k" and hd: "get32 (D st) 0 = 0" and len: "length (C st) = BSIZE"
    using r by (auto simp: ready_def)
  let ?D1 = "logged st bl C n D" and ?C1 = "logged st bl C n C" and ?h = "put_header n bl (C st)"
  let ?D2 = "?D1(st := ?h)" and ?C2 = "?C1(st := ?h)" and ?e = "put_header 0 bl ?h" and ?R = "unpinned n bl R"
  let ?D3 = "\<lambda>i. installed i bl (\<lambda>j. C (bl j)) ?D2" and ?G = "G\<lparr>lh_n := 0\<rparr>" and ?X = "atomic sz st D C"
  have hh: "header ?h n bl" "length ?h = BSIZE" using header_put_header [OF len G(4), of bl] bl(2) by auto
  have he: "get32 ?e 0 = 0" using header_put_header(1) [OF hh(2), of 0 bl] by (simp add: header_def)
  have C2: "?D3 n = ?C2" by (rule installed_all [OF r])
  have s1: "runs_to ?P write_log (\<lambda>_. lstate f p pid G Y ?D1 ?C1 R (\<lambda>_. None)) (crash f ?X)"
    by (rule write_log_spec [OF r]) (rule atomic_logging [OF r])
  have s2: "runs_to (lstate f p pid G Y ?D1 ?C1 R (\<lambda>_. None)) write_head (\<lambda>_. lstate f p pid G Y ?D2 ?C2 R (\<lambda>_. None)) (crash f ?X)"
    using write_head_spec [OF G(1-3), of "\<lambda>_. None" R ?X ?D1 ?C1 f p pid Y] G(4,5) R atomic_logging [OF r, of n]
      atomic_installing [OF r, of 0 ?h] hh(1) by (simp add: logged_simps)
  have s3: "runs_to (lstate f p pid G Y ?D2 ?C2 R (\<lambda>_. None)) (install_trans False) (\<lambda>_. lstate f p pid G Y ?C2 ?C2 ?R (\<lambda>_. None)) (crash f ?X)"
  proof -
    have "runs_to (lstate f p pid G Y ?D2 ?C2 R (\<lambda>_. None)) (install_trans False) (\<lambda>_. lstate f p pid G Y (?D3 n) ?C2 ?R (\<lambda>_. None)) (crash f ?X)"
    proof (rule install_commit_spec [OF r])
      fix j assume j: "j < n"
      show "?C2 (st + j + 1) = C (bl j) \<and> ?D2 (st + j + 1) = C (bl j)"
        using logged_simps(2) [OF j, of st bl C] by simp
      show "?C2 (bl j) = C (bl j)" using bl(1) [OF j] sz area_simps(1) [of sz st] by (auto simp: logged_simps)
    qed (rule atomic_installing [OF r _ hh(1)])
    then show ?thesis unfolding C2 .
  qed
  have s4: "runs_to (lstate f p pid G Y ?C2 ?C2 ?R (\<lambda>_. None)) (modify_log (\<lambda>l. l\<lparr>lh_n := 0\<rparr>)) (\<lambda>_. lstate f p pid ?G Y ?C2 ?C2 ?R (\<lambda>_. None)) (crash f ?X)"
    by (rule modify_log_l) simp
  have sh: "same_home sz st (?C2(st := ?e)) C" using sz by (auto simp: same_home_def logged_simps)
  have "card {k. 0 < ?R k} < NBUF" by (rule card_step [OF R(2,3)]) (auto simp: unpinned_def split: if_splits)
  moreover have "?R st + 1 < 2 ^ 32" using R(1) [of st] by (auto simp: unpinned_def)
  ultimately have s5: "runs_to (lstate f p pid ?G Y ?C2 ?C2 ?R (\<lambda>_. None)) write_head
      (\<lambda>_. lstate f p pid ?G Y (?C2(st := ?e)) (?C2(st := ?e)) ?R (\<lambda>_. None)) (crash f ?X)"
    using write_head_spec [of ?G st 0 bl "\<lambda>_. None" ?R ?X ?C2 ?C2 f p pid Y] G(1,5) atomic_installing [OF r _ hh(1), of n]
      atomic_empty [of "?C2(st := ?e)" st sz D C] sz sh he C2 by simp
  show ?thesis
  proof (cases "n = 0")
    case True
    then have eq: "C = D" "?R = R" using clean by (auto simp: fun_eq_iff unpinned_def)
    have "?G = G" using G(2) True by (cases G) simp
    then have "?Q () s" if "?P s" for s
      using that eq hd by (intro exI [of _ D]) (simp add: same_home_def)
    then show ?thesis unfolding commit_def using True G(2) by (intro get_log_l runs_to_whenever) auto
  next
    case False
    have "runs_to ?P (seq write_log (seq write_head (seq (install_trans False) (seq (modify_log (\<lambda>l. l\<lparr>lh_n := 0\<rparr>)) write_head)))) ?Q (crash f ?X)"
      by (rule runs_to_seq [OF s1 runs_to_seq [OF s2 runs_to_seq [OF s3 runs_to_seq [OF s4 runs_to_conseq [OF s5]]]]])
         (use sh he in auto)
    then show ?thesis unfolding commit_def using False G(2) by (intro get_log_l) (simp add: whenever_def)
  qed
qed

end
