(* ===== verification/Recovery.thy ===== *)
theory Recovery
  imports LogSpec Example
begin

text \<open>
  Recovery: \<open>initlog\<close> of \<open>src/kernel/log.c\<close> brings a disk to the state that its log describes, and if
  it is cut off itself, it leaves a disk that recovers to the same state. With the specification
  of \<open>commit\<close> this gives the atomicity of transactions.
\<close>

section \<open>Reading the header\<close>

text \<open>All blocks of the disk have the size of a block.\<close>

lemma length_disk_l:
  assumes "(\<And>k. length (D k) = BSIZE) \<Longrightarrow> runs_to (lstate f p pid G Y D C R H) m Q E"
  shows "runs_to (lstate f p pid G Y D C R H) m Q E"
proof (rule runs_toI)
  fix s
  assume s: "lstate f p pid G Y D C R H s"
  have "length (D k) = BSIZE" for k
    using s length_disk_block [of "medium (vd s)" k] by (auto simp: lstate_def bstate_def disk_at_def)
  from runs_toD [OF assms [OF this] s] show "(\<exists>x t. m s = Ok x t \<and> Q x t) \<or> (\<exists>t. m s = Stop Switched t \<and> E t)" .
qed

definition with_blocks :: "nat \<Rightarrow> (nat \<Rightarrow> nat) \<Rightarrow> log \<Rightarrow> log" where
  "with_blocks i bl G = G\<lparr>lh_block := (\<lambda>j. if j < i then int (bl j) else lh_block G j)\<rparr>"

lemma with_blocks_Suc:
  "(with_blocks i bl G)\<lparr>lh_block := (lh_block (with_blocks i bl G))(i := int (bl i))\<rparr> = with_blocks (Suc i) bl G"
  by (auto simp: with_blocks_def fun_eq_iff less_Suc_eq)

lemma with_blocks_simps [simp]:
  "lg_dev (with_blocks i bl G) = lg_dev G" "lg_start (with_blocks i bl G) = lg_start G" "lh_n (with_blocks i bl G) = lh_n G"
  "j < i \<Longrightarrow> lh_block (with_blocks i bl G) j = int (bl j)"
  by (simp_all add: with_blocks_def)

lemma read_head_spec:
  assumes G: "lg_start G = int st" and h: "header (C st) n bl" and st: "st < 2 ^ 31" "H st = None" "R st + 1 < 2 ^ 32"
    and room: "0 < R st \<or> card {m. 0 < R m} < NBUF" and clean: "C st = D st" and X: "X D"
  shows "runs_to (lstate f p pid G Y D C R H) read_head
    (\<lambda>_. lstate f p pid (with_blocks n bl (G\<lparr>lh_n := int n\<rparr>)) Y D C R H) (crash f X)"
  unfolding read_head_def
proof (rule get_log_l, simp only: id_apply G u32_block, rule runs_to_bind)
  show "runs_to (lstate f p pid G Y D C R H) (bread (u32_of_int (lg_dev G)) (of_nat st))
      (\<lambda>b. lstate f p pid G Y D C (R(st := R st + 1)) (H(st \<mapsto> b))) (crash f X)"
    using st room X by (intro bread_l) simp_all
next
  fix b
  let ?R = "R(st := R st + 1)" and ?H = "H(st \<mapsto> b)" and ?G = "G\<lparr>lh_n := int n\<rparr>"
  let ?loop = "\<lambda>x i. if LOGSIZE \<le> i then undef ''read_head: Log.lh.block'' else
      modify_log (\<lambda>l. l\<lparr>lh_block := (lh_block l)(i := sint (get32 (b_data x) (4 + 4 * i)))\<rparr>)"
  show "runs_to (lstate f p pid G Y D C ?R ?H) (bind (get_buf b) (\<lambda>x. seq (modify_log (\<lambda>l. l\<lparr>lh_n := sint (get32 (b_data x) 0)\<rparr>))
      (seq (for_each [0..<nat (sint (get32 (b_data x) 0))] (?loop x)) (brelse b))))
      (\<lambda>_. lstate f p pid (with_blocks n bl ?G) Y D C R H) (crash f X)"
  proof (rule get_data_l [of ?H st b], simp, rule runs_to_seq [OF _ runs_to_seq])
    fix x :: buf
    assume x: "b_data x = C st"
    note hi = header_int [OF h]
    show "runs_to (lstate f p pid G Y D C ?R ?H) (modify_log (\<lambda>l. l\<lparr>lh_n := sint (get32 (b_data x) 0)\<rparr>))
        (\<lambda>_. lstate f p pid ?G Y D C ?R ?H) (crash f X)"
      using modify_log_l [of "\<lambda>l. l\<lparr>lh_n := sint (get32 (b_data x) 0)\<rparr>" G f p pid Y D C ?R ?H] x hi(1) by simp
    let ?I = "\<lambda>i. lstate f p pid (with_blocks i bl ?G) Y D C ?R ?H"
    have "runs_to (?I i) (?loop x i) (\<lambda>_. ?I (Suc i)) (crash f X)" if i: "i < n" for i
    proof -
      have "\<not> LOGSIZE \<le> i" using i h by (simp add: header_def)
      then show ?thesis
        using modify_log_l [of "\<lambda>l. l\<lparr>lh_block := (lh_block l)(i := int (bl i))\<rparr>" "with_blocks i bl ?G" f p pid Y D C ?R ?H "crash f X"]
          x hi(2) [OF i] with_blocks_Suc [of i bl ?G] by simp
    qed
    from runs_to_for_each [of n ?I, OF this]
    have "runs_to (?I 0) (for_each [0..<n] (?loop x)) (\<lambda>_. ?I n) (crash f X)" .
    moreover have "with_blocks 0 bl ?G = ?G" by (simp add: with_blocks_def)
    ultimately show "runs_to (lstate f p pid ?G Y D C ?R ?H) (for_each [0..<nat (sint (get32 (b_data x) 0))] (?loop x)) (\<lambda>_. ?I n) (crash f X)"
      using x hi(1) by simp
    show "runs_to (?I n) (brelse b) (\<lambda>_. lstate f p pid (with_blocks n bl ?G) Y D C R H) (crash f X)"
      using brelse_l [of ?H st b ?R C D f p pid "with_blocks n bl ?G" Y "crash f X"] clean st(2) by (simp add: fun_upd_idem)
  qed
qed

section \<open>Installing the log again\<close>

text \<open>What recovery keeps until it clears the header: the disk recovers to the same state.\<close>

definition recovers_to :: "nat \<Rightarrow> nat \<Rightarrow> (nat \<Rightarrow> byte list) \<Rightarrow> (nat \<Rightarrow> byte list) \<Rightarrow> bool" where
  "recovers_to sz st D d \<longleftrightarrow> log_ok sz st d \<and> same_home sz st (recover_disk st d) D"

lemma area_installed:
  assumes "\<And>i. i < n \<Longrightarrow> bl i \<notin> log_area sz st" "m \<le> n" "k \<in> log_area sz st"
  shows "installed m bl v D k = D k"
  using assms by (intro installed_other) (metis less_le_trans)

lemma recovers_installing:
  assumes h: "header (D st) n bl" and sz: "n < sz" and bl: "\<And>i. i < n \<Longrightarrow> bl i \<notin> log_area sz st" and m: "m \<le> n"
  shows "recovers_to sz st (recover_disk st D) (installed m bl (\<lambda>i. D (st + i + 1)) D)" (is "recovers_to sz st _ ?d")
proof -
  have area: "?d k = D k" if "k \<in> log_area sz st" for k by (rule area_installed [OF bl m that])
  have log: "?d (st + i + 1) = D (st + i + 1)" if "i < n" for i
    using area area_simps(2) [of i sz st] that sz by simp
  have hd: "header (?d st) n bl" using h area [of st] sz by simp
  have "recover_disk st ?d = installed n bl (\<lambda>i. ?d (st + i + 1)) ?d" by (rule recover_disk_header [of ?d, OF hd])
  also have "\<dots> = installed n bl (\<lambda>i. D (st + i + 1)) ?d"
    unfolding installed_def [of n] using log by (intro fold_cong) auto
  also have "\<dots> = installed n bl (\<lambda>i. D (st + i + 1)) D"
    using m by (intro installed_again installed_other) auto
  also have "\<dots> = recover_disk st D" by (rule recover_disk_header [of D, OF h, symmetric])
  finally have "same_home sz st (recover_disk st ?d) (recover_disk st D)" by (simp add: same_home_def)
  moreover have "log_ok sz st ?d" using hd sz bl by (auto simp: log_ok_def)
  ultimately show ?thesis by (simp add: recovers_to_def)
qed

lemma recovers_cleared: "0 < sz \<Longrightarrow> get32 (d st) 0 = 0 \<Longrightarrow> same_home sz st d D \<Longrightarrow> recovers_to sz st D d"
  using header_empty [of "d st"] recover_disk_header [of d st 0]
  by (auto simp: recovers_to_def log_ok_def)

lemma install_recover_spec:
  assumes G: "lg_start G = int st" "lh_n G = int n" "\<And>i. i < n \<Longrightarrow> lh_block G i = int (bl i)" and st: "st + sz \<le> 2 ^ 31"
    and h: "header (D st) n bl" and sz: "n < sz" and bl: "\<And>i. i < n \<Longrightarrow> bl i \<notin> log_area sz st"
  shows "runs_to (lstate f p pid G Y D D (\<lambda>_. 0) (\<lambda>_. None)) (install_trans True)
    (\<lambda>_. lstate f p pid G Y (recover_disk st D) (recover_disk st D) (\<lambda>_. 0) (\<lambda>_. None)) (crash f (recovers_to sz st (recover_disk st D)))"
    (is "runs_to _ _ _ ?E")
proof -
  let ?v = "\<lambda>i. D (st + i + 1)" and ?X = "recovers_to sz st (recover_disk st D)"
  let ?D = "\<lambda>i. installed i bl ?v D"
  let ?I = "\<lambda>i. lstate f p pid G Y (?D i) (?D i) (\<lambda>_. 0) (\<lambda>_. None)"
  have "runs_to (?I i) (install_one True i) (\<lambda>_. ?I (Suc i)) ?E" if i: "i < n" for i
  proof -
    let ?a = "st + i + 1"
    have n: "i + 1 < sz" "bl i < 2 ^ 31" using h sz i by (auto simp: header_def)
    have a: "?a \<in> log_area sz st" "?D i ?a = D ?a" using n(1) area_installed [of n bl sz st i ?a, OF bl] i by auto
    then have "?a \<noteq> bl i" using bl [OF i] by metis
    then have two: "two_buffers (\<lambda>_. 0) (\<lambda>_. None) ?a (bl i)"
      using n st by (simp add: two_buffers_def NBUF_def MAXOPBLOCKS_def)
    have X: "?X (?D i)" "?X ((?D i)(bl i := ?D i ?a))"
      using recovers_installing [of D st n bl sz i, OF h sz bl] recovers_installing [of D st n bl sz "Suc i", OF h sz bl] i a(2)
      by (simp_all add: installed_Suc)
    show ?thesis
      using install_one_spec [OF G(1) G(3) [OF i] refl two, of True "?D i" "?D i" ?X f p pid Y] X a(2) by (simp add: installed_Suc)
  qed
  from runs_to_for_each [of n ?I, OF this]
  have "runs_to (?I 0) (for_each [0..<n] (install_one True)) (\<lambda>_. ?I n) ?E" .
  then show ?thesis
    unfolding install_trans_def recover_disk_header [of D, OF h] using G(2) by (intro get_log_l) simp
qed

section \<open>Recovery\<close>

lemma recover_from_log_spec:
  assumes G: "lg_start G = int st" and st: "st + sz \<le> 2 ^ 31" and ok: "log_ok sz st D"
  shows "runs_to (lstate f p pid G Y D D (\<lambda>_. 0) (\<lambda>_. None)) recover_from_log
    (\<lambda>_ s. \<exists>G' D'. lstate f p pid G' Y D' D' (\<lambda>_. 0) (\<lambda>_. None) s \<and> same_home sz st D' (recover_disk st D) \<and> get32 (D' st) 0 = 0 \<and>
       lg_start G' = lg_start G \<and> lg_dev G' = lg_dev G \<and> lh_n G' = 0)
    (crash f (recovers_to sz st (recover_disk st D)))" (is "runs_to _ _ ?Q ?E")
proof (rule length_disk_l)
  assume len: "\<And>k. length (D k) = BSIZE"
  obtain n bl where h: "header (D st) n bl" and sz: "n < sz" and bl: "\<And>i. i < n \<Longrightarrow> bl i \<notin> log_area sz st" using ok by (auto simp: log_ok_def)
  let ?L = "\<lambda>G D. lstate f p pid G Y D D (\<lambda>_. 0) (\<lambda>_. None)"
  let ?r = "recover_disk st D" and ?X = "recovers_to sz st (recover_disk st D)"
  let ?G1 = "with_blocks n bl (G\<lparr>lh_n := int n\<rparr>)" and ?e = "put_header 0 bl (D st)"
  let ?G2 = "?G1\<lparr>lh_n := 0\<rparr>"
  have st31: "st < 2 ^ 31" using st sz by simp
  have rst: "?r st = D st" unfolding recover_disk_header [of D, OF h] by (rule area_installed [OF bl]) (use sz in auto)
  have he: "get32 ?e 0 = 0" using header_put_header(1) [OF len, of 0 bl] by (simp add: header_def)
  have sh: "same_home sz st (?r(st := ?e)) ?r" using sz by (auto simp: same_home_def)
  have X: "?X D" "?X ?r" "?X (?r(st := ?e))"
    using recovers_installing [of D st n bl sz 0, OF h sz bl] recovers_installing [of D st n bl sz n, OF h sz bl] recovers_cleared [of sz "?r(st := ?e)" st, OF _ _ sh] he sz
    by (simp_all add: recover_disk_header [of D, OF h])
  have s1: "runs_to (?L G D) read_head (\<lambda>_. ?L ?G1 D) ?E"
    using read_head_spec [of G st D n bl "\<lambda>_. None" "\<lambda>_. 0" D ?X, OF G h st31] X(1) by (simp add: NBUF_def MAXOPBLOCKS_def)
  have s2: "runs_to (?L ?G1 D) (install_trans True) (\<lambda>_. ?L ?G1 ?r) ?E"
    by (rule install_recover_spec [of ?G1 st n bl sz D, OF _ _ _ st h sz bl]) (simp_all add: G)
  have s3: "runs_to (?L ?G1 ?r) (modify_log (\<lambda>l. l\<lparr>lh_n := 0\<rparr>)) (\<lambda>_. ?L ?G2 ?r) ?E" by (rule modify_log_l) simp
  have s4: "runs_to (?L ?G2 ?r) write_head (\<lambda>_. ?L ?G2 (?r(st := ?e))) ?E"
    using write_head_spec [of ?G2 st 0 bl "\<lambda>_. None" "\<lambda>_. 0" ?X ?r ?r f p pid Y] st31 X rst G by (simp add: NBUF_def MAXOPBLOCKS_def)
  have "?Q () s" if "?L ?G2 (?r(st := ?e)) s" for s
    using that sh he by (intro exI [of _ ?G2] exI [of _ "?r(st := ?e)"]) simp
  then show "runs_to (?L G D) recover_from_log ?Q ?E"
    unfolding recover_from_log_def by (intro runs_to_seq [OF s1] runs_to_seq [OF s2] runs_to_seq [OF s3] runs_to_conseq [OF s4]) auto
qed

lemma initlock_l: "runs_to (lstate f p pid G Y D C R H) (on_hw (initlock lk name)) (\<lambda>_. lstate f p pid G Y D C R H) E"
proof (rule runs_toI)
  fix s
  assume s: "lstate f p pid G Y D C R H s"
  let ?t = "s\<lparr>hw := upd_lock lk (\<lambda>l. l\<lparr>lk_name := name, locked := False, lk_cpu := None\<rparr>) (hw s)\<rparr>"
  have "running q s \<Longrightarrow> running q ?t" for q
    by (auto simp: running_def cpu_ok_def lock_free_def upd_lock_def mycpu_def mach_defs)
  then have "lstate f p pid G Y D C R H ?t" using s by (auto simp: lstate_def bstate_def disk_at_def)
  then show "(\<exists>x t. on_hw (initlock lk name) s = Ok x t \<and> lstate f p pid G Y D C R H t) \<or> (\<exists>t. on_hw (initlock lk name) s = Stop Switched t \<and> E t)"
    by (simp add: initlock_def on_hw_def)
qed

lemma initlog_spec:
  assumes sb: "sint (sb_logstart sb) = int st" and st: "st + sz \<le> 2 ^ 31" and ok: "log_ok sz st D" and dev: "lg_dev G = dev"
  shows "runs_to (lstate f p pid G Y D D (\<lambda>_. 0) (\<lambda>_. None)) (initlog dev sb)
    (\<lambda>_ s. \<exists>G' D'. lstate f p pid G' Y D' D' (\<lambda>_. 0) (\<lambda>_. None) s \<and> same_home sz st D' (recover_disk st D) \<and> get32 (D' st) 0 = 0 \<and>
       lg_start G' = int st \<and> lg_dev G' = dev \<and> lh_n G' = 0)
    (crash f (recovers_to sz st (recover_disk st D)))"
proof -
  let ?upd = "\<lambda>l. l\<lparr>lg_start := sint (sb_logstart sb), lg_size := sint (sb_nlog sb), lg_dev := dev\<rparr>"
  have m: "runs_to (lstate f p pid G Y D D (\<lambda>_. 0) (\<lambda>_. None)) (modify_log ?upd)
      (\<lambda>_. lstate f p pid (?upd G) Y D D (\<lambda>_. 0) (\<lambda>_. None)) (crash f (recovers_to sz st (recover_disk st D)))"
    by (rule modify_log_l) (simp add: dev)
  show ?thesis
    unfolding initlog_def
    by (intro runs_to_if runs_to_seq [OF initlock_l] runs_to_seq [OF m] runs_to_conseq [OF recover_from_log_spec [of "?upd G" st sz D, OF _ st ok]])
       (auto simp: sb LOGHEADER_SIZE_def LOGSIZE_def MAXOPBLOCKS_def BSIZE_def)
qed

section \<open>A machine at boot\<close>

text \<open>
  The kernel of the example theory with the buffers in a list, none of them in use, a disk with the
  sectors \<open>m\<close> and a device that serves every request.
\<close>

definition example_bufs :: "nat \<Rightarrow> buf" where
  "example_bufs i = empty_buf\<lparr>b_prev := if i = 0 then bhead else i - 1, b_next := if i = bhead then 0 else i + 1\<rparr>"

definition boot_example :: "(nat \<Rightarrow> byte list) \<Rightarrow> kgic" where
  "boot_example m = kernel_example\<lparr>vd := idle_disk\<lparr>bufs := example_bufs, medium := m\<rparr>, device := serve\<rparr>"

lemma linked_example: "a < n \<Longrightarrow> n \<le> NBUF \<Longrightarrow> linked example_bufs a [Suc a..<n] n"
proof (induction "n - a" arbitrary: a)
  case (Suc k)
  show ?case
  proof (cases "Suc a = n")
    case False
    then have "linked example_bufs (Suc a) [Suc (Suc a)..<n] n" using Suc by simp
    then show ?thesis using False Suc.prems by (simp add: upt_conv_Cons example_bufs_def)
  qed (use Suc.prems in \<open>auto simp: example_bufs_def\<close>)
qed simp

lemma lru_example: "lru example_bufs [0..<NBUF]"
proof -
  have "linked example_bufs 0 [Suc 0..<NBUF] NBUF" by (rule linked_example) (simp_all add: NBUF_def MAXOPBLOCKS_def)
  then have "linked example_bufs bhead (0 # [Suc 0..<NBUF]) bhead" by (simp add: example_bufs_def)
  moreover have "0 # [Suc 0..<NBUF] = [0..<NBUF]" by (simp add: upt_conv_Cons NBUF_def MAXOPBLOCKS_def)
  ultimately show ?thesis by (auto simp: lru_def)
qed

lemma boot_disk_at:
  assumes "\<And>k. length (m k) = 512"
  shows "disk_at False 0 1 (slocks kernel_example) (kdisk.more kernel_example) example_bufs (disk_block m) (boot_example m)"
proof -
  have "running 0 (boot_example m)" using running_example by (simp add: boot_example_def running_def)
  moreover have "device_ok False serve" unfolding device_ok_def
  proof (intro allI impI disjI1)
    fix d
    show "\<exists>r. serve d = (serve d)\<lparr>regs := r\<rparr>" by (rule exI [of _ "regs (serve d)"]) simp
  qed
  ultimately show ?thesis
    using assms by (simp add: disk_at_def boot_example_def disk_idle_def idle_disk_def kernel_example_def example_procs_def us_root_def)
qed

lemma boot_lstate:
  assumes "\<And>k. length (m k) = 512"
  shows "lstate False 0 1 (lg kernel_example) (klog.more kernel_example) (disk_block m) (disk_block m) (\<lambda>_. 0) (\<lambda>_. None) (boot_example m)"
proof -
  have "cache_rel 1 1 example_bufs (slocks kernel_example) [0..<NBUF] (disk_block m) (disk_block m) (\<lambda>_. 0) (\<lambda>_. None)"
    using lru_example by (simp add: cache_rel_def buf_rel_def example_bufs_def [abs_def] empty_buf_def)
  then show ?thesis
    using boot_disk_at [of m, OF assms] by (auto simp: lstate_def bstate_def boot_example_def kernel_example_def u32_of_int_def)
qed

text \<open>A disk whose log holds one block, with the home 100.\<close>

definition logged_medium :: "nat \<Rightarrow> byte list" where
  "logged_medium k = (if k = 4 then 1 # 0 # 0 # 0 # 100 # 0 # 0 # 0 # replicate 504 0 else if k = 6 \<or> k = 7 then replicate 512 7 else replicate 512 0)"

lemma length_logged_medium [simp]: "length (logged_medium k) = 512"
  by (simp add: logged_medium_def)

lemma logged_header: "header (disk_block logged_medium 2) 1 (\<lambda>_. 100)"
proof -
  have "disk_block logged_medium 2 = 1 # 0 # 0 # 0 # 100 # 0 # 0 # 0 # replicate 504 0 @ replicate 512 0"
    by (simp add: disk_block_def sectors_def logged_medium_def upt_conv_Cons)
  then show ?thesis by (simp add: header_def get32_def LOGSIZE_def MAXOPBLOCKS_def)
qed

lemma logged_recover: "recover_disk 2 (disk_block logged_medium) 100 = replicate BSIZE 7"
proof -
  have "disk_block logged_medium 3 = replicate 512 7 @ replicate 512 7"
    by (simp add: disk_block_def sectors_def logged_medium_def upt_conv_Cons)
  also have "\<dots> = replicate BSIZE 7" by (simp add: BSIZE_def flip: replicate_add)
  finally show ?thesis using recover_disk_header [of "disk_block logged_medium", OF logged_header] by (simp add: installed_def numeral_3_eq_3)
qed

text \<open>A kernel with a transaction that changes the block 100 of a disk of zeros.\<close>

definition commit_example :: kgic where
  "commit_example =
     (let s = boot_example (\<lambda>_. replicate 512 0) in
      s\<lparr>vd := (vd s)\<lparr>bufs := example_bufs(0 := (example_bufs 0)\<lparr>b_valid := True, b_dev := 1, b_blockno := 100, b_refcnt := 1,
          b_data := replicate BSIZE 1\<rparr>)\<rparr>, lg := (lg s)\<lparr>lh_n := 1, lh_block := (\<lambda>_. 100)\<rparr>\<rparr>)"

lemma commit_example_lstate:
  "lstate False 0 1 (lg commit_example) (klog.more commit_example) (\<lambda>_. replicate BSIZE 0)
     ((\<lambda>_. replicate BSIZE 0)(100 := replicate BSIZE 1)) ((\<lambda>_. 0)(100 := 1)) (\<lambda>_. None) commit_example"
proof -
  let ?B = "bufs (vd commit_example)" and ?D = "\<lambda>_. replicate BSIZE 0" and ?m = "\<lambda>_. replicate 512 (0 :: byte)"
  have B: "?B = example_bufs(0 := (example_bufs 0)\<lparr>b_valid := True, b_dev := 1, b_blockno := 100, b_refcnt := 1, b_data := replicate BSIZE 1\<rparr>)"
    by (simp add: commit_example_def Let_def)
  have D: "disk_block ?m = ?D" by (simp add: fun_eq_iff disk_block_def sectors_def BSIZE_def flip: replicate_add)
  have "lru ?B [0..<NBUF]" unfolding B by (subst lru_upd) (simp_all add: lru_example)
  moreover have "{i. i < NBUF \<and> b_dev (?B i) = 1} = {0}"
    by (auto simp: B example_bufs_def empty_buf_def NBUF_def MAXOPBLOCKS_def)
  moreover have "buf_rel 1 1 ?D (?D(100 := replicate BSIZE 1)) ((\<lambda>_. 0)(100 := 1)) (\<lambda>_. None) (slocks kernel_example (SBuf i)) i (?B i)" for i
    by (simp add: B buf_rel_def example_bufs_def empty_buf_def block_of_def)
  ultimately have "cache_rel 1 1 ?B (slocks kernel_example) [0..<NBUF] ?D (?D(100 := replicate BSIZE 1)) ((\<lambda>_. 0)(100 := 1)) (\<lambda>_. None)"
    unfolding cache_rel_def by (auto simp: B block_of_def NBUF_def MAXOPBLOCKS_def intro!: exI [of _ 0])
  moreover have "disk_at False 0 1 (slocks kernel_example) (kdisk.more commit_example) ?B ?D commit_example"
    using boot_disk_at [of ?m] D by (simp add: disk_at_def commit_example_def Let_def boot_example_def running_def disk_idle_def kernel_example_def)
  ultimately show ?thesis
    by (auto simp: lstate_def bstate_def commit_example_def Let_def boot_example_def kernel_example_def u32_of_int_def)
qed

lemma commit_example_ready:
  "ready 30 2 1 (\<lambda>_. 100) (lg commit_example) (\<lambda>_. replicate BSIZE 0)
     ((\<lambda>_. replicate BSIZE 0)(100 := replicate BSIZE 1)) ((\<lambda>_. 0)(100 := 1))"
proof -
  have "get32 (replicate BSIZE 0) 0 = 0" by (simp add: get32_def BSIZE_def eval_nat_numeral)
  moreover have "{k :: nat. 0 < ((\<lambda>_. 0 :: nat)(100 := 1)) k} = {100}" by auto
  ultimately show ?thesis
    by (simp add: ready_def commit_example_def Let_def boot_example_def kernel_example_def log_area_def LOGSIZE_def MAXOPBLOCKS_def NBUF_def BSIZE_def inj_on_def)
qed

section \<open>Atomicity of transactions\<close>

lemma lstate_disk_of: "lstate f p pid G Y D C R H s \<Longrightarrow> disk_of s = D"
  by (auto simp: lstate_def bstate_def disk_at_def disk_of_def)

text \<open>A reboot after a cut inside a transaction.\<close>

lemma boot_atomic:
  assumes a: "atomic sz st D C d" and st: "st + sz \<le> 2 ^ 31"
    and u: "lstate False q qid B Z d d (\<lambda>_. 0) (\<lambda>_. None) u" "sint (sb_logstart sb) = int st"
  shows "\<exists>v. initlog (lg_dev B) sb u = Ok () v \<and> get32 (disk_of v st) 0 = 0 \<and> (same_home sz st (disk_of v) D \<or> same_home sz st (disk_of v) C)"
proof -
  have ok: "log_ok sz st d" and h: "same_home sz st (recover_disk st d) D \<or> same_home sz st (recover_disk st d) C"
    using a by (simp_all add: atomic_def)
  from runs_toD [OF initlog_spec [OF u(2) st ok refl] u(1)] h show ?thesis
    by (fastforce simp: crash_def lstate_disk_of same_home_def)
qed

text \<open>
  C5: a transaction is atomic. When \<open>commit\<close> runs on a log that holds the blocks of a transaction,
  it returns with every block of the transaction at home and an empty log, or the disk stops
  answering (a power cut, which may also happen between the effect of a write and its completion).
  In that case, whatever the disk holds then, \<open>initlog\<close> on a rebooted machine with an empty cache
  returns, and outside the log the disk is the one before the transaction or the one after it.
\<close>

theorem commit_crash_safe:
  assumes "ready sz st n bl G D C R" "lstate f p pid G Y D C R (\<lambda>_. None) s"
  shows "case commit s of
      Ok _ t \<Rightarrow> same_home sz st (disk_of t) C \<and> get32 (disk_of t st) 0 = 0
    | Stop e t \<Rightarrow> e = Switched \<and> f \<and>
        (\<forall>q qid B Z u sb. lstate False q qid B Z (disk_of t) (disk_of t) (\<lambda>_. 0) (\<lambda>_. None) u \<and> sint (sb_logstart sb) = int st \<longrightarrow>
          (\<exists>v. initlog (lg_dev B) sb u = Ok () v \<and> get32 (disk_of v st) 0 = 0 \<and>
            (same_home sz st (disk_of v) D \<or> same_home sz st (disk_of v) C)))"
proof -
  have "st + sz \<le> 2 ^ 31" using assms(1) by (simp add: ready_def)
  then show ?thesis
    using runs_toD [OF commit_spec [OF assms(1)] assms(2)] boot_atomic by (fastforce simp: crash_def lstate_disk_of)
qed

text \<open>The transaction reaches the disk.\<close>

theorem commit_crash_safe_witness:
  "\<exists>t. commit commit_example = Ok () t \<and> disk_of t 100 = replicate BSIZE 1 \<and> get32 (disk_of t 2) 0 = 0"
  using commit_crash_safe [OF commit_example_ready commit_example_lstate]
  by (auto simp: same_home_def log_area_def LOGSIZE_def MAXOPBLOCKS_def split: res.splits)

text \<open>
  C6: recovery is idempotent. \<open>initlog\<close> on a disk with a well-formed log header either returns with
  the logged blocks at home and an empty log, or is cut off itself and leaves a disk with a
  well-formed header that recovers to the same blocks.
\<close>

theorem initlog_idempotent:
  assumes "log_ok sz st D" "st + sz \<le> 2 ^ 31" "sint (sb_logstart sb) = int st"
    and "lstate f p pid G Y D D (\<lambda>_. 0) (\<lambda>_. None) s"
  shows "case initlog (lg_dev G) sb s of
      Ok _ t \<Rightarrow> same_home sz st (disk_of t) (recover_disk st D) \<and> get32 (disk_of t st) 0 = 0
    | Stop e t \<Rightarrow> e = Switched \<and> f \<and> log_ok sz st (disk_of t) \<and> same_home sz st (recover_disk st (disk_of t)) (recover_disk st D)"
  using runs_toD [OF initlog_spec [OF assms(3,2,1) refl] assms(4)] by (auto simp: crash_def recovers_to_def lstate_disk_of)

text \<open>A reboot installs the logged block.\<close>

theorem initlog_idempotent_witness:
  "\<exists>t. initlog 1 (fsb kernel_example) (boot_example logged_medium) = Ok () t \<and> disk_of t 100 = replicate BSIZE 7 \<and> get32 (disk_of t 2) 0 = 0"
proof -
  have "log_ok 30 2 (disk_block logged_medium)" unfolding log_ok_def
    by (intro exI conjI, rule logged_header) (simp_all add: log_area_def)
  from initlog_idempotent [OF this _ _ boot_lstate [of logged_medium], of "fsb kernel_example"]
  show ?thesis
    using logged_recover by (auto simp: same_home_def log_area_def LOGSIZE_def MAXOPBLOCKS_def kernel_example_def split: res.splits)
qed

end
