(* ===== verification/TxSpec.thy ===== *)
theory TxSpec
  imports Recovery
begin

text \<open>
  Transactions: \<open>begin_op\<close>, \<open>log_write\<close> and \<open>end_op\<close> of \<open>src/kernel/log.c\<close>. Inside a transaction the disk does
  not change; the blocks that were given to \<open>log_write\<close> are pinned in the cache and recorded in
  the log, each once.
\<close>

section \<open>The state inside a transaction\<close>

text \<open>A block has one reference when it is logged and one when it is held.\<close>

definition refs :: "nat list \<Rightarrow> (nat \<Rightarrow> nat option) \<Rightarrow> nat \<Rightarrow> nat" where
  "refs L H k = (if k \<in> set L then 1 else 0) + (if H k = None then 0 else 1)"

definition logging :: "nat \<Rightarrow> nat \<Rightarrow> int \<Rightarrow> int \<Rightarrow> nat list \<Rightarrow> log \<Rightarrow> bool" where
  "logging sz st dev out L G \<longleftrightarrow>
     lg_start G = int st \<and> lg_size G = int sz \<and> lg_dev G = dev \<and> lg_outstanding G = out \<and> \<not> lg_committing G \<and>
     lh_n G = int (length L) \<and> (\<forall>i < length L. lh_block G i = int (L ! i)) \<and>
     distinct L \<and> length L < sz \<and> length L < LOGSIZE \<and> st + sz \<le> 2 ^ 31 \<and>
     (\<forall>k \<in> set L. k \<notin> log_area sz st \<and> k < 2 ^ 31)"

text \<open>
  The log at \<open>st\<close> with \<open>sz\<close> blocks, \<open>out\<close> operations under way, the blocks \<open>L\<close> logged and \<open>H\<close> held, the
  contents \<open>C\<close> in the cache and \<open>D\<close> on the disk, where the header is empty.
\<close>

definition tx :: "nat \<Rightarrow> nat \<Rightarrow> int \<Rightarrow> bool \<Rightarrow> nat \<Rightarrow> int \<Rightarrow> int \<Rightarrow> 'z \<Rightarrow> (nat \<Rightarrow> byte list) \<Rightarrow>
    (nat \<Rightarrow> byte list) \<Rightarrow> nat list \<Rightarrow> (nat \<Rightarrow> nat option) \<Rightarrow> 'z klog_scheme \<Rightarrow> bool" where
  "tx sz st dev f p pid out Y D C L H s \<longleftrightarrow>
     (\<exists>G. lstate f p pid G Y D C (refs L H) H s \<and> logging sz st dev out L G) \<and> get32 (D st) 0 = 0"

lemma refs_hold: "H k = None \<Longrightarrow> refs L (H(k \<mapsto> b)) = (refs L H)(k := Suc (refs L H k))"
  by (auto simp: refs_def fun_eq_iff)

lemma refs_release: "H k \<noteq> None \<Longrightarrow> refs L (H(k := None)) = (refs L H)(k := refs L H k - 1)"
  by (auto simp: refs_def fun_eq_iff)

lemma refs_log: "k \<notin> set L \<Longrightarrow> refs (L @ [k]) H = (refs L H)(k := Suc (refs L H k))"
  by (auto simp: refs_def fun_eq_iff)

lemma refs_bound: "refs L H k \<le> 2"
  by (simp add: refs_def)

lemma refs_pos: "{k. 0 < refs L H k} = set L \<union> dom H"
  by (auto simp: refs_def)

section \<open>Buffers\<close>

lemma tx_lift:
  assumes "\<And>G. lg_dev G = dev \<Longrightarrow> runs_to (lstate f p pid G Y D C (refs L H) H) m (\<lambda>x. lstate f p pid G Y D (C' x) (refs L (H' x)) (H' x)) E"
  shows "runs_to (tx sz st dev f p pid out Y D C L H) m (\<lambda>x. tx sz st dev f p pid out Y D (C' x) L (H' x)) E"
proof (rule runs_toI)
  fix s
  assume "tx sz st dev f p pid out Y D C L H s"
  then obtain G where G: "lstate f p pid G Y D C (refs L H) H s" "logging sz st dev out L G" "get32 (D st) 0 = 0"
    by (auto simp: tx_def)
  then have "lg_dev G = dev" by (simp add: logging_def)
  from runs_toD [OF assms [OF this] G(1)] G(2,3)
  show "(\<exists>x t. m s = Ok x t \<and> tx sz st dev f p pid out Y D (C' x) L (H' x) t) \<or> (\<exists>t. m s = Stop Switched t \<and> E t)"
    unfolding tx_def by blast
qed

text \<open>A cut inside a transaction leaves the disk as it was.\<close>

abbreviation cut_off :: "bool \<Rightarrow> (nat \<Rightarrow> byte list) \<Rightarrow> 'z kdisk_scheme \<Rightarrow> bool" where
  "cut_off f D \<equiv> crash f (\<lambda>d. d = D)"

lemma tx_bread:
  assumes "k < 2 ^ 31" "H k = None" "k \<in> set L \<or> card (set L \<union> dom H) < NBUF"
  shows "runs_to (tx sz st dev f p pid out Y D C L H) (bread (u32_of_int dev) (of_nat k))
    (\<lambda>b. tx sz st dev f p pid out Y D C L (H(k \<mapsto> b))) (cut_off f D)"
proof (rule tx_lift)
  fix G :: log
  assume G: "lg_dev G = dev"
  have "0 < refs L H k \<or> card {m. 0 < refs L H m} < NBUF" unfolding refs_pos using assms(3) by (auto simp: refs_def)
  moreover have "refs L H k + 1 < 2 ^ 32" using refs_bound [of L H k] by simp
  ultimately show "runs_to (lstate f p pid G Y D C (refs L H) H) (bread (u32_of_int dev) (of_nat k))
      (\<lambda>b. lstate f p pid G Y D C (refs L (H(k \<mapsto> b))) (H(k \<mapsto> b))) (cut_off f D)"
    using bread_l [of k H "refs L H" "\<lambda>d. d = D" D f p pid G Y C] assms(1,2) G by (simp add: refs_hold)
qed

lemma tx_brelse:
  assumes "H k = Some b" "k \<in> set L \<or> C k = D k"
  shows "runs_to (tx sz st dev f p pid out Y D C L H) (brelse b) (\<lambda>_. tx sz st dev f p pid out Y D C L (H(k := None))) E"
proof (rule tx_lift)
  fix G :: log
  have "1 < refs L H k \<or> C k = D k" using assms by (auto simp: refs_def)
  from brelse_l [of H k b "refs L H" C D f p pid G Y E, OF assms(1) this]
  show "runs_to (lstate f p pid G Y D C (refs L H) H) (brelse b) (\<lambda>_. lstate f p pid G Y D C (refs L (H(k := None))) (H(k := None))) E"
    using assms(1) by (simp add: refs_release)
qed

lemma tx_set_data:
  assumes "H k = Some b" "length (C k) = BSIZE \<Longrightarrow> length (g (C k)) = BSIZE"
  shows "runs_to (tx sz st dev f p pid out Y D C L H) (modify_buf b (\<lambda>x. x\<lparr>b_data := g (b_data x)\<rparr>))
    (\<lambda>_. tx sz st dev f p pid out Y D (C(k := g (C k))) L H) E"
  by (rule tx_lift) (rule set_data_l [of H k b C g, OF assms])

lemma tx_get_data:
  assumes "H k = Some b"
    and "\<And>x. b_data x = C k \<Longrightarrow> length (C k) = BSIZE \<Longrightarrow> runs_to (tx sz st dev f p pid out Y D C L H) (m x) Q E"
  shows "runs_to (tx sz st dev f p pid out Y D C L H) (bind (get_buf b) m) Q E"
proof (rule runs_toI)
  fix s
  assume s: "tx sz st dev f p pid out Y D C L H s"
  then have "b_data (bufs (vd s) b) = C k" "length (C k) = BSIZE"
    using bstate_held [of _ f p pid _ D C _ H s k b] assms(1) by (auto simp: tx_def lstate_def)
  from runs_toD [OF assms(2) [OF this] s]
  show "(\<exists>x t. bind (get_buf b) m s = Ok x t \<and> Q x t) \<or> (\<exists>t. bind (get_buf b) m s = Stop Switched t \<and> E t)" by simp
qed

section \<open>Logging a block\<close>

lemma klog_held [simp]:
  "lg (held lk s) = lg s" "lg_update h (held lk s) = held lk (lg_update h s)"
  by (simp_all add: held_def)

lemma log_run [simp]:
  "get_log h s = Ok (h (lg s)) s" "modify_log g s = Ok () (s\<lparr>lg := g (lg s)\<rparr>)"
  by (simp_all add: get_log_def modify_log_def)

text \<open>The index that the loop of \<open>log_write\<close> stops at: the place of the block, or the first free one.\<close>

lemma log_slot_step:
  assumes "block j = int x" "x < 2 ^ 31" "k < 2 ^ 31"
  shows "u32_of_int (block j) = of_nat k \<longleftrightarrow> x = k"
proof -
  have "unat (of_nat x :: u32) = x" "unat (of_nat k :: u32) = k" using assms by (simp_all add: unsigned_of_nat take_bit_nat_eq_self)
  then show ?thesis using assms(1) by (metis u32_block(1))
qed

lemma log_slot_known:
  assumes "\<And>i. i < length L \<Longrightarrow> block (j + i) = int (L ! i)" "\<And>k. k \<in> set L \<Longrightarrow> k < 2 ^ 31" "k < 2 ^ 31" "k \<in> set L"
  shows "\<exists>i < length L. log_slot (length L) j block (of_nat k) = j + i \<and> L ! i = k"
  using assms(1,2,4)
proof (induction L arbitrary: j)
  case (Cons x L)
  have eq: "u32_of_int (block j) = of_nat k \<longleftrightarrow> x = k"
    using Cons.prems(1) [of 0] Cons.prems(2) assms(3) by (intro log_slot_step) auto
  show ?case
  proof (cases "x = k")
    case False
    have "\<And>i. i < length L \<Longrightarrow> block (Suc j + i) = int (L ! i)" using Cons.prems(1) by fastforce
    with Cons False obtain i where "i < length L" "log_slot (length L) (Suc j) block (of_nat k) = Suc j + i" "L ! i = k"
      by (metis list.set_intros(2) set_ConsD)
    then show ?thesis using eq False by (intro exI [of _ "Suc i"]) simp
  qed (use eq in auto)
qed simp

lemma log_slot_new:
  assumes "\<And>i. i < length L \<Longrightarrow> block (j + i) = int (L ! i)" "\<And>k. k \<in> set L \<Longrightarrow> k < 2 ^ 31" "k < 2 ^ 31" "k \<notin> set L"
  shows "log_slot (length L) j block (of_nat k) = j + length L"
  using assms(1,2,4)
proof (induction L arbitrary: j)
  case (Cons x L)
  have eq: "u32_of_int (block j) = of_nat k \<longleftrightarrow> x = k"
    using Cons.prems(1) [of 0] Cons.prems(2) assms(3) by (intro log_slot_step) auto
  have "\<And>i. i < length L \<Longrightarrow> block (Suc j + i) = int (L ! i)" using Cons.prems(1) by fastforce
  with Cons have "log_slot (length L) (Suc j) block (of_nat k) = Suc j + length L" by simp
  then show ?case using eq Cons.prems(3) by simp
qed simp

lemma block_no:
  assumes "block_of x = k" "k < 2 ^ 31"
  shows "b_blockno x = of_nat k" "sint (b_blockno x) = int k"
proof -
  show "b_blockno x = of_nat k" using assms(1) unfolding block_of_def by (metis of_nat_unat ucast_id)
  then show "sint (b_blockno x) = int k" using assms(2) by (simp add: sint_of_nat)
qed

lemma log_write_run:
  assumes s: "running p s" and G: "logging sz st dev out L (lg s)" and out: "1 \<le> out" and room: "length L < LOGSIZE" "length L + 1 < sz"
    and k: "block_of (bufs (vd s) b) = k" "k < 2 ^ 31"
  shows "log_write b s = Ok () (if k \<in> set L then s else
    s\<lparr>lg := (lg s)\<lparr>lh_block := (lh_block (lg s))(length L := int k), lh_n := int (length L) + 1\<rparr>,
      vd := upd_buf b (\<lambda>x. x\<lparr>b_refcnt := b_refcnt x + 1\<rparr>) (vd s)\<rparr>)"
proof -
  have G': "lh_n (lg s) = int (length L)" "lg_size (lg s) = int sz" "lg_outstanding (lg s) = out"
    "\<And>i. i < length L \<Longrightarrow> lh_block (lg s) (0 + i) = int (L ! i)" "\<And>k. k \<in> set L \<Longrightarrow> k < 2 ^ 31"
    using G by (auto simp: logging_def)
  note run = running_cpu [OF s] block_no [OF k] G'(1-3) out room
  show ?thesis
  proof (cases "k \<in> set L")
    case True
    then obtain i where i: "i < length L" "log_slot (length L) 0 (lh_block (lg s)) (of_nat k) = i" "L ! i = k" 
      using log_slot_known [of L "lh_block (lg s)" 0 k] G'(4,5) k(2) by auto
    then have "(lg s)\<lparr>lh_block := (lh_block (lg s))(i := int k)\<rparr> = lg s" using G'(4) [OF i(1)] by (simp add: fun_upd_idem)
    then show ?thesis using True run i(1,2) by (simp add: log_write_def)
  next
    case False
    then show ?thesis using run log_slot_new [of L "lh_block (lg s)" 0 k] G'(4,5) k(2) by (simp add: log_write_def bpin_def)
  qed
qed

lemma tx_log_write:
  assumes h: "H k = Some b" and k: "k < 2 ^ 31" "k \<notin> log_area sz st" and out: "1 \<le> out"
    and room: "length L + 1 < LOGSIZE" "length L + 1 < sz"
  shows "runs_to (tx sz st dev f p pid out Y D C L H) (log_write b)
    (\<lambda>_. tx sz st dev f p pid out Y D C (if k \<in> set L then L else L @ [k]) H) E"
proof (rule runs_toI)
  fix s
  assume tx: "tx sz st dev f p pid out Y D C L H s"
  then obtain G where s: "lstate f p pid G Y D C (refs L H) H s" and G: "logging sz st dev out L G" and e: "get32 (D st) 0 = 0"
    by (auto simp: tx_def)
  let ?Z = "kdisk.more s" and ?dv = "u32_of_int (lg_dev G)" and ?g = "\<lambda>x. x\<lparr>b_refcnt := b_refcnt x + 1\<rparr>"
  have bs: "bstate ?dv f p pid ?Z D C (refs L H) H s" and lg: "lg s = G" and Y: "klog.more s = Y" using s by (auto simp: lstate_def)
  note run = log_write_run [OF bstate_running [OF bs] _ out _ room(2) bstate_held(4) [OF bs h] k(1), of st dev]
  show "(\<exists>x t. log_write b s = Ok x t \<and> tx sz st dev f p pid out Y D C (if k \<in> set L then L else L @ [k]) H t) \<or>
      (\<exists>t. log_write b s = Stop Switched t \<and> E t)"
  proof (cases "k \<in> set L")
    case True
    then show ?thesis using run G lg tx room by simp
  next
    case False
    let ?G = "G\<lparr>lh_block := (lh_block G)(length L := int k), lh_n := int (length L) + 1\<rparr>"
    let ?t = "s\<lparr>lg := ?G, vd := upd_buf b ?g (vd s)\<rparr>"
    have "logging sz st dev out (L @ [k]) ?G"
      using G k False room by (auto simp: logging_def nth_append less_Suc_eq)
    moreover have "bstate ?dv f p pid ?Z D (C(k := C k)) ((refs L H)(k := refs L H k + 1)) H (s\<lparr>vd := upd_buf b ?g (vd s)\<rparr>)"
      using bstate_held [OF bs h] refs_bound [of L H k]
      by (intro bstate_modify [OF bs h]) (simp_all add: unat_plus_simple [THEN iffD1] no_olen_add_nat)
    then have "lstate f p pid ?G Y D C (refs (L @ [k]) H) H ?t"
      using Y False by (auto simp: refs_log lstate_def bstate_def disk_at_def running_def)
    ultimately have "tx sz st dev f p pid out Y D C (L @ [k]) H ?t" using e by (auto simp: tx_def)
    then show ?thesis using run G lg False room by simp
  qed
qed

section \<open>Beginning and ending an operation\<close>

lemma woken_klog [simp]: "lg (woken ch s) = lg s" "klog.more (woken ch s) = klog.more s"
  by (simp_all add: woken_def)

lemma lstate_woken: "lstate f p pid G Y D C R H s \<Longrightarrow> lstate f p pid G Y D C R H (woken ch s)"
  unfolding lstate_def bstate_def by (auto dest: disk_at_woken)

lemma lstate_log:
  assumes "lstate f p pid G Y D C R H s" "lg_dev G' = lg_dev G"
  shows "lstate f p pid G' Y D C R H (s\<lparr>lg := G'\<rparr>)"
  using assms by (auto simp: lstate_def bstate_def disk_at_def running_def)

lemma lstate_running: "lstate f p pid G Y D C R H s \<Longrightarrow> running p s"
  by (auto simp: lstate_def bstate_def disk_at_def)

text \<open>An operation that fits is admitted; one that might not fit sleeps.\<close>

lemma begin_op_run:
  assumes "running p s"
  shows "begin_op s =
    (if lg_committing (lg s) \<or> lh_n (lg s) + (lg_outstanding (lg s) + 1) * int MAXOPBLOCKS > int LOGSIZE
     then Stop Switched (held (ProcLock p) (upd_proc p (asleep ChanLog) s))
     else Ok () (s\<lparr>lg := (lg s)\<lparr>lg_outstanding := lg_outstanding (lg s) + 1\<rparr>\<rparr>))"
  using running_cpu [OF assms] by (simp add: begin_op_def begin_op_loop_def sleep_run)

lemma tx_begin_op:
  assumes "int (length L) + (out + 1) * int MAXOPBLOCKS \<le> int LOGSIZE"
  shows "runs_to (tx sz st dev f p pid out Y D C L H) begin_op (\<lambda>_. tx sz st dev f p pid (out + 1) Y D C L H) E"
proof (rule runs_toI)
  fix s
  assume "tx sz st dev f p pid out Y D C L H s"
  then obtain G where s: "lstate f p pid G Y D C (refs L H) H s" and G: "logging sz st dev out L G" and e: "get32 (D st) 0 = 0"
    by (auto simp: tx_def)
  let ?G = "G\<lparr>lg_outstanding := out + 1\<rparr>"
  have lg: "lg s = G" using s by (simp add: lstate_def)
  have "logging sz st dev (out + 1) L ?G" using G by (simp add: logging_def)
  moreover have "lstate f p pid ?G Y D C (refs L H) H (s\<lparr>lg := ?G\<rparr>)" by (rule lstate_log [OF s]) simp
  ultimately have "tx sz st dev f p pid (out + 1) Y D C L H (s\<lparr>lg := ?G\<rparr>)" using e by (auto simp: tx_def)
  moreover have "begin_op s = Ok () (s\<lparr>lg := ?G\<rparr>)"
    using begin_op_run [OF lstate_running [OF s]] lg G assms by (simp add: logging_def)
  ultimately show "(\<exists>x t. begin_op s = Ok x t \<and> tx sz st dev f p pid (out + 1) Y D C L H t) \<or> (\<exists>t. begin_op s = Stop Switched t \<and> E t)"
    by simp
qed

definition end_commit :: "'z klog_scheme \<Rightarrow> ('z klog_scheme, unit) res" where
  "end_commit = seq (lock LogLock) (seq (modify_log (\<lambda>l. l\<lparr>lg_committing := False\<rparr>)) (seq (wakeup ChanLog) (unlock LogLock)))"

lemma end_commit_run:
  assumes "running p s"
  shows "end_commit s = Ok () (woken ChanLog (s\<lparr>lg := (lg s)\<lparr>lg_committing := False\<rparr>\<rparr>))"
proof -
  let ?s = "s\<lparr>lg := (lg s)\<lparr>lg_committing := False\<rparr>\<rparr>"
  have "quiet ?s" using assms by (simp add: running_quiet quiet_def)
  then have "wakeup ChanLog (held LogLock ?s) = Ok () (held LogLock (woken ChanLog ?s))" by (intro wakeup_quiet) simp_all
  then show ?thesis using running_cpu [OF assms] by (simp add: end_commit_def)
qed

lemma end_op_run:
  assumes "running p s" "\<not> lg_committing (lg s)"
  shows "end_op s =
    (if lg_outstanding (lg s) = 1 then seq commit end_commit (s\<lparr>lg := (lg s)\<lparr>lg_outstanding := 0, lg_committing := True\<rparr>\<rparr>)
     else Ok () (woken ChanLog (s\<lparr>lg := (lg s)\<lparr>lg_outstanding := lg_outstanding (lg s) - 1\<rparr>\<rparr>)))"
proof -
  let ?s = "s\<lparr>lg := (lg s)\<lparr>lg_outstanding := lg_outstanding (lg s) - 1\<rparr>\<rparr>"
  have "quiet ?s" using assms(1) by (simp add: running_quiet quiet_def)
  then have "wakeup ChanLog (held LogLock ?s) = Ok () (held LogLock (woken ChanLog ?s))" by (intro wakeup_quiet) simp_all
  then show ?thesis
    using running_cpu [OF assms(1)] assms(2) by (simp add: end_op_def end_commit_def Let_def)
qed

lemma lstate_clean: "lstate f p pid G Y D C R H s \<Longrightarrow> R k = 0 \<Longrightarrow> C k = D k"
  unfolding lstate_def bstate_def cache_rel_def by blast

lemma tx_clean: "tx sz st dev f p pid out Y D C L H s \<Longrightarrow> k \<notin> set L \<Longrightarrow> H k = None \<Longrightarrow> C k = D k"
  unfolding tx_def by (auto intro: lstate_clean simp: refs_def)

lemma tx_length: "tx sz st dev f p pid out Y D C L H s \<Longrightarrow> length (D k) = BSIZE"
  using length_disk_block [of "medium (vd s)" k] by (auto simp: tx_def lstate_def bstate_def disk_at_def)

lemma tx_disk_of: "tx sz st dev f p pid out Y D C L H s \<Longrightarrow> disk_of s = D"
  by (auto simp: tx_def dest: lstate_disk_of)

lemma tx_ready:
  assumes tx: "tx sz st dev f p pid out Y D C L (\<lambda>_. None) s" and G: "logging sz st dev out L G"
  shows "ready sz st (length L) (\<lambda>i. L ! i) (G\<lparr>lg_outstanding := 0, lg_committing := True\<rparr>) D C (refs L (\<lambda>_. None))"
proof -
  have 1: "st \<notin> set L" using G by (auto simp: logging_def)
  have 2: "(\<lambda>i. L ! i) ` {..<length L} = set L" by (auto simp: set_conv_nth)
  have 3: "{k. 0 < refs L (\<lambda>_. None) k} = set L" by (simp add: refs_pos)
  have 4: "C st = D st" "length (D st) = BSIZE" using tx_clean [OF tx 1] tx_length [OF tx] by simp_all
  have 5: "card (set L) < NBUF" using G by (simp add: logging_def distinct_card LOGSIZE_def NBUF_def)
  have 6: "get32 (D st) 0 = 0" using tx by (simp add: tx_def)
  have 7: "refs L (\<lambda>_. None) k + 1 < 2 ^ 32" for k using refs_bound [of L "\<lambda>_. None" k] by simp
  show ?thesis
    unfolding ready_def 2 3 using G 4 5 6 7 tx_clean [OF tx] by (simp add: logging_def inj_on_nth refs_def)
qed

lemma tx_end_op_last:
  "runs_to (tx sz st dev f p pid 1 Y D C L (\<lambda>_. None)) end_op
    (\<lambda>_ s. \<exists>D'. tx sz st dev f p pid 0 Y D' D' [] (\<lambda>_. None) s \<and> same_home sz st D' C) (crash f (atomic sz st D C))"
proof (rule runs_toI)
  fix s
  assume tx: "tx sz st dev f p pid 1 Y D C L (\<lambda>_. None) s"
  then obtain G where s: "lstate f p pid G Y D C (refs L (\<lambda>_. None)) (\<lambda>_. None) s" and G: "logging sz st dev 1 L G"
    by (auto simp: tx_def)
  let ?G = "G\<lparr>lg_outstanding := 0, lg_committing := True\<rparr>"
  have lg: "lg s = G" using s by (simp add: lstate_def)
  have run: "end_op s = seq commit end_commit (s\<lparr>lg := ?G\<rparr>)"
    using end_op_run [OF lstate_running [OF s]] lg G by (simp add: logging_def)
  have "lstate f p pid ?G Y D C (refs L (\<lambda>_. None)) (\<lambda>_. None) (s\<lparr>lg := ?G\<rparr>)" by (rule lstate_log [OF s]) simp
  from runs_toD [OF commit_spec [OF tx_ready [OF tx G]] this]
  show "(\<exists>x t. end_op s = Ok x t \<and> (\<exists>D'. tx sz st dev f p pid 0 Y D' D' [] (\<lambda>_. None) t \<and> same_home sz st D' C)) \<or>
      (\<exists>t. end_op s = Stop Switched t \<and> crash f (atomic sz st D C) t)"
  proof (elim disjE exE conjE)
    fix x t D'
    assume t: "commit (s\<lparr>lg := ?G\<rparr>) = Ok x t" "same_home sz st D' C" "get32 (D' st) 0 = 0"
      "lstate f p pid (?G\<lparr>lh_n := 0\<rparr>) Y D' D' (unpinned (length L) (\<lambda>i. L ! i) (refs L (\<lambda>_. None))) (\<lambda>_. None) t"
    have "(\<lambda>i. L ! i) ` {..<length L} = set L" by (auto simp: set_conv_nth)
    then have "unpinned (length L) (\<lambda>i. L ! i) (refs L (\<lambda>_. None)) = refs [] (\<lambda>_. None)"
      by (auto simp: unpinned_def refs_def fun_eq_iff)
    then have "lstate f p pid (?G\<lparr>lh_n := 0, lg_committing := False\<rparr>) Y D' D' (refs [] (\<lambda>_. None)) (\<lambda>_. None)
        (woken ChanLog (t\<lparr>lg := ?G\<lparr>lh_n := 0, lg_committing := False\<rparr>\<rparr>))"
      using t(4) by (intro lstate_woken lstate_log [of _ _ _ "?G\<lparr>lh_n := 0\<rparr>"]) simp_all
    moreover have "logging sz st dev 0 [] (?G\<lparr>lh_n := 0, lg_committing := False\<rparr>)" using G by (simp add: logging_def LOGSIZE_def MAXOPBLOCKS_def)
    ultimately have "tx sz st dev f p pid 0 Y D' D' [] (\<lambda>_. None) (woken ChanLog (t\<lparr>lg := ?G\<lparr>lh_n := 0, lg_committing := False\<rparr>\<rparr>))"
      unfolding tx_def using t(3) by blast
    moreover have "lg t = ?G\<lparr>lh_n := 0\<rparr>" using t(4) by (simp add: lstate_def)
    then have "end_op s = Ok () (woken ChanLog (t\<lparr>lg := ?G\<lparr>lh_n := 0, lg_committing := False\<rparr>\<rparr>))"
      using run t(1) end_commit_run [OF lstate_running [OF t(4)]] by simp
    ultimately show ?thesis using t(2) by blast
  qed (simp add: run)
qed

lemma tx_end_op_more:
  assumes "1 < out"
  shows "runs_to (tx sz st dev f p pid out Y D C L H) end_op (\<lambda>_. tx sz st dev f p pid (out - 1) Y D C L H) E"
proof (rule runs_toI)
  fix s
  assume "tx sz st dev f p pid out Y D C L H s"
  then obtain G where s: "lstate f p pid G Y D C (refs L H) H s" and G: "logging sz st dev out L G" and e: "get32 (D st) 0 = 0"
    by (auto simp: tx_def)
  let ?G = "G\<lparr>lg_outstanding := out - 1\<rparr>"
  have lg: "lg s = G" using s by (simp add: lstate_def)
  have "logging sz st dev (out - 1) L ?G" using G by (simp add: logging_def)
  moreover have "lstate f p pid ?G Y D C (refs L H) H (woken ChanLog (s\<lparr>lg := ?G\<rparr>))"
    by (rule lstate_woken [OF lstate_log [OF s]]) simp
  ultimately have "tx sz st dev f p pid (out - 1) Y D C L H (woken ChanLog (s\<lparr>lg := ?G\<rparr>))" unfolding tx_def using e by blast
  moreover have "end_op s = Ok () (woken ChanLog (s\<lparr>lg := ?G\<rparr>))"
    using end_op_run [OF lstate_running [OF s]] lg G assms by (simp add: logging_def)
  ultimately show "(\<exists>x t. end_op s = Ok x t \<and> tx sz st dev f p pid (out - 1) Y D C L H t) \<or> (\<exists>t. end_op s = Stop Switched t \<and> E t)"
    by simp
qed

lemma atomic_same: "get32 (D st) 0 = 0 \<Longrightarrow> 0 < sz \<Longrightarrow> atomic sz st D C D"
  by (rule atomic_empty) (simp_all add: same_home_def)

section \<open>Operations are atomic\<close>

text \<open>
  C4: a file system operation is atomic. Let \<open>m\<close> be the code between \<open>begin_op\<close> and \<open>end_op\<close>, and let
  \<open>P\<close> be what it makes of the blocks. From an idle log, the operation returns with an idle log and
  a disk with \<open>P\<close>, the log area apart; or the disk stops answering, and after the reboot \<open>initlog\<close> returns and
  the blocks are those from before the operation, or have \<open>P\<close>.
\<close>

theorem operation_atomic:
  assumes tx: "tx sz st dev f p pid 0 Y D D [] (\<lambda>_. None) s"
    and m: "runs_to (tx sz st dev f p pid 1 Y D D [] (\<lambda>_. None)) m
      (\<lambda>_ t. \<exists>C L. tx sz st dev f p pid 1 Y D C L (\<lambda>_. None) t \<and> P C) (crash f (\<lambda>d. d = D))"
  shows "case seq begin_op (seq m end_op) s of
      Ok _ t \<Rightarrow> \<exists>D' C. P C \<and> same_home sz st D' C \<and> disk_of t = D' \<and> tx sz st dev f p pid 0 Y D' D' [] (\<lambda>_. None) t
    | Stop e t \<Rightarrow> e = Switched \<and> f \<and>
        (\<forall>q qid B Z u sb. lstate False q qid B Z (disk_of t) (disk_of t) (\<lambda>_. 0) (\<lambda>_. None) u \<and> sint (sb_logstart sb) = int st \<longrightarrow>
          (\<exists>v. initlog (lg_dev B) sb u = Ok () v \<and> get32 (disk_of v st) 0 = 0 \<and>
            (same_home sz st (disk_of v) D \<or> (\<exists>C. P C \<and> same_home sz st (disk_of v) C))))"
proof -
  have g: "get32 (D st) 0 = 0" "0 < sz" "st + sz \<le> 2 ^ 31" using tx by (auto simp: tx_def logging_def)
  let ?X = "\<lambda>d. \<exists>C. atomic sz st D C d \<and> (same_home sz st D C \<or> P C)" and ?N = "\<lambda>_. None"
  let ?Q = "\<lambda>_ t. \<exists>D' C. P C \<and> same_home sz st D' C \<and> tx sz st dev f p pid 0 Y D' D' [] ?N t"
  have X: "?X D" by (rule exI [of _ D]) (simp add: atomic_same [of D st sz, OF g(1,2)] same_home_def)
  have 1: "runs_to (tx sz st dev f p pid 0 Y D D [] ?N) begin_op (\<lambda>_. tx sz st dev f p pid 1 Y D D [] ?N) (crash f ?X)"
    using tx_begin_op [of "[]" 0] by (simp add: LOGSIZE_def MAXOPBLOCKS_def)
  have 2: "runs_to (\<lambda>t. \<exists>C L. tx sz st dev f p pid 1 Y D C L ?N t \<and> P C) end_op ?Q (crash f ?X)"
  proof (rule runs_toI, elim exE conjE)
    fix s C L
    assume s: "tx sz st dev f p pid 1 Y D C L ?N s" and P: "P C"
    from runs_toD [OF tx_end_op_last s] P
    show "(\<exists>x t. end_op s = Ok x t \<and> ?Q x t) \<or> (\<exists>t. end_op s = Stop Switched t \<and> crash f ?X t)" unfolding crash_def by blast
  qed
  have "runs_to (tx sz st dev f p pid 0 Y D D [] ?N) (seq begin_op (seq m end_op)) ?Q (crash f ?X)"
    by (rule runs_to_seq [OF 1 runs_to_seq [OF runs_to_conseq [OF m] 2]]) (use X in \<open>auto simp: crash_def\<close>)
  from runs_toD [OF this tx] show ?thesis
  proof (elim disjE exE conjE)
    fix x t D' C
    assume "seq begin_op (seq m end_op) s = Ok x t" "P C" "same_home sz st D' C" "tx sz st dev f p pid 0 Y D' D' [] ?N t"
    then show ?thesis using tx_disk_of by fastforce
  next
    fix t
    assume t: "seq begin_op (seq m end_op) s = Stop Switched t" "crash f ?X t"
    then obtain C where C: "f" "atomic sz st D C (disk_of t)" "same_home sz st D C \<or> P C" by (auto simp: crash_def)
    then show ?thesis using t(1) boot_atomic [OF C(2) g(3)] by (fastforce simp: same_home_def)
  qed
qed

text \<open>An operation that writes one block.\<close>

definition put_block :: "u32 \<Rightarrow> u32 \<Rightarrow> byte list \<Rightarrow> 'z klog_scheme \<Rightarrow> ('z klog_scheme, unit) res" where
  "put_block dev k c =
     bind (bread dev k) (\<lambda>b.
     seq (modify_buf b (\<lambda>x. x\<lparr>b_data := c\<rparr>)) (seq (log_write b) (brelse b)))"

lemma tx_put_block:
  assumes k: "k < 2 ^ 31" "k \<notin> log_area sz st" "H k = None" and c: "length c = BSIZE" and out: "1 \<le> out"
    and room: "length L + 1 < LOGSIZE" "length L + 1 < sz" "card (set L \<union> dom H) < NBUF"
  shows "runs_to (tx sz st dev f p pid out Y D C L H) (put_block (u32_of_int dev) (of_nat k) c)
    (\<lambda>_. tx sz st dev f p pid out Y D (C(k := c)) (if k \<in> set L then L else L @ [k]) H) (cut_off f D)"
  unfolding put_block_def
proof (rule runs_to_bind [OF tx_bread])
  fix b
  let ?H = "H(k \<mapsto> b)" and ?L = "if k \<in> set L then L else L @ [k]"
  have r: "runs_to (tx sz st dev f p pid out Y D (C(k := c)) ?L ?H) (brelse b) (\<lambda>_. tx sz st dev f p pid out Y D (C(k := c)) ?L (?H(k := None))) (cut_off f D)"
    by (rule tx_brelse) simp_all
  have "?H(k := None) = H" using k(3) by auto
  then show "runs_to (tx sz st dev f p pid out Y D C L ?H) (seq (modify_buf b (\<lambda>x. x\<lparr>b_data := c\<rparr>)) (seq (log_write b) (brelse b)))
      (\<lambda>_. tx sz st dev f p pid out Y D (C(k := c)) ?L H) (cut_off f D)"
    using tx_set_data [of ?H k b C "\<lambda>_. c"] tx_log_write [of ?H k b, OF _ k(1,2) out room(1,2)] r c
    by (intro runs_to_seq [OF _ runs_to_seq]) auto
qed (use k room in auto)

lemma boot_tx:
  "tx 30 2 1 False 0 1 0 (klog.more kernel_example) (\<lambda>_. replicate BSIZE 0) (\<lambda>_. replicate BSIZE 0) [] (\<lambda>_. None)
     (boot_example (\<lambda>_. replicate 512 0))"
proof -
  have D: "disk_block (\<lambda>_. replicate 512 0) = (\<lambda>_. replicate BSIZE 0)"
    by (simp add: fun_eq_iff disk_block_def sectors_def BSIZE_def flip: replicate_add)
  have "refs [] (\<lambda>_. None) = (\<lambda>_. 0)" by (simp add: refs_def fun_eq_iff)
  moreover have "logging 30 2 1 0 [] (lg kernel_example)" by (simp add: logging_def kernel_example_def LOGSIZE_def MAXOPBLOCKS_def)
  moreover have "get32 (replicate BSIZE 0) 0 = 0" by (simp add: get32_def BSIZE_def eval_nat_numeral)
  ultimately show ?thesis
    using boot_lstate [of "\<lambda>_. replicate 512 0"] unfolding D tx_def by auto
qed

theorem operation_atomic_witness:
  "\<exists>t. seq begin_op (seq (put_block 1 100 (replicate BSIZE 7)) end_op) (boot_example (\<lambda>_. replicate 512 0)) = Ok () t \<and>
     disk_of t 100 = replicate BSIZE 7"
proof -
  let ?D = "\<lambda>_. replicate BSIZE 0" and ?N = "\<lambda>_. None"
  have e: "u32_of_int 1 = 1" "of_nat 100 = (100 :: u32)" by (simp_all add: u32_of_int_def)
  have w: "runs_to (tx 30 2 1 False 0 1 1 (klog.more kernel_example) ?D ?D [] ?N) (put_block (u32_of_int 1) (of_nat 100) (replicate BSIZE 7))
      (\<lambda>_. tx 30 2 1 False 0 1 1 (klog.more kernel_example) ?D (?D(100 := replicate BSIZE 7)) (if (100 :: nat) \<in> set [] then [] else [] @ [100]) ?N) (cut_off False ?D)"
    by (rule tx_put_block) (simp_all add: log_area_def LOGSIZE_def NBUF_def MAXOPBLOCKS_def)
  have "runs_to (tx 30 2 1 False 0 1 1 (klog.more kernel_example) ?D ?D [] ?N) (put_block 1 100 (replicate BSIZE 7))
      (\<lambda>_ t. \<exists>C L. tx 30 2 1 False 0 1 1 (klog.more kernel_example) ?D C L ?N t \<and> C 100 = replicate BSIZE 7) (crash False (\<lambda>d. d = ?D))"
    by (rule runs_to_conseq [OF w [unfolded e]]) auto
  from operation_atomic [OF boot_tx this]
  show ?thesis by (auto simp: same_home_def log_area_def split: res.splits)
qed

text \<open>
  C7: admission to the log. A process that calls \<open>begin_op\<close> is admitted at once, and then the blocks
  in the log together with \<open>MAXOPBLOCKS\<close> for each admitted operation fit into \<open>LOGSIZE\<close>; or it is put
  to sleep on the log with the log unchanged, which happens exactly while a commit is under way or
  the operation might not fit.
\<close>

theorem begin_op_admits:
  assumes "running p s"
  shows "case begin_op s of
      Ok _ t \<Rightarrow> \<not> lg_committing (lg s) \<and> t = s\<lparr>lg := (lg s)\<lparr>lg_outstanding := lg_outstanding (lg s) + 1\<rparr>\<rparr> \<and>
        lh_n (lg t) + lg_outstanding (lg t) * int MAXOPBLOCKS \<le> int LOGSIZE
    | Stop e t \<Rightarrow> e = Switched \<and> lg t = lg s \<and> p_state (procs t p) = SLEEPING \<and> p_chan (procs t p) = Some ChanLog \<and>
        (lg_committing (lg s) \<or> lh_n (lg s) + (lg_outstanding (lg s) + 1) * int MAXOPBLOCKS > int LOGSIZE)"
  unfolding begin_op_run [OF assms] by (simp add: asleep_def upd_proc_def)

theorem begin_op_admits_witness:
  "begin_op kernel_example = Ok () (kernel_example\<lparr>lg := (lg kernel_example)\<lparr>lg_outstanding := 1\<rparr>\<rparr>)"
  using begin_op_admits [OF running_example]
  by (simp add: kernel_example_def LOGSIZE_def MAXOPBLOCKS_def split: res.splits)

end
