(* ===== verification/FsSpec.thy ===== *)
theory FsSpec
  imports Fs TxSpec
begin

text \<open>
  The block allocator and the inodes of \<open>src/kernel/fs.c\<close> inside a transaction: what the operations do
  to the contents of the blocks.
\<close>

section \<open>The state\<close>

text \<open>What stays the same during an operation.\<close>

record env =
  e_sz :: nat
  e_st :: nat
  e_dev :: int
  e_fail :: bool
  e_proc :: nat
  e_pid :: int
  e_disk :: "nat \<Rightarrow> byte list"

definition ftx :: "env \<Rightarrow> superblock \<Rightarrow> (nat \<Rightarrow> inode) \<Rightarrow> 'z \<Rightarrow> (nat \<Rightarrow> byte list) \<Rightarrow> nat list \<Rightarrow> (nat \<Rightarrow> nat option) \<Rightarrow>
    'z kfs_scheme \<Rightarrow> bool" where
  "ftx e sb I Y C L H s \<longleftrightarrow>
     tx (e_sz e) (e_st e) (e_dev e) (e_fail e) (e_proc e) (e_pid e) 1 (klog.more s) (e_disk e) C L H s \<and>
     fsb s = sb \<and> inodes s = I \<and> kfs.more s = Y"

abbreviation e_cut :: "env \<Rightarrow> 'z kdisk_scheme \<Rightarrow> bool" where
  "e_cut e \<equiv> cut_off (e_fail e) (e_disk e)"

abbreviation e_devno :: "env \<Rightarrow> u32" where
  "e_devno e \<equiv> u32_of_int (e_dev e)"

text \<open>A block that is added to the log, and a block number that an operation may write.\<close>

definition log_add :: "nat \<Rightarrow> nat list \<Rightarrow> nat list" where
  "log_add k L = (if k \<in> set L then L else L @ [k])"

definition home_block :: "env \<Rightarrow> nat \<Rightarrow> bool" where
  "home_block e k \<longleftrightarrow> k < 2 ^ 31 \<and> k \<notin> log_area (e_sz e) (e_st e)"

text \<open>There is room for \<open>j\<close> more blocks in the log, and for a buffer more.\<close>

definition log_room :: "env \<Rightarrow> nat list \<Rightarrow> (nat \<Rightarrow> nat option) \<Rightarrow> nat \<Rightarrow> bool" where
  "log_room e L H j \<longleftrightarrow> length L + j < LOGSIZE \<and> length L + j < e_sz e \<and> finite (dom H) \<and> length L + j + card (dom H) < NBUF"

lemma tx_more: "tx sz st dev f p pid out Y D C L H s \<Longrightarrow> klog.more s = Y"
  by (auto simp: tx_def lstate_def)

lemma kfs_more: "klog.more s = klog.more t \<Longrightarrow> fsb s = fsb t \<and> inodes s = inodes t \<and> kfs.more s = kfs.more t"
  by (cases s; cases t) simp

lemma ftx_lift:
  fixes m :: "'z kfs_scheme \<Rightarrow> ('z kfs_scheme, 'a) res"
  assumes "\<And>Y. runs_to (tx (e_sz e) (e_st e) (e_dev e) (e_fail e) (e_proc e) (e_pid e) 1 Y (e_disk e) C L H) m
      (\<lambda>x. tx (e_sz e) (e_st e) (e_dev e) (e_fail e) (e_proc e) (e_pid e) 1 Y (e_disk e) (C' x) (L' x) (H' x)) E"
  shows "runs_to (ftx e sb I Y C L H) m (\<lambda>x. ftx e sb I Y (C' x) (L' x) (H' x)) E"
proof (rule runs_toI)
  fix s
  assume s: "ftx e sb I Y C L H s"
  then have t: "tx (e_sz e) (e_st e) (e_dev e) (e_fail e) (e_proc e) (e_pid e) 1 (klog.more s) (e_disk e) C L H s" by (simp add: ftx_def)
  from runs_toD [OF assms t] show "(\<exists>x t. m s = Ok x t \<and> ftx e sb I Y (C' x) (L' x) (H' x) t) \<or> (\<exists>t. m s = Stop Switched t \<and> E t)"
  proof (elim disjE exE conjE)
    fix x t
    assume t: "m s = Ok x t" "tx (e_sz e) (e_st e) (e_dev e) (e_fail e) (e_proc e) (e_pid e) 1 (klog.more s) (e_disk e) (C' x) (L' x) (H' x) t"
    from tx_more [OF t(2)] kfs_more [of t s] s t show ?thesis by (auto simp: ftx_def)
  qed simp
qed

section \<open>Buffers\<close>

lemma f_bread:
  assumes "home_block e k \<or> k < 2 ^ 31" "H k = None" "log_room e L H 0"
  shows "runs_to (ftx e sb I Y C L H) (bread (e_devno e) (of_nat k)) (\<lambda>b. ftx e sb I Y C L (H(k \<mapsto> b))) (e_cut e)"
proof (rule ftx_lift, rule tx_bread)
  show "k < 2 ^ 31" using assms(1) by (auto simp: home_block_def)
  have "card (set L \<union> dom H) \<le> length L + card (dom H)"
    by (rule order_trans [OF card_Un_le]) (simp add: card_length)
  then show "k \<in> set L \<or> card (set L \<union> dom H) < NBUF" using assms(3) by (simp add: log_room_def)
qed (rule assms(2))

lemma f_brelse:
  assumes "H k = Some b" "k \<in> set L \<or> C k = e_disk e k"
  shows "runs_to (ftx e sb I Y C L H) (brelse b) (\<lambda>_. ftx e sb I Y C L (H(k := None))) E"
  by (rule ftx_lift) (rule tx_brelse [of H k b L C "e_disk e", OF assms])

lemma f_set_data:
  assumes "H k = Some b" "length (C k) = BSIZE \<Longrightarrow> length (g (C k)) = BSIZE"
  shows "runs_to (ftx e sb I Y C L H) (modify_buf b (\<lambda>x. x\<lparr>b_data := g (b_data x)\<rparr>)) (\<lambda>_. ftx e sb I Y (C(k := g (C k))) L H) E"
  by (rule ftx_lift) (rule tx_set_data [of H k b C g, OF assms])

lemma f_get_data:
  assumes "H k = Some b"
    and "\<And>x. b_data x = C k \<Longrightarrow> length (C k) = BSIZE \<Longrightarrow> runs_to (ftx e sb I Y C L H) (m x) Q E"
  shows "runs_to (ftx e sb I Y C L H) (bind (get_buf b) m) Q E"
proof (rule runs_toI)
  fix s
  assume s: "ftx e sb I Y C L H s"
  then have "b_data (bufs (vd s) b) = C k" "length (C k) = BSIZE"
    using bstate_held [of _ _ _ _ _ _ C _ H s k b] assms(1) by (auto simp: ftx_def tx_def lstate_def)
  from runs_toD [OF assms(2) [OF this] s]
  show "(\<exists>x t. bind (get_buf b) m s = Ok x t \<and> Q x t) \<or> (\<exists>t. bind (get_buf b) m s = Stop Switched t \<and> E t)" by simp
qed

lemma f_get_data_panics:
  assumes "H k = Some b" and "\<And>x. b_data x = C k \<Longrightarrow> panics (ftx e sb I Y C L H) (m x) msg E"
  shows "panics (ftx e sb I Y C L H) (bind (get_buf b) m) msg E"
  unfolding panics_def
proof (intro allI impI)
  fix s
  assume s: "ftx e sb I Y C L H s"
  then have "b_data (bufs (vd s) b) = C k"
    using bstate_held [of _ _ _ _ _ _ C _ H s k b] assms(1) by (auto simp: ftx_def tx_def lstate_def)
  from assms(2) [OF this] s
  show "case bind (get_buf b) m s of Ok x t \<Rightarrow> False | Stop e' t \<Rightarrow> e' = Panic msg \<or> e' = Switched \<and> E t" by (simp add: panics_def)
qed

lemma f_log_write:
  assumes "H k = Some b" "home_block e k" "log_room e L H 1"
  shows "runs_to (ftx e sb I Y C L H) (log_write b) (\<lambda>_. ftx e sb I Y C (log_add k L) H) E"
  unfolding log_add_def
  by (rule ftx_lift, rule tx_log_write) (use assms in \<open>auto simp: home_block_def log_room_def\<close>)

text \<open>Outside the log, a block that nobody holds is as on the disk.\<close>

lemma f_bread_bind:
  assumes k: "k < 2 ^ 31" "H k = None" "log_room e L H 0"
    and m: "\<And>b. k \<in> set L \<or> C k = e_disk e k \<Longrightarrow> runs_to (ftx e sb I Y C L (H(k \<mapsto> b))) (m b) Q (e_cut e)"
  shows "runs_to (ftx e sb I Y C L H) (bind (bread (e_devno e) (of_nat k)) m) Q (e_cut e)"
proof -
  have "runs_to (ftx e sb I Y C L H) (bind (bread (e_devno e) (of_nat k)) m) Q (e_cut e)" if "k \<in> set L \<or> C k = e_disk e k"
    by (rule runs_to_bind [OF f_bread m [OF that]]) (use k in simp_all)
  moreover have "k \<in> set L \<or> C k = e_disk e k" if "ftx e sb I Y C L H s" for s
    using tx_clean [of _ _ _ _ _ _ _ _ _ C L H s k] that k(2) unfolding ftx_def by blast
  ultimately show ?thesis unfolding runs_to_def by blast
qed

lemma log_add_simps [simp]: "k \<in> set (log_add k L)" "set (log_add k L) = insert k (set L)"
  by (auto simp: log_add_def)

lemma length_log_add: "length (log_add k L) \<le> length L + 1"
  by (simp add: log_add_def)

lemma log_room_le: "log_room e L H j \<Longrightarrow> i \<le> j \<Longrightarrow> log_room e L H i"
  by (auto simp: log_room_def)

lemma log_room_add: "log_room e L H (Suc j) \<Longrightarrow> log_room e (log_add k L) H j"
  using length_log_add [of k L] by (auto simp: log_room_def)

lemma log_room_hold: "log_room e L H (Suc j) \<Longrightarrow> log_room e L (H(k \<mapsto> b)) j"
  using card_insert_le_m1 [of "Suc (card (dom H))" "dom H" k] by (auto simp: log_room_def)

text \<open>A block is read, changed, logged and released.\<close>

lemma f_update:
  assumes k: "home_block e k" "H k = Some b" and g: "length (C k) = BSIZE \<Longrightarrow> length (g (C k)) = BSIZE" and room: "log_room e L H 1"
  shows "runs_to (ftx e sb I Y C L H) (seq (modify_buf b (\<lambda>x. x\<lparr>b_data := g (b_data x)\<rparr>)) (seq (log_write b) (brelse b)))
    (\<lambda>_. ftx e sb I Y (C(k := g (C k))) (log_add k L) (H(k := None))) E"
proof (rule runs_to_seq [OF f_set_data runs_to_seq [OF f_log_write f_brelse]])
  show "k \<in> set (log_add k L) \<or> (C(k := g (C k))) k = e_disk e k" by simp
qed (use assms in simp_all)

lemma f_update_seq:
  assumes k: "home_block e k" "H k = Some b" and g: "length (C k) = BSIZE \<Longrightarrow> length (g (C k)) = BSIZE" and room: "log_room e L H 1"
    and n: "runs_to (ftx e sb I Y (C(k := g (C k))) (log_add k L) (H(k := None))) n Q E"
  shows "runs_to (ftx e sb I Y C L H) (seq (modify_buf b (\<lambda>x. x\<lparr>b_data := g (b_data x)\<rparr>)) (seq (log_write b) (seq (brelse b) n))) Q E"
proof (rule runs_to_seq [OF f_set_data [of H k b C g] runs_to_seq [OF f_log_write [of H k b] runs_to_seq [OF f_brelse [of H k b] n]]])
  show "k \<in> set (log_add k L) \<or> (C(k := g (C k))) k = e_disk e k" by simp
qed (use assms in simp_all)

section \<open>The free bit map\<close>

text \<open>
  The layout of the disk (\<open>fs.h\<close>): the log, the inode blocks, the bit map and then the data, all in a
  disk of \<open>sb_size\<close> blocks.
\<close>

definition nbitmap :: "superblock \<Rightarrow> nat" where
  "nbitmap sb = (unat (sb_size sb) + BPB - 1) div BPB"

definition data_start :: "superblock \<Rightarrow> nat" where
  "data_start sb = unat (sb_bmapstart sb) + nbitmap sb"

definition fs_layout :: "env \<Rightarrow> superblock \<Rightarrow> bool" where
  "fs_layout e sb \<longleftrightarrow>
     e_st e + e_sz e \<le> unat (sb_inodestart sb) \<and>
     unat (sb_inodestart sb) + unat (sb_ninodes sb) div IPB < unat (sb_bmapstart sb) \<and>
     data_start sb \<le> unat (sb_size sb) \<and> unat (sb_size sb) < 2 ^ 31"

text \<open>The bit of a block in the bit map.\<close>

definition bitmap_block :: "superblock \<Rightarrow> nat \<Rightarrow> nat" where
  "bitmap_block sb b = unat (sb_bmapstart sb) + b div BPB"

definition used :: "superblock \<Rightarrow> (nat \<Rightarrow> byte list) \<Rightarrow> nat \<Rightarrow> bool" where
  "used sb C b \<longleftrightarrow> \<not> bit_clear (C (bitmap_block sb b)) (b mod BPB)"

definition first_free :: "superblock \<Rightarrow> (nat \<Rightarrow> byte list) \<Rightarrow> nat option" where
  "first_free sb C = List.find (\<lambda>b. \<not> used sb C b) [0..<unat (sb_size sb)]"

lemma BPB_nat: "BPB = 8192" "0 < BPB"
  by (simp_all add: BPB_def BSIZE_def)

lemma bitmap_block_bound:
  assumes "fs_layout e sb" "b < unat (sb_size sb)"
  shows "bitmap_block sb b < data_start sb" "home_block e (bitmap_block sb b)" "bitmap_block sb b < 2 ^ 31"
proof -
  have "b div BPB < nbitmap sb" unfolding nbitmap_def BPB_nat(1) using assms(2) by linarith
  then show 1: "bitmap_block sb b < data_start sb" by (simp add: bitmap_block_def data_start_def)
  then show "home_block e (bitmap_block sb b)" "bitmap_block sb b < 2 ^ 31"
    using assms(1) by (auto simp: fs_layout_def home_block_def log_area_def bitmap_block_def)
qed

lemma BBLOCK_nat:
  assumes "fs_layout e sb" "b < unat (sb_size sb)"
  shows "BBLOCK (of_nat b) sb = of_nat (bitmap_block sb b)"
proof -
  have b: "b < 2 ^ 31" using assms by (simp add: fs_layout_def)
  have "of_nat b div (of_nat BPB :: u32) = of_nat (b div BPB)"
    using b by (simp add: word_arith_nat_div BPB_nat unsigned_of_nat take_bit_nat_eq_self)
  then show ?thesis by (simp add: BBLOCK_def bitmap_block_def add.commute)
qed

lemma find_append: "List.find P (xs @ ys) = (case List.find P xs of Some x \<Rightarrow> Some x | None \<Rightarrow> List.find P ys)"
  by (induction xs) auto

lemma find_map: "List.find P (map h xs) = map_option h (List.find (\<lambda>x. P (h x)) xs)"
  by (induction xs) auto

lemma find_cong: "(\<And>x. x \<in> set xs \<Longrightarrow> P x = Q x) \<Longrightarrow> List.find P xs = List.find Q xs"
  by (induction xs) auto

text \<open>The search goes on from one block of the bit map to the next.\<close>

lemma free_chunk:
  assumes "k * BPB < n"
  shows "List.find (\<lambda>b. \<not> used sb C b) [k * BPB..<n] =
    (case List.find (bit_clear (C (bitmap_block sb (k * BPB)))) [0..<min BPB (n - k * BPB)] of
       Some bi \<Rightarrow> Some (k * BPB + bi) | None \<Rightarrow> List.find (\<lambda>b. \<not> used sb C b) [Suc k * BPB..<n])"
proof -
  let ?m = "min BPB (n - k * BPB)" and ?U = "\<lambda>b. \<not> used sb C b"
  have split: "[k * BPB..<n] = map (\<lambda>i. k * BPB + i) [0..<?m] @ [Suc k * BPB..<n]"
  proof (cases "Suc k * BPB \<le> n")
    case True
    then have "[k * BPB..<n] = [k * BPB..<Suc k * BPB] @ [Suc k * BPB..<n]" using upt_add_eq_append [of "k * BPB" "Suc k * BPB" "n - Suc k * BPB"] by simp
    then show ?thesis using True map_add_upt [of "k * BPB" BPB] by (simp add: min_def add.commute)
  next
    case False
    then show ?thesis using assms map_add_upt [of "k * BPB" "n - k * BPB"] by (simp add: min_def add.commute)
  qed
  have "List.find (\<lambda>i. ?U (k * BPB + i)) [0..<?m] = List.find (bit_clear (C (bitmap_block sb (k * BPB)))) [0..<?m]"
    using BPB_nat(2) by (intro find_cong) (simp add: used_def bitmap_block_def)
  then show ?thesis unfolding split find_append find_map by (simp split: option.splits)
qed

definition meta_used :: "superblock \<Rightarrow> (nat \<Rightarrow> byte list) \<Rightarrow> bool" where
  "meta_used sb C \<longleftrightarrow> (\<forall>b < data_start sb. used sb C b)"

text \<open>What allocating the block \<open>a\<close> does to the contents of the blocks and to the log.\<close>

definition mark :: "superblock \<Rightarrow> nat \<Rightarrow> (nat \<Rightarrow> byte list) \<Rightarrow> nat \<Rightarrow> byte list" where
  "mark sb a C = C(bitmap_block sb a := set_bit_at (a mod BPB) (C (bitmap_block sb a)), a := replicate BSIZE 0)"

definition mark_log :: "superblock \<Rightarrow> nat \<Rightarrow> nat list \<Rightarrow> nat list" where
  "mark_log sb a L = log_add a (log_add (bitmap_block sb a) L)"

lemma length_set_bit_at [simp]: "length (set_bit_at bi bs) = length bs"
  by (simp add: set_bit_at_def)

lemma find_SomeD': "List.find P xs = Some x \<Longrightarrow> x \<in> set xs \<and> P x"
  by (auto simp: find_Some_iff)

lemma bzero_spec:
  assumes "home_block e k" "H k = None" "log_room e L H 2"
  shows "runs_to (ftx e sb I Y C L H) (bzero (e_devno e) (of_nat k)) (\<lambda>_. ftx e sb I Y (C(k := replicate BSIZE 0)) (log_add k L) H) (e_cut e)"
  unfolding bzero_def
proof (rule f_bread_bind)
  fix b
  have "(H(k \<mapsto> b))(k := None) = H" using assms(2) by auto
  then show "runs_to (ftx e sb I Y C L (H(k \<mapsto> b))) (seq (modify_buf b (\<lambda>x. x\<lparr>b_data := replicate BSIZE 0\<rparr>)) (seq (log_write b) (brelse b)))
      (\<lambda>_. ftx e sb I Y (C(k := replicate BSIZE 0)) (log_add k L) H) (e_cut e)"
    using f_update [of e k "H(k \<mapsto> b)" b C "\<lambda>_. replicate BSIZE 0" L sb I Y "e_cut e"] assms log_room_hold [of e L H 1]
    by (simp add: numeral_2_eq_2)
qed (use assms in \<open>auto simp: home_block_def intro: log_room_le\<close>)

text \<open>The two continuations of \<open>balloc_from\<close> after a block of the bit map was read.\<close>

abbreviation balloc_scan :: "u32 \<Rightarrow> superblock \<Rightarrow> nat \<Rightarrow> nat list \<Rightarrow> nat \<Rightarrow> buf \<Rightarrow> 'z kfs_scheme \<Rightarrow> ('z kfs_scheme, u32) res" where
  "balloc_scan dev sb b bs bp x \<equiv>
     case List.find (bit_clear (b_data x)) [0..<min BPB (unat (sb_size sb) - b)] of
       Some bi \<Rightarrow>
         seq (modify_buf bp (\<lambda>x. x\<lparr>b_data := set_bit_at bi (b_data x)\<rparr>)) (
         seq (log_write bp) (
         seq (brelse bp) (
         seq (bzero dev (of_nat (b + bi))) (return (of_nat (b + bi))))))
     | None \<Rightarrow> seq (brelse bp) (balloc_from dev bs)"

lemma balloc_found:
  assumes lay: "fs_layout e sb" and meta: "meta_used sb C" and jn: "j * BPB < unat (sb_size sb)"
    and bi: "List.find (bit_clear (b_data x)) [0..<min BPB (unat (sb_size sb) - j * BPB)] = Some bi" and x: "b_data x = C k" "H k = None"
    and k: "k = bitmap_block sb (j * BPB)" and a: "a = j * BPB + bi" "H a = None" and room: "log_room e L H 3"
  shows "runs_to (ftx e sb I Y C L (H(k \<mapsto> bp))) (balloc_scan (e_devno e) sb (j * BPB) bs bp x)
    (\<lambda>r s. r = of_nat a \<and> ftx e sb I Y (mark sb a C) (mark_log sb a L) H s) (e_cut e)"
proof -
  let ?H = "H(k \<mapsto> bp)" and ?C = "C(k := set_bit_at bi (C k))"
  have H': "H(k := None) = H" using x(2) by auto
  have b: "bi < BPB" "a < unat (sb_size sb)" "bit_clear (C k) bi" using find_SomeD' [OF bi] x(1) a(1) by auto
  then have ka: "bitmap_block sb a = k" "a mod BPB = bi" using BPB_nat(2) a(1) k by (simp_all add: bitmap_block_def)
  then have "\<not> used sb C a" using b(3) by (simp add: used_def)
  then have "data_start sb \<le> a" using meta by (auto simp: meta_used_def not_less [symmetric])
  then have ha: "home_block e a" "a \<noteq> k"
    using lay b(2) bitmap_block_bound(1) [OF lay jn] k by (auto simp: fs_layout_def home_block_def log_area_def data_start_def)
  have z: "runs_to (ftx e sb I Y ?C (log_add k L) (?H(k := None))) (bzero (e_devno e) (of_nat a))
      (\<lambda>_. ftx e sb I Y (mark sb a C) (mark_log sb a L) H) (e_cut e)"
    using bzero_spec [of e a H "log_add k L" sb I Y ?C] ha a(2) log_room_add [of e L H 2 k] room
    by (simp add: H' mark_def mark_log_def ka numeral_3_eq_3 numeral_2_eq_2)
  show ?thesis
    unfolding bi option.case a(1) [symmetric]
    by (rule f_update_seq [of e k ?H bp C "set_bit_at bi", OF _ _ _ _ runs_to_seq [OF z runs_to_return]])
       (use bitmap_block_bound(2) [OF lay jn] k room log_room_le [OF log_room_hold [of e L H 2 k bp], of 1] in
         \<open>auto simp: numeral_3_eq_3 numeral_2_eq_2\<close>)
qed

lemma balloc_from_spec:
  assumes lay: "fs_layout e sb" and meta: "meta_used sb C"
    and find: "List.find (\<lambda>b. \<not> used sb C b) [j * BPB..<unat (sb_size sb)] = Some a"
    and H: "H a = None" "\<And>b. b < unat (sb_size sb) \<Longrightarrow> H (bitmap_block sb b) = None" and room: "log_room e L H 3"
  shows "runs_to (ftx e sb I Y C L H) (balloc_from (e_devno e) (map (\<lambda>k. k * BPB) [j..<nbitmap sb]))
    (\<lambda>r s. r = of_nat a \<and> ftx e sb I Y (mark sb a C) (mark_log sb a L) H s) (e_cut e)"
  using find
proof (induction "nbitmap sb - j" arbitrary: j)
  case 0
  then have "unat (sb_size sb) \<le> j * BPB" unfolding nbitmap_def BPB_nat(1) by linarith
  then show ?case using 0 by simp
next
  case (Suc i)
  let ?n = "unat (sb_size sb)" and ?b = "j * BPB" and ?bs = "map (\<lambda>k. k * BPB) [Suc j..<nbitmap sb]"
  let ?Q = "\<lambda>r s. r = of_nat a \<and> ftx e sb I Y (mark sb a C) (mark_log sb a L) H s"
  have j: "j < nbitmap sb" using Suc.hyps(2) by simp
  then have jn: "?b < ?n" unfolding nbitmap_def BPB_nat(1) by linarith
  let ?k = "bitmap_block sb ?b"
  have upt: "map (\<lambda>k. k * BPB) [j..<nbitmap sb] = ?b # ?bs" using j by (simp add: upt_conv_Cons)
  show ?case
    unfolding upt balloc_from.simps
  proof (rule runs_to_gets [where v = sb], simp add: ftx_def, unfold BBLOCK_nat [OF lay jn], rule f_bread_bind)
    fix bp
    assume clean: "?k \<in> set L \<or> C ?k = e_disk e ?k"
    show "runs_to (ftx e sb I Y C L (H(?k \<mapsto> bp))) (bind (get_buf bp) (balloc_scan (e_devno e) sb ?b ?bs bp)) ?Q (e_cut e)"
    proof (rule f_get_data [of "H(?k \<mapsto> bp)" ?k bp], simp)
      fix x :: buf
      assume x: "b_data x = C ?k"
      show "runs_to (ftx e sb I Y C L (H(?k \<mapsto> bp))) (balloc_scan (e_devno e) sb ?b ?bs bp x) ?Q (e_cut e)"
      proof (cases "List.find (bit_clear (b_data x)) [0..<min BPB (?n - ?b)]")
        case None
        then have "List.find (\<lambda>b. \<not> used sb C b) [Suc j * BPB..<?n] = Some a" using Suc.prems free_chunk [OF jn] x by simp
        then have IH: "runs_to (ftx e sb I Y C L H) (balloc_from (e_devno e) ?bs) ?Q (e_cut e)"
          using Suc.hyps by (intro Suc.hyps(1)) simp_all
        have "runs_to (ftx e sb I Y C L (H(?k \<mapsto> bp))) (brelse bp) (\<lambda>_. ftx e sb I Y C L ((H(?k \<mapsto> bp))(?k := None))) (e_cut e)"
          by (rule f_brelse) (use clean in simp_all)
        moreover have "H(?k := None) = H" using H(2) [OF jn] by auto
        ultimately show ?thesis using runs_to_seq [OF _ IH] None by simp
      next
        case (Some bi)
        then have "a = ?b + bi" using Suc.prems free_chunk [OF jn] x by simp
        then show ?thesis by (rule balloc_found [OF lay meta jn Some x H(2) [OF jn] refl _ H(1) room])
      qed
    qed
  qed (use bitmap_block_bound(3) [OF lay jn] H(2) [OF jn] room in \<open>auto intro: log_room_le\<close>)
qed

lemma balloc_spec:
  assumes lay: "fs_layout e sb" and meta: "meta_used sb C" and find: "first_free sb C = Some a"
    and H: "H a = None" "\<And>b. b < unat (sb_size sb) \<Longrightarrow> H (bitmap_block sb b) = None" and room: "log_room e L H 3"
  shows "runs_to (ftx e sb I Y C L H) (balloc (e_devno e))
    (\<lambda>r s. r = of_nat a \<and> ftx e sb I Y (mark sb a C) (mark_log sb a L) H s) (e_cut e)"
  unfolding balloc_def
proof (rule runs_to_gets [where v = sb])
  show "runs_to (ftx e sb I Y C L H) (balloc_from (e_devno e) (map (\<lambda>k. k * BPB) [0..<(unat (sb_size sb) + BPB - 1) div BPB]))
      (\<lambda>r s. r = of_nat a \<and> ftx e sb I Y (mark sb a C) (mark_log sb a L) H s) (e_cut e)"
    using balloc_from_spec [of e sb C 0 a H L I Y, OF lay meta _ H room] find by (simp add: first_free_def nbitmap_def)
qed (simp add: ftx_def)

section \<open>Bits\<close>

lemma bit_clear_bit: "bit_clear bs i \<longleftrightarrow> \<not> bit (bs ! (i div 8)) (i mod 8)"
  by (simp add: bit_clear_def bit_mask_def push_bit_eq_mult and_exp_eq_0_iff_not_bit)

lemma bit_mask_bit: "bit (bit_mask i) n \<longleftrightarrow> n = i mod 8"
  by (auto simp: bit_mask_def push_bit_eq_mult bit_exp_iff)

lemma split_eq: "i div m = j div m \<Longrightarrow> i mod m = j mod m \<Longrightarrow> i = (j :: nat)"
  by (metis div_mult_mod_eq)

lemma bit_set_bit_at:
  assumes "i div 8 < length bs"
  shows "bit_clear (set_bit_at i bs) j \<longleftrightarrow> bit_clear bs j \<and> j \<noteq> i"
proof (cases "j div 8 = i div 8")
  case True
  then have "j = i \<longleftrightarrow> j mod 8 = i mod 8" using split_eq [of j 8 i] by blast
  then show ?thesis using assms True by (simp add: bit_clear_bit set_bit_at_def bit_or_iff bit_mask_bit)
next
  case False
  then show ?thesis by (auto simp: bit_clear_bit set_bit_at_def)
qed

lemma bit_clear_bit_at:
  assumes "i div 8 < length bs"
  shows "bit_clear (clear_bit_at i bs) j \<longleftrightarrow> bit_clear bs j \<or> j = i"
proof (cases "j div 8 = i div 8")
  case True
  then have "j = i \<longleftrightarrow> j mod 8 = i mod 8" using split_eq [of j 8 i] by blast
  moreover have "j mod 8 < 8" by simp
  ultimately show ?thesis using assms True by (auto simp: bit_clear_bit clear_bit_at_def bit_and_iff bit_not_iff bit_mask_bit)
next
  case False
  then show ?thesis by (auto simp: bit_clear_bit clear_bit_at_def)
qed

lemma used_mark:
  assumes "length (C (bitmap_block sb a)) = BSIZE" "a \<noteq> bitmap_block sb b"
  shows "used sb (mark sb a C) b \<longleftrightarrow> used sb C b \<or> b = a"
proof -
  have i: "a mod BPB div 8 < length (C (bitmap_block sb a))"
    using assms(1) mod_less_divisor [of BPB a] by (simp add: BPB_def BSIZE_def)
  show ?thesis
  proof (cases "bitmap_block sb b = bitmap_block sb a")
    case True
    then have "b = a \<longleftrightarrow> b mod BPB = a mod BPB" using split_eq [of b BPB a] by (auto simp: bitmap_block_def)
    then show ?thesis using True assms(2) by (auto simp: used_def mark_def bit_set_bit_at [OF i])
  next
    case False
    then show ?thesis using assms(2) by (auto simp: used_def mark_def)
  qed
qed

section \<open>A full disk\<close>

lemma f_clean: "ftx e sb I Y C L H s \<Longrightarrow> H k = None \<Longrightarrow> k \<in> set L \<or> C k = e_disk e k"
  using tx_clean [of _ _ _ _ _ _ _ _ _ C L H s k] unfolding ftx_def by blast

lemma balloc_from_full:
  assumes lay: "fs_layout e sb" and find: "List.find (\<lambda>b. \<not> used sb C b) [j * BPB..<unat (sb_size sb)] = None"
    and H: "\<And>b. b < unat (sb_size sb) \<Longrightarrow> H (bitmap_block sb b) = None" and room: "log_room e L H 0"
    and clean: "\<And>k. H k = None \<Longrightarrow> k \<in> set L \<or> C k = e_disk e k"
  shows "panics (ftx e sb I Y C L H) (balloc_from (e_devno e) (map (\<lambda>k. k * BPB) [j..<nbitmap sb])) ''balloc: out of blocks'' (e_cut e)"
  using find
proof (induction "nbitmap sb - j" arbitrary: j)
  case 0
  then show ?case by (simp add: panics_def)
next
  case (Suc k)
  let ?n = "unat (sb_size sb)" and ?b = "j * BPB"
  have j: "j < nbitmap sb" using Suc.hyps(2) by simp
  then have jn: "?b < ?n" unfolding nbitmap_def BPB_nat(1) by linarith
  let ?k = "bitmap_block sb ?b"
  note bb = bitmap_block_bound [OF lay jn]
  have none: "List.find (bit_clear (C ?k)) [0..<min BPB (?n - ?b)] = None" "List.find (\<lambda>b. \<not> used sb C b) [Suc j * BPB..<?n] = None"
    using Suc.prems free_chunk [OF jn, of sb C] by (auto split: option.splits)
  have IH: "panics (ftx e sb I Y C L H) (balloc_from (e_devno e) (map (\<lambda>k. k * BPB) [Suc j..<nbitmap sb])) ''balloc: out of blocks'' (e_cut e)"
    using Suc.hyps none(2) by (intro Suc.hyps(1)) simp_all
  have upt: "map (\<lambda>k. k * BPB) [j..<nbitmap sb] = ?b # map (\<lambda>k. k * BPB) [Suc j..<nbitmap sb]" using j by (simp add: upt_conv_Cons)
  show ?case
    unfolding upt balloc_from.simps
  proof (rule panics_gets [where v = sb], simp add: ftx_def, unfold BBLOCK_nat [OF lay jn], rule panics_bind [OF f_bread])
    fix bp
    let ?H = "H(?k \<mapsto> bp)"
    have H': "H(?k := None) = H" using H [OF jn] by auto
    have r: "runs_to (ftx e sb I Y C L ?H) (brelse bp) (\<lambda>_. ftx e sb I Y C L (?H(?k := None))) (e_cut e)"
      using clean [of ?k] H [OF jn] by (intro f_brelse) simp_all
    show "panics (ftx e sb I Y C L ?H) (bind (get_buf bp) (balloc_scan (e_devno e) sb ?b (map (\<lambda>k. k * BPB) [Suc j..<nbitmap sb]) bp))
        ''balloc: out of blocks'' (e_cut e)"
      by (rule f_get_data_panics [of ?H ?k bp]) (use none(1) panics_seq [OF r] IH H' in simp_all)
  qed (use bb H [OF jn] room in auto)
qed

lemma ftx_length:
  assumes "ftx e sb I Y C L H s"
  shows "length (C k) = BSIZE"
proof -
  from assms obtain dv K B xs R where at: "disk_at (e_fail e) (e_proc e) (e_pid e) K (kdisk.more s) B (e_disk e) s"
    and cr: "cache_rel dv (e_pid e) B K xs (e_disk e) C R H"
    unfolding ftx_def tx_def lstate_def bstate_def by blast
  have D: "length (e_disk e k) = BSIZE" using length_disk_block [of "medium (vd s)" k] at by (auto simp: disk_at_def)
  show ?thesis
  proof (cases "R k = 0")
    case True
    then show ?thesis using cr D by (simp add: cache_rel_def)
  next
    case False
    then obtain i where i: "i < NBUF" "b_dev (B i) = dv" "block_of (B i) = k" using cr unfolding cache_rel_def by blast
    then have "buf_rel dv (e_pid e) (e_disk e) C R H (K (SBuf i)) i (B i)" using cr unfolding cache_rel_def by blast
    then show ?thesis using i D by (auto simp: buf_rel_def split: if_splits)
  qed
qed

text \<open>
  C8: \<open>balloc\<close> gives out the first block whose bit in the free map is clear, sets the bit and clears the
  block. No other bit and no other block changes, so that a block is never given out twice. When all
  blocks are in use it panics.
\<close>

theorem balloc_allocates:
  assumes s: "ftx e sb I Y C L H s" and lay: "fs_layout e sb" and meta: "meta_used sb C" and room: "log_room e L H 3"
    and H: "\<forall>k \<in> dom H. used sb C k" "\<forall>b < unat (sb_size sb). H (bitmap_block sb b) = None"
  shows "case balloc (e_devno e) s of
      Ok r t \<Rightarrow> \<exists>a C' L'. r = of_nat a \<and> first_free sb C = Some a \<and> ftx e sb I Y C' L' H t \<and>
        C' a = replicate BSIZE 0 \<and> (\<forall>b < unat (sb_size sb). used sb C' b \<longleftrightarrow> used sb C b \<or> b = a) \<and>
        (\<forall>k. k \<noteq> a \<and> k \<noteq> bitmap_block sb a \<longrightarrow> C' k = C k) \<and> set L' = {a, bitmap_block sb a} \<union> set L
    | Stop x t \<Rightarrow> x = Panic ''balloc: out of blocks'' \<and> first_free sb C = None \<or> x = Switched \<and> e_cut e t"
proof (cases "first_free sb C")
  case None
  have "panics (ftx e sb I Y C L H) (balloc (e_devno e)) ''balloc: out of blocks'' (e_cut e)"
    unfolding balloc_def
  proof (rule panics_gets [where v = sb])
    show "panics (ftx e sb I Y C L H) (balloc_from (e_devno e) (map (\<lambda>k. k * BPB) [0..<(unat (sb_size sb) + BPB - 1) div BPB]))
        ''balloc: out of blocks'' (e_cut e)"
      using balloc_from_full [of e sb C 0 H L I Y] None lay H(2) log_room_le [OF room] f_clean [OF s]
      by (simp add: first_free_def nbitmap_def)
  qed (simp add: ftx_def)
  then show ?thesis using s None by (auto simp: panics_def split: res.splits)
next
  case (Some a)
  then have a: "\<not> used sb C a" "a < unat (sb_size sb)" using find_SomeD' by (fastforce simp: first_free_def)+
  then have Ha: "H a = None" "data_start sb \<le> a" using H(1) meta by (auto simp: meta_used_def not_less [symmetric])
  then have ne: "a \<noteq> bitmap_block sb b" if "b < unat (sb_size sb)" for b using bitmap_block_bound(1) [OF lay that] by simp
  have len: "length (C (bitmap_block sb a)) = BSIZE" by (rule ftx_length [OF s])
  have post: "C' a = replicate BSIZE 0" "\<forall>b < unat (sb_size sb). used sb C' b \<longleftrightarrow> used sb C b \<or> b = a"
      "\<forall>k. k \<noteq> a \<and> k \<noteq> bitmap_block sb a \<longrightarrow> C' k = C k" if "C' = mark sb a C" for C'
    using used_mark [of C sb a, OF len ne] that by (auto simp: mark_def)
  have "set (mark_log sb a L) = {a, bitmap_block sb a} \<union> set L" by (auto simp: mark_log_def)
  moreover from runs_toD [OF balloc_spec [OF lay meta Some Ha(1) _ room] s] H(2)
  have "(\<exists>t. balloc (e_devno e) s = Ok (of_nat a) t \<and> ftx e sb I Y (mark sb a C) (mark_log sb a L) H t) \<or>
      (\<exists>t. balloc (e_devno e) s = Stop Switched t \<and> e_cut e t)" by blast
  ultimately show ?thesis
  proof (elim disjE exE conjE)
    fix t
    assume "balloc (e_devno e) s = Ok (of_nat a) t" "ftx e sb I Y (mark sb a C) (mark_log sb a L) H t"
      "set (mark_log sb a L) = {a, bitmap_block sb a} \<union> set L"
    then show ?thesis unfolding Some using post [OF refl] by (simp only: res.case) blast
  qed simp
qed

section \<open>A machine inside an operation\<close>

text \<open>
  The machine at boot with \<open>out\<close> operations under way, the sectors \<open>m\<close> on the disk and the inodes \<open>I\<close> in the
  cache, and the machine after the first \<open>begin_op\<close>.
\<close>

definition op_env :: "(nat \<Rightarrow> byte list) \<Rightarrow> env" where
  "op_env m = \<lparr>e_sz = 30, e_st = 2, e_dev = 1, e_fail = False, e_proc = 0, e_pid = 1, e_disk = disk_block m\<rparr>"

definition machine_at :: "int \<Rightarrow> (nat \<Rightarrow> byte list) \<Rightarrow> (nat \<Rightarrow> inode) \<Rightarrow> kgic" where
  "machine_at out m I = (boot_example m)\<lparr>lg := (lg kernel_example)\<lparr>lg_outstanding := out\<rparr>, inodes := I\<rparr>"

abbreviation op_example :: "(nat \<Rightarrow> byte list) \<Rightarrow> (nat \<Rightarrow> inode) \<Rightarrow> kgic" where
  "op_example \<equiv> machine_at 1"

lemma op_env_simps [simp]:
  "e_sz (op_env m) = 30" "e_st (op_env m) = 2" "e_dev (op_env m) = 1" "e_fail (op_env m) = False" "e_disk (op_env m) = disk_block m"
  "e_proc (op_env m) = 0" "e_pid (op_env m) = 1"
  by (simp_all add: op_env_def)

lemma machine_fs: "fsb (machine_at out m I) = fsb kernel_example" "inodes (machine_at out m I) = I" "kfs.more (machine_at out m I) = kfs.more kernel_example"
  by (simp_all add: machine_at_def boot_example_def)

lemma machine_tx:
  assumes "\<And>k. length (m k) = 512" "get32 (disk_block m 2) 0 = 0"
  shows "tx 30 2 1 False 0 1 out (klog.more (machine_at out m I)) (disk_block m) (disk_block m) [] (\<lambda>_. None) (machine_at out m I)"
proof -
  let ?s = "machine_at out m I" and ?G = "(lg kernel_example)\<lparr>lg_outstanding := out\<rparr>"
  have "cache_rel 1 1 example_bufs (slocks kernel_example) [0..<NBUF] (disk_block m) (disk_block m) (\<lambda>_. 0) (\<lambda>_. None)"
    using lru_example by (simp add: cache_rel_def buf_rel_def example_bufs_def [abs_def] empty_buf_def)
  moreover have "disk_at False 0 1 (slocks kernel_example) (kdisk.more ?s) example_bufs (disk_block m) ?s"
    using boot_disk_at [of m, OF assms(1)] by (simp add: disk_at_def machine_at_def running_def)
  ultimately have b: "bstate 1 False 0 1 (kdisk.more ?s) (disk_block m) (disk_block m) (\<lambda>_. 0) (\<lambda>_. None) ?s"
    unfolding bstate_def by blast
  have "lstate False 0 1 ?G (klog.more ?s) (disk_block m) (disk_block m) (refs [] (\<lambda>_. None)) (\<lambda>_. None) ?s"
    using b by (simp add: lstate_def refs_def [abs_def] machine_at_def kernel_example_def u32_of_int_def)
  moreover have "logging 30 2 1 out [] ?G" by (simp add: logging_def kernel_example_def LOGSIZE_def MAXOPBLOCKS_def)
  ultimately show ?thesis using assms(2) unfolding tx_def by blast
qed

lemma op_example_ftx:
  assumes "\<And>k. length (m k) = 512" "get32 (disk_block m 2) 0 = 0"
  shows "ftx (op_env m) (fsb kernel_example) I (kfs.more kernel_example) (disk_block m) [] (\<lambda>_. None) (op_example m I)"
  using machine_tx [OF assms] by (simp add: ftx_def machine_fs)

text \<open>A disk whose bit map has the blocks below 46 in use, and zeros elsewhere.\<close>

definition bitmap_medium :: "nat \<Rightarrow> byte list" where
  "bitmap_medium k = (if k = 90 then map (\<lambda>j. if j < 5 then 255 else if j = 5 then 63 else 0) [0..<512] else replicate 512 0)"

lemma length_bitmap_medium [simp]: "length (bitmap_medium k) = 512"
  by (simp add: bitmap_medium_def)

lemma disk_block_two: "disk_block m k = m (2 * k) @ m (2 * k + 1)"
  by (simp add: disk_block_def sectors_def)

lemma fs_layout_example: "fs_layout (op_env m) (fsb kernel_example)"
  by (simp add: fs_layout_def data_start_def nbitmap_def BPB_nat IPB_def BSIZE_def kernel_example_def)

lemma bitmap_bits:
  assumes m: "m 90 = map (\<lambda>j. if j < 5 then 255 else if j = 5 then v else 0) [0..<512]" and b: "b < 1000"
  shows "used (fsb kernel_example) (disk_block m) b \<longleftrightarrow> b < 40 \<or> b div 8 = 5 \<and> bit v (b mod 8)"
proof -
  let ?byte = "if b div 8 < 5 then 255 else if b div 8 = 5 then v else (0 :: byte)"
  have "b div 8 < 512" using b by simp
  then have "disk_block m 45 ! (b div 8) = ?byte" by (simp add: disk_block_two m nth_append)
  then have "used (fsb kernel_example) (disk_block m) b \<longleftrightarrow> bit ?byte (b mod 8)"
    using b by (simp add: used_def bitmap_block_def bit_clear_bit BPB_nat kernel_example_def)
  moreover have "bit (255 :: byte) (b mod 8)" using bit_mask_iff [of 8 "b mod 8", where 'a = byte] by (simp add: mask_eq_exp_minus_1)
  ultimately show ?thesis by auto
qed

lemma bitmap_used:
  assumes "b < 1000"
  shows "used (fsb kernel_example) (disk_block bitmap_medium) b \<longleftrightarrow> b < 46"
proof -
  have "bit (63 :: byte) (b mod 8) \<longleftrightarrow> b mod 8 < 6" using bit_mask_iff [of 6 "b mod 8", where 'a = byte] by (auto simp: mask_eq_exp_minus_1)
  moreover have "b < 46 \<longleftrightarrow> b < 40 \<or> b div 8 = 5 \<and> b mod 8 < 6" by presburger
  ultimately show ?thesis using bitmap_bits [of bitmap_medium 63, OF _ assms] by (simp add: bitmap_medium_def)
qed

lemma bitmap_meta: "meta_used (fsb kernel_example) (disk_block bitmap_medium)"
  unfolding meta_used_def using bitmap_used by (simp add: data_start_def nbitmap_def BPB_nat kernel_example_def)

lemma zero_header [simp]: "get32 (replicate 512 0 @ replicate 512 0) 0 = 0"
  by (simp add: get32_def eval_nat_numeral)

lemma bitmap_first_free: "first_free (fsb kernel_example) (disk_block bitmap_medium) = Some 46"
proof -
  have sz: "unat (sb_size (fsb kernel_example)) = 1000" by (simp add: kernel_example_def)
  show ?thesis
    unfolding first_free_def find_Some_iff sz by (rule exI [of _ 46]) (simp add: bitmap_used)
qed

theorem balloc_allocates_witness:
  "\<exists>t. balloc 1 (op_example bitmap_medium (\<lambda>_. empty_inode)) = Ok 46 t"
proof -
  have dev: "e_devno (op_env bitmap_medium) = 1" by (simp add: u32_of_int_def)
  have "get32 (disk_block bitmap_medium 2) 0 = 0" by (simp add: disk_block_two bitmap_medium_def)
  then have s: "ftx (op_env bitmap_medium) (fsb kernel_example) (\<lambda>_. empty_inode) (kfs.more kernel_example) (disk_block bitmap_medium) []
      (\<lambda>_. None) (op_example bitmap_medium (\<lambda>_. empty_inode))" by (rule op_example_ftx [OF length_bitmap_medium])
  have r: "log_room (op_env bitmap_medium) [] (\<lambda>_. None) 3" by (simp add: log_room_def LOGSIZE_def NBUF_def MAXOPBLOCKS_def)
  from balloc_allocates [OF s fs_layout_example bitmap_meta r] show ?thesis
    unfolding dev bitmap_first_free by (auto simp: crash_def split: res.splits)
qed

end
