(* ===== verification/InodeSpec.thy ===== *)
theory InodeSpec
  imports FsSpec
begin

text \<open>
  The inodes of \<open>src/kernel/fs.c\<close>: their records on the disk, and the contents of a file as a list of
  bytes that \<open>readi\<close> reads and \<open>writei\<close> overwrites and extends.
\<close>

section \<open>The record on the disk\<close>

lemma take_drop_concat:
  assumes "\<forall>x \<in> set xs. length x = n" "i < length xs"
  shows "take n (drop (n * i) (concat xs @ ys)) = xs ! i"
  using assms
proof (induction xs arbitrary: i)
  case (Cons x xs)
  then show ?case by (cases i) simp_all
qed simp

lemma length_concat_same: "\<forall>x \<in> set xs. length x = n \<Longrightarrow> length (concat xs) = n * length xs"
  by (induction xs) simp_all

lemma length_dinode_bytes: "length (di_addrs d) = NDIRECT + 1 \<Longrightarrow> length (dinode_bytes d) = DINODE_SIZE"
  using length_concat_same [of "map (le_bytes 4) (di_addrs d)" 4] by (simp add: dinode_bytes_def DINODE_SIZE_def NDIRECT_def)

lemma dinode_of_bytes:
  assumes "length (di_addrs d) = NDIRECT + 1"
  shows "dinode_of (dinode_bytes d @ xs) = d"
proof -
  have addr: "get32 (dinode_bytes d @ xs) (12 + 4 * i) = di_addrs d ! i" if "i < NDIRECT + 1" for i
  proof -
    have "drop (12 + 4 * i) (dinode_bytes d @ xs) = drop (4 * i) (concat (map (le_bytes 4) (di_addrs d)) @ xs)"
      by (simp add: dinode_bytes_def)
    then show ?thesis
      using take_drop_concat [of "map (le_bytes 4) (di_addrs d)" 4 i xs] assms that by (simp add: get32_def le_word_bytes)
  qed
  have "di_addrs (dinode_of (dinode_bytes d @ xs)) = di_addrs d"
    using addr assms by (intro nth_equalityI) (simp_all add: dinode_of_def del: upt_Suc)
  moreover have "di_type (dinode_of (dinode_bytes d @ xs)) = di_type d" "di_major (dinode_of (dinode_bytes d @ xs)) = di_major d"
    "di_minor (dinode_of (dinode_bytes d @ xs)) = di_minor d" "di_nlink (dinode_of (dinode_bytes d @ xs)) = di_nlink d"
    "di_size (dinode_of (dinode_bytes d @ xs)) = di_size d"
    by (simp_all add: dinode_of_def dinode_bytes_def get16_def get32_def le_word_bytes)
  ultimately show ?thesis by simp
qed

text \<open>Where the record of an inode is, and the record.\<close>

definition inode_block :: "superblock \<Rightarrow> nat \<Rightarrow> nat" where
  "inode_block sb n = unat (sb_inodestart sb) + n div IPB"

definition dinode_at :: "superblock \<Rightarrow> (nat \<Rightarrow> byte list) \<Rightarrow> nat \<Rightarrow> dinode" where
  "dinode_at sb C n = dinode_of (drop (n mod IPB * DINODE_SIZE) (C (inode_block sb n)))"

definition put_dinode :: "superblock \<Rightarrow> nat \<Rightarrow> dinode \<Rightarrow> (nat \<Rightarrow> byte list) \<Rightarrow> nat \<Rightarrow> byte list" where
  "put_dinode sb n d C = C(inode_block sb n := put_bytes (C (inode_block sb n)) (n mod IPB * DINODE_SIZE) (dinode_bytes d))"

lemma length_put_bytes [simp]: "off + length xs \<le> length bs \<Longrightarrow> length (put_bytes bs off xs) = length bs"
  by (simp add: put_bytes_def)

lemma nth_put_bytes:
  assumes "off + length xs \<le> length bs" "i < length bs"
  shows "put_bytes bs off xs ! i = (if off \<le> i \<and> i < off + length xs then xs ! (i - off) else bs ! i)"
  using assms by (auto simp: put_bytes_def nth_append)

lemma slot_fits: "n mod IPB * DINODE_SIZE + DINODE_SIZE \<le> BSIZE"
proof -
  have "n mod IPB < IPB" by (simp add: IPB_def BSIZE_def)
  then show ?thesis by (simp add: IPB_def BSIZE_def DINODE_SIZE_def)
qed

lemma get_take: "k + 2 \<le> n \<Longrightarrow> get16 (take n xs) k = get16 xs k" "k + 4 \<le> n \<Longrightarrow> get32 (take n xs) k = get32 xs k"
  by (simp_all add: get16_def get32_def drop_take min_absorb1)

lemma dinode_of_take: "dinode_of (take DINODE_SIZE xs) = dinode_of xs"
  unfolding dinode_of_def by (simp add: get_take DINODE_SIZE_def NDIRECT_def cong: map_cong)

lemma take_put_bytes:
  assumes "off + length xs \<le> length bs" "k + n \<le> off \<or> off + length xs \<le> k" "k + n \<le> length bs"
  shows "take n (drop k (put_bytes bs off xs)) = take n (drop k bs)"
proof (rule nth_equalityI)
  show "length (take n (drop k (put_bytes bs off xs))) = length (take n (drop k bs))" using assms by simp
  fix i
  assume "i < length (take n (drop k (put_bytes bs off xs)))"
  then show "take n (drop k (put_bytes bs off xs)) ! i = take n (drop k bs) ! i"
    using assms by (auto simp: nth_put_bytes)
qed

lemma drop_put_bytes: "off + length xs \<le> length bs \<Longrightarrow> drop off (put_bytes bs off xs) = xs @ drop (off + length xs) bs"
  by (simp add: put_bytes_def)

lemma dinode_at_put:
  assumes "length (C (inode_block sb n)) = BSIZE" "length (di_addrs d) = NDIRECT + 1"
  shows "dinode_at sb (put_dinode sb n d C) m = (if m = n then d else dinode_at sb C m)"
proof -
  let ?off = "\<lambda>n. n mod IPB * DINODE_SIZE" and ?b = "C (inode_block sb n)"
  have fit: "?off n + length (dinode_bytes d) \<le> length ?b" using slot_fits [of n] assms length_dinode_bytes [OF assms(2)] by simp
  consider "m = n" | "m \<noteq> n" "inode_block sb m = inode_block sb n" | "inode_block sb m \<noteq> inode_block sb n" by blast
  then show ?thesis
  proof cases
    case 1
    then show ?thesis using fit dinode_of_bytes [OF assms(2)] by (simp add: dinode_at_def put_dinode_def drop_put_bytes)
  next
    case 2
    then have "m mod IPB \<noteq> n mod IPB" using split_eq [of m IPB n] by (auto simp: inode_block_def)
    then have "?off m + DINODE_SIZE \<le> ?off n \<or> ?off n + DINODE_SIZE \<le> ?off m"
      by (cases "m mod IPB < n mod IPB") (simp_all add: DINODE_SIZE_def)
    then have "take DINODE_SIZE (drop (?off m) (put_bytes ?b (?off n) (dinode_bytes d))) = take DINODE_SIZE (drop (?off m) ?b)"
      using fit slot_fits [of m] assms(1) length_dinode_bytes [OF assms(2)] by (intro take_put_bytes) simp_all
    then show ?thesis using 2 by (simp add: dinode_at_def put_dinode_def) (metis dinode_of_take)
  next
    case 3
    then show ?thesis by (auto simp: dinode_at_def put_dinode_def)
  qed
qed

section \<open>Writing the record back\<close>

lemma inode_block_bound:
  assumes "fs_layout e sb" "n < unat (sb_ninodes sb)"
  shows "inode_block sb n < unat (sb_bmapstart sb)" "home_block e (inode_block sb n)" "inode_block sb n < 2 ^ 31"
proof -
  have "n div IPB \<le> unat (sb_ninodes sb) div IPB" using assms(2) by (simp add: div_le_mono)
  then show 1: "inode_block sb n < unat (sb_bmapstart sb)" using assms(1) by (simp add: inode_block_def fs_layout_def)
  then show "home_block e (inode_block sb n)" "inode_block sb n < 2 ^ 31"
    using assms(1) by (auto simp: fs_layout_def home_block_def log_area_def inode_block_def data_start_def)
qed

lemma IBLOCK_nat:
  assumes "n < 2 ^ 32"
  shows "IBLOCK (of_nat n) sb = of_nat (inode_block sb n)" "dinode_slot (of_nat n) = n mod IPB * DINODE_SIZE"
proof -
  have n: "unat (of_nat n :: u32) = n" using assms by (simp add: unsigned_of_nat take_bit_nat_eq_self)
  have "of_nat n div (of_nat IPB :: u32) = of_nat (n div IPB)"
    using n by (simp add: word_arith_nat_div IPB_def BSIZE_def)
  then show "IBLOCK (of_nat n) sb = of_nat (inode_block sb n)" by (simp add: IBLOCK_def inode_block_def add.commute)
  show "dinode_slot (of_nat n) = n mod IPB * DINODE_SIZE" using n by (simp add: dinode_slot_def)
qed

lemma iupdate_spec:
  assumes lay: "fs_layout e sb" and i: "i_dev (I ip) = e_devno e" "i_inum (I ip) = of_nat n" "n < unat (sb_ninodes sb)"
    and H: "H (inode_block sb n) = None" and room: "log_room e L H 2"
  shows "runs_to (ftx e sb I Y C L H) (iupdate ip)
    (\<lambda>_. ftx e sb I Y (put_dinode sb n (inode_dinode (I ip)) C) (log_add (inode_block sb n) L) H) (e_cut e)"
  unfolding iupdate_def get_inode_def
proof (rule runs_to_gets [where v = sb], simp add: ftx_def, rule runs_to_gets [where v = "I ip"], simp add: ftx_def)
  let ?k = "inode_block sb n" and ?g = "\<lambda>d. put_bytes d (n mod IPB * DINODE_SIZE) (dinode_bytes (inode_dinode (I ip)))"
  have "unat (sb_ninodes sb) < 2 ^ LENGTH(32)" by (rule unsigned_less)
  then have n32: "n < 2 ^ 32" using i(3) by simp
  note bb = inode_block_bound [OF lay i(3)]
  show "runs_to (ftx e sb I Y C L H) (bind (bread (i_dev (I ip)) (IBLOCK (i_inum (I ip)) sb)) (\<lambda>bp.
      seq (modify_buf bp (\<lambda>x. x\<lparr>b_data := put_bytes (b_data x) (dinode_slot (i_inum (I ip))) (dinode_bytes (inode_dinode (I ip)))\<rparr>))
        (seq (log_write bp) (brelse bp))))
    (\<lambda>_. ftx e sb I Y (put_dinode sb n (inode_dinode (I ip)) C) (log_add ?k L) H) (e_cut e)"
    unfolding i(1,2) IBLOCK_nat [OF n32]
  proof (rule f_bread_bind)
    fix bp
    let ?H = "H(?k \<mapsto> bp)"
    have "length (?g c) = BSIZE" if "length c = BSIZE" for c
      using that slot_fits [of n] length_dinode_bytes [of "inode_dinode (I ip)"] by (simp add: inode_dinode_def)
    moreover have "H(?k := None) = H" using H by auto
    moreover have "log_room e L ?H 1" using log_room_hold [of e L H 1] room by (simp add: numeral_2_eq_2)
    ultimately show "runs_to (ftx e sb I Y C L ?H) (seq (modify_buf bp (\<lambda>x. x\<lparr>b_data := ?g (b_data x)\<rparr>)) (seq (log_write bp) (brelse bp)))
        (\<lambda>_. ftx e sb I Y (put_dinode sb n (inode_dinode (I ip)) C) (log_add ?k L) H) (e_cut e)"
      using f_update [of e ?k ?H bp C ?g L sb I Y "e_cut e"] bb(2) by (simp add: put_dinode_def)
  qed (use bb H room in \<open>auto intro: log_room_le\<close>)
qed

section \<open>The blocks of a file\<close>

text \<open>The number of the block that holds block \<open>bn\<close> of the file, from the inode or from its indirect block.\<close>

definition faddr :: "(nat \<Rightarrow> byte list) \<Rightarrow> inode \<Rightarrow> nat \<Rightarrow> nat" where
  "faddr C i bn =
     (if bn < NDIRECT then unat (i_addrs i bn)
      else unat (get32 (C (unat (i_addrs i NDIRECT))) (4 * (bn - NDIRECT)) :: u32))"

definition indirect :: "inode \<Rightarrow> nat" where
  "indirect i = unat (i_addrs i NDIRECT)"

definition data_block :: "superblock \<Rightarrow> (nat \<Rightarrow> byte list) \<Rightarrow> nat \<Rightarrow> bool" where
  "data_block sb C k \<longleftrightarrow> data_start sb \<le> k \<and> k < unat (sb_size sb) \<and> used sb C k"

text \<open>
  The inode has its first \<open>n\<close> blocks and no others: they are data blocks in use, different from each
  other and from the indirect block, which exists exactly if it is needed.
\<close>

definition inode_ok :: "superblock \<Rightarrow> (nat \<Rightarrow> byte list) \<Rightarrow> inode \<Rightarrow> nat \<Rightarrow> bool" where
  "inode_ok sb C i n \<longleftrightarrow>
     n \<le> MAXFILE \<and> (\<forall>bn < n. data_block sb C (faddr C i bn)) \<and> inj_on (faddr C i) {..<n} \<and>
     (\<forall>bn. n \<le> bn \<and> bn < NDIRECT \<longrightarrow> i_addrs i bn = 0) \<and>
     (if n \<le> NDIRECT then i_addrs i NDIRECT = 0
      else data_block sb C (indirect i) \<and> indirect i \<notin> faddr C i ` {..<n} \<and>
        (\<forall>bn. n \<le> bn \<and> bn < MAXFILE \<longrightarrow> faddr C i bn = 0))"

lemma data_block_bound:
  assumes "fs_layout e sb" "data_block sb C k"
  shows "home_block e k" "k < 2 ^ 31" "k \<noteq> bitmap_block sb b \<or> \<not> b < unat (sb_size sb)" "of_nat k \<noteq> (0 :: u32)" "unat (of_nat k :: u32) = k"
proof -
  show k: "k < 2 ^ 31" and "home_block e k" using assms by (auto simp: data_block_def fs_layout_def home_block_def log_area_def data_start_def)
  then show u: "unat (of_nat k :: u32) = k" by (simp add: unsigned_of_nat take_bit_nat_eq_self)
  have "0 < k" using assms by (auto simp: data_block_def fs_layout_def data_start_def)
  then show "of_nat k \<noteq> (0 :: u32)" using u by auto
  show "k \<noteq> bitmap_block sb b \<or> \<not> b < unat (sb_size sb)"
    using bitmap_block_bound(1) [OF assms(1), of b] assms(2) by (auto simp: data_block_def)
qed

lemma MAXFILE_nat: "MAXFILE = 268" "NDIRECT = 12" "NINDIRECT = 256"
  by (simp_all add: MAXFILE_def NDIRECT_def NINDIRECT_def BSIZE_def)

lemma unat_bn: "bn < MAXFILE \<Longrightarrow> unat (of_nat bn :: u32) = bn"
  by (simp add: MAXFILE_nat unsigned_of_nat take_bit_nat_eq_self)

lemma runs_to_get_inode:
  "runs_to (ftx e sb I Y C L H) (m (I ip)) Q E \<Longrightarrow> runs_to (ftx e sb I Y C L H) (bind (get_inode ip) m) Q E"
  unfolding get_inode_def by (rule runs_to_gets [where v = "I ip"]) (simp_all add: ftx_def)

lemma modify_inode_f:
  "runs_to (ftx e sb I Y C L H) (modify_inode ip g) (\<lambda>_. ftx e sb (I(ip := g (I ip))) Y C L H) E"
  unfolding modify_inode_def
proof (rule runs_to_modify)
  fix s
  assume s: "ftx e sb I Y C L H s"
  let ?t = "s\<lparr>inodes := (inodes s)(ip := g (inodes s ip))\<rparr>"
  from s obtain G B K xs where at: "disk_at (e_fail e) (e_proc e) (e_pid e) K (kdisk.more s) B (e_disk e) s"
    and cr: "cache_rel (u32_of_int (lg_dev G)) (e_pid e) B K xs (e_disk e) C (refs L H) H"
    and lg: "lg s = G" "logging (e_sz e) (e_st e) (e_dev e) 1 L G" "get32 (e_disk e (e_st e)) 0 = 0"
    unfolding ftx_def tx_def lstate_def bstate_def by blast
  have "disk_at (e_fail e) (e_proc e) (e_pid e) K (kdisk.more ?t) B (e_disk e) ?t" using at by (auto simp: disk_at_def running_def)
  then have "bstate (u32_of_int (lg_dev G)) (e_fail e) (e_proc e) (e_pid e) (kdisk.more ?t) (e_disk e) C (refs L H) H ?t"
    unfolding bstate_def using cr by blast
  then have "lstate (e_fail e) (e_proc e) (e_pid e) G (klog.more ?t) (e_disk e) C (refs L H) H ?t"
    unfolding lstate_def using lg(1) by simp
  then have "tx (e_sz e) (e_st e) (e_dev e) (e_fail e) (e_proc e) (e_pid e) 1 (klog.more ?t) (e_disk e) C L H ?t"
    unfolding tx_def using lg by blast
  then show "ftx e sb (I(ip := g (I ip))) Y C L H ?t" using s by (simp add: ftx_def)
qed

text \<open>\<open>bmap\<close> for a direct block, and for a block of the indirect block, with the part that reads its entry.\<close>

abbreviation bmap_entry :: "inode \<Rightarrow> nat \<Rightarrow> nat \<Rightarrow> 'z kfs_scheme \<Rightarrow> ('z kfs_scheme, u32) res" where
  "bmap_entry i bn bp \<equiv>
     bind (get_buf bp) (\<lambda>x.
     bind (if get32 (b_data x) (4 * bn) = 0 then
             bind (balloc (i_dev i)) (\<lambda>a'.
             seq (modify_buf bp (\<lambda>x. x\<lparr>b_data := put32 (b_data x) (4 * bn) a'\<rparr>)) (
             seq (log_write bp) (return a')))
           else return (get32 (b_data x) (4 * bn))) (\<lambda>a.
     seq (brelse bp) (return a)))"

lemma bmap_direct:
  "bn < NDIRECT \<Longrightarrow> bmap ip (of_nat bn) = bind (get_inode ip) (\<lambda>i.
     if i_addrs i bn = 0 then
       bind (balloc (i_dev i)) (\<lambda>addr.
       seq (modify_inode ip (\<lambda>i. i\<lparr>i_addrs := (i_addrs i)(bn := addr)\<rparr>)) (return addr))
     else return (i_addrs i bn))"
  using unat_bn [of bn] by (simp add: bmap_def MAXFILE_nat cong: if_cong)

lemma bmap_indirect:
  "NDIRECT \<le> bn \<Longrightarrow> bn < MAXFILE \<Longrightarrow> bmap ip (of_nat bn) = bind (get_inode ip) (\<lambda>i.
     bind (if i_addrs i NDIRECT = 0 then
             bind (balloc (i_dev i)) (\<lambda>addr.
             seq (modify_inode ip (\<lambda>i. i\<lparr>i_addrs := (i_addrs i)(NDIRECT := addr)\<rparr>)) (return addr))
           else return (i_addrs i NDIRECT)) (\<lambda>addr.
     bind (bread (i_dev i) addr) (bmap_entry i (bn - NDIRECT))))"
  using unat_bn [of bn] by (simp add: bmap_def MAXFILE_def Let_def less_diff_conv2 add.commute cong: if_cong)

lemma runs_to_bind_return: "runs_to P (m x) Q E \<Longrightarrow> runs_to P (bind (return x) m) Q E"
  by (simp add: runs_to_def)

lemma runs_to_bind_value:
  "runs_to P m (\<lambda>r s. r = v \<and> R s) E \<Longrightarrow> runs_to R (f v) Q E \<Longrightarrow> runs_to P (bind m f) Q E"
  by (fastforce simp: runs_to_def split: res.splits)

lemma bmap_mapped:
  assumes lay: "fs_layout e sb" and ok: "inode_ok sb C (I ip) n" and bn: "bn < n" and dev: "i_dev (I ip) = e_devno e"
    and H: "NDIRECT \<le> bn \<Longrightarrow> H (indirect (I ip)) = None" and room: "log_room e L H 0"
  shows "runs_to (ftx e sb I Y C L H) (bmap ip (of_nat bn)) (\<lambda>r s. r = of_nat (faddr C (I ip) bn) \<and> ftx e sb I Y C L H s) (e_cut e)"
    (is "runs_to _ _ ?Q _")
proof -
  have n: "bn < MAXFILE" "data_block sb C (faddr C (I ip) bn)" using ok bn by (auto simp: inode_ok_def)
  note db = data_block_bound [OF lay n(2)]
  show ?thesis
  proof (cases "bn < NDIRECT")
    case True
    then have "faddr C (I ip) bn = unat (i_addrs (I ip) bn)" by (simp add: faddr_def)
    then have "i_addrs (I ip) bn \<noteq> 0" "of_nat (faddr C (I ip) bn) = i_addrs (I ip) bn" using db(4) by auto
    then show ?thesis unfolding bmap_direct [OF True] by (intro runs_to_get_inode) (auto intro: runs_to_return)
  next
    case False
    let ?k = "indirect (I ip)" and ?a = "faddr C (I ip) bn"
    have k: "data_block sb C ?k" using ok bn False by (auto simp: inode_ok_def split: if_splits)
    note kb = data_block_bound [OF lay k]
    have k0: "i_addrs (I ip) NDIRECT \<noteq> 0" "i_addrs (I ip) NDIRECT = of_nat ?k" using kb(4) by (auto simp: indirect_def)
    have a: "get32 (C ?k) (4 * (bn - NDIRECT)) = (of_nat ?a :: u32)" using False by (simp add: faddr_def indirect_def)
    have "runs_to (ftx e sb I Y C L H) (bind (bread (e_devno e) (of_nat ?k)) (bmap_entry (I ip) (bn - NDIRECT))) ?Q (e_cut e)"
    proof (rule f_bread_bind)
      fix bp
      assume clean: "?k \<in> set L \<or> C ?k = e_disk e ?k"
      let ?H = "H(?k \<mapsto> bp)"
      have H': "H(?k := None) = H" using H False by auto
      have "runs_to (ftx e sb I Y C L ?H) (brelse bp) (\<lambda>_. ftx e sb I Y C L (?H(?k := None))) (e_cut e)"
        by (rule f_brelse) (use clean in simp_all)
      then have r: "runs_to (ftx e sb I Y C L ?H) (seq (brelse bp) (return (of_nat ?a))) ?Q (e_cut e)"
        by (rule runs_to_seq) (use H' in \<open>auto intro: runs_to_return\<close>)
      show "runs_to (ftx e sb I Y C L ?H) (bmap_entry (I ip) (bn - NDIRECT) bp) ?Q (e_cut e)"
        by (rule f_get_data [of ?H ?k bp], simp) (use a db(4) r in \<open>auto intro: runs_to_bind_return\<close>)
    qed (use kb H False room in auto)
    then show ?thesis
      using False k0 dev by (subst bmap_indirect) (auto simp: n(1) intro!: runs_to_get_inode runs_to_bind_return)
  qed
qed

section \<open>Reading a file\<close>

definition fbyte :: "(nat \<Rightarrow> byte list) \<Rightarrow> inode \<Rightarrow> nat \<Rightarrow> byte" where
  "fbyte C i j = C (faddr C i (j div BSIZE)) ! (j mod BSIZE)"

definition file_bytes :: "(nat \<Rightarrow> byte list) \<Rightarrow> inode \<Rightarrow> byte list" where
  "file_bytes C i = map (fbyte C i) [0..<unat (i_size i)]"

definition nblocks :: "nat \<Rightarrow> nat" where
  "nblocks n = (n + BSIZE - 1) div BSIZE"

text \<open>None of the blocks of a file is held.\<close>

definition file_free :: "(nat \<Rightarrow> byte list) \<Rightarrow> inode \<Rightarrow> nat \<Rightarrow> (nat \<Rightarrow> nat option) \<Rightarrow> bool" where
  "file_free C i n H \<longleftrightarrow> (\<forall>bn < n. H (faddr C i bn) = None) \<and> (NDIRECT < n \<longrightarrow> H (indirect i) = None)"

lemma BSIZE_nat: "BSIZE = 1024" "0 < BSIZE"
  by (simp_all add: BSIZE_def)

lemma block_lt: "j < n \<Longrightarrow> j div BSIZE < nblocks n"
  unfolding nblocks_def BSIZE_nat(1) by linarith

lemma nblocks_le: "nblocks n \<le> m \<longleftrightarrow> n \<le> m * BSIZE"
  unfolding nblocks_def BSIZE_nat(1) by linarith

lemma unat32: "k < 2 ^ 32 \<Longrightarrow> unat (of_nat k :: u32) = k"
  by (simp add: unsigned_of_nat take_bit_nat_eq_self)

lemma of_nat_diff32: "b \<le> a \<Longrightarrow> (of_nat a - of_nat b :: u32) = of_nat (a - b)"
  by simp

lemma less32: "a < 2 ^ 32 \<Longrightarrow> b < 2 ^ 32 \<Longrightarrow> (of_nat a :: u32) < of_nat b \<longleftrightarrow> a < b"
  by (simp add: word_less_nat_alt unat32)

lemma div32: "o' < 2 ^ 32 \<Longrightarrow> (of_nat o' :: u32) div of_nat BSIZE = of_nat (o' div BSIZE)"
  "o' < 2 ^ 32 \<Longrightarrow> (of_nat o' :: u32) mod of_nat BSIZE = of_nat (o' mod BSIZE)"
  by (simp_all add: word_arith_nat_div word_arith_nat_mod unat32 BSIZE_nat)

definition chunk :: "nat \<Rightarrow> nat \<Rightarrow> nat" where
  "chunk rest off = min rest (BSIZE - off mod BSIZE)"

lemma io_len_nat:
  assumes "T \<le> N" "N < 2 ^ 31" "o' < 2 ^ 31"
  shows "io_len (of_nat N) (of_nat T) (of_nat o') = of_nat (chunk (N - T) o')"
proof -
  have "o' mod BSIZE < BSIZE" using BSIZE_nat(2) by simp
  then have "of_nat BSIZE - of_nat o' mod of_nat BSIZE = (of_nat (BSIZE - o' mod BSIZE) :: u32)" using assms(3) by (simp add: div32)
  then show ?thesis
    using assms less32 [of "N - T" "BSIZE - o' mod BSIZE"] by (simp add: io_len_def chunk_def min_def BSIZE_nat(1))
qed

lemma chunk_bounds:
  assumes "0 < rest"
  shows "0 < chunk rest o'" "chunk rest o' \<le> rest" "o' mod BSIZE + chunk rest o' \<le> BSIZE"
proof -
  have "o' mod BSIZE < BSIZE" using BSIZE_nat(2) by simp
  then show "0 < chunk rest o'" "chunk rest o' \<le> rest" "o' mod BSIZE + chunk rest o' \<le> BSIZE" using assms by (auto simp: chunk_def)
qed

text \<open>A piece inside one block.\<close>

lemma piece_div_mod:
  assumes "o' mod BSIZE + m \<le> BSIZE" "j < m"
  shows "(o' + j) div BSIZE = o' div BSIZE" "(o' + j) mod BSIZE = o' mod BSIZE + j"
proof -
  have "o' + j = o' div BSIZE * BSIZE + (o' mod BSIZE + j)" by simp
  moreover have "o' mod BSIZE + j < BSIZE" using assms by simp
  ultimately show "(o' + j) div BSIZE = o' div BSIZE" "(o' + j) mod BSIZE = o' mod BSIZE + j"
    by (metis add.commute add_0 div_less div_mult_self1 gr_implies_not0, metis mod_less mod_mult_self3)
qed

lemma take_piece:
  assumes "o' mod BSIZE + m \<le> BSIZE" "length (C (faddr C i (o' div BSIZE))) = BSIZE"
  shows "take m (drop (o' mod BSIZE) (C (faddr C i (o' div BSIZE)))) = map (fbyte C i) [o'..<o' + m]"
proof (rule nth_equalityI)
  fix j
  assume "j < length (take m (drop (o' mod BSIZE) (C (faddr C i (o' div BSIZE)))))"
  then show "take m (drop (o' mod BSIZE) (C (faddr C i (o' div BSIZE)))) ! j = map (fbyte C i) [o'..<o' + m] ! j"
    using assms piece_div_mod [OF assms(1)] by (simp add: fbyte_def)
qed (use assms in simp)

definition file_ok :: "superblock \<Rightarrow> (nat \<Rightarrow> byte list) \<Rightarrow> inode \<Rightarrow> bool" where
  "file_ok sb C i \<longleftrightarrow> inode_ok sb C i (nblocks (unat (i_size i)))"

lemma file_size: "file_ok sb C i \<Longrightarrow> unat (i_size i) \<le> MAXFILE * BSIZE"
  using nblocks_le [of "unat (i_size i)" MAXFILE] by (simp add: file_ok_def inode_ok_def)

text \<open>One round of the loop of \<open>readi\<close>.\<close>

lemma readi_round:
  assumes lay: "fs_layout e sb" and ok: "inode_ok sb C (I ip) n" and bn: "o' div BSIZE < n" and dev: "i_dev (I ip) = e_devno e"
    and H: "file_free C (I ip) n H" and room: "log_room e L H 0" and b: "T < N" "N < 2 ^ 31" "o' < 2 ^ 31"
    and rest: "runs_to (ftx e sb I Y C L H) (readi_loop fuel ip ToLocal (of_nat (o' + chunk (N - T) o')) (of_nat N)
        (of_nat (T + chunk (N - T) o')) (acc @ map (fbyte C (I ip)) [o'..<o' + chunk (N - T) o'])) Q (e_cut e)"
  shows "runs_to (ftx e sb I Y C L H) (readi_loop (Suc fuel) ip ToLocal (of_nat o') (of_nat N) (of_nat T) acc) Q (e_cut e)"
proof -
  let ?i = "I ip" and ?m = "chunk (N - T) o'" and ?k = "faddr C (I ip) (o' div BSIZE)"
  have ch: "0 < ?m" "?m \<le> N - T" "o' mod BSIZE + ?m \<le> BSIZE" using chunk_bounds [of "N - T" o'] b(1) by auto
  have db: "data_block sb C ?k" using ok bn by (simp add: inode_ok_def)
  have Hk: "H ?k = None" "NDIRECT \<le> o' div BSIZE \<Longrightarrow> H (indirect ?i) = None" using H bn by (auto simp: file_free_def)
  have um: "unat (of_nat ?m :: u32) = ?m" "unat (of_nat o' :: u32) = o'" using ch b by (simp_all add: unat32)
  let ?f = "\<lambda>bp x. let m = io_len (of_nat N) (of_nat T) (of_nat o'); bs = take (unat m) (drop (unat (of_nat o' :: u32) mod BSIZE) (b_data x)) in
      bind (copy_to ToLocal (of_nat T) bs) (\<lambda>r. if r = - 1 then seq (brelse bp) (return (- 1, acc))
        else seq (brelse bp) (readi_loop fuel ip ToLocal (of_nat o' + m) (of_nat N) (of_nat T + m) (acc @ bs)))"
  have "runs_to (ftx e sb I Y C L H) (bind (bread (e_devno e) (of_nat ?k)) (\<lambda>bp. bind (get_buf bp) (?f bp))) Q (e_cut e)"
  proof (rule f_bread_bind)
    fix bp
    assume clean: "?k \<in> set L \<or> C ?k = e_disk e ?k"
    let ?H = "H(?k \<mapsto> bp)"
    have H': "H(?k := None) = H" using Hk(1) by auto
    have "runs_to (ftx e sb I Y C L ?H) (brelse bp) (\<lambda>_. ftx e sb I Y C L (?H(?k := None))) (e_cut e)"
      by (rule f_brelse) (use clean in simp_all)
    then have r: "runs_to (ftx e sb I Y C L ?H) (seq (brelse bp) (readi_loop fuel ip ToLocal (of_nat (o' + ?m)) (of_nat N)
        (of_nat (T + ?m)) (acc @ map (fbyte C ?i) [o'..<o' + ?m]))) Q (e_cut e)"
      by (rule runs_to_seq) (use H' rest in simp)
    show "runs_to (ftx e sb I Y C L ?H) (bind (get_buf bp) (?f bp)) Q (e_cut e)"
    proof (rule f_get_data [of ?H ?k bp], simp)
      fix x :: buf
      assume x: "b_data x = C ?k" "length (C ?k) = BSIZE"
      then have "take ?m (drop (o' mod BSIZE) (b_data x)) = map (fbyte C ?i) [o'..<o' + ?m]"
        using take_piece [OF ch(3), of C ?i] by simp
      then show "runs_to (ftx e sb I Y C L ?H) (?f bp x) Q (e_cut e)"
        using r b by (simp add: io_len_nat Let_def) (rule runs_to_bind_return, simp add: um)
    qed
  qed (use data_block_bound [OF lay db] Hk room in auto)
  then show ?thesis
    using b dev less32 [of T N]
    by (subst readi_loop.simps)
       (auto simp: div32 cong: if_cong intro!: runs_to_get_inode runs_to_bind_value [OF bmap_mapped [of e sb C I ip n "o' div BSIZE" H L, OF lay ok bn dev Hk(2) room]])
qed

lemma readi_loop_spec:
  assumes lay: "fs_layout e sb" and ok: "file_ok sb C (I ip)" and dev: "i_dev (I ip) = e_devno e"
    and H: "file_free C (I ip) (nblocks (unat (i_size (I ip)))) H" and room: "log_room e L H 0"
    and b: "T \<le> N" "o' + (N - T) \<le> unat (i_size (I ip))" "N \<le> unat (i_size (I ip))" "N - T < fuel"
  shows "runs_to (ftx e sb I Y C L H) (readi_loop fuel ip ToLocal (of_nat o') (of_nat N) (of_nat T) acc)
    (\<lambda>r s. r = (int N, acc @ map (fbyte C (I ip)) [o'..<o' + (N - T)]) \<and> ftx e sb I Y C L H s) (e_cut e)"
  using b
proof (induction fuel arbitrary: o' T acc)
  case (Suc fuel)
  have sz: "N < 2 ^ 31" "o' < 2 ^ 31" using Suc.prems file_size [OF ok] by (auto simp: MAXFILE_nat BSIZE_nat)
  show ?case
  proof (cases "T < N")
    case False
    then show ?thesis
      using Suc.prems less32 [of T N] sz by (subst readi_loop.simps) (auto simp: sint_of_nat intro!: runs_to_return)
  next
    case True
    let ?m = "chunk (N - T) o'"
    have ch: "0 < ?m" "?m \<le> N - T" using chunk_bounds [of "N - T" o'] True by auto
    have bn: "o' div BSIZE < nblocks (unat (i_size (I ip)))" using Suc.prems True by (intro block_lt) simp
    have "o' + (N - T) = o' + ?m + (N - (T + ?m))" using ch(2) by simp
    then have "[o'..<o' + (N - T)] = [o'..<o' + ?m] @ [o' + ?m..<o' + ?m + (N - (T + ?m))]"
      by (metis le_add1 upt_add_eq_append)
    then have "runs_to (ftx e sb I Y C L H) (readi_loop fuel ip ToLocal (of_nat (o' + ?m)) (of_nat N) (of_nat (T + ?m))
        (acc @ map (fbyte C (I ip)) [o'..<o' + ?m]))
        (\<lambda>r s. r = (int N, acc @ map (fbyte C (I ip)) [o'..<o' + (N - T)]) \<and> ftx e sb I Y C L H s) (e_cut e)"
      using Suc.IH [of "T + ?m" "o' + ?m" "acc @ map (fbyte C (I ip)) [o'..<o' + ?m]"] Suc.prems ch True by simp
    then show ?thesis
      using ok by (intro readi_round [of e sb C I ip _ o' H L T N, OF lay _ bn dev H room True sz]) (simp_all add: file_ok_def)
  qed
qed simp

lemma readi_spec:
  assumes lay: "fs_layout e sb" and ok: "file_ok sb C (I ip)" and dev: "i_dev (I ip) = e_devno e"
    and H: "file_free C (I ip) (nblocks (unat (i_size (I ip)))) H" and room: "log_room e L H 0"
    and b: "off \<le> unat (i_size (I ip))" "off + n < 2 ^ 32"
  shows "runs_to (ftx e sb I Y C L H) (readi ip ToLocal (of_nat off) (of_nat n))
    (\<lambda>r s. r = (let bs = take n (drop off (file_bytes C (I ip))) in (int (length bs), bs)) \<and> ftx e sb I Y C L H s) (e_cut e)"
proof -
  let ?z = "unat (i_size (I ip))" and ?N = "min n (unat (i_size (I ip)) - off)"
  have z: "i_size (I ip) = of_nat ?z" "?z < 2 ^ 31" using file_size [OF ok] by (simp_all add: MAXFILE_nat BSIZE_nat)
  have 1: "\<not> i_size (I ip) < of_nat off" "\<not> (of_nat (off + n) :: u32) < of_nat off"
    using b less32 [of ?z off] less32 [of "off + n" off] z by auto
  have 2: "(if i_size (I ip) < of_nat (off + n) then i_size (I ip) - of_nat off else of_nat n) = (of_nat ?N :: u32)"
    using less32 [of ?z "off + n"] z b by (auto simp: min_def)
  have 3: "take n (drop off (file_bytes C (I ip))) = map (fbyte C (I ip)) [off..<off + ?N]"
    using b(1) by (simp add: file_bytes_def take_map drop_map min_def)
  have "runs_to (ftx e sb I Y C L H) (readi_loop (Suc (unat (of_nat ?N :: u32))) ip ToLocal (of_nat off) (of_nat ?N) (of_nat 0) [])
      (\<lambda>r s. r = (int ?N, [] @ map (fbyte C (I ip)) [off..<off + (?N - 0)]) \<and> ftx e sb I Y C L H s) (e_cut e)"
    using b(1) z by (intro readi_loop_spec [of e sb C I ip H L, OF lay ok dev H room]) (auto simp: unat32)
  then show ?thesis
    unfolding readi_def 3 using 1 2 by (intro runs_to_get_inode) (simp add: Let_def)
qed

end
