(* ===== verification/WriteSpec.thy ===== *)
theory WriteSpec
  imports InodeSpec
begin

text \<open>
  Growing a file: \<open>bmap\<close> when it has to allocate, and \<open>writei\<close> (\<open>src/kernel/fs.c\<close>).
\<close>

section \<open>Allocation and the blocks of a file\<close>

definition free_blocks :: "superblock \<Rightarrow> (nat \<Rightarrow> byte list) \<Rightarrow> nat set" where
  "free_blocks sb C = {b. b < unat (sb_size sb) \<and> \<not> used sb C b}"

lemma first_free_exists: "free_blocks sb C \<noteq> {} \<Longrightarrow> \<exists>a. first_free sb C = Some a"
  by (auto simp: free_blocks_def first_free_def find_None_iff not_None_eq [symmetric] simp del: not_None_eq)

lemma first_free_block:
  assumes "fs_layout e sb" "meta_used sb C" "first_free sb C = Some a"
  shows "\<not> used sb C a" "a < unat (sb_size sb)" "data_start sb \<le> a" "home_block e a" "b < unat (sb_size sb) \<Longrightarrow> a \<noteq> bitmap_block sb b"
    "unat (of_nat a :: u32) = a" "of_nat a \<noteq> (0 :: u32)"
proof -
  show a: "\<not> used sb C a" "a < unat (sb_size sb)" using find_SomeD' assms(3) by (fastforce simp: first_free_def)+
  then show s: "data_start sb \<le> a" using assms(2) by (auto simp: meta_used_def not_less [symmetric])
  then show "home_block e a" using assms(1) a(2) by (auto simp: fs_layout_def home_block_def log_area_def data_start_def)
  show "a \<noteq> bitmap_block sb b" if "b < unat (sb_size sb)" using bitmap_block_bound(1) [OF assms(1) that] s by simp
  show u: "unat (of_nat a :: u32) = a" using assms(1) a(2) by (intro unat32) (simp add: fs_layout_def)
  have "0 < a" using s assms(1) by (auto simp: fs_layout_def data_start_def)
  then show "of_nat a \<noteq> (0 :: u32)" using u by auto
qed

text \<open>What marking a free block changes.\<close>

lemma mark_facts:
  assumes lay: "fs_layout e sb" and meta: "meta_used sb C" and a: "first_free sb C = Some a" and len: "\<And>k. length (C k) = BSIZE"
  shows "b < unat (sb_size sb) \<Longrightarrow> used sb (mark sb a C) b \<longleftrightarrow> used sb C b \<or> b = a"
    and "data_block sb (mark sb a C) k \<longleftrightarrow> data_block sb C k \<or> k = a"
    and "data_block sb C k \<Longrightarrow> mark sb a C k = C k" and "data_block sb C k \<Longrightarrow> k \<noteq> a"
    and "k < unat (sb_bmapstart sb) \<Longrightarrow> mark sb a C k = C k"
    and "mark sb a C a = replicate BSIZE 0" and "meta_used sb (mark sb a C)"
    and "card (free_blocks sb C) = Suc (card (free_blocks sb (mark sb a C)))"
proof -
  note f = first_free_block [OF lay meta a]
  show u: "used sb (mark sb a C) b \<longleftrightarrow> used sb C b \<or> b = a" if "b < unat (sb_size sb)" for b
    using used_mark [of C sb a b, OF len f(5) [OF that]] .
  then show "data_block sb (mark sb a C) k \<longleftrightarrow> data_block sb C k \<or> k = a" using f(2,3) by (auto simp: data_block_def)
  show ne: "data_block sb C k \<Longrightarrow> k \<noteq> a" using f(1) by (auto simp: data_block_def)
  show "data_block sb C k \<Longrightarrow> mark sb a C k = C k"
    using ne bitmap_block_bound(1) [OF lay f(2)] by (auto simp: mark_def data_block_def)
  show "k < unat (sb_bmapstart sb) \<Longrightarrow> mark sb a C k = C k"
    using f(3) by (auto simp: mark_def bitmap_block_def data_start_def)
  show "mark sb a C a = replicate BSIZE 0" by (simp add: mark_def)
  show "meta_used sb (mark sb a C)"
    using meta u lay by (auto simp: meta_used_def fs_layout_def)
  have "free_blocks sb (mark sb a C) = free_blocks sb C - {a}" using u by (auto simp: free_blocks_def)
  moreover have "a \<in> free_blocks sb C" "finite (free_blocks sb C)" using f(1,2) by (simp_all add: free_blocks_def)
  ultimately show "card (free_blocks sb C) = Suc (card (free_blocks sb (mark sb a C)))" using card_Suc_Diff1 [of "free_blocks sb C" a] by metis
qed

text \<open>Writing into a data block changes no bit.\<close>

lemma used_data_write:
  assumes "fs_layout e sb" "data_start sb \<le> k" "b < unat (sb_size sb)"
  shows "used sb (C(k := c)) b = used sb C b"
  using bitmap_block_bound(1) [OF assms(1,3)] assms(2) by (simp add: used_def)

lemma data_block_write:
  assumes "fs_layout e sb" "data_start sb \<le> k"
  shows "data_block sb (C(k := c)) j = data_block sb C j" "meta_used sb (C(k := c)) = meta_used sb C" "free_blocks sb (C(k := c)) = free_blocks sb C"
proof -
  have u: "used sb (C(k := c)) b = used sb C b" if "b < unat (sb_size sb)" for b using used_data_write [OF assms that] .
  then show "data_block sb (C(k := c)) j = data_block sb C j" "free_blocks sb (C(k := c)) = free_blocks sb C"
    by (auto simp: data_block_def free_blocks_def)
  show "meta_used sb (C(k := c)) = meta_used sb C" using u assms(1) by (auto simp: meta_used_def fs_layout_def)
qed

section \<open>An inode that gets one more block\<close>

text \<open>The blocks of an inode that has \<open>n\<close> blocks.\<close>

definition owned :: "(nat \<Rightarrow> byte list) \<Rightarrow> inode \<Rightarrow> nat \<Rightarrow> nat set" where
  "owned C i n = faddr C i ` {..<n} \<union> (if NDIRECT < n then {indirect i} else {})"

text \<open>The inode \<open>i\<close> with \<open>n\<close> blocks has become \<open>i'\<close> with one more, which is clear.\<close>

definition extends :: "superblock \<Rightarrow> (nat \<Rightarrow> byte list) \<Rightarrow> inode \<Rightarrow> nat \<Rightarrow> (nat \<Rightarrow> byte list) \<Rightarrow> inode \<Rightarrow> bool" where
  "extends sb C i n C' i' \<longleftrightarrow>
     inode_ok sb C' i' (Suc n) \<and> meta_used sb C' \<and> C' (faddr C' i' n) = replicate BSIZE 0 \<and>
     owned C' i' (Suc n) \<subseteq> owned C i n \<union> {k. \<not> data_block sb C k} \<and>
     (\<forall>bn < n. faddr C' i' bn = faddr C i bn) \<and>
     (\<forall>k. data_block sb C k \<and> (NDIRECT < n \<longrightarrow> k \<noteq> indirect i) \<longrightarrow> C' k = C k) \<and>
     (\<forall>k < unat (sb_bmapstart sb). C' k = C k) \<and> (\<forall>k. data_block sb C k \<longrightarrow> data_block sb C' k) \<and>
     card (free_blocks sb C) \<le> card (free_blocks sb C') + 2 \<and> i'\<lparr>i_addrs := i_addrs i\<rparr> = i"

lemma extends_direct:
  assumes lay: "fs_layout e sb" and meta: "meta_used sb C" and a: "first_free sb C = Some a" and len: "\<And>k. length (C k) = BSIZE"
    and ok: "inode_ok sb C i n" and n: "n < NDIRECT" and i': "i' = i\<lparr>i_addrs := (i_addrs i)(n := of_nat a)\<rparr>"
  shows "extends sb C i n (mark sb a C) i'" "faddr (mark sb a C) i' n = a"
proof -
  note f = first_free_block [OF lay meta a] and m = mark_facts [of e sb C a, OF lay meta a len]
  have fn: "faddr (mark sb a C) i' n = a" using n f(6) by (simp add: faddr_def i')
  then show "faddr (mark sb a C) i' n = a" .
  have old: "faddr (mark sb a C) i' bn = faddr C i bn" if "bn < n" for bn using that n by (simp add: faddr_def i')
  have db: "data_block sb C (faddr C i bn)" if "bn < n" for bn using ok that by (simp add: inode_ok_def)
  have "inode_ok sb (mark sb a C) i' (Suc n)" unfolding inode_ok_def
  proof (intro conjI)
    show "Suc n \<le> MAXFILE" using n by (simp add: MAXFILE_def)
    show "\<forall>bn < Suc n. data_block sb (mark sb a C) (faddr (mark sb a C) i' bn)" using old db fn m(2) by (auto simp: less_Suc_eq)
    have "inj_on (faddr (mark sb a C) i') {..<n} \<longleftrightarrow> inj_on (faddr C i) {..<n}" using old by (intro inj_on_cong) simp
    then show "inj_on (faddr (mark sb a C) i') {..<Suc n}"
      using ok old fn db m(4) by (auto simp: inode_ok_def lessThan_Suc image_iff)
    show "\<forall>bn. Suc n \<le> bn \<and> bn < NDIRECT \<longrightarrow> i_addrs i' bn = 0" using ok by (auto simp: inode_ok_def i')
    show "if Suc n \<le> NDIRECT then i_addrs i' NDIRECT = 0
      else data_block sb (mark sb a C) (indirect i') \<and> indirect i' \<notin> faddr (mark sb a C) i' ` {..<Suc n} \<and>
        (\<forall>bn. Suc n \<le> bn \<and> bn < MAXFILE \<longrightarrow> faddr (mark sb a C) i' bn = 0)"
      using ok n by (auto simp: inode_ok_def i')
  qed
  moreover have "owned (mark sb a C) i' (Suc n) \<subseteq> owned C i n \<union> {k. \<not> data_block sb C k}"
    using n old fn m(4) by (auto simp: owned_def less_Suc_eq)
  ultimately show "extends sb C i n (mark sb a C) i'"
    using m old fn by (auto simp: extends_def i')
qed

text \<open>An inode whose indirect block exists, perhaps without entries.\<close>

definition inode_ind :: "superblock \<Rightarrow> (nat \<Rightarrow> byte list) \<Rightarrow> inode \<Rightarrow> nat \<Rightarrow> bool" where
  "inode_ind sb C i n \<longleftrightarrow>
     NDIRECT \<le> n \<and> n \<le> MAXFILE \<and> (\<forall>bn < n. data_block sb C (faddr C i bn)) \<and> inj_on (faddr C i) {..<n} \<and>
     data_block sb C (indirect i) \<and> indirect i \<notin> faddr C i ` {..<n} \<and>
     (\<forall>bn. n \<le> bn \<and> bn < MAXFILE \<longrightarrow> faddr C i bn = 0)"

lemma inode_ok_ind: "NDIRECT < n \<Longrightarrow> inode_ok sb C i n \<longleftrightarrow> inode_ind sb C i n"
  by (auto simp: inode_ok_def inode_ind_def)

lemma get32_zeros: "get32 (replicate BSIZE 0) k = 0"
proof -
  have "le_word (replicate j 0) = (0 :: u32)" for j by (induction j) simp_all
  then show ?thesis by (simp add: get32_def)
qed

lemma inode_ind_new:
  assumes lay: "fs_layout e sb" and meta: "meta_used sb C" and a: "first_free sb C = Some a" and len: "\<And>k. length (C k) = BSIZE"
    and ok: "inode_ok sb C i NDIRECT" and i': "i' = i\<lparr>i_addrs := (i_addrs i)(NDIRECT := of_nat a)\<rparr>"
  shows "inode_ind sb (mark sb a C) i' NDIRECT" "indirect i' = a" "\<And>bn. bn < NDIRECT \<Longrightarrow> faddr (mark sb a C) i' bn = faddr C i bn"
proof -
  note f = first_free_block [OF lay meta a] and m = mark_facts [of e sb C a, OF lay meta a len]
  show ia: "indirect i' = a" using f(6) by (simp add: indirect_def i')
  show old: "faddr (mark sb a C) i' bn = faddr C i bn" if "bn < NDIRECT" for bn using that by (simp add: faddr_def i')
  have db: "data_block sb C (faddr C i bn)" if "bn < NDIRECT" for bn using ok that by (simp add: inode_ok_def)
  have "faddr (mark sb a C) i' bn = 0" if "NDIRECT \<le> bn" for bn
    using that ia m(6) get32_zeros by (simp add: faddr_def indirect_def)
  moreover have "inj_on (faddr (mark sb a C) i') {..<NDIRECT} \<longleftrightarrow> inj_on (faddr C i) {..<NDIRECT}" using old by (intro inj_on_cong) simp
  moreover have "faddr (mark sb a C) i' ` {..<NDIRECT} = faddr C i ` {..<NDIRECT}" using old by (intro image_cong) auto
  moreover have "a \<notin> faddr C i ` {..<NDIRECT}" using m(4) db by blast
  ultimately show "inode_ind sb (mark sb a C) i' NDIRECT"
    using ok old db m(2) ia by (simp add: inode_ind_def inode_ok_def MAXFILE_def)
qed

lemma inode_ind_grow:
  assumes lay: "fs_layout e sb" and meta: "meta_used sb C" and a: "first_free sb C = Some a" and len: "\<And>k. length (C k) = BSIZE"
    and ok: "inode_ind sb C i n" and n: "n < MAXFILE"
    and C': "C' = (mark sb a C)(indirect i := put32 (mark sb a C (indirect i)) (4 * (n - NDIRECT)) (of_nat a))"
  shows "inode_ok sb C' i (Suc n)" "faddr C' i n = a" "C' a = replicate BSIZE 0" "meta_used sb C'"
    "\<And>bn. bn < n \<Longrightarrow> faddr C' i bn = faddr C i bn" "\<And>k. data_block sb C k \<Longrightarrow> k \<noteq> indirect i \<Longrightarrow> C' k = C k"
    "\<And>k. k < unat (sb_bmapstart sb) \<Longrightarrow> C' k = C k" "\<And>k. data_block sb C k \<Longrightarrow> data_block sb C' k"
    "card (free_blocks sb C) = Suc (card (free_blocks sb C'))"
proof -
  let ?k = "indirect i"
  note f = first_free_block [OF lay meta a] and m = mark_facts [of e sb C a, OF lay meta a len]
  have k: "data_block sb C ?k" "NDIRECT \<le> n" "?k \<notin> faddr C i ` {..<n}" using ok by (auto simp: inode_ind_def)
  have ka: "?k \<noteq> a" "mark sb a C ?k = C ?k" using m(3,4) k(1) by auto
  have ks: "data_start sb \<le> ?k" using k(1) by (simp add: data_block_def)
  note w = data_block_write [OF lay ks]
  have fit: "4 * (bn - NDIRECT) + 4 \<le> length (C ?k)" if "bn < MAXFILE" "NDIRECT \<le> bn" for bn
    using that len by (simp add: MAXFILE_def NINDIRECT_def BSIZE_nat)
  have ind: "faddr C' i bn = (if bn = n then a else faddr C i bn)" if "bn < MAXFILE" for bn
  proof (cases "bn < NDIRECT")
    case True
    then show ?thesis using k(2) by (simp add: faddr_def)
  next
    case False
    have "C' ?k = put32 (C ?k) (4 * (n - NDIRECT)) (of_nat a)" using ka by (simp add: C')
    moreover have "get32 (put32 (C ?k) (4 * (n - NDIRECT)) (of_nat a)) (4 * (bn - NDIRECT)) =
        (if bn = n then of_nat a else get32 (C ?k) (4 * (bn - NDIRECT)))"
      using False k(2) fit [OF that] fit [OF n k(2)] by (auto simp: get32_put32_same intro!: get32_put32_other)
    ultimately show ?thesis using False f(6) by (simp add: faddr_def indirect_def [symmetric])
  qed
  show fn: "faddr C' i n = a" using ind [OF n] by simp
  show old: "faddr C' i bn = faddr C i bn" if "bn < n" for bn using ind [of bn] that n by simp
  show "C' a = replicate BSIZE 0" using m(6) ka by (simp add: C')
  show "meta_used sb C'" using m(7) w(2) by (simp add: C')
  show data: "data_block sb C j \<Longrightarrow> j \<noteq> ?k \<Longrightarrow> C' j = C j" for j using m(3) by (simp add: C')
  show "j < unat (sb_bmapstart sb) \<Longrightarrow> C' j = C j" for j using m(5) ks by (auto simp: C' data_start_def)
  show dm: "data_block sb C j \<Longrightarrow> data_block sb C' j" for j using m(2) w(1) by (simp add: C')
  show "card (free_blocks sb C) = Suc (card (free_blocks sb C'))" using m(8) w(3) by (simp add: C')
  have "data_block sb C' a" using m(2) w(1) by (simp add: C')
  moreover have "inj_on (faddr C' i) {..<n} \<longleftrightarrow> inj_on (faddr C i) {..<n}" using old by (intro inj_on_cong) simp
  moreover have "faddr C i bn \<noteq> a" if "bn < n" for bn using ok that m(4) by (auto simp: inode_ind_def)
  ultimately have "inode_ind sb C' i (Suc n)"
    using ok n k ka fn old dm ind by (auto simp: inode_ind_def lessThan_Suc less_Suc_eq image_iff)
  then show "inode_ok sb C' i (Suc n)" using k(2) by (subst inode_ok_ind) simp_all
qed

section \<open>\<open>bmap\<close> with allocation\<close>

lemma f_length:
  assumes "(\<And>k. length (C k) = BSIZE) \<Longrightarrow> runs_to (ftx e sb I Y C L H) m Q E"
  shows "runs_to (ftx e sb I Y C L H) m Q E"
proof (rule runs_toI)
  fix s
  assume s: "ftx e sb I Y C L H s"
  show "(\<exists>x t. m s = Ok x t \<and> Q x t) \<or> (\<exists>t. m s = Stop Switched t \<and> E t)"
    by (rule runs_toD [OF assms [OF ftx_length [OF s]] s])
qed

lemma mark_log_simps: "length (mark_log sb a L) \<le> length L + 2" "set (mark_log sb a L) = insert a (insert (bitmap_block sb a) (set L))"
  using length_log_add [of a "log_add (bitmap_block sb a) L"] length_log_add [of "bitmap_block sb a" L] by (auto simp: mark_log_def)

lemma log_room_length: "log_room e L H (j + d) \<Longrightarrow> length L' \<le> length L + d \<Longrightarrow> log_room e L' H j"
  by (auto simp: log_room_def)

text \<open>No block from the bit map on is held.\<close>

definition quiet_data :: "superblock \<Rightarrow> (nat \<Rightarrow> nat option) \<Rightarrow> bool" where
  "quiet_data sb H \<longleftrightarrow> (\<forall>k \<ge> unat (sb_bmapstart sb). H k = None)"

lemma quiet_dataD:
  assumes "quiet_data sb H"
  shows "data_start sb \<le> k \<Longrightarrow> H k = None" "H (bitmap_block sb b) = None" "data_block sb C k \<Longrightarrow> H k = None"
  using assms by (auto simp: quiet_data_def data_start_def bitmap_block_def data_block_def)

lemma bmap_entry_grow:
  assumes lay: "fs_layout e sb" and meta: "meta_used sb C" and a: "first_free sb C = Some a"
    and ok: "inode_ind sb C i n" and n: "n < MAXFILE" and dev: "i_dev i = e_devno e" and H: "quiet_data sb H" and room: "log_room e L H 4"
    and C': "C' = (mark sb a C)(indirect i := put32 (mark sb a C (indirect i)) (4 * (n - NDIRECT)) (of_nat a))"
  shows "runs_to (ftx e sb I Y C L (H(indirect i \<mapsto> bp))) (bmap_entry i (n - NDIRECT) bp)
    (\<lambda>r s. r = of_nat a \<and> ftx e sb I Y C' (log_add (indirect i) (mark_log sb a L)) H s) (e_cut e)"
proof -
  let ?k = "indirect i" and ?H = "H(indirect i \<mapsto> bp)" and ?L = "log_add (indirect i) (mark_log sb a L)"
  let ?Q = "\<lambda>r s. r = of_nat a \<and> ftx e sb I Y C' ?L H s" and ?g = "\<lambda>d. put32 d (4 * (n - NDIRECT)) (of_nat a)"
  have k: "data_block sb C ?k" "NDIRECT \<le> n" using ok by (auto simp: inode_ind_def)
  note f = first_free_block [OF lay meta a] and kb = data_block_bound [OF lay k(1)]
  have ka: "?k \<noteq> a" using k(1) f(1) by (auto simp: data_block_def)
  have H': "H(?k := None) = H" using quiet_dataD(3) [OF H k(1)] by auto
  have room': "log_room e L ?H 3" using log_room_hold [of e L H 3] room by (simp add: eval_nat_numeral)
  have zero: "get32 (C ?k) (4 * (n - NDIRECT)) = (0 :: u32)"
  proof -
    have "faddr C i n = 0" using ok n by (auto simp: inode_ind_def)
    then show ?thesis using k(2) by (simp add: faddr_def indirect_def unsigned_eq_0_iff)
  qed
  have ba: "runs_to (ftx e sb I Y C L ?H) (balloc (e_devno e)) (\<lambda>r s. r = of_nat a \<and> ftx e sb I Y (mark sb a C) (mark_log sb a L) ?H s) (e_cut e)"
  proof (rule balloc_spec [OF lay meta a _ _ room'])
    show "?H a = None" using ka quiet_dataD(1) [OF H f(3)] by simp
    show "?H (bitmap_block sb b) = None" if "b < unat (sb_size sb)" for b using kb(3) [of b] that quiet_dataD(2) [OF H] by auto
  qed
  have fit: "4 * (n - NDIRECT) + 4 \<le> BSIZE" using n k(2) by (simp add: MAXFILE_def NINDIRECT_def BSIZE_nat)
  have wr: "runs_to (ftx e sb I Y (mark sb a C) (mark_log sb a L) ?H) (seq (modify_buf bp (\<lambda>x. x\<lparr>b_data := ?g (b_data x)\<rparr>)) (seq (log_write bp) (return (of_nat a :: u32))))
      (\<lambda>r s. r = of_nat a \<and> ftx e sb I Y C' ?L ?H s) (e_cut e)"
    unfolding C'
    by (rule runs_to_seq [OF f_set_data [of ?H ?k bp "mark sb a C" ?g] runs_to_seq [OF f_log_write [of ?H ?k bp] runs_to_return]])
       (use kb(1) fit log_room_length [of e L ?H 1 2 "mark_log sb a L"] mark_log_simps(1) [of sb a L] room' in \<open>auto simp: numeral_3_eq_3\<close>)
  have rel: "runs_to (ftx e sb I Y C' ?L ?H) (seq (brelse bp) (return (of_nat a :: u32))) ?Q (e_cut e)"
  proof (rule runs_to_seq [OF f_brelse [of ?H ?k bp] runs_to_return])
    show "of_nat a = of_nat a \<and> ftx e sb I Y C' ?L H s" if "ftx e sb I Y C' ?L (?H(?k := None)) s" for s using that H' by simp
  qed simp_all
  show ?thesis
    by (rule f_get_data [of ?H ?k bp], simp)
       (simp add: zero dev, rule runs_to_bind_value, rule runs_to_bind_value [OF ba], rule wr, rule rel)
qed

text \<open>The three cases: a direct block, the first block behind the indirect block, a later one.\<close>

definition grown :: "env \<Rightarrow> superblock \<Rightarrow> (nat \<Rightarrow> inode) \<Rightarrow> nat \<Rightarrow> 'z \<Rightarrow> (nat \<Rightarrow> byte list) \<Rightarrow> nat list \<Rightarrow> (nat \<Rightarrow> nat option) \<Rightarrow> nat \<Rightarrow>
    u32 \<Rightarrow> 'z kfs_scheme \<Rightarrow> bool" where
  "grown e sb I ip Y C L H n r s \<longleftrightarrow>
     (\<exists>C' i' L'. r = of_nat (faddr C' i' n) \<and> extends sb C (I ip) n C' i' \<and> length L' \<le> length L + 5 \<and>
        ftx e sb (I(ip := i')) Y C' L' H s)"

lemma bmap_grow_direct:
  assumes lay: "fs_layout e sb" and meta: "meta_used sb C" and a: "first_free sb C = Some a" and len: "\<And>k. length (C k) = BSIZE"
    and ok: "inode_ok sb C (I ip) n" and n: "n < NDIRECT" and dev: "i_dev (I ip) = e_devno e" and H: "quiet_data sb H" and room: "log_room e L H 3"
  shows "runs_to (ftx e sb I Y C L H) (bmap ip (of_nat n)) (grown e sb I ip Y C L H n) (e_cut e)"
proof -
  let ?i = "(I ip)\<lparr>i_addrs := (i_addrs (I ip))(n := of_nat a)\<rparr>"
  note f = first_free_block [OF lay meta a] and x = extends_direct [of e sb C a "I ip" n ?i, OF lay meta a len ok n refl]
  have ba: "runs_to (ftx e sb I Y C L H) (balloc (e_devno e)) (\<lambda>r s. r = of_nat a \<and> ftx e sb I Y (mark sb a C) (mark_log sb a L) H s) (e_cut e)"
    using quiet_dataD [OF H] f(3) by (intro balloc_spec [OF lay meta a _ _ room]) auto
  have "grown e sb I ip Y C L H n (of_nat a) s" if "ftx e sb (I(ip := ?i)) Y (mark sb a C) (mark_log sb a L) H s" for s
    unfolding grown_def using that x mark_log_simps(1) [of sb a L]
    by (intro exI [of _ "mark sb a C"] exI [of _ ?i] exI [of _ "mark_log sb a L"]) simp
  then have "runs_to (ftx e sb I Y (mark sb a C) (mark_log sb a L) H)
      (seq (modify_inode ip (\<lambda>i. i\<lparr>i_addrs := (i_addrs i)(n := of_nat a)\<rparr>)) (return (of_nat a))) (grown e sb I ip Y C L H n) (e_cut e)"
    by (intro runs_to_seq [OF modify_inode_f runs_to_return])
  moreover have "i_addrs (I ip) n = 0" using ok n by (simp add: inode_ok_def)
  ultimately show ?thesis
    unfolding bmap_direct [OF n] using dev by (intro runs_to_get_inode) (simp, rule runs_to_bind_value [OF ba])
qed

lemma bmap_grow_indirect:
  assumes lay: "fs_layout e sb" and meta: "meta_used sb C" and a: "first_free sb C = Some a" and len: "\<And>k. length (C k) = BSIZE"
    and ok: "inode_ind sb C (I ip) n" and n: "n < MAXFILE" and dev: "i_dev (I ip) = e_devno e" and H: "quiet_data sb H" and room: "log_room e L H 5"
    and Q: "\<And>C' L' s. inode_ok sb C' (I ip) (Suc n) \<Longrightarrow> faddr C' (I ip) n = a \<Longrightarrow> C' a = replicate BSIZE 0 \<Longrightarrow> meta_used sb C' \<Longrightarrow>
      (\<And>bn. bn < n \<Longrightarrow> faddr C' (I ip) bn = faddr C (I ip) bn) \<Longrightarrow> (\<And>k. data_block sb C k \<Longrightarrow> k \<noteq> indirect (I ip) \<Longrightarrow> C' k = C k) \<Longrightarrow>
      (\<And>k. k < unat (sb_bmapstart sb) \<Longrightarrow> C' k = C k) \<Longrightarrow> (\<And>k. data_block sb C k \<Longrightarrow> data_block sb C' k) \<Longrightarrow>
      card (free_blocks sb C) = Suc (card (free_blocks sb C')) \<Longrightarrow> length L' \<le> length L + 3 \<Longrightarrow> ftx e sb I Y C' L' H s \<Longrightarrow> Q (of_nat a) s"
  shows "runs_to (ftx e sb I Y C L H) (bind (bread (e_devno e) (of_nat (indirect (I ip)))) (bmap_entry (I ip) (n - NDIRECT))) Q (e_cut e)"
proof (rule f_bread_bind)
  let ?k = "indirect (I ip)" and ?L = "log_add (indirect (I ip)) (mark_log sb a L)"
  define C' where "C' = (mark sb a C)(?k := put32 (mark sb a C ?k) (4 * (n - NDIRECT)) (of_nat a))"
  have k: "data_block sb C ?k" using ok by (simp add: inode_ind_def)
  show "?k < 2 ^ 31" "H ?k = None" using data_block_bound(2) [OF lay k] quiet_dataD(3) [OF H k] .
  show "log_room e L H 0" using log_room_le [OF room] by simp
  fix bp
  have room4: "log_room e L H 4" using log_room_le [OF room] by simp
  have len': "length ?L \<le> length L + 3" using length_log_add [of ?k "mark_log sb a L"] mark_log_simps(1) [of sb a L] by simp
  note grow = inode_ind_grow [of e sb C a "I ip" n C', OF lay meta a len ok n C'_def]
  show "runs_to (ftx e sb I Y C L (H(?k \<mapsto> bp))) (bmap_entry (I ip) (n - NDIRECT) bp) Q (e_cut e)"
    by (rule runs_to_conseq [OF bmap_entry_grow [OF lay meta a ok n dev H room4 C'_def]])
       (use Q [OF grow len'] in auto)
qed

lemma bmap_grow_later:
  assumes lay: "fs_layout e sb" and meta: "meta_used sb C" and a: "first_free sb C = Some a" and len: "\<And>k. length (C k) = BSIZE"
    and ok: "inode_ok sb C (I ip) n" and n: "NDIRECT < n" "n < MAXFILE" and dev: "i_dev (I ip) = e_devno e" and H: "quiet_data sb H" and room: "log_room e L H 5"
  shows "runs_to (ftx e sb I Y C L H) (bmap ip (of_nat n)) (grown e sb I ip Y C L H n) (e_cut e)"
proof -
  have ind: "inode_ind sb C (I ip) n" using ok n by (simp add: inode_ok_ind)
  then have k: "data_block sb C (indirect (I ip))" by (simp add: inode_ind_def)
  have k0: "i_addrs (I ip) NDIRECT \<noteq> 0" "i_addrs (I ip) NDIRECT = of_nat (indirect (I ip))"
    using data_block_bound(4) [OF lay k] by (auto simp: indirect_def)
  have "runs_to (ftx e sb I Y C L H) (bind (bread (e_devno e) (of_nat (indirect (I ip)))) (bmap_entry (I ip) (n - NDIRECT)))
      (grown e sb I ip Y C L H n) (e_cut e)"
  proof (rule bmap_grow_indirect [of e sb C a I ip n H L, OF lay meta a len ind n(2) dev H room])
    fix C' L' s
    assume "inode_ok sb C' (I ip) (Suc n)" "faddr C' (I ip) n = a" "C' a = replicate BSIZE 0" "meta_used sb C'"
      "\<And>bn. bn < n \<Longrightarrow> faddr C' (I ip) bn = faddr C (I ip) bn" "\<And>k. data_block sb C k \<Longrightarrow> k \<noteq> indirect (I ip) \<Longrightarrow> C' k = C k"
      "\<And>k. k < unat (sb_bmapstart sb) \<Longrightarrow> C' k = C k" "\<And>k. data_block sb C k \<Longrightarrow> data_block sb C' k"
      "card (free_blocks sb C) = Suc (card (free_blocks sb C'))" "length L' \<le> length L + 3" "ftx e sb I Y C' L' H s"
    moreover from this have "owned C' (I ip) (Suc n) \<subseteq> owned C (I ip) n \<union> {k. \<not> data_block sb C k}"
      using n mark_facts(4) [of e sb C a a, OF lay meta a len] by (auto simp: owned_def less_Suc_eq)
    ultimately show "grown e sb I ip Y C L H n (of_nat a) s"
      unfolding grown_def using n by (intro exI [of _ C'] exI [of _ "I ip"] exI [of _ L']) (simp add: extends_def)
  qed
  then show ?thesis
    using n k0 dev by (subst bmap_indirect) (auto intro!: runs_to_get_inode runs_to_bind_return)
qed

lemma bmap_grow_first:
  assumes lay: "fs_layout e sb" and meta: "meta_used sb C" and len: "\<And>k. length (C k) = BSIZE"
    and ok: "inode_ok sb C (I ip) NDIRECT" and dev: "i_dev (I ip) = e_devno e" and H: "quiet_data sb H" and room: "log_room e L H 8"
    and a: "first_free sb C = Some k" "first_free sb (mark sb k C) = Some a"
  shows "runs_to (ftx e sb I Y C L H) (bmap ip (of_nat NDIRECT)) (grown e sb I ip Y C L H NDIRECT) (e_cut e)"
proof -
  let ?g = "\<lambda>i. i\<lparr>i_addrs := (i_addrs i)(NDIRECT := of_nat k)\<rparr>"
  let ?i = "?g (I ip)" and ?I = "I(ip := ?g (I ip))" and ?C = "mark sb k C" and ?L = "mark_log sb k L"
  note f = first_free_block [OF lay meta a(1)] and m = mark_facts [of e sb C k, OF lay meta a(1) len]
  note ind = inode_ind_new [of e sb C k "I ip" ?i, OF lay meta a(1) len ok refl]
  have ba: "runs_to (ftx e sb I Y C L H) (balloc (e_devno e)) (\<lambda>r s. r = of_nat k \<and> ftx e sb I Y ?C ?L H s) (e_cut e)"
    using quiet_dataD [OF H] f(3) log_room_le [OF room] by (intro balloc_spec [OF lay meta a(1)]) auto
  have mo: "runs_to (ftx e sb I Y ?C ?L H) (seq (modify_inode ip ?g) (return (of_nat k :: u32))) (\<lambda>r s. r = of_nat k \<and> ftx e sb ?I Y ?C ?L H s) (e_cut e)"
    by (rule runs_to_seq [OF modify_inode_f runs_to_return]) (simp add: fun_upd_def)
  have room': "log_room e ?L H 5" using room mark_log_simps(1) [of sb k L] by (intro log_room_length [of e L H 5 2]) (auto intro: log_room_le)
  have len': "length (?C j) = BSIZE" for j using len by (simp add: mark_def)
  have "runs_to (ftx e sb ?I Y ?C ?L H) (bind (bread (e_devno e) (of_nat (indirect (?I ip)))) (bmap_entry (?I ip) (NDIRECT - NDIRECT)))
      (grown e sb I ip Y C L H NDIRECT) (e_cut e)"
  proof (rule bmap_grow_indirect [of e sb ?C a ?I ip NDIRECT H ?L, OF lay m(7) a(2) len' _ _ _ H room'])
    fix C' L' s
    assume p: "inode_ok sb C' (?I ip) (Suc NDIRECT)" "faddr C' (?I ip) NDIRECT = a" "C' a = replicate BSIZE 0" "meta_used sb C'"
      "\<And>bn. bn < NDIRECT \<Longrightarrow> faddr C' (?I ip) bn = faddr ?C (?I ip) bn" "\<And>j. data_block sb ?C j \<Longrightarrow> j \<noteq> indirect (?I ip) \<Longrightarrow> C' j = ?C j"
      "\<And>j. j < unat (sb_bmapstart sb) \<Longrightarrow> C' j = ?C j" "\<And>j. data_block sb ?C j \<Longrightarrow> data_block sb C' j"
      "card (free_blocks sb ?C) = Suc (card (free_blocks sb C'))" "length L' \<le> length ?L + 3" "ftx e sb ?I Y C' L' H s"
    have "C' j = C j" if "data_block sb C j" for j using p(6) [of j] m(2,3,4) [of j] that ind(2) by simp
    moreover have "owned C' ?i (Suc NDIRECT) \<subseteq> owned C (I ip) NDIRECT \<union> {k. \<not> data_block sb C k}"
      using p(2,5) ind(2,3) m(2) [of a] m(4) [of k] mark_facts(4) [of e sb ?C a a, OF lay m(7) a(2) len'] by (auto simp: owned_def less_Suc_eq)
    ultimately have "extends sb C (I ip) NDIRECT C' ?i" using p m ind(3) by (simp add: extends_def)
    then show "grown e sb I ip Y C L H NDIRECT (of_nat a) s"
      unfolding grown_def using p(2,10,11) mark_log_simps(1) [of sb k L]
      by (intro exI [of _ C'] exI [of _ ?i] exI [of _ L']) simp
  qed (use ind dev in \<open>simp_all add: MAXFILE_nat\<close>)
  then have "runs_to (ftx e sb ?I Y ?C ?L H) (bind (bread (e_devno e) (of_nat k)) (bmap_entry (I ip) (NDIRECT - NDIRECT)))
      (grown e sb I ip Y C L H NDIRECT) (e_cut e)" using ind(2) by (simp cong: if_cong)
  moreover have "i_addrs (I ip) NDIRECT = 0" "NDIRECT < MAXFILE" using ok by (simp_all add: inode_ok_def MAXFILE_def NINDIRECT_def BSIZE_def)
  ultimately show ?thesis
    using dev by (subst bmap_indirect)
      (auto intro!: runs_to_get_inode runs_to_bind_value [OF runs_to_bind_value [OF ba]] mo)
qed

lemma bmap_grow:
  assumes lay: "fs_layout e sb" and meta: "meta_used sb C" and ok: "inode_ok sb C (I ip) n" and n: "n < MAXFILE"
    and dev: "i_dev (I ip) = e_devno e" and H: "quiet_data sb H" and room: "log_room e L H 8" and free: "2 \<le> card (free_blocks sb C)"
  shows "runs_to (ftx e sb I Y C L H) (bmap ip (of_nat n)) (grown e sb I ip Y C L H n) (e_cut e)"
proof (rule f_length)
  assume len: "\<And>k. length (C k) = BSIZE"
  obtain k where k: "first_free sb C = Some k" using first_free_exists [of sb C] free by fastforce
  have "card (free_blocks sb (mark sb k C)) \<noteq> 0" using mark_facts(8) [of e sb C k, OF lay meta k len] free by simp
  then obtain a where a: "first_free sb (mark sb k C) = Some a" using first_free_exists [of sb "mark sb k C"] by fastforce
  consider "n < NDIRECT" | "n = NDIRECT" | "NDIRECT < n" by linarith
  then show "runs_to (ftx e sb I Y C L H) (bmap ip (of_nat n)) (grown e sb I ip Y C L H n) (e_cut e)"
  proof cases
    case 1
    then show ?thesis using bmap_grow_direct [of e sb C k I ip n H L, OF lay meta k len ok _ dev H] log_room_le [OF room] by simp
  next
    case 2
    then show ?thesis using bmap_grow_first [of e sb C I ip H L k a, OF lay meta len _ dev H room k a] ok by simp
  next
    case 3
    then show ?thesis using bmap_grow_later [of e sb C k I ip n H L, OF lay meta k len ok _ n dev H] log_room_le [OF room] by simp
  qed
qed

end
