(* ===== verification/FileSpec.thy ===== *)
theory FileSpec
  imports WriteSpec
begin

text \<open>
  A file as a list of bytes: \<open>writei\<close> (\<open>src/kernel/fs.c\<close>) replaces a piece of it, and extends it.
\<close>

section \<open>What a write does to the blocks\<close>

text \<open>
  The inode \<open>i\<close> with \<open>n\<close> blocks has become \<open>i'\<close> with \<open>n'\<close>. Its new blocks were free; a block in use
  that is not its own has kept its contents, as have the blocks before the bit map.
\<close>

definition writes :: "superblock \<Rightarrow> (nat \<Rightarrow> byte list) \<Rightarrow> inode \<Rightarrow> nat \<Rightarrow> (nat \<Rightarrow> byte list) \<Rightarrow> inode \<Rightarrow> nat \<Rightarrow> bool" where
  "writes sb C i n C' i' n' \<longleftrightarrow>
     inode_ok sb C' i' n' \<and> meta_used sb C' \<and> owned C' i' n' \<subseteq> owned C i n \<union> {k. \<not> data_block sb C k} \<and>
     (\<forall>k. data_block sb C k \<and> k \<notin> owned C i n \<longrightarrow> C' k = C k) \<and> (\<forall>k < unat (sb_bmapstart sb). C' k = C k) \<and>
     (\<forall>k. data_block sb C k \<longrightarrow> data_block sb C' k) \<and> i'\<lparr>i_addrs := i_addrs i\<rparr> = i"

lemma writes_refl: "inode_ok sb C i n \<Longrightarrow> meta_used sb C \<Longrightarrow> writes sb C i n C i n"
  by (auto simp: writes_def)

lemma writes_trans:
  assumes "writes sb C i n C1 i1 n1" "writes sb C1 i1 n1 C2 i2 n2"
  shows "writes sb C i n C2 i2 n2"
proof -
  have "i2\<lparr>i_addrs := i_addrs i\<rparr> = (i2\<lparr>i_addrs := i_addrs i1\<rparr>)\<lparr>i_addrs := i_addrs i\<rparr>" by simp
  also have "\<dots> = i" using assms unfolding writes_def by metis
  finally have "i2\<lparr>i_addrs := i_addrs i\<rparr> = i" .
  moreover have "owned C2 i2 n2 \<subseteq> owned C i n \<union> {k. \<not> data_block sb C k}" using assms unfolding writes_def by blast
  moreover have "C2 k = C k" if "data_block sb C k" "k \<notin> owned C i n" for k
  proof -
    have "data_block sb C1 k" "k \<notin> owned C1 i1 n1" "C1 k = C k" using assms(1) that unfolding writes_def by blast+
    then show ?thesis using assms(2) unfolding writes_def by simp
  qed
  ultimately show ?thesis using assms unfolding writes_def by simp
qed

lemma writes_inode:
  assumes "writes sb C i n C' i' n'"
  shows "i_dev i' = i_dev i" "i_inum i' = i_inum i" "i_size i' = i_size i" "i_type i' = i_type i"
proof -
  have i: "i'\<lparr>i_addrs := i_addrs i\<rparr> = i" using assms by (simp add: writes_def)
  show "i_dev i' = i_dev i" "i_inum i' = i_inum i" "i_size i' = i_size i" "i_type i' = i_type i"
    using arg_cong [OF i, of i_dev] arg_cong [OF i, of i_inum] arg_cong [OF i, of i_size] arg_cong [OF i, of i_type] by simp_all
qed

lemma block_below: "j < n * BSIZE \<Longrightarrow> j div BSIZE < n"
  by (simp add: less_mult_imp_div_less)

lemma inode_ok_block:
  assumes "inode_ok sb C i n" "bn < n"
  shows "data_block sb C (faddr C i bn)" "NDIRECT < n \<Longrightarrow> faddr C i bn \<noteq> indirect i"
proof -
  show "data_block sb C (faddr C i bn)" using assms by (simp add: inode_ok_def)
  assume "NDIRECT < n"
  then have "indirect i \<notin> faddr C i ` {..<n}" using assms(1) by (simp add: inode_ok_def)
  then show "faddr C i bn \<noteq> indirect i" using assms(2) by (metis image_eqI lessThan_iff)
qed

lemma extends_writes:
  assumes ok: "inode_ok sb C i n" and x: "extends sb C i n C' i'"
  shows "writes sb C i n C' i' (Suc n)" "\<And>j. j < n * BSIZE \<Longrightarrow> fbyte C' i' j = fbyte C i j"
proof -
  show "writes sb C i n C' i' (Suc n)"
    using x unfolding writes_def extends_def owned_def by auto
  fix j
  assume "j < n * BSIZE"
  then have b: "j div BSIZE < n" by (rule block_below)
  then show "fbyte C' i' j = fbyte C i j" using x inode_ok_block [OF ok b] by (auto simp: extends_def fbyte_def)
qed

text \<open>A piece of one block is written.\<close>

lemma block_write:
  assumes lay: "fs_layout e sb" and ok: "inode_ok sb C i n" and meta: "meta_used sb C" and b: "o' div BSIZE < n" and len: "\<And>k. length (C k) = BSIZE"
    and m: "o' mod BSIZE + length bs \<le> BSIZE"
    and C': "C' = C(faddr C i (o' div BSIZE) := put_bytes (C (faddr C i (o' div BSIZE))) (o' mod BSIZE) bs)"
  shows "writes sb C i n C' i n" "free_blocks sb C' = free_blocks sb C"
    "j < n * BSIZE \<Longrightarrow> fbyte C' i j = (if o' \<le> j \<and> j < o' + length bs then bs ! (j - o') else fbyte C i j)"
proof -
  let ?k = "faddr C i (o' div BSIZE)"
  note k = inode_ok_block [OF ok b]
  then have ks: "data_start sb \<le> ?k" by (simp add: data_block_def)
  note w = data_block_write [OF lay ks]
  have fa: "faddr C' i bn = faddr C i bn" if "bn < NDIRECT \<or> NDIRECT < n" for bn
    using that k(2) by (auto simp: faddr_def C' indirect_def)
  then have fn: "faddr C' i bn = faddr C i bn" if "bn < n" for bn using fa [of bn] that by (cases "bn < NDIRECT") auto
  have "inj_on (faddr C' i) {..<n} \<longleftrightarrow> inj_on (faddr C i) {..<n}" using fn by (intro inj_on_cong) simp
  moreover have im: "faddr C' i ` {..<n} = faddr C i ` {..<n}" using fn by (intro image_cong) auto
  ultimately have "inode_ok sb C' i n" using ok fn fa w(1) by (auto simp: inode_ok_def C')
  moreover have "owned C' i n = owned C i n" using im by (simp add: owned_def)
  moreover have "?k \<in> owned C i n" using b by (auto simp: owned_def)
  ultimately show "writes sb C i n C' i n" using meta w ks by (auto simp: writes_def C' data_start_def)
  show "free_blocks sb C' = free_blocks sb C" using w(3) by (simp add: C')
  assume "j < n * BSIZE"
  then have j: "j div BSIZE < n" by (rule block_below)
  show "fbyte C' i j = (if o' \<le> j \<and> j < o' + length bs then bs ! (j - o') else fbyte C i j)"
  proof (cases "o' \<le> j \<and> j < o' + length bs")
    case True
    then obtain d where d: "j = o' + d" "d < length bs" by (metis le_add_diff_inverse add_less_cancel_left)
    note p = piece_div_mod [OF m d(2)]
    show ?thesis using fn [OF j] m len p d(2) unfolding fbyte_def C' d(1) by (simp add: nth_put_bytes)
  next
    case False
    have "C' (faddr C i (j div BSIZE)) ! (j mod BSIZE) = C (faddr C i (j div BSIZE)) ! (j mod BSIZE)"
    proof (cases "j div BSIZE = o' div BSIZE")
      case True
      then have "\<not> (o' mod BSIZE \<le> j mod BSIZE \<and> j mod BSIZE < o' mod BSIZE + length bs)"
        using False by (metis add_le_cancel_left add_less_cancel_left div_mult_mod_eq group_cancel.add2 add.assoc)
      then show ?thesis using True m len BSIZE_nat(2) by (auto simp: C' nth_put_bytes)
    next
      case False
      then have "faddr C i (j div BSIZE) \<noteq> ?k" using ok j b by (auto simp: inode_ok_def inj_on_def)
      then show ?thesis by (simp add: C')
    qed
    then show ?thesis using False fn [OF j] by (auto simp: fbyte_def)
  qed
qed

section \<open>One round of \<open>writei\<close>\<close>

text \<open>\<open>bmap\<close> on a block of the file or on the one after the last.\<close>

lemma bmap_any:
  assumes lay: "fs_layout e sb" and meta: "meta_used sb C" and ok: "inode_ok sb C (I ip) n" and b: "b \<le> n" "b < MAXFILE"
    and dev: "i_dev (I ip) = e_devno e" and H: "quiet_data sb H" and room: "log_room e L H 8" and free: "2 \<le> card (free_blocks sb C)"
  shows "runs_to (ftx e sb I Y C L H) (bmap ip (of_nat b))
    (\<lambda>r s. \<exists>C' i' L'. r = of_nat (faddr C' i' b) \<and> writes sb C (I ip) n C' i' (max n (Suc b)) \<and> (\<forall>j < n * BSIZE. fbyte C' i' j = fbyte C (I ip) j) \<and>
      card (free_blocks sb C) \<le> card (free_blocks sb C') + 2 \<and> length L' \<le> length L + 5 \<and> ftx e sb (I(ip := i')) Y C' L' H s) (e_cut e)"
    (is "runs_to _ _ ?Q _")
proof (cases "b < n")
  case True
  have "NDIRECT \<le> b \<Longrightarrow> H (indirect (I ip)) = None"
    using ok True quiet_dataD(3) [OF H] by (auto simp: inode_ok_def split: if_splits)
  then have "runs_to (ftx e sb I Y C L H) (bmap ip (of_nat b)) (\<lambda>r s. r = of_nat (faddr C (I ip) b) \<and> ftx e sb I Y C L H s) (e_cut e)"
    using log_room_le [OF room] by (intro bmap_mapped [of e sb C I ip n b H L, OF lay ok True dev]) auto
  then show ?thesis
  proof (rule runs_to_conseq)
    fix r :: u32 and s
    assume "r = of_nat (faddr C (I ip) b) \<and> ftx e sb I Y C L H s"
    then show "?Q r s" using True writes_refl [OF ok meta]
      by (intro exI [of _ C] exI [of _ "I ip"] exI [of _ L]) (simp add: max_absorb1 Suc_leI)
  qed
next
  case False
  then have n: "b = n" using b(1) by simp
  show ?thesis
  proof (rule runs_to_conseq [OF bmap_grow [of e sb C I ip b H L, OF lay meta _ b(2) dev H room free]])
    show "inode_ok sb C (I ip) b" using ok n by simp
    fix r s
    assume "grown e sb I ip Y C L H b r s"
    then obtain C' i' L' where g: "r = of_nat (faddr C' i' b)" "extends sb C (I ip) n C' i'" "length L' \<le> length L + 5" "ftx e sb (I(ip := i')) Y C' L' H s"
      unfolding grown_def n by blast
    moreover have "card (free_blocks sb C) \<le> card (free_blocks sb C') + 2" using g(2) by (simp add: extends_def)
    ultimately show "?Q r s" using extends_writes [OF ok g(2)] n
      by (intro exI [of _ C'] exI [of _ i'] exI [of _ L']) simp
  qed
qed

text \<open>The bytes of the file after \<open>d\<close> bytes from \<open>T\<close> on were written at \<open>o'\<close>.\<close>

definition bytes_written :: "byte list \<Rightarrow> nat \<Rightarrow> nat \<Rightarrow> nat \<Rightarrow> nat \<Rightarrow> (nat \<Rightarrow> byte) \<Rightarrow> (nat \<Rightarrow> byte) \<Rightarrow> bool" where
  "bytes_written bs z o' T d f g \<longleftrightarrow>
     (\<forall>j. j < z \<or> o' \<le> j \<and> j < o' + d \<longrightarrow> g j = (if o' \<le> j \<and> j < o' + d then bs ! (T + (j - o')) else f j))"

lemma bytes_written_trans:
  assumes "bytes_written bs z o' T m f g" "bytes_written bs z' (o' + m) (T + m) (d - m) g h" "m \<le> d" "z \<le> z'" "o' + m \<le> z'"
  shows "bytes_written bs z o' T d f h"
  unfolding bytes_written_def
proof (intro allI impI)
  fix j
  assume j: "j < z \<or> o' \<le> j \<and> j < o' + d"
  consider "o' + m \<le> j" "j < o' + d" | "o' \<le> j" "j < o' + m" | "j < z" "j < o' \<or> o' + d \<le> j" using j by linarith
  then show "h j = (if o' \<le> j \<and> j < o' + d then bs ! (T + (j - o')) else f j)"
  proof cases
    case 1
    then have "T + m + (j - (o' + m)) = T + (j - o')" by simp
    then show ?thesis using 1 assms(2,3) by (auto simp: bytes_written_def)
  next
    case 2
    then show ?thesis using assms by (auto simp: bytes_written_def)
  next
    case 3
    then show ?thesis using assms by (auto simp: bytes_written_def)
  qed
qed

lemma runs_to_ex:
  "(\<And>a b c. A a b c \<Longrightarrow> runs_to (P a b c) m Q E) \<Longrightarrow> runs_to (\<lambda>s. \<exists>a b c. A a b c \<and> P a b c s) m Q E"
  by (fastforce simp: runs_to_def)

lemma writei_block:
  assumes lay: "fs_layout e sb" and meta: "meta_used sb C" and ok: "inode_ok sb C (I ip) n" and bn: "o' div BSIZE < n" and H: "quiet_data sb H" and room: "log_room e L H 2"
    and b: "T < N" "N < 2 ^ 31" "o' < 2 ^ 31" "N \<le> length bs" and m: "m = chunk (N - T) o'"
    and C': "C' = C(faddr C (I ip) (o' div BSIZE) := put_bytes (C (faddr C (I ip) (o' div BSIZE))) (o' mod BSIZE) (take m (drop T bs)))"
    and rest: "runs_to (ftx e sb I Y C' (log_add (faddr C (I ip) (o' div BSIZE)) L) H) (writei_loop fuel ip (FromLocal bs) (of_nat (o' + m)) (of_nat N) (of_nat (T + m))) Q (e_cut e)"
  shows "runs_to (ftx e sb I Y C L H) (bind (bread (e_devno e) (of_nat (faddr C (I ip) (o' div BSIZE)))) (\<lambda>bp.
      let m = io_len (of_nat N) (of_nat T) (of_nat o') in
      bind (copy_from (FromLocal bs) (of_nat T) m) (\<lambda>(r, bs').
      seq (modify_buf bp (\<lambda>x. x\<lparr>b_data := put_bytes (b_data x) (unat (of_nat o' :: u32) mod BSIZE) bs'\<rparr>)) (
      if r = - 1 then seq (brelse bp) (return (- 1, of_nat o'))
      else seq (log_write bp) (seq (brelse bp) (writei_loop fuel ip (FromLocal bs) (of_nat o' + m) (of_nat N) (of_nat T + m))))))) Q (e_cut e)"
proof (rule f_bread_bind)
  let ?k = "faddr C (I ip) (o' div BSIZE)" and ?g = "\<lambda>d. put_bytes d (o' mod BSIZE) (take m (drop T bs))"
  have ch: "0 < m" "m \<le> N - T" "o' mod BSIZE + m \<le> BSIZE" using chunk_bounds [of "N - T" o'] b(1) m by auto
  have k: "data_block sb C ?k" by (rule inode_ok_block [OF ok bn])
  have Hk: "H ?k = None" by (rule quiet_dataD(3) [OF H k])
  note kb = data_block_bound [OF lay k]
  show "?k < 2 ^ 31" "H ?k = None" "log_room e L H 0" using kb Hk log_room_le [OF room] by auto
  fix bp
  let ?H = "H(?k \<mapsto> bp)"
  have H': "H(?k := None) = H" using Hk by auto
  have "runs_to (ftx e sb I Y C L ?H) (seq (modify_buf bp (\<lambda>x. x\<lparr>b_data := ?g (b_data x)\<rparr>)) (seq (log_write bp) (seq (brelse bp)
      (writei_loop fuel ip (FromLocal bs) (of_nat (o' + m)) (of_nat N) (of_nat (T + m)))))) Q (e_cut e)"
  proof (rule f_update_seq [of e ?k])
    show "runs_to (ftx e sb I Y (C(?k := ?g (C ?k))) (log_add ?k L) (?H(?k := None))) (writei_loop fuel ip (FromLocal bs) (of_nat (o' + m)) (of_nat N) (of_nat (T + m))) Q (e_cut e)"
      using rest H' by (simp add: C')
    show "log_room e L ?H 1" using log_room_hold [of e L H 1] room by (simp add: numeral_2_eq_2)
    show "length (?g (C ?k)) = BSIZE" if "length (C ?k) = BSIZE" using that ch b(1,4) by simp
  qed (use kb in simp_all)
  then show "runs_to (ftx e sb I Y C L ?H) (let m = io_len (of_nat N) (of_nat T) (of_nat o') in
      bind (copy_from (FromLocal bs) (of_nat T) m) (\<lambda>(r, bs').
      seq (modify_buf bp (\<lambda>x. x\<lparr>b_data := put_bytes (b_data x) (unat (of_nat o' :: u32) mod BSIZE) bs'\<rparr>)) (
      if r = - 1 then seq (brelse bp) (return (- 1, of_nat o'))
      else seq (log_write bp) (seq (brelse bp) (writei_loop fuel ip (FromLocal bs) (of_nat o' + m) (of_nat N) (of_nat T + m)))))) Q (e_cut e)"
    using b ch by (simp add: io_len_nat Let_def m [symmetric]) (rule runs_to_bind_return, simp add: unat32)
qed

lemma piece_end: "o' mod BSIZE + m \<le> BSIZE \<Longrightarrow> o' + m \<le> Suc (o' div BSIZE) * BSIZE"
  unfolding mult_Suc using div_mult_mod_eq [of o' BSIZE] by linarith

lemma writei_round:
  assumes lay: "fs_layout e sb" and meta: "meta_used sb C" and ok: "inode_ok sb C (I ip) n" and bn: "o' div BSIZE \<le> n" "o' div BSIZE < MAXFILE"
    and dev: "i_dev (I ip) = e_devno e" and H: "quiet_data sb H" and room: "log_room e L H 8" and free: "2 \<le> card (free_blocks sb C)"
    and b: "T < N" "N < 2 ^ 31" "o' < 2 ^ 31" "N \<le> length bs" and m: "m = chunk (N - T) o'"
    and rest: "\<And>C' i' L'. writes sb C (I ip) n C' i' (max n (Suc (o' div BSIZE))) \<Longrightarrow>
      bytes_written bs (n * BSIZE) o' T m (fbyte C (I ip)) (fbyte C' i') \<Longrightarrow>
      card (free_blocks sb C) \<le> card (free_blocks sb C') + 2 \<Longrightarrow> length L' \<le> length L + 6 \<Longrightarrow>
      runs_to (ftx e sb (I(ip := i')) Y C' L' H) (writei_loop fuel ip (FromLocal bs) (of_nat (o' + m)) (of_nat N) (of_nat (T + m))) Q (e_cut e)"
  shows "runs_to (ftx e sb I Y C L H) (writei_loop (Suc fuel) ip (FromLocal bs) (of_nat o') (of_nat N) (of_nat T)) Q (e_cut e)"
proof -
  let ?b = "o' div BSIZE" and ?bs = "take m (drop T bs)"
  let ?f = "\<lambda>a. bind (bread (e_devno e) a) (\<lambda>bp.
      let m = io_len (of_nat N) (of_nat T) (of_nat o') in
      bind (copy_from (FromLocal bs) (of_nat T) m) (\<lambda>(r, bs').
      seq (modify_buf bp (\<lambda>x. x\<lparr>b_data := put_bytes (b_data x) (unat (of_nat o' :: u32) mod BSIZE) bs'\<rparr>)) (
      if r = - 1 then seq (brelse bp) (return (- 1, of_nat o'))
      else seq (log_write bp) (seq (brelse bp) (writei_loop fuel ip (FromLocal bs) (of_nat o' + m) (of_nat N) (of_nat T + m))))))"
  have ch: "0 < m" "m \<le> N - T" "o' mod BSIZE + m \<le> BSIZE" using chunk_bounds [of "N - T" o'] b(1) m by auto
  then have len: "length ?bs = m" using b by simp
  have "runs_to (ftx e sb I Y C L H) (bind (bmap ip (of_nat ?b)) ?f) Q (e_cut e)"
  proof (rule runs_to_bind [OF bmap_any [of e sb C I ip n ?b H L Y, OF lay meta ok bn dev H room free]])
    fix a
    show "runs_to (\<lambda>s. \<exists>C' i' L'. a = of_nat (faddr C' i' ?b) \<and> writes sb C (I ip) n C' i' (max n (Suc ?b)) \<and> (\<forall>j < n * BSIZE. fbyte C' i' j = fbyte C (I ip) j) \<and>
      card (free_blocks sb C) \<le> card (free_blocks sb C') + 2 \<and> length L' \<le> length L + 5 \<and> ftx e sb (I(ip := i')) Y C' L' H s) (?f a) Q (e_cut e)"
      unfolding conj_assoc [symmetric]
    proof (rule runs_to_ex, elim conjE)
      fix C1 i1 and L1 :: "nat list"
      assume a: "a = of_nat (faddr C1 i1 ?b)" and w: "writes sb C (I ip) n C1 i1 (max n (Suc ?b))" and fb: "\<forall>j < n * BSIZE. fbyte C1 i1 j = fbyte C (I ip) j"
        and fr: "card (free_blocks sb C) \<le> card (free_blocks sb C1) + 2" and L: "length L1 \<le> length L + 5"
      let ?I = "I(ip := i1)" and ?n = "max n (Suc ?b)" and ?k = "faddr C1 i1 ?b"
      let ?C = "C1(?k := put_bytes (C1 ?k) (o' mod BSIZE) ?bs)"
      have ok1: "inode_ok sb C1 i1 ?n" "meta_used sb C1" using w by (auto simp: writes_def)
      show "runs_to (ftx e sb ?I Y C1 L1 H) (?f a) Q (e_cut e)"
      proof (rule f_length)
        assume l: "\<And>k. length (C1 k) = BSIZE"
        have bw: "writes sb C1 i1 ?n ?C i1 ?n" "free_blocks sb ?C = free_blocks sb C1"
          "\<And>j. j < ?n * BSIZE \<Longrightarrow> fbyte ?C i1 j = (if o' \<le> j \<and> j < o' + length ?bs then ?bs ! (j - o') else fbyte C1 i1 j)"
          using block_write [of e sb C1 i1 ?n o' ?bs ?C, OF lay ok1 _ l _ refl] ch(3) len by simp_all
        have r: "runs_to (ftx e sb ?I Y ?C (log_add ?k L1) H) (writei_loop fuel ip (FromLocal bs) (of_nat (o' + m)) (of_nat N) (of_nat (T + m))) Q (e_cut e)"
        proof (rule rest)
          show "writes sb C (I ip) n ?C i1 ?n" by (rule writes_trans [OF w bw(1)])
          show "card (free_blocks sb C) \<le> card (free_blocks sb ?C) + 2" using fr bw(2) by simp
          show "length (log_add ?k L1) \<le> length L + 6" using L length_log_add [of ?k L1] by simp
          show "bytes_written bs (n * BSIZE) o' T m (fbyte C (I ip)) (fbyte ?C i1)" unfolding bytes_written_def
          proof (intro allI impI)
          fix j
          assume j: "j < n * BSIZE \<or> o' \<le> j \<and> j < o' + m"
          have "o' + m \<le> Suc ?b * BSIZE" using ch(3) piece_end [of o' m] by simp
          moreover have "n * BSIZE \<le> ?n * BSIZE" "Suc ?b * BSIZE \<le> ?n * BSIZE" by (intro mult_le_mono1 max.cobounded1 max.cobounded2)+
          ultimately have "j < ?n * BSIZE" using j by linarith
          then show "fbyte ?C i1 j = (if o' \<le> j \<and> j < o' + m then bs ! (T + (j - o')) else fbyte C (I ip) j)"
            using bw(3) [of j] len fb j by auto
          qed
        qed
        have "log_room e L1 H 2" using log_room_length [of e L H 2 5 L1] log_room_le [OF room] L by simp
        moreover have "inode_ok sb C1 (?I ip) ?n" "?b < ?n" using ok1(1) by simp_all
        ultimately show ?thesis unfolding a
          using writei_block [of e sb C1 ?I ip ?n o' H L1 T N bs m ?C Y fuel Q, OF lay ok1(2) _ _ H _ b m] r by simp
      qed
    qed
  qed
  then show ?thesis
    using b dev less32 [of T N]
    by (subst writei_loop.simps) (auto simp: div32 cong: if_cong intro!: runs_to_get_inode)
qed

section \<open>The loop\<close>

text \<open>The number of rounds that \<open>d\<close> bytes at \<open>o'\<close> take.\<close>

definition rounds :: "nat \<Rightarrow> nat \<Rightarrow> nat" where
  "rounds o' d = (if d = 0 then 0 else nblocks (o' + d) - o' div BSIZE)"

lemma rounds_step:
  assumes "0 < d"
  shows "Suc (rounds (o' + chunk d o') (d - chunk d o')) \<le> rounds o' d" "Suc (o' div BSIZE) \<le> nblocks (o' + d)"
proof -
  let ?m = "chunk d o'"
  note ch = chunk_bounds [OF assms, of o']
  have "o' div BSIZE < nblocks (o' + d)" using assms by (intro block_lt) simp
  then show b: "Suc (o' div BSIZE) \<le> nblocks (o' + d)" by simp
  show "Suc (rounds (o' + ?m) (d - ?m)) \<le> rounds o' d"
  proof (cases "d = ?m")
    case True
    then show ?thesis using b assms by (simp add: rounds_def)
  next
    case False
    then have "?m = BSIZE - o' mod BSIZE" by (auto simp: chunk_def min_def)
    moreover have "o' mod BSIZE < BSIZE" using BSIZE_nat(2) by simp
    ultimately have "o' + ?m = Suc (o' div BSIZE) * BSIZE" unfolding mult_Suc using div_mult_mod_eq [of o' BSIZE] by linarith
    then have "(o' + ?m) div BSIZE = Suc (o' div BSIZE)" using BSIZE_nat(2) by (metis nonzero_mult_div_cancel_right not_gr0)
    then show ?thesis using b False ch(2) assms by (simp add: rounds_def)
  qed
qed

text \<open>The state after \<open>d\<close> bytes were written, and that a round and the rest compose.\<close>

definition wrote_bytes :: "env \<Rightarrow> superblock \<Rightarrow> (nat \<Rightarrow> inode) \<Rightarrow> nat \<Rightarrow> 'z \<Rightarrow> (nat \<Rightarrow> byte list) \<Rightarrow> nat list \<Rightarrow> (nat \<Rightarrow> nat option) \<Rightarrow> nat \<Rightarrow>
    byte list \<Rightarrow> nat \<Rightarrow> nat \<Rightarrow> nat \<Rightarrow> 'z kfs_scheme \<Rightarrow> bool" where
  "wrote_bytes e sb I ip Y C L H n bs o' T d s \<longleftrightarrow>
     (\<exists>C' i' L'. (writes sb C (I ip) n C' i' (max n (nblocks (o' + d))) \<and> bytes_written bs (n * BSIZE) o' T d (fbyte C (I ip)) (fbyte C' i') \<and>
        length L' \<le> length L + 6 * rounds o' d) \<and> ftx e sb (I(ip := i')) Y C' L' H s)"

lemma wrote_bytes_none:
  assumes "inode_ok sb C (I ip) n" "meta_used sb C" "o' \<le> n * BSIZE" "ftx e sb I Y C L H s"
  shows "wrote_bytes e sb I ip Y C L H n bs o' T 0 s"
proof -
  have "nblocks o' \<le> n" using assms(3) nblocks_le by simp
  then have "writes sb C (I ip) n C (I ip) (max n (nblocks o'))" using writes_refl assms by (simp add: max_absorb1)
  moreover have "bytes_written bs (n * BSIZE) o' T 0 (fbyte C (I ip)) (fbyte C (I ip))" by (auto simp: bytes_written_def)
  ultimately show ?thesis
    unfolding wrote_bytes_def using assms(4) by (intro exI [of _ C] exI [of _ "I ip"] exI [of _ L]) (simp add: rounds_def)
qed

lemma wrote_bytes_round:
  assumes d: "0 < d" "m = chunk d o'" and w: "writes sb C (I ip) n C' i' (max n (Suc (o' div BSIZE)))"
    and bw: "bytes_written bs (n * BSIZE) o' T m (fbyte C (I ip)) (fbyte C' i')" and L: "length L' \<le> length L + 6"
    and s: "wrote_bytes e sb (I(ip := i')) ip Y C' L' H (max n (Suc (o' div BSIZE))) bs (o' + m) (T + m) (d - m) s"
  shows "wrote_bytes e sb I ip Y C L H n bs o' T d s"
proof -
  let ?n = "max n (Suc (o' div BSIZE))"
  note ch = chunk_bounds [OF d(1), of o', folded d(2)] and rd = rounds_step [OF d(1), of o', folded d(2)]
  have z: "o' + m + (d - m) = o' + d" using ch by simp
  obtain C'' i'' L'' where s: "writes sb C' i' ?n C'' i'' (max ?n (nblocks (o' + d)))" "length L'' \<le> length L' + 6 * rounds (o' + m) (d - m)"
    "bytes_written bs (?n * BSIZE) (o' + m) (T + m) (d - m) (fbyte C' i') (fbyte C'' i'')" "ftx e sb (I(ip := i'')) Y C'' L'' H s"
    using s unfolding wrote_bytes_def z by auto
  have "max ?n (nblocks (o' + d)) = max n (nblocks (o' + d))" using rd(2) by simp
  then have "writes sb C (I ip) n C'' i'' (max n (nblocks (o' + d)))" using writes_trans [OF w s(1)] by simp
  moreover have "n * BSIZE \<le> ?n * BSIZE" "Suc (o' div BSIZE) * BSIZE \<le> ?n * BSIZE" by (intro mult_le_mono1 max.cobounded1 max.cobounded2)+
  then have "bytes_written bs (n * BSIZE) o' T d (fbyte C (I ip)) (fbyte C'' i'')"
    using piece_end [OF ch(3)] by (intro bytes_written_trans [OF bw s(3) ch(2)]) simp_all
  ultimately show ?thesis
    unfolding wrote_bytes_def using s(2,4) L rd(1) by (intro exI [of _ C''] exI [of _ i''] exI [of _ L'']) simp
qed

lemma writei_loop_spec:
  assumes lay: "fs_layout e sb" and H: "quiet_data sb H" and N: "N \<le> length bs" "N < 2 ^ 31"
    and "meta_used sb C" "inode_ok sb C (I ip) n" "i_dev (I ip) = e_devno e" "o' \<le> n * BSIZE" "T \<le> N" "o' + (N - T) \<le> MAXFILE * BSIZE"
    and "log_room e L H (6 * rounds o' (N - T) + 2)" "2 * rounds o' (N - T) \<le> card (free_blocks sb C)" "N - T < fuel"
  shows "runs_to (ftx e sb I Y C L H) (writei_loop fuel ip (FromLocal bs) (of_nat o') (of_nat N) (of_nat T))
    (\<lambda>r s. r = (of_nat N, of_nat (o' + (N - T))) \<and> wrote_bytes e sb I ip Y C L H n bs o' T (N - T) s) (e_cut e)"
  using assms(5-)
proof (induction fuel arbitrary: o' T C I n L)
  case (Suc fuel)
  show ?case
  proof (cases "T < N")
    case False
    then have T: "T = N" "\<not> of_nat T < (of_nat N :: u32)" using Suc.prems(5) by simp_all
    have "wrote_bytes e sb I ip Y C L H n bs o' N 0 s" if "ftx e sb I Y C L H s" for s
      using wrote_bytes_none [of sb C I ip n o' e Y L H s] Suc.prems(1,2,4) that by simp
    then show ?thesis using T by (subst writei_loop.simps) (simp add: runs_to_return)
  next
    case True
    let ?m = "chunk (N - T) o'" and ?n = "max n (Suc (o' div BSIZE))"
    have d: "0 < N - T" using True by simp
    note ch = chunk_bounds [OF d, of o'] and rd = rounds_step [OF d, of o']
    have pr: "o' < 2 ^ 31" "o' div BSIZE \<le> n" "o' div BSIZE < MAXFILE"
      using Suc.prems(4,6) d block_below [of o' MAXFILE] div_le_mono [of o' "n * BSIZE" BSIZE] BSIZE_nat by (auto simp: MAXFILE_nat)
    have z: "o' + ?m + (N - (T + ?m)) = o' + (N - T)" "N - (T + ?m) = N - T - ?m" using ch by simp_all
    have r2: "log_room e L H 8" "2 \<le> card (free_blocks sb C)" using Suc.prems(7,8) rd(1) log_room_le [of e L H "6 * rounds o' (N - T) + 2" 8] by auto
    show ?thesis
    proof (rule writei_round [of e sb C I ip n o' H L T N bs ?m, OF lay Suc.prems(1,2) pr(2,3) Suc.prems(3) H r2 True N(2) pr(1) N(1) refl])
      fix C' i' and L' :: "nat list"
      assume w: "writes sb C (I ip) n C' i' ?n" and bw: "bytes_written bs (n * BSIZE) o' T ?m (fbyte C (I ip)) (fbyte C' i')"
        and fr: "card (free_blocks sb C) \<le> card (free_blocks sb C') + 2" and L: "length L' \<le> length L + 6"
      let ?I = "I(ip := i')"
      have le: "o' + ?m \<le> ?n * BSIZE" by (rule order_trans [OF piece_end [OF ch(3)]]) (intro mult_le_mono1 max.cobounded2)
      have "runs_to (ftx e sb ?I Y C' L' H) (writei_loop fuel ip (FromLocal bs) (of_nat (o' + ?m)) (of_nat N) (of_nat (T + ?m)))
        (\<lambda>r s. r = (of_nat N, of_nat (o' + ?m + (N - (T + ?m)))) \<and> wrote_bytes e sb ?I ip Y C' L' H ?n bs (o' + ?m) (T + ?m) (N - (T + ?m)) s) (e_cut e)"
      proof (rule Suc.IH [where C = C' and I = ?I and n = ?n and o' = "o' + ?m" and T = "T + ?m" and L = L'])
        show "inode_ok sb C' (?I ip) ?n" "meta_used sb C'" using w by (simp_all add: writes_def)
        show "i_dev (?I ip) = e_devno e" using writes_inode(1) [OF w] Suc.prems(3) by simp
        show "log_room e L' H (6 * rounds (o' + ?m) (N - (T + ?m)) + 2)"
          unfolding z(2) by (rule log_room_length [OF log_room_le [OF Suc.prems(7)] L]) (use rd(1) in linarith)
        show "2 * rounds (o' + ?m) (N - (T + ?m)) \<le> card (free_blocks sb C')" using fr rd(1) Suc.prems(8) unfolding z(2) by simp
        show "o' + ?m \<le> ?n * BSIZE" by (rule le)
        show "T + ?m \<le> N" "N - (T + ?m) < fuel" using ch Suc.prems(9) d by linarith+
        show "o' + ?m + (N - (T + ?m)) \<le> MAXFILE * BSIZE" unfolding z(1) by (rule Suc.prems(6))
      qed
      then show "runs_to (ftx e sb ?I Y C' L' H) (writei_loop fuel ip (FromLocal bs) (of_nat (o' + ?m)) (of_nat N) (of_nat (T + ?m)))
        (\<lambda>r s. r = (of_nat N, of_nat (o' + (N - T))) \<and> wrote_bytes e sb I ip Y C L H n bs o' T (N - T) s) (e_cut e)"
        unfolding z(1) unfolding z(2)
      proof (rule runs_to_conseq)
        fix r s
        assume "r = (of_nat N, of_nat (o' + (N - T))) \<and> wrote_bytes e sb ?I ip Y C' L' H ?n bs (o' + ?m) (T + ?m) (N - T - ?m) s"
        then show "r = (of_nat N, of_nat (o' + (N - T))) \<and> wrote_bytes e sb I ip Y C L H n bs o' T (N - T) s"
          using wrote_bytes_round [of "N - T" ?m o' sb C I ip n C' i' bs T L' L e Y H s, OF d refl w bw L] by simp
      qed
    qed
  qed
next
  case 0
  then have False by linarith
  then show ?case ..
qed

section \<open>\<open>writei\<close>\<close>

text \<open>Writing a block before the bit map leaves the files alone.\<close>

lemma inode_table_write:
  assumes lay: "fs_layout e sb" and k: "k < unat (sb_bmapstart sb)"
  shows "data_block sb (C(k := c)) j = data_block sb C j" "meta_used sb (C(k := c)) = meta_used sb C"
    "inode_ok sb C i n \<Longrightarrow> bn < n \<Longrightarrow> faddr (C(k := c)) i bn = faddr C i bn"
    "inode_ok sb C i n \<Longrightarrow> inode_ok sb (C(k := c)) i n"
proof -
  have u: "used sb (C(k := c)) b = used sb C b" for b using k by (simp add: used_def bitmap_block_def)
  then show db: "data_block sb (C(k := c)) j = data_block sb C j" for j by (simp add: data_block_def)
  show "meta_used sb (C(k := c)) = meta_used sb C" using u by (simp add: meta_used_def)
  assume ok: "inode_ok sb C i n"
  then have "NDIRECT < n \<Longrightarrow> indirect i \<noteq> k" using k by (auto simp: inode_ok_def data_block_def data_start_def)
  then have fa: "faddr (C(k := c)) i b = faddr C i b" if "b < NDIRECT \<or> NDIRECT < n" for b using that by (auto simp: faddr_def indirect_def)
  then show fn: "faddr (C(k := c)) i b = faddr C i b" if "b < n" for b using that by (cases "b < NDIRECT") auto
  then have "inj_on (faddr (C(k := c)) i) {..<n} \<longleftrightarrow> inj_on (faddr C i) {..<n}" by (intro inj_on_cong) simp
  moreover have im: "faddr (C(k := c)) i ` {..<n} = faddr C i ` {..<n}" using fn by (intro image_cong) auto
  ultimately show "inode_ok sb (C(k := c)) i n" using ok fn fa db by (auto simp: inode_ok_def)
qed

text \<open>The blocks of a file.\<close>

definition blocks_of :: "(nat \<Rightarrow> byte list) \<Rightarrow> inode \<Rightarrow> nat set" where
  "blocks_of C i = owned C i (nblocks (unat (i_size i)))"

text \<open>
  The file holds the new bytes, its record on the disk is the one in memory, and nothing else has
  changed: the records of the other inodes, and the blocks that belong to no file or to another one.
\<close>

definition file_written :: "superblock \<Rightarrow> (nat \<Rightarrow> byte list) \<Rightarrow> inode \<Rightarrow> nat \<Rightarrow> byte list \<Rightarrow> (nat \<Rightarrow> byte list) \<Rightarrow> inode \<Rightarrow> bool" where
  "file_written sb C i off bs C' i' \<longleftrightarrow>
     file_ok sb C' i' \<and> meta_used sb C' \<and> file_bytes C' i' = put_bytes (file_bytes C i) off bs \<and>
     (\<forall>m < unat (sb_ninodes sb). dinode_at sb C' m = (if m = unat (i_inum i) then inode_dinode i' else dinode_at sb C m)) \<and>
     (\<forall>k. data_block sb C k \<and> k \<notin> blocks_of C i \<longrightarrow> C' k = C k \<and> data_block sb C' k) \<and>
     blocks_of C' i' \<subseteq> blocks_of C i \<union> {k. \<not> data_block sb C k} \<and>
     (i_dev i', i_inum i', i_type i') = (i_dev i, i_inum i, i_type i)"

lemma nblocks_mono: "a \<le> b \<Longrightarrow> nblocks a \<le> nblocks b"
  by (auto simp: nblocks_def intro!: div_le_mono)

lemma nblocks_max: "nblocks (max a b) = max (nblocks a) (nblocks b)"
  using nblocks_mono [of a b] nblocks_mono [of b a] by (auto simp: max_def)

lemma file_bytes_write:
  assumes "unat (i_size i) = z" "off \<le> z" "unat (i_size i') = max z (off + length bs)" "z \<le> n * BSIZE"
    and "bytes_written bs (n * BSIZE) off 0 (length bs) (fbyte C i) (fbyte C' i')"
  shows "file_bytes C' i' = put_bytes (file_bytes C i) off bs"
proof (rule nth_equalityI)
  show "length (file_bytes C' i') = length (put_bytes (file_bytes C i) off bs)" using assms(1-3) by (simp add: file_bytes_def put_bytes_def)
  fix j
  assume "j < length (file_bytes C' i')"
  then have j: "j < max z (off + length bs)" using assms(3) by (simp add: file_bytes_def)
  then have "fbyte C' i' j = (if off \<le> j \<and> j < off + length bs then bs ! (j - off) else fbyte C i j)"
    using assms(2,4,5) by (auto simp: bytes_written_def max_def split: if_splits)
  then show "file_bytes C' i' ! j = put_bytes (file_bytes C i) off bs ! j"
    using j assms(1-3) by (auto simp: file_bytes_def put_bytes_def nth_append)
qed

lemma same_addrs:
  assumes "i_addrs i = i_addrs j"
  shows "faddr D i = faddr D j" "indirect i = indirect j" "fbyte D i = fbyte D j" "inode_ok sb D i n = inode_ok sb D j n"
proof -
  show f: "faddr D i = faddr D j" and x: "indirect i = indirect j" using assms by (simp_all add: faddr_def indirect_def fun_eq_iff)
  show "fbyte D i = fbyte D j" by (intro ext) (simp add: fbyte_def f)
  show "inode_ok sb D i n = inode_ok sb D j n" by (simp add: inode_ok_def f x assms)
qed

lemma file_writtenI:
  assumes lay: "fs_layout e sb" and ok: "file_ok sb C i" and inum: "unat (i_inum i) < unat (sb_ninodes sb)" and len: "\<And>k. length (C1 k) = BSIZE"
    and z: "z = unat (i_size i)" and off: "off \<le> z" "off + length bs \<le> MAXFILE * BSIZE"
    and w: "writes sb C i (nblocks z) C1 i1 (max (nblocks z) (nblocks (off + length bs)))"
    and bw: "bytes_written bs (nblocks z * BSIZE) off 0 (length bs) (fbyte C i) (fbyte C1 i1)"
    and i': "i' = i1\<lparr>i_size := of_nat (max z (off + length bs))\<rparr>" and C': "C' = put_dinode sb (unat (i_inum i)) (inode_dinode i') C1"
  shows "file_written sb C i off bs C' i'"
proof -
  let ?z = "max z (off + length bs)" and ?k = "inode_block sb (unat (i_inum i))"
  have k: "?k < unat (sb_bmapstart sb)" by (rule inode_block_bound [OF lay inum])
  have "?z < 2 ^ 32" using file_size [OF ok] off z by (auto simp: MAXFILE_nat BSIZE_nat)
  then have sz: "unat (i_size i') = ?z" by (simp add: i' unat32)
  have "i_addrs i' = i_addrs i1" by (simp add: i')
  note fa = same_addrs [OF this]
  obtain c where c: "C' = C1(?k := c)" unfolding C' put_dinode_def by blast
  note t = inode_table_write [OF lay k]
  have ok1: "inode_ok sb C1 i1 (nblocks ?z)" "meta_used sb C1" using w by (simp_all add: writes_def nblocks_max)
  have fb: "fbyte C' i1 j = fbyte C1 i1 j" if "j < ?z" for j
  proof -
    have b: "j div BSIZE < nblocks ?z" using that by (rule block_lt)
    then have "data_block sb C1 (faddr C1 i1 (j div BSIZE))" by (rule inode_ok_block [OF ok1(1)])
    then have "faddr C1 i1 (j div BSIZE) \<noteq> ?k" using k by (auto simp: data_block_def data_start_def)
    then show ?thesis using t(3) [OF ok1(1) b] by (simp add: fbyte_def c)
  qed
  have fok: "file_ok sb C' i'" "meta_used sb C'" using t(4) [OF ok1(1)] t(2) ok1(2) fa sz by (simp_all add: file_ok_def c)
  have "z \<le> nblocks z * BSIZE" using nblocks_le [of z "nblocks z"] by simp
  then have "file_bytes C1 i' = put_bytes (file_bytes C i) off bs"
    using bw fa(3) by (intro file_bytes_write [OF z [symmetric] off(1) sz]) simp_all
  moreover have "map (fbyte C' i1) [0..<?z] = map (fbyte C1 i1) [0..<?z]" using fb by (intro map_cong) auto
  ultimately have "file_bytes C' i' = put_bytes (file_bytes C i) off bs" using fa(3) sz by (simp add: file_bytes_def)
  moreover have "dinode_at sb C' m = (if m = unat (i_inum i) then inode_dinode i' else dinode_at sb C m)" if "m < unat (sb_ninodes sb)" for m
    using dinode_at_put [of C1 sb "unat (i_inum i)" "inode_dinode i'" m, OF len] w inode_block_bound(1) [OF lay that]
    by (simp add: C' inode_dinode_def writes_def dinode_at_def)
  moreover have "C' j = C j \<and> data_block sb C' j" if "data_block sb C j" "j \<notin> owned C i (nblocks z)" for j
  proof -
    have "j \<noteq> ?k" using that k by (auto simp: data_block_def data_start_def)
    then show ?thesis using w that t(1) by (simp add: writes_def c)
  qed
  moreover have "owned C' i' (nblocks ?z) = owned C1 i1 (nblocks ?z)"
    using t(3) [OF ok1(1)] fa by (auto simp: owned_def c image_iff Bex_def)
  ultimately show ?thesis using fok w writes_inode [OF w] sz unfolding file_written_def blocks_of_def by (simp add: writes_def nblocks_max z [symmetric] i')
qed

text \<open>The end of \<open>writei\<close>: the new size, if the file grew, and the inode's record.\<close>

lemma writei_finish:
  assumes lay: "fs_layout e sb" and dev: "i_dev (I ip) = e_devno e" and inum: "unat (i_inum (I ip)) < unat (sb_ninodes sb)"
    and H: "H (inode_block sb (unat (i_inum (I ip)))) = None" and room: "log_room e L H 2"
    and z: "z = unat (i_size (I ip))" "w < 2 ^ 32" and i': "i' = (I ip)\<lparr>i_size := of_nat (max z w)\<rparr>"
  shows "runs_to (ftx e sb I Y C L H) (bind (get_inode ip) (\<lambda>i.
      seq (whenever (of_nat w > i_size i) (modify_inode ip (\<lambda>i. i\<lparr>i_size := of_nat w\<rparr>))) (iupdate ip)))
    (\<lambda>_. ftx e sb (I(ip := i')) Y (put_dinode sb (unat (i_inum (I ip))) (inode_dinode i') C)
      (log_add (inode_block sb (unat (i_inum (I ip)))) L) H) (e_cut e)"
proof (rule runs_to_get_inode, rule runs_to_seq)
  have less: "i_size (I ip) < of_nat w \<longleftrightarrow> z < w" using z by (simp add: word_less_nat_alt unat32)
  show "runs_to (ftx e sb I Y C L H) (whenever (of_nat w > i_size (I ip)) (modify_inode ip (\<lambda>i. i\<lparr>i_size := of_nat w\<rparr>)))
      (\<lambda>_. ftx e sb (I(ip := i')) Y C L H) (e_cut e)"
  proof (cases "z < w")
    case True
    then have "i' = (I ip)\<lparr>i_size := of_nat w\<rparr>" by (simp add: i' max_def)
    then show ?thesis using True less modify_inode_f [of e sb I Y C L H ip "\<lambda>i. i\<lparr>i_size := of_nat w\<rparr>" "e_cut e"] by (simp add: whenever_def)
  next
    case False
    then have "i' = I ip" using z(1) by (simp add: i')
    then show ?thesis using False less by (simp add: whenever_def runs_to_return)
  qed
  let ?J = "I(ip := i')"
  show "runs_to (ftx e sb ?J Y C L H) (iupdate ip) (\<lambda>_. ftx e sb ?J Y (put_dinode sb (unat (i_inum (I ip))) (inode_dinode i') C)
      (log_add (inode_block sb (unat (i_inum (I ip)))) L) H) (e_cut e)"
    using iupdate_spec [of e sb ?J ip "unat (i_inum (I ip))" H L Y C, OF lay] dev inum H room by (simp add: i')
qed

lemma whenever_True: "whenever True m = m"
  by (simp add: whenever_def)

lemma writei_spec:
  assumes lay: "fs_layout e sb" and meta: "meta_used sb C" and ok: "file_ok sb C (I ip)" and dev: "i_dev (I ip) = e_devno e"
    and inum: "unat (i_inum (I ip)) < unat (sb_ninodes sb)" and H: "quiet_data sb H" "H (inode_block sb (unat (i_inum (I ip)))) = None"
    and b: "off \<le> unat (i_size (I ip))" "off + length bs \<le> MAXFILE * BSIZE" "bs \<noteq> []"
    and room: "log_room e L H (6 * rounds off (length bs) + 2)" and free: "2 * rounds off (length bs) \<le> card (free_blocks sb C)"
  shows "runs_to (ftx e sb I Y C L H) (writei ip (FromLocal bs) (of_nat off) (of_nat (length bs)))
    (\<lambda>r s. r = int (length bs) \<and> (\<exists>C' i' L'. (file_written sb C (I ip) off bs C' i' \<and> length L' \<le> length L + 6 * rounds off (length bs) + 1) \<and>
      ftx e sb (I(ip := i')) Y C' L' H s)) (e_cut e)"
    (is "runs_to _ _ ?Q _")
proof -
  let ?z = "unat (i_size (I ip))" and ?N = "length bs"
  let ?rest = "\<lambda>(n' :: u32, off'). seq (whenever (n' > 0) (bind (get_inode ip) (\<lambda>i.
      seq (whenever (off' > i_size i) (modify_inode ip (\<lambda>i. i\<lparr>i_size := off'\<rparr>))) (iupdate ip)))) (return (sint n'))"
  have lt: "off + ?N < 2 ^ 31" "?z \<le> nblocks ?z * BSIZE" using b(2) nblocks_le [of ?z "nblocks ?z"] by (simp_all add: MAXFILE_nat BSIZE_nat)
  have g: "\<not> of_nat off > i_size (I ip)" "\<not> of_nat off + of_nat ?N < (of_nat off :: u32)" "unat (of_nat off + of_nat ?N :: u32) = off + ?N"
    using b(1) lt by (simp_all add: word_less_nat_alt unat32 flip: of_nat_add)
  have lp: "runs_to (ftx e sb I Y C L H) (writei_loop (Suc ?N) ip (FromLocal bs) (of_nat off) (of_nat ?N) (of_nat 0))
    (\<lambda>r s. r = (of_nat ?N, of_nat (off + (?N - 0))) \<and> wrote_bytes e sb I ip Y C L H (nblocks ?z) bs off 0 (?N - 0) s) (e_cut e)"
    by (rule writei_loop_spec [of e sb H ?N bs C I ip "nblocks ?z" off 0 L, OF lay H(1)])
       (use meta ok dev lt b room free in \<open>simp_all add: file_ok_def\<close>)
  have "runs_to (ftx e sb I Y C L H) (bind (writei_loop (Suc ?N) ip (FromLocal bs) (of_nat off) (of_nat ?N) (of_nat 0)) ?rest) ?Q (e_cut e)"
  proof (rule runs_to_bind_value [OF lp [unfolded diff_zero]])
    show "runs_to (wrote_bytes e sb I ip Y C L H (nblocks ?z) bs off 0 ?N) (?rest (of_nat ?N, of_nat (off + ?N))) ?Q (e_cut e)"
      unfolding wrote_bytes_def
    proof (rule runs_to_ex, elim conjE)
      fix C1 i1 and L1 :: "nat list"
      assume w: "writes sb C (I ip) (nblocks ?z) C1 i1 (max (nblocks ?z) (nblocks (off + ?N)))"
        and bw: "bytes_written bs (nblocks ?z * BSIZE) off 0 ?N (fbyte C (I ip)) (fbyte C1 i1)" and L: "length L1 \<le> length L + 6 * rounds off ?N"
      let ?I = "I(ip := i1)" and ?i = "i1\<lparr>i_size := of_nat (max ?z (off + ?N))\<rparr>" and ?n = "unat (i_inum (I ip))"
      let ?C = "put_dinode sb ?n (inode_dinode ?i) C1" and ?L = "log_add (inode_block sb ?n) L1"
      note wi = writes_inode [OF w]
      show "runs_to (ftx e sb ?I Y C1 L1 H) (?rest (of_nat ?N, of_nat (off + ?N))) ?Q (e_cut e)"
      proof (rule f_length)
        assume len: "\<And>k. length (C1 k) = BSIZE"
        have fw: "file_written sb C (I ip) off bs ?C ?i"
          by (rule file_writtenI [OF lay ok inum len refl b(1,2) w bw refl refl])
        have "log_room e L1 H 2" by (rule log_room_length [OF _ L]) (use room in \<open>simp add: add.commute\<close>)
        then have fin: "runs_to (ftx e sb ?I Y C1 L1 H) (bind (get_inode ip) (\<lambda>i.
            seq (whenever (of_nat (off + ?N) > i_size i) (modify_inode ip (\<lambda>i. i\<lparr>i_size := of_nat (off + ?N)\<rparr>))) (iupdate ip)))
            (\<lambda>_. ftx e sb (I(ip := ?i)) Y ?C ?L H) (e_cut e)"
          using writei_finish [of e sb ?I ip H L1 ?z "off + ?N" ?i Y C1, OF lay] dev inum H(2) wi lt(1) by simp
        have q: "?Q (sint (of_nat ?N :: u32)) s" if "ftx e sb (I(ip := ?i)) Y ?C ?L H s" for s
        proof -
          have "sint (of_nat ?N :: u32) = int ?N" using lt(1) by (simp add: sint_of_nat)
          then show ?thesis using that fw L length_log_add [of "inode_block sb ?n" L1]
            by (intro conjI exI [of _ ?C] exI [of _ ?i] exI [of _ ?L]) simp_all
        qed
        have pos: "((of_nat ?N :: u32) > 0) = True" using b(3) lt(1) by (simp add: word_less_nat_alt unat32)
        show ?thesis unfolding prod.case pos whenever_True by (rule runs_to_seq [OF fin runs_to_return]) (rule q)
      qed
    qed
  qed
  then show ?thesis unfolding writei_def using g b(2) lt(1)
    by (intro runs_to_get_inode) (simp add: unat32)
qed

section \<open>Other files and other contents\<close>

text \<open>What a file is depends on its own blocks only.\<close>

lemma file_cong:
  assumes ok: "inode_ok sb C i n" and same: "\<And>k. k \<in> owned C i n \<Longrightarrow> D k = C k"
  shows "\<And>bn. bn < n \<Longrightarrow> faddr D i bn = faddr C i bn" "\<And>j. j < n * BSIZE \<Longrightarrow> fbyte D i j = fbyte C i j" "owned D i n = owned C i n"
    "(\<And>k. k \<in> owned C i n \<Longrightarrow> data_block sb D k) \<Longrightarrow> inode_ok sb D i n"
proof -
  have fa: "faddr D i bn = faddr C i bn" if "bn < NDIRECT \<or> NDIRECT < n" for bn
    using that same [of "indirect i"] by (auto simp: faddr_def owned_def indirect_def)
  then show fn: "faddr D i bn = faddr C i bn" if "bn < n" for bn using that by (cases "bn < NDIRECT") auto
  then show "fbyte D i j = fbyte C i j" if "j < n * BSIZE" for j
    using same block_below [OF that] by (simp add: fbyte_def owned_def)
  have im: "faddr D i ` {..<n} = faddr C i ` {..<n}" using fn by (intro image_cong) auto
  then show "owned D i n = owned C i n" by (simp add: owned_def)
  assume db: "\<And>k. k \<in> owned C i n \<Longrightarrow> data_block sb D k"
  have "inj_on (faddr D i) {..<n} \<longleftrightarrow> inj_on (faddr C i) {..<n}" using fn by (intro inj_on_cong) simp
  moreover have "data_block sb D (faddr C i bn)" if "bn < n" for bn using db that by (auto simp: owned_def)
  moreover have "data_block sb D (indirect i)" if "NDIRECT < n" using db that by (auto simp: owned_def)
  ultimately show "inode_ok sb D i n" using ok fn fa im by (auto simp: inode_ok_def)
qed

lemma owned_data: "inode_ok sb C i n \<Longrightarrow> k \<in> owned C i n \<Longrightarrow> data_block sb C k"
  by (auto simp: inode_ok_def owned_def split: if_splits)

lemma size_blocks: "j < unat (i_size i) \<Longrightarrow> j < nblocks (unat (i_size i)) * BSIZE"
  using nblocks_le [of "unat (i_size i)" "nblocks (unat (i_size i))"] by simp

lemma file_bytes_cong:
  assumes "file_ok sb C i" "\<And>k. k \<in> blocks_of C i \<Longrightarrow> D k = C k" "\<And>k. k \<in> blocks_of C i \<Longrightarrow> data_block sb D k"
  shows "file_ok sb D i" "file_bytes D i = file_bytes C i" "blocks_of D i = blocks_of C i"
  using assms file_cong [of sb C i "nblocks (unat (i_size i))" D] size_blocks [of _ i]
  by (auto simp: file_ok_def blocks_of_def file_bytes_def)

lemma file_written_other:
  assumes w: "file_written sb C i off bs C' i'" and j: "file_ok sb C j" "blocks_of C j \<inter> blocks_of C i = {}"
  shows "file_ok sb C' j" "file_bytes C' j = file_bytes C j" "blocks_of C' j \<inter> blocks_of C' i' = {}"
proof -
  have d: "data_block sb C k" "k \<notin> blocks_of C i" if "k \<in> blocks_of C j" for k
    using j that owned_data by (auto simp: file_ok_def blocks_of_def)
  then have "C' k = C k" "data_block sb C' k" if "k \<in> blocks_of C j" for k
    using w that unfolding file_written_def by blast+
  note c = file_bytes_cong [OF j(1) this]
  show "file_ok sb C' j" "file_bytes C' j = file_bytes C j" by (rule c; assumption)+
  have "blocks_of C' j = blocks_of C j" by (rule c; assumption)
  then show "blocks_of C' j \<inter> blocks_of C' i' = {}"
    using w d unfolding file_written_def by blast
qed

text \<open>The log area has no part in it.\<close>

lemma same_home_fs:
  assumes lay: "fs_layout e sb" and same: "same_home (e_sz e) (e_st e) D C"
  shows "unat (sb_inodestart sb) \<le> k \<Longrightarrow> D k = C k" "used sb D b = used sb C b" "data_block sb D k = data_block sb C k"
    "meta_used sb D = meta_used sb C" "dinode_at sb D m = dinode_at sb C m"
proof -
  show k: "unat (sb_inodestart sb) \<le> k \<Longrightarrow> D k = C k" for k
    using lay same by (auto simp: same_home_def log_area_def fs_layout_def)
  have "unat (sb_inodestart sb) \<le> bitmap_block sb b" for b using lay by (auto simp: fs_layout_def bitmap_block_def)
  then show u: "used sb D b = used sb C b" for b using k by (simp add: used_def)
  then show "data_block sb D k = data_block sb C k" "meta_used sb D = meta_used sb C" by (simp_all add: data_block_def meta_used_def)
  show "dinode_at sb D m = dinode_at sb C m" using k by (simp add: dinode_at_def inode_block_def)
qed

lemma file_written_home:
  assumes lay: "fs_layout e sb" and same: "same_home (e_sz e) (e_st e) D C'" and w: "file_written sb C i off bs C' i'"
  shows "file_written sb C i off bs D i'"
proof -
  note h = same_home_fs [OF lay same]
  have ok: "file_ok sb C' i'" using w by (simp add: file_written_def)
  have inner: "unat (sb_inodestart sb) \<le> k" if "data_block sb B k" for B k
    using that lay by (auto simp: data_block_def data_start_def fs_layout_def)
  have "D k = C' k" "data_block sb D k" if "k \<in> blocks_of C' i'" for k
    using that ok owned_data [of sb C' i' _ k] inner h(1,3) by (auto simp: blocks_of_def file_ok_def)
  note c = file_bytes_cong [OF ok this]
  show ?thesis using w c h inner unfolding file_written_def by auto
qed

section \<open>Reading and writing\<close>

lemma add_wraps: "(a :: u32) + b < a \<longleftrightarrow> 2 ^ 32 \<le> unat a + unat b"
proof -
  have l: "unat a < 2 ^ 32" "unat b < 2 ^ 32" using unsigned_less [of a] unsigned_less [of b] by simp_all
  have u: "unat (a + b) = (unat a + unat b) mod 2 ^ 32" by (simp add: unat_word_ariths)
  show ?thesis
  proof (cases "unat a + unat b < 2 ^ 32")
    case False
    then have "(unat a + unat b) mod 2 ^ 32 = unat a + unat b - 2 ^ 32" using l by (simp add: mod_if)
    then show ?thesis using False l u by (simp add: word_less_nat_alt)
  qed (use u in \<open>simp add: word_less_nat_alt\<close>)
qed

text \<open>
  C10: \<open>readi\<close> reads the bytes of the file. For every offset and length, it copies the \<open>n\<close> bytes from \<open>off\<close>
  on, cut off at the end of the file, and returns their number; it copies nothing when \<open>off\<close> is beyond
  the end or \<open>off + n\<close> wraps around. Neither the blocks nor the inode change.
\<close>

theorem readi_reads:
  assumes s: "ftx e sb I Y C L H s" and lay: "fs_layout e sb" and ok: "file_ok sb C (I ip)" and dev: "i_dev (I ip) = e_devno e"
    and H: "\<forall>k \<in> blocks_of C (I ip). H k = None" and room: "log_room e L H 0"
  shows "case readi ip ToLocal off n s of
      Ok r t \<Rightarrow> snd r = (if unat off + unat n < 2 ^ 32 then take (unat n) (drop (unat off) (file_bytes C (I ip))) else []) \<and>
        fst r = int (length (snd r)) \<and> ftx e sb I Y C L H t
    | Stop x t \<Rightarrow> x = Switched \<and> e_cut e t"
proof -
  have sI: "inodes s = I" using s by (simp add: ftx_def)
  have len: "length (file_bytes C (I ip)) = unat (i_size (I ip))" by (simp add: file_bytes_def)
  show ?thesis
  proof (cases "unat off \<le> unat (i_size (I ip)) \<and> unat off + unat n < 2 ^ 32")
    case True
    have ff: "file_free C (I ip) (nblocks (unat (i_size (I ip)))) H"
      using H unfolding file_free_def blocks_of_def owned_def by auto
    from runs_toD [OF readi_spec [of e sb C I ip H L "unat off" "unat n", OF lay ok dev ff room] s] True
    show ?thesis by (auto simp: Let_def)
  next
    case False
    then have "off > i_size (I ip) \<or> off + n < off" using add_wraps [of off n] by (auto simp: word_less_nat_alt)
    then have "readi ip ToLocal off n s = Ok (0, []) s" using sI by (auto simp: readi_def get_inode_def)
    then show ?thesis using False s len by auto
  qed
qed

lemma writei_refuses:
  assumes "length bs < 2 ^ 32" "\<not> (unat off \<le> unat (i_size (inodes s ip)) \<and> unat off + length bs \<le> MAXFILE * BSIZE)"
  shows "writei ip src off (of_nat (length bs)) s = Ok (- 1) s"
proof -
  have len: "unat (of_nat (length bs) :: u32) = length bs" using assms(1) by (rule unat32)
  have wr: "off + of_nat (length bs) < off \<longleftrightarrow> 2 ^ 32 \<le> unat off + length bs" using add_wraps [of off "of_nat (length bs)"] len by simp
  show ?thesis
  proof (cases "unat off + length bs < 2 ^ 32")
    case True
    then have "unat (off + of_nat (length bs)) = unat off + length bs" using len by (simp add: unat_word_ariths)
    then show ?thesis using True assms(2) wr by (auto simp: writei_def get_inode_def word_less_nat_alt)
  qed (use wr in \<open>simp add: writei_def get_inode_def\<close>)
qed

lemma writei_nothing:
  assumes "off \<le> i_size (inodes s ip)" "unat off \<le> MAXFILE * BSIZE"
  shows "writei ip src off 0 s = Ok 0 s"
proof -
  have "writei_loop (Suc 0) ip src off 0 0 s = Ok (0, off) s" by (subst writei_loop.simps) simp
  then show ?thesis using assms by (simp add: writei_def get_inode_def whenever_def not_less)
qed

text \<open>
  C2: \<open>writei\<close> replaces the bytes of the file from \<open>off\<close> on and extends the file when they go beyond its
  end; the record of the inode on the disk is the one in memory, and a file that shares no block keeps
  its bytes. It refuses, with -1 and no effect, an offset beyond the end, an end beyond the
  greatest file size and a sum that wraps around; writing nothing has no effect.
\<close>

theorem writei_writes:
  assumes s: "ftx e sb I Y C L H s" and lay: "fs_layout e sb" and meta: "meta_used sb C" and ok: "file_ok sb C (I ip)" and dev: "i_dev (I ip) = e_devno e"
    and inum: "unat (i_inum (I ip)) < unat (sb_ninodes sb)" and H: "quiet_data sb H" "H (inode_block sb (unat (i_inum (I ip)))) = None"
    and len: "length bs < 2 ^ 32" and room: "log_room e L H (6 * rounds (unat off) (length bs) + 2)" and free: "2 * rounds (unat off) (length bs) \<le> card (free_blocks sb C)"
  shows "case writei ip (FromLocal bs) off (of_nat (length bs)) s of
      Ok r t \<Rightarrow>
        if unat off \<le> unat (i_size (I ip)) \<and> unat off + length bs \<le> MAXFILE * BSIZE then
          r = int (length bs) \<and> (if bs = [] then t = s else
            \<exists>C' i' L'. ftx e sb (I(ip := i')) Y C' L' H t \<and> file_ok sb C' i' \<and>
              file_bytes C' i' = put_bytes (file_bytes C (I ip)) (unat off) bs \<and>
              dinode_at sb C' (unat (i_inum (I ip))) = inode_dinode i' \<and>
              (\<forall>j. file_ok sb C j \<and> blocks_of C j \<inter> blocks_of C (I ip) = {} \<longrightarrow> file_bytes C' j = file_bytes C j))
        else r = - 1 \<and> t = s
    | Stop x t \<Rightarrow> x = Switched \<and> e_cut e t"
proof -
  have sI: "inodes s = I" using s by (simp add: ftx_def)
  show ?thesis
  proof (cases "unat off \<le> unat (i_size (I ip)) \<and> unat off + length bs \<le> MAXFILE * BSIZE")
    case False
    then have "writei ip (FromLocal bs) off (of_nat (length bs)) s = Ok (- 1) s" using sI by (intro writei_refuses [OF len]) simp
    then show ?thesis using False by simp
  next
    case True
    show ?thesis
    proof (cases "bs = []")
      case Nil: True
      then have "writei ip (FromLocal bs) off (of_nat (length bs)) s = Ok 0 s" using True sI writei_nothing [of off s ip] by (simp add: word_le_nat_alt)
      then show ?thesis using True Nil by simp
    next
      case False
      from runs_toD [OF writei_spec [of e sb C I ip H "unat off" bs L Y, OF lay meta ok dev inum H] s] True False room free
      have "(\<exists>t C' i' L'. writei ip (FromLocal bs) off (of_nat (length bs)) s = Ok (int (length bs)) t \<and> file_written sb C (I ip) (unat off) bs C' i' \<and>
          ftx e sb (I(ip := i')) Y C' L' H t) \<or> (\<exists>t. writei ip (FromLocal bs) off (of_nat (length bs)) s = Stop Switched t \<and> e_cut e t)"
        by auto
      then show ?thesis
      proof (elim disjE exE conjE)
        fix t C' i' L'
        assume t: "writei ip (FromLocal bs) off (of_nat (length bs)) s = Ok (int (length bs)) t" and w: "file_written sb C (I ip) (unat off) bs C' i'"
          and f: "ftx e sb (I(ip := i')) Y C' L' H t"
        have "file_ok sb C' i' \<and> file_bytes C' i' = put_bytes (file_bytes C (I ip)) (unat off) bs \<and> dinode_at sb C' (unat (i_inum (I ip))) = inode_dinode i'"
          using w inum by (simp add: file_written_def)
        moreover have "\<forall>j. file_ok sb C j \<and> blocks_of C j \<inter> blocks_of C (I ip) = {} \<longrightarrow> file_bytes C' j = file_bytes C j"
          using file_written_other(2) [OF w] by blast
        ultimately show ?thesis using t f True False by auto
      qed simp
    qed
  qed
qed

lemma get_put_bytes: "off \<le> length xs \<Longrightarrow> take (length bs) (drop off (put_bytes xs off bs)) = bs"
  by (simp add: put_bytes_def)

lemma write_then_read:
  assumes lay: "fs_layout e sb" and meta: "meta_used sb C" and ok: "file_ok sb C (I ip)" and dev: "i_dev (I ip) = e_devno e"
    and inum: "unat (i_inum (I ip)) < unat (sb_ninodes sb)" and H: "quiet_data sb H" "H (inode_block sb (unat (i_inum (I ip)))) = None"
    and b: "off \<le> unat (i_size (I ip))" "off + length bs \<le> MAXFILE * BSIZE" "bs \<noteq> []"
    and room: "log_room e L H (6 * rounds off (length bs) + 2)" and free: "2 * rounds off (length bs) \<le> card (free_blocks sb C)"
  shows "runs_to (ftx e sb I Y C L H)
    (bind (writei ip (FromLocal bs) (of_nat off) (of_nat (length bs))) (\<lambda>_. readi ip ToLocal (of_nat off) (of_nat (length bs))))
    (\<lambda>r _. r = (int (length bs), bs)) (e_cut e)"
proof (rule runs_to_bind [OF runs_to_conseq [OF writei_spec [of e sb C I ip H off bs L Y, OF lay meta ok dev inum H b room free]]])
  let ?Q = "\<lambda>s. \<exists>C' i' L'. (file_written sb C (I ip) off bs C' i' \<and> length L' \<le> length L + 6 * rounds off (length bs) + 1) \<and> ftx e sb (I(ip := i')) Y C' L' H s"
  show "?Q s" if "r = int (length bs) \<and> ?Q s" for r s using that by simp
  show "runs_to ?Q (readi ip ToLocal (of_nat off) (of_nat (length bs))) (\<lambda>r _. r = (int (length bs), bs)) (e_cut e)"
  proof (rule runs_to_ex, elim conjE)
    fix C' i' and L' :: "nat list"
    assume w: "file_written sb C (I ip) off bs C' i'" and L: "length L' \<le> length L + 6 * rounds off (length bs) + 1"
    have fb: "file_bytes C' i' = put_bytes (file_bytes C (I ip)) off bs" and ok': "file_ok sb C' i'" using w by (simp_all add: file_written_def)
    have len: "length (file_bytes C (I ip)) = unat (i_size (I ip))" "length (file_bytes C' i') = unat (i_size i')" by (simp_all add: file_bytes_def)
    have "length (put_bytes (file_bytes C (I ip)) off bs) \<ge> off" using b(1) len(1) by (simp add: put_bytes_def)
    then have off: "off \<le> unat (i_size i')" "off + length bs < 2 ^ 32" using fb len(2) b(2) by (simp_all add: MAXFILE_nat BSIZE_nat)
    have ff: "file_free C' i' (nblocks (unat (i_size i'))) H"
      using ok' quiet_dataD(3) [OF H(1)] by (auto simp: file_free_def file_ok_def inode_ok_def)
    have rm: "log_room e L' H 0" using room L by (auto simp: log_room_def)
    have dev': "i_dev i' = e_devno e" using w dev by (simp add: file_written_def)
    have gb: "take (length bs) (drop off (file_bytes C' i')) = bs" using fb get_put_bytes [of off "file_bytes C (I ip)" bs] b(1) len(1) by simp
    show "runs_to (ftx e sb (I(ip := i')) Y C' L' H) (readi ip ToLocal (of_nat off) (of_nat (length bs))) (\<lambda>r _. r = (int (length bs), bs)) (e_cut e)"
      by (rule runs_to_conseq [OF readi_spec [of e sb C' "I(ip := i')" ip H L' off "length bs" Y, OF lay]])
         (use ok' ff rm dev' off gb in \<open>auto simp: Let_def\<close>)
  qed
qed

text \<open>
  C9: what was written is read back: \<open>readi\<close> after \<open>writei\<close> at the same offset returns the bytes.
\<close>

theorem write_read:
  assumes "ftx e sb I Y C L H s" and "fs_layout e sb" "meta_used sb C" "file_ok sb C (I ip)" "i_dev (I ip) = e_devno e"
    and "unat (i_inum (I ip)) < unat (sb_ninodes sb)" "quiet_data sb H" "H (inode_block sb (unat (i_inum (I ip)))) = None"
    and "off \<le> unat (i_size (I ip))" "off + length bs \<le> MAXFILE * BSIZE" "bs \<noteq> []"
    and "log_room e L H (6 * rounds off (length bs) + 2)" "2 * rounds off (length bs) \<le> card (free_blocks sb C)"
  shows "case bind (writei ip (FromLocal bs) (of_nat off) (of_nat (length bs))) (\<lambda>_. readi ip ToLocal (of_nat off) (of_nat (length bs))) s of
      Ok r _ \<Rightarrow> r = (int (length bs), bs)
    | Stop x t \<Rightarrow> x = Switched \<and> e_cut e t"
  using runs_toD [OF write_then_read [of e sb C I ip H off bs L Y, OF assms(2-)] assms(1)] by (elim disjE exE conjE) simp_all

section \<open>A write is atomic\<close>

text \<open>Between operations: no operation is under way and the disk is up to date.\<close>

definition idle :: "env \<Rightarrow> superblock \<Rightarrow> (nat \<Rightarrow> inode) \<Rightarrow> 'z \<Rightarrow> 'z kfs_scheme \<Rightarrow> bool" where
  "idle e sb I Y s \<longleftrightarrow>
     tx (e_sz e) (e_st e) (e_dev e) (e_fail e) (e_proc e) (e_pid e) 0 (klog.more s) (e_disk e) (e_disk e) [] (\<lambda>_. None) s \<and>
     fsb s = sb \<and> inodes s = I \<and> kfs.more s = Y"

lemma idle_disk: "idle e sb I Y s \<Longrightarrow> disk_of s = e_disk e"
  unfolding idle_def by (blast dest: tx_disk_of)

lemma f_begin_op: "runs_to (idle e sb I Y) begin_op (\<lambda>_. ftx e sb I Y (e_disk e) [] (\<lambda>_. None)) E"
proof (rule runs_toI)
  fix s
  assume s: "idle e sb I Y s"
  have "runs_to (tx (e_sz e) (e_st e) (e_dev e) (e_fail e) (e_proc e) (e_pid e) 0 (klog.more s) (e_disk e) (e_disk e) [] (\<lambda>_. None)) begin_op
      (\<lambda>_. tx (e_sz e) (e_st e) (e_dev e) (e_fail e) (e_proc e) (e_pid e) 1 (klog.more s) (e_disk e) (e_disk e) [] (\<lambda>_. None)) E"
    using tx_begin_op [of "[]" 0] by (simp add: LOGSIZE_def MAXOPBLOCKS_def)
  from runs_toD [OF this, of s] s
  have "(\<exists>x t. begin_op s = Ok x t \<and> tx (e_sz e) (e_st e) (e_dev e) (e_fail e) (e_proc e) (e_pid e) 1 (klog.more s) (e_disk e) (e_disk e) [] (\<lambda>_. None) t) \<or>
      (\<exists>t. begin_op s = Stop Switched t \<and> E t)" by (simp add: idle_def)
  then show "(\<exists>x t. begin_op s = Ok x t \<and> ftx e sb I Y (e_disk e) [] (\<lambda>_. None) t) \<or> (\<exists>t. begin_op s = Stop Switched t \<and> E t)"
  proof (elim disjE exE conjE)
    fix x t
    assume t: "begin_op s = Ok x t" "tx (e_sz e) (e_st e) (e_dev e) (e_fail e) (e_proc e) (e_pid e) 1 (klog.more s) (e_disk e) (e_disk e) [] (\<lambda>_. None) t"
    from tx_more [OF t(2)] kfs_more [of t s] s t show ?thesis by (auto simp: ftx_def idle_def)
  qed simp
qed

lemma f_end_op:
  "runs_to (ftx e sb I Y C L (\<lambda>_. None)) end_op (\<lambda>_ t. \<exists>D. idle (e\<lparr>e_disk := D\<rparr>) sb I Y t \<and> same_home (e_sz e) (e_st e) D C)
     (crash (e_fail e) (atomic (e_sz e) (e_st e) (e_disk e) C))"
proof (rule runs_toI)
  fix s
  assume s: "ftx e sb I Y C L (\<lambda>_. None) s"
  from runs_toD [OF tx_end_op_last, of "e_sz e" "e_st e" "e_dev e" "e_fail e" "e_proc e" "e_pid e" "klog.more s" "e_disk e" C L s] s
  have "(\<exists>x t D'. end_op s = Ok x t \<and> tx (e_sz e) (e_st e) (e_dev e) (e_fail e) (e_proc e) (e_pid e) 0 (klog.more s) D' D' [] (\<lambda>_. None) t \<and> same_home (e_sz e) (e_st e) D' C) \<or>
      (\<exists>t. end_op s = Stop Switched t \<and> crash (e_fail e) (atomic (e_sz e) (e_st e) (e_disk e) C) t)" by (simp add: ftx_def)
  then show "(\<exists>x t. end_op s = Ok x t \<and> (\<exists>D. idle (e\<lparr>e_disk := D\<rparr>) sb I Y t \<and> same_home (e_sz e) (e_st e) D C)) \<or>
      (\<exists>t. end_op s = Stop Switched t \<and> crash (e_fail e) (atomic (e_sz e) (e_st e) (e_disk e) C) t)"
  proof (elim disjE exE conjE)
    fix x t D
    assume t: "end_op s = Ok x t" "tx (e_sz e) (e_st e) (e_dev e) (e_fail e) (e_proc e) (e_pid e) 0 (klog.more s) D D [] (\<lambda>_. None) t" "same_home (e_sz e) (e_st e) D C"
    from tx_more [OF t(2)] kfs_more [of t s] s t show ?thesis by (auto simp: ftx_def idle_def)
  qed simp
qed

text \<open>What \<open>initlog\<close> makes of the disk after a crash, in any state after a reboot.\<close>

definition reboots_to :: "env \<Rightarrow> superblock \<Rightarrow> (nat \<Rightarrow> byte list) \<Rightarrow> ((nat \<Rightarrow> byte list) \<Rightarrow> bool) \<Rightarrow> 'z itself \<Rightarrow> bool" where
  "reboots_to e sb d P _ \<longleftrightarrow>
     (\<forall>q qid B Z (u :: 'z klog_scheme). lstate False q qid B Z d d (\<lambda>_. 0) (\<lambda>_. None) u \<longrightarrow>
        (\<exists>v. initlog (lg_dev B) sb u = Ok () v \<and> get32 (disk_of v (e_st e)) 0 = 0 \<and> P (disk_of v)))"

lemma fs_op_atomic:
  assumes s: "idle e sb I Y s"
    and m: "runs_to (ftx e sb I Y (e_disk e) [] (\<lambda>_. None)) m (\<lambda>r t. \<exists>C J L. P r C J \<and> ftx e sb J Y C L (\<lambda>_. None) t) (e_cut e)"
  shows "case seq begin_op (bind m (\<lambda>r. seq end_op (return r))) s of
      Ok r t \<Rightarrow> \<exists>C J. P r C J \<and> same_home (e_sz e) (e_st e) (disk_of t) C \<and> idle (e\<lparr>e_disk := disk_of t\<rparr>) sb J Y t
    | Stop x t \<Rightarrow> x = Switched \<and> e_fail e \<and> (\<exists>r C J. atomic (e_sz e) (e_st e) (e_disk e) C (disk_of t) \<and> (C = e_disk e \<or> P r C J))"
proof -
  let ?D = "e_disk e"
  let ?X = "\<lambda>d. \<exists>r C J. atomic (e_sz e) (e_st e) ?D C d \<and> (C = ?D \<or> P r C J)"
  let ?Q = "\<lambda>r t. \<exists>D C J. P r C J \<and> same_home (e_sz e) (e_st e) D C \<and> idle (e\<lparr>e_disk := D\<rparr>) sb J Y t"
  have g: "get32 (?D (e_st e)) 0 = 0" "0 < e_sz e" using s by (auto simp: idle_def tx_def logging_def)
  have X: "?X ?D" using atomic_same [of ?D "e_st e" "e_sz e" ?D, OF g] by blast
  have 2: "runs_to (\<lambda>t. \<exists>C J L. P r C J \<and> ftx e sb J Y C L (\<lambda>_. None) t) (seq end_op (return r)) ?Q (crash (e_fail e) ?X)" for r
  proof (rule runs_to_ex)
    fix C J L
    assume P: "P r C J"
    show "runs_to (ftx e sb J Y C L (\<lambda>_. None)) (seq end_op (return r)) ?Q (crash (e_fail e) ?X)"
      by (rule runs_to_seq [OF runs_to_conseq [OF f_end_op] runs_to_return]) (use P in \<open>auto simp: crash_def\<close>)
  qed
  have "runs_to (idle e sb I Y) (seq begin_op (bind m (\<lambda>r. seq end_op (return r)))) ?Q (crash (e_fail e) ?X)"
    by (rule runs_to_seq [OF f_begin_op runs_to_bind [OF runs_to_conseq [OF m] 2]]) (use X in \<open>auto simp: crash_def\<close>)
  from runs_toD [OF this s] show ?thesis
  proof (elim disjE exE conjE)
    fix r t D C J
    assume t: "seq begin_op (bind m (\<lambda>r. seq end_op (return r))) s = Ok r t" "P r C J" "same_home (e_sz e) (e_st e) D C" "idle (e\<lparr>e_disk := D\<rparr>) sb J Y t"
    moreover have "disk_of t = D" using idle_disk [OF t(4)] by simp
    ultimately show ?thesis by auto
  qed (auto simp: crash_def)
qed

lemma reboot_atomic:
  assumes a: "atomic (e_sz e) (e_st e) D C d" and st: "e_st e + e_sz e \<le> 2 ^ 31" "sint (sb_logstart sb) = int (e_st e)"
    and P: "\<And>v. same_home (e_sz e) (e_st e) v D \<or> same_home (e_sz e) (e_st e) v C \<Longrightarrow> P v"
  shows "reboots_to e sb d P TYPE('z)"
  unfolding reboots_to_def
proof (intro allI impI)
  fix q qid B Z and u :: "'z klog_scheme"
  assume u: "lstate False q qid B Z d d (\<lambda>_. 0) (\<lambda>_. None) u"
  from boot_atomic [OF a st(1) u st(2)] P show "\<exists>v. initlog (lg_dev B) sb u = Ok () v \<and> get32 (disk_of v (e_st e)) 0 = 0 \<and> P (disk_of v)" by blast
qed

text \<open>An operation that comes down to a write to one file.\<close>

lemma file_op_atomic:
  assumes s: "idle e sb I Y s" and lay: "fs_layout e sb" and st: "sint (sb_logstart sb) = int (e_st e)"
    and m: "runs_to (ftx e sb I Y (e_disk e) [] (\<lambda>_. None)) m
      (\<lambda>r t. \<exists>C' i' L'. (r = v \<and> file_written sb (e_disk e) (I ip) off bs C' i') \<and> ftx e sb (I(ip := i')) Y C' L' (\<lambda>_. None) t) (e_cut e)"
  shows "case seq begin_op (bind m (\<lambda>r. seq end_op (return r))) s of
      Ok r t \<Rightarrow> r = v \<and> (\<exists>i'. file_written sb (e_disk e) (I ip) off bs (disk_of t) i' \<and> idle (e\<lparr>e_disk := disk_of t\<rparr>) sb (I(ip := i')) Y t)
    | Stop x t \<Rightarrow> x = Switched \<and> e_fail e \<and> reboots_to e sb (disk_of t)
        (\<lambda>d. same_home (e_sz e) (e_st e) d (e_disk e) \<or> (\<exists>i'. file_written sb (e_disk e) (I ip) off bs d i')) TYPE('y)"
proof -
  let ?D = "e_disk e" and ?N = "\<lambda>_. None"
  let ?P = "\<lambda>r C J. r = v \<and> (\<exists>i'. J = I(ip := i') \<and> file_written sb ?D (I ip) off bs C i')"
  have e: "e_st e + e_sz e \<le> 2 ^ 31" using s by (auto simp: idle_def tx_def logging_def)
  note home = file_written_home [OF lay]
  have "runs_to (ftx e sb I Y ?D [] ?N) m (\<lambda>r t. \<exists>C J L. ?P r C J \<and> ftx e sb J Y C L ?N t) (e_cut e)"
    by (rule runs_to_conseq [OF m]) (simp_all, blast)
  note a = fs_op_atomic [OF s this]
  show ?thesis
  proof (cases "seq begin_op (bind m (\<lambda>r. seq end_op (return r))) s")
    case (Ok r t)
    then obtain C i' where t: "r = v" "file_written sb ?D (I ip) off bs C i'" "same_home (e_sz e) (e_st e) (disk_of t) C"
      "idle (e\<lparr>e_disk := disk_of t\<rparr>) sb (I(ip := i')) Y t" using a by auto
    then show ?thesis using Ok home [OF t(3,2)] by auto
  next
    case (Stop x t)
    then obtain C where t: "x = Switched" "e_fail e" "atomic (e_sz e) (e_st e) ?D C (disk_of t)" "C = ?D \<or> (\<exists>i'. file_written sb ?D (I ip) off bs C i')"
      using a by auto
    have "reboots_to e sb (disk_of t) (\<lambda>d. same_home (e_sz e) (e_st e) d ?D \<or> (\<exists>i'. file_written sb ?D (I ip) off bs d i')) TYPE('y)"
      by (rule reboot_atomic [OF t(3) e st]) (use t(4) home in blast)
    then show ?thesis using Stop t by simp
  qed
qed

text \<open>
  C1: a write to a file is atomic, whatever the number of blocks it changes or allocates. Between
  \<open>begin_op\<close> and \<open>end_op\<close>, \<open>writei\<close> either returns, and then the disk holds the file with the new bytes, or
  the disk stops answering; after the reboot \<open>initlog\<close> returns, and all blocks outside the log
  are as before the write, or the file has all the new bytes and every other inode and file is
  unchanged.
\<close>

theorem write_atomic:
  assumes s: "idle e sb I Y s" and lay: "fs_layout e sb" and meta: "meta_used sb (e_disk e)" and ok: "file_ok sb (e_disk e) (I ip)" and dev: "i_dev (I ip) = e_devno e"
    and inum: "unat (i_inum (I ip)) < unat (sb_ninodes sb)" and b: "off \<le> unat (i_size (I ip))" "off + length bs \<le> MAXFILE * BSIZE" "bs \<noteq> []"
    and room: "log_room e [] (\<lambda>_. None) (6 * rounds off (length bs) + 2)" and free: "2 * rounds off (length bs) \<le> card (free_blocks sb (e_disk e))"
    and st: "sint (sb_logstart sb) = int (e_st e)"
  shows "case seq begin_op (bind (writei ip (FromLocal bs) (of_nat off) (of_nat (length bs))) (\<lambda>r. seq end_op (return r))) s of
      Ok r t \<Rightarrow> r = int (length bs) \<and> (\<exists>i'. file_written sb (e_disk e) (I ip) off bs (disk_of t) i' \<and>
        idle (e\<lparr>e_disk := disk_of t\<rparr>) sb (I(ip := i')) Y t)
    | Stop x t \<Rightarrow> x = Switched \<and> e_fail e \<and> reboots_to e sb (disk_of t)
        (\<lambda>d. same_home (e_sz e) (e_st e) d (e_disk e) \<or> (\<exists>i'. file_written sb (e_disk e) (I ip) off bs d i')) TYPE('y)"
proof (rule file_op_atomic [OF s lay st])
  let ?D = "e_disk e" and ?N = "\<lambda>_. None"
  have "quiet_data sb ?N" by (simp add: quiet_data_def)
  then show "runs_to (ftx e sb I Y ?D [] ?N) (writei ip (FromLocal bs) (of_nat off) (of_nat (length bs)))
    (\<lambda>r t. \<exists>C' i' L'. (r = int (length bs) \<and> file_written sb ?D (I ip) off bs C' i') \<and> ftx e sb (I(ip := i')) Y C' L' ?N t) (e_cut e)"
    by (intro runs_to_conseq [OF writei_spec [of e sb ?D I ip ?N off bs "[]" Y, OF lay meta ok dev inum _ _ b room free]]) (simp_all, blast)
qed

section \<open>A machine with a file\<close>

text \<open>An empty file on the disk of \<open>bitmap_medium\<close>.\<close>

definition new_file :: inode where
  "new_file = empty_inode\<lparr>i_dev := 1, i_inum := 1, i_type := T_FILE\<rparr>"

lemma new_file_ok: "file_ok sb C new_file" "blocks_of C new_file = {}" "file_bytes C new_file = []"
  by (simp_all add: new_file_def empty_inode_def file_ok_def inode_ok_def nblocks_def BSIZE_nat blocks_of_def owned_def file_bytes_def)

lemma free_bitmap: "free_blocks (fsb kernel_example) (disk_block bitmap_medium) = {46..<1000}"
  using bitmap_used by (auto simp: free_blocks_def kernel_example_def)

lemma write_example:
  shows "i_dev new_file = e_devno (op_env m)" "unat (i_inum new_file) < unat (sb_ninodes (fsb kernel_example))"
    "quiet_data (fsb kernel_example) (\<lambda>_. None)" "log_room (op_env m) [] (\<lambda>_. None) 8" "rounds 0 (Suc (Suc (Suc 0))) = 1"
    "2 \<le> card (free_blocks (fsb kernel_example) (disk_block bitmap_medium))"
  unfolding free_bitmap
  by (simp_all add: new_file_def empty_inode_def u32_of_int_def kernel_example_def quiet_data_def log_room_def rounds_def nblocks_def BSIZE_nat
    LOGSIZE_def NBUF_def MAXOPBLOCKS_def)

lemma bitmap_ftx:
  "ftx (op_env bitmap_medium) (fsb kernel_example) I (kfs.more kernel_example) (disk_block bitmap_medium) [] (\<lambda>_. None) (op_example bitmap_medium I)"
  by (rule op_example_ftx [OF length_bitmap_medium]) (simp add: disk_block_two bitmap_medium_def)

abbreviation file_machine :: kgic where
  "file_machine \<equiv> op_example bitmap_medium (\<lambda>_. new_file)"

theorem writei_writes_witness:
  "\<exists>t C. writei 0 (FromLocal [1, 2, 3]) 0 3 file_machine = Ok 3 t \<and> file_bytes C (inodes t 0) = [1, 2, 3]"
proof -
  have room: "log_room (op_env bitmap_medium) [] (\<lambda>_. None) (6 * rounds (unat (0 :: u32)) (length [1, 2, 3 :: byte]) + 2)"
    "2 * rounds (unat (0 :: u32)) (length [1, 2, 3 :: byte]) \<le> card (free_blocks (fsb kernel_example) (disk_block bitmap_medium))"
    using write_example(4,5,6) by simp_all
  have len: "length [1, 2, 3 :: byte] < 2 ^ 32" "of_nat (length [1, 2, 3 :: byte]) = (3 :: u32)" by simp_all
  note w = writei_writes [OF bitmap_ftx fs_layout_example bitmap_meta, of "\<lambda>_. new_file" 0 "[1, 2, 3]" 0, OF new_file_ok(1) write_example(1,2,3) refl len(1) room, unfolded len(2)]
  show ?thesis
  proof (cases "writei 0 (FromLocal [1, 2, 3]) 0 3 file_machine")
    case (Ok r t)
    then show ?thesis using w by (auto simp: new_file_ok put_bytes_def ftx_def MAXFILE_nat BSIZE_nat)
  next
    case (Stop x t)
    then show ?thesis using w by (simp add: crash_def)
  qed
qed

lemma bitmap_idle:
  "idle (op_env bitmap_medium) (fsb kernel_example) I (kfs.more kernel_example) (machine_at 0 bitmap_medium I)"
  using machine_tx [of bitmap_medium 0 I, OF length_bitmap_medium] by (simp add: idle_def machine_fs disk_block_two bitmap_medium_def)

theorem write_read_witness:
  "\<exists>t. bind (writei 0 (FromLocal [1, 2, 3]) 0 3) (\<lambda>_. readi 0 ToLocal 0 3) file_machine = Ok (3, [1, 2, 3]) t"
proof -
  have room: "log_room (op_env bitmap_medium) [] (\<lambda>_. None) (6 * rounds 0 (length [1, 2, 3 :: byte]) + 2)"
    "2 * rounds 0 (length [1, 2, 3 :: byte]) \<le> card (free_blocks (fsb kernel_example) (disk_block bitmap_medium))"
    using write_example(4,5,6) by simp_all
  have len: "0 \<le> unat (i_size new_file)" "0 + length [1, 2, 3 :: byte] \<le> MAXFILE * BSIZE" "[1, 2, 3 :: byte] \<noteq> []"
    "of_nat (length [1, 2, 3 :: byte]) = (3 :: u32)" "of_nat 0 = (0 :: u32)" by (simp_all add: MAXFILE_nat BSIZE_nat)
  note w = write_read [OF bitmap_ftx fs_layout_example bitmap_meta, of "\<lambda>_. new_file" 0 0 "[1, 2, 3]", OF new_file_ok(1) write_example(1,2,3) refl len(1-3) room, unfolded len(4,5)]
  show ?thesis
    using w by (cases "bind (writei 0 (FromLocal [1, 2, 3]) 0 3) (\<lambda>_. readi 0 ToLocal 0 3) file_machine") (auto simp: crash_def)
qed

theorem write_atomic_witness:
  "\<exists>t i. seq begin_op (bind (writei 0 (FromLocal [1, 2, 3]) 0 3) (\<lambda>r. seq end_op (return r))) (machine_at 0 bitmap_medium (\<lambda>_. new_file)) = Ok 3 t \<and>
     file_bytes (disk_of t) i = [1, 2, 3] \<and> dinode_at (fsb kernel_example) (disk_of t) 1 = inode_dinode i"
proof -
  let ?sb = "fsb kernel_example"
  have room: "log_room (op_env bitmap_medium) [] (\<lambda>_. None) (6 * rounds 0 (length [1, 2, 3 :: byte]) + 2)"
    "2 * rounds 0 (length [1, 2, 3 :: byte]) \<le> card (free_blocks ?sb (e_disk (op_env bitmap_medium)))" "meta_used ?sb (e_disk (op_env bitmap_medium))"
    using write_example(4,5,6) bitmap_meta by simp_all
  have len: "0 \<le> unat (i_size new_file)" "0 + length [1, 2, 3 :: byte] \<le> MAXFILE * BSIZE" "[1, 2, 3 :: byte] \<noteq> []" "sint (sb_logstart ?sb) = int (e_st (op_env bitmap_medium))"
    "of_nat (length [1, 2, 3 :: byte]) = (3 :: u32)" "of_nat 0 = (0 :: u32)" by (simp_all add: MAXFILE_nat BSIZE_nat kernel_example_def)
  note w = write_atomic [OF bitmap_idle fs_layout_example room(3), of "\<lambda>_. new_file" 0 0 "[1, 2, 3]", OF new_file_ok(1) write_example(1,2) len(1-3) room(1,2) len(4), unfolded len(5,6)]
  have i: "unat (i_inum new_file) = 1" "1 < unat (sb_ninodes ?sb)" by (simp_all add: new_file_def kernel_example_def)
  show ?thesis
  proof (cases "seq begin_op (bind (writei 0 (FromLocal [1, 2, 3]) 0 3) (\<lambda>r. seq end_op (return r))) (machine_at 0 bitmap_medium (\<lambda>_. new_file))")
    case (Ok r t)
    then obtain j where "r = 3" "file_written ?sb (disk_block bitmap_medium) new_file 0 [1, 2, 3] (disk_of t) j" using w by auto
    then show ?thesis using Ok i by (auto simp: file_written_def new_file_ok put_bytes_def)
  next
    case (Stop x t)
    then show ?thesis using w by simp
  qed
qed

text \<open>A disk with a file of ten bytes in block 46.\<close>

definition file_medium :: "nat \<Rightarrow> byte list" where
  "file_medium k =
     (if k = 90 then map (\<lambda>j. if j < 5 then 255 else if j = 5 then 127 else 0) [0..<512]
      else if k = 92 then map of_nat [0..<512] else replicate 512 0)"

definition small_file :: inode where
  "small_file = new_file\<lparr>i_size := 10, i_addrs := (\<lambda>_. 0)(0 := 46)\<rparr>"

lemma length_file_medium: "length (file_medium k) = 512"
  by (simp add: file_medium_def)

lemma small_file_block: "faddr C small_file 0 = 46" "unat (i_size small_file) = 10" "nblocks 10 = 1"
  by (simp_all add: faddr_def small_file_def MAXFILE_nat nblocks_def BSIZE_nat)

lemma file_medium_block: "data_block (fsb kernel_example) (disk_block file_medium) 46"
proof -
  have "bit (127 :: byte) 6" by (simp add: bit_iff_odd)
  then have "used (fsb kernel_example) (disk_block file_medium) 46"
    using bitmap_bits [of file_medium 127 46] by (simp add: file_medium_def)
  then show ?thesis by (simp add: data_block_def data_start_def nbitmap_def BPB_nat kernel_example_def)
qed

lemma small_file_ok: "file_ok (fsb kernel_example) (disk_block file_medium) small_file"
  using file_medium_block small_file_block
  by (simp add: file_ok_def inode_ok_def MAXFILE_nat lessThan_Suc) (simp add: small_file_def new_file_def empty_inode_def)

lemma small_file_bytes: "file_bytes (disk_block file_medium) small_file = [0, 1, 2, 3, 4, 5, 6, 7, 8, 9]"
proof -
  have "fbyte (disk_block file_medium) small_file j = of_nat j" if "j < 10" for j
    using that small_file_block(1) by (simp add: fbyte_def BSIZE_nat disk_block_two file_medium_def nth_append)
  then show ?thesis unfolding file_bytes_def small_file_block(2) by (simp add: upt_rec)
qed

lemma file_medium_ftx:
  "ftx (op_env file_medium) (fsb kernel_example) I (kfs.more kernel_example) (disk_block file_medium) [] (\<lambda>_. None) (op_example file_medium I)"
  by (rule op_example_ftx [OF length_file_medium]) (simp add: disk_block_two file_medium_def)

theorem readi_reads_witness:
  "\<exists>t. readi 0 ToLocal 3 4 (op_example file_medium (\<lambda>_. small_file)) = Ok (4, [3, 4, 5, 6]) t"
proof -
  have dev: "i_dev small_file = e_devno (op_env file_medium)" by (simp add: small_file_def new_file_def u32_of_int_def)
  have room: "log_room (op_env file_medium) [] (\<lambda>_. None) 0" by (rule log_room_le [OF write_example(4)]) simp
  have free: "\<forall>k \<in> blocks_of (disk_block file_medium) small_file. (\<lambda>_. None) k = None" by simp
  note r = readi_reads [OF file_medium_ftx fs_layout_example, where I = "\<lambda>_. small_file" and ip = 0 and off = 3 and n = 4, OF small_file_ok dev free room]
  show ?thesis
    using r by (cases "readi 0 ToLocal 3 4 (op_example file_medium (\<lambda>_. small_file))") (auto simp: small_file_bytes crash_def prod_eq_iff)
qed

end
