(* ===== verification/DirSpec.thy ===== *)
theory DirSpec
  imports FileSpec
begin

text \<open>
  Directories as maps from names to inode numbers: what \<open>dirlookup\<close> and \<open>dirlink\<close> of \<open>src/kernel/fs.c\<close> mean
  for the bytes of a directory. A directory is a file of 16-byte entries; an entry with the inode
  number 0 is empty.
\<close>

section \<open>Names\<close>

text \<open>The name that \<open>DIRSIZ\<close> bytes stand for: the bytes before the first NUL.\<close>

definition cname :: "view \<Rightarrow> byte list" where
  "cname v = takeWhile (\<lambda>c. c \<noteq> 0) (map v [0..<DIRSIZ])"

lemma strncmp_loop_names:
  "strncmp_loop p q i n = 0 \<longleftrightarrow> takeWhile (\<lambda>c. c \<noteq> 0) (map p [i..<i + n]) = takeWhile (\<lambda>c. c \<noteq> 0) (map q [i..<i + n])"
proof (induction n arbitrary: i)
  case (Suc n)
  have u: "[i..<i + Suc n] = i # [Suc i..<Suc i + n]" by (simp add: upt_rec)
  have "uint (p i) = uint (q i) \<longleftrightarrow> p i = q i" by (auto intro: unsigned_word_eqI)
  then show ?case unfolding u using Suc [of "Suc i"] by (cases "p i = q i") (auto simp: unsigned_eq_0_iff)
qed simp

lemma namecmp_zero: "namecmp p q = 0 \<longleftrightarrow> cname p = cname q"
proof -
  have "unat (of_nat DIRSIZ :: u32) = DIRSIZ" by (simp add: DIRSIZ_def)
  then show ?thesis using strncmp_loop_names [of p q 0 DIRSIZ] by (simp add: namecmp_def strncmp_def cname_def)
qed

text \<open>An entry is made with the name and the number that it is read back with.\<close>

lemma dirent_bytes_fields:
  "length (dirent_bytes inum v) = DIRENT_SIZE" "de_inum (dirent_bytes inum v) = inum" "cname (de_name (dirent_bytes inum v)) = cname v"
proof -
  have "map (view_of (map v [0..<DIRSIZ])) [0..<DIRSIZ] = map v [0..<DIRSIZ]" by (rule map_cong) (simp_all add: view_of_def)
  then show "cname (de_name (dirent_bytes inum v)) = cname v" unfolding cname_def by (simp add: dirent_bytes_def de_name_def del: map_eq_conv)
qed (simp_all add: dirent_bytes_def DIRENT_SIZE_def DIRSIZ_def de_inum_def get16_def le_word_bytes)

lemma cname_strncpy: "cname (strncpy (\<lambda>_. 0) name (int DIRSIZ)) = cname name"
proof -
  have "strncmp_loop name (strncpy (\<lambda>_. 0) name (int DIRSIZ)) 0 DIRSIZ = 0"
    unfolding strncmp_loop_zero strncpy_result by (auto simp: le_less)
  then show ?thesis using strncmp_loop_names [of name _ 0 DIRSIZ] by (simp add: cname_def)
qed

section \<open>The map of a directory\<close>

definition dirent_at :: "byte list \<Rightarrow> nat \<Rightarrow> byte list" where
  "dirent_at bs k = take DIRENT_SIZE (drop (DIRENT_SIZE * k) bs)"

definition dir_len :: "byte list \<Rightarrow> nat" where
  "dir_len bs = length bs div DIRENT_SIZE"

definition names :: "byte list \<Rightarrow> byte list \<Rightarrow> nat \<Rightarrow> bool" where
  "names bs nm k \<longleftrightarrow> de_inum (dirent_at bs k) \<noteq> 0 \<and> cname (de_name (dirent_at bs k)) = nm"

definition dir_find :: "byte list \<Rightarrow> byte list \<Rightarrow> nat option" where
  "dir_find bs nm = List.find (names bs nm) [0..<dir_len bs]"

definition dir_map :: "byte list \<Rightarrow> byte list \<Rightarrow> u16 option" where
  "dir_map bs nm = map_option (\<lambda>k. de_inum (dirent_at bs k)) (dir_find bs nm)"

definition dir_slot :: "byte list \<Rightarrow> nat" where
  "dir_slot bs = (case List.find (\<lambda>k. de_inum (dirent_at bs k) = 0) [0..<dir_len bs] of None \<Rightarrow> dir_len bs | Some k \<Rightarrow> k)"

lemma find_upt_Some: "List.find P [a..<b] = Some k \<Longrightarrow> a \<le> k \<and> k < b \<and> P k"
  by (auto simp: find_Some_iff)

lemma dir_slot_bound: "dir_slot bs \<le> dir_len bs" "dir_slot bs < dir_len bs \<Longrightarrow> de_inum (dirent_at bs (dir_slot bs)) = 0"
proof -
  have "dir_slot bs = dir_len bs \<or> dir_slot bs < dir_len bs \<and> de_inum (dirent_at bs (dir_slot bs)) = 0"
  proof (cases "List.find (\<lambda>k. de_inum (dirent_at bs k) = 0) [0..<dir_len bs]")
    case (Some k)
    from find_upt_Some [OF this] Some show ?thesis by (simp add: dir_slot_def)
  qed (simp add: dir_slot_def)
  then show "dir_slot bs \<le> dir_len bs" "dir_slot bs < dir_len bs \<Longrightarrow> de_inum (dirent_at bs (dir_slot bs)) = 0" by auto
qed

lemma dir_len_bound: "length bs \<le> MAXFILE * BSIZE \<Longrightarrow> dir_len bs \<le> 17152"
  by (simp add: dir_len_def DIRENT_SIZE_def MAXFILE_nat BSIZE_nat)

lemma dir_len_le: "k < dir_len bs \<Longrightarrow> DIRENT_SIZE * k + DIRENT_SIZE \<le> length bs"
  unfolding dir_len_def DIRENT_SIZE_def by presburger

lemma length_dirent_at: "k < dir_len bs \<Longrightarrow> length (dirent_at bs k) = DIRENT_SIZE"
  using dir_len_le [of k bs] by (simp add: dirent_at_def)

lemma put_bytes_other:
  assumes "off \<le> length bs" "a + n \<le> off \<or> off + length xs \<le> a"
  shows "take n (drop a (put_bytes bs off xs)) = take n (drop a bs)"
  using assms by (auto simp: put_bytes_def min_def drop_take)

text \<open>What a new entry in the slot makes of the map.\<close>

lemma dir_put:
  assumes d: "DIRENT_SIZE dvd length bs" and k: "k \<le> dir_len bs" and de: "length de = DIRENT_SIZE"
  defines "bs' \<equiv> put_bytes bs (DIRENT_SIZE * k) de"
  shows "dir_len bs' = max (dir_len bs) (Suc k)" "DIRENT_SIZE dvd length bs'" "dirent_at bs' k = de"
    "j < dir_len bs \<Longrightarrow> j \<noteq> k \<Longrightarrow> dirent_at bs' j = dirent_at bs j"
proof -
  obtain n where n: "length bs = DIRENT_SIZE * n" using d by (auto simp: dvd_def)
  then have l: "dir_len bs = n" by (simp add: dir_len_def DIRENT_SIZE_def)
  have len: "length bs' = DIRENT_SIZE * max n (Suc k)" using k de n l by (auto simp: bs'_def put_bytes_def max_def DIRENT_SIZE_def)
  then show "dir_len bs' = max (dir_len bs) (Suc k)" "DIRENT_SIZE dvd length bs'" unfolding l by (simp_all add: dir_len_def) (simp add: DIRENT_SIZE_def)
  show "dirent_at bs' k = de" using k de n l by (simp add: dirent_at_def bs'_def put_bytes_def)
  show "dirent_at bs' j = dirent_at bs j" if "j < dir_len bs" "j \<noteq> k"
  proof -
    have "DIRENT_SIZE * j + DIRENT_SIZE \<le> DIRENT_SIZE * k \<or> DIRENT_SIZE * k + DIRENT_SIZE \<le> DIRENT_SIZE * j" using that(2) by (auto simp: DIRENT_SIZE_def)
    then show ?thesis unfolding dirent_at_def bs'_def using k n l de by (intro put_bytes_other) simp_all
  qed
qed

lemma find_snoc_no: "\<not> P x \<Longrightarrow> List.find P (xs @ [x]) = List.find P xs"
  by (induction xs) auto

lemma dir_map_put:
  assumes d: "DIRENT_SIZE dvd length bs" and de: "length de = DIRENT_SIZE" "de_inum de \<noteq> 0" and new: "dir_map bs (cname (de_name de)) = None"
  shows "dir_map (put_bytes bs (DIRENT_SIZE * dir_slot bs) de) = (dir_map bs)(cname (de_name de) \<mapsto> de_inum de)"
proof
  fix nm
  define k where "k = dir_slot bs"
  let ?bs = "put_bytes bs (DIRENT_SIZE * k) de"
  have k: "k \<le> dir_len bs" "k < dir_len bs \<Longrightarrow> de_inum (dirent_at bs k) = 0"
    using dir_slot_bound [of bs] by (simp_all add: k_def)
  note p = dir_put [OF d k(1) de(1)]
  have same: "names ?bs m j = names bs m j" if "j < dir_len bs" "j \<noteq> k" for m j using p(4) [OF that] by (simp add: names_def)
  have at: "names ?bs m k \<longleftrightarrow> m = cname (de_name de)" for m using p(3) de(2) by (auto simp: names_def)
  have none: "\<not> names bs (cname (de_name de)) j" if "j < dir_len bs" for j
    using new that by (auto simp: dir_map_def dir_find_def find_None_iff)
  show "dir_map (put_bytes bs (DIRENT_SIZE * dir_slot bs) de) nm = ((dir_map bs)(cname (de_name de) \<mapsto> de_inum de)) nm"
    unfolding k_def [symmetric]
  proof (cases "nm = cname (de_name de)")
    case True
    have "dir_find ?bs nm = Some k"
      unfolding dir_find_def find_Some_iff using True at same none p(1) k(1) by (intro exI [of _ k]) (auto simp: max_def)
    then show "dir_map ?bs nm = ((dir_map bs)(cname (de_name de) \<mapsto> de_inum de)) nm" using True p(3) by (simp add: dir_map_def)
  next
    case False
    have old: "names ?bs nm j = names bs nm j" if "j < dir_len bs" for j
      using same [of j nm] at [of nm] k(2) that False by (cases "j = k") (auto simp: names_def)
    have "dir_find ?bs nm = List.find (names ?bs nm) [0..<dir_len bs]"
    proof (cases "k < dir_len bs")
      case True
      then have "dir_len ?bs = dir_len bs" using p(1) by simp
      then show ?thesis by (simp only: dir_find_def)
    next
      case kn: False
      then have "[0..<dir_len ?bs] = [0..<dir_len bs] @ [k]" using p(1) k(1) by simp
      then show ?thesis using at [of nm] False by (simp add: dir_find_def find_snoc_no)
    qed
    also have "\<dots> = dir_find bs nm" unfolding dir_find_def by (rule find_cong) (use old in auto)
    finally have f: "dir_find ?bs nm = dir_find bs nm" .
    have "j < dir_len bs \<and> j \<noteq> k" if "dir_find bs nm = Some j" for j
      using find_upt_Some [OF that [unfolded dir_find_def]] k(2) by (auto simp: names_def)
    then show "dir_map ?bs nm = ((dir_map bs)(cname (de_name de) \<mapsto> de_inum de)) nm"
      using p(4) False f by (cases "dir_find bs nm") (auto simp: dir_map_def)
  qed
qed

section \<open>The loops\<close>

abbreviation dir_of :: "(nat \<Rightarrow> byte list) \<Rightarrow> (nat \<Rightarrow> inode) \<Rightarrow> nat \<Rightarrow> byte list" where
  "dir_of C I dp \<equiv> file_bytes C (I dp)"

lemma length_file_bytes: "length (file_bytes C i) = unat (i_size i)"
  by (simp add: file_bytes_def)

definition dir_ok :: "env \<Rightarrow> superblock \<Rightarrow> (nat \<Rightarrow> byte list) \<Rightarrow> nat list \<Rightarrow> (nat \<Rightarrow> nat option) \<Rightarrow> inode \<Rightarrow> bool" where
  "dir_ok e sb C L H i \<longleftrightarrow>
     fs_layout e sb \<and> file_ok sb C i \<and> i_dev i = e_devno e \<and> file_free C i (nblocks (unat (i_size i))) H \<and> log_room e L H 0 \<and>
     DIRENT_SIZE dvd length (file_bytes C i)"

lemma read_dirent:
  assumes d: "dir_ok e sb C L H (I dp)" and k: "k < dir_len (dir_of C I dp)"
  shows "runs_to (ftx e sb I Y C L H) (readi dp ToLocal (of_nat (DIRENT_SIZE * k)) (of_nat DIRENT_SIZE))
    (\<lambda>r s. r = (int DIRENT_SIZE, dirent_at (dir_of C I dp) k) \<and> ftx e sb I Y C L H s) (e_cut e)"
proof -
  have le: "DIRENT_SIZE * k + DIRENT_SIZE \<le> unat (i_size (I dp))" using dir_len_le [OF k] by (simp add: length_file_bytes)
  moreover have "unat (i_size (I dp)) < 2 ^ 32" using unsigned_less [of "i_size (I dp)"] by simp
  ultimately have le: "DIRENT_SIZE * k \<le> unat (i_size (I dp))" "DIRENT_SIZE * k + DIRENT_SIZE < 2 ^ 32" by simp_all
  have "runs_to (ftx e sb I Y C L H) (readi dp ToLocal (of_nat (DIRENT_SIZE * k)) (of_nat DIRENT_SIZE))
    (\<lambda>r s. r = (let bs = dirent_at (dir_of C I dp) k in (int (length bs), bs)) \<and> ftx e sb I Y C L H s) (e_cut e)"
    unfolding dirent_at_def using d le by (intro readi_spec) (simp_all add: dir_ok_def)
  then show ?thesis using length_dirent_at [OF k] by (simp add: Let_def)
qed

text \<open>Where the loops stop: the end of the directory.\<close>

lemma dir_end:
  assumes d: "dir_ok e sb C L H i" and k: "k \<le> dir_len (file_bytes C i)"
  shows "of_nat (DIRENT_SIZE * k) < i_size i \<longleftrightarrow> k < dir_len (file_bytes C i)"
proof -
  obtain n where n: "unat (i_size i) = DIRENT_SIZE * n" using d by (auto simp: dvd_def length_file_bytes dir_ok_def)
  then have l: "dir_len (file_bytes C i) = n" by (simp add: dir_len_def length_file_bytes DIRENT_SIZE_def)
  have "unat (i_size i) < 2 ^ 32" using unsigned_less [of "i_size i"] by simp
  moreover have "DIRENT_SIZE * k \<le> unat (i_size i)" using k n l by simp
  ultimately have "unat (of_nat (DIRENT_SIZE * k) :: u32) = DIRENT_SIZE * k" by (intro unat32) simp
  then show ?thesis using n l by (simp add: word_less_nat_alt) (simp add: DIRENT_SIZE_def)
qed

lemma next_dirent: "of_nat (DIRENT_SIZE * k) + of_nat DIRENT_SIZE = (of_nat (DIRENT_SIZE * Suc k) :: u32)"
  by (simp add: DIRENT_SIZE_def)

text \<open>One round of either loop.\<close>

lemma dir_round:
  assumes d: "dir_ok e sb C L H (I dp)" and k: "k \<le> dir_len (dir_of C I dp)"
    and m: "k < dir_len (dir_of C I dp) \<Longrightarrow> runs_to (ftx e sb I Y C L H) (m (dirent_at (dir_of C I dp) k)) Q (e_cut e)"
    and x: "k = dir_len (dir_of C I dp) \<Longrightarrow> runs_to (ftx e sb I Y C L H) x Q (e_cut e)"
  shows "runs_to (ftx e sb I Y C L H) (bind (get_inode dp) (\<lambda>d.
    if \<not> of_nat (DIRENT_SIZE * k) < i_size d then x else
    bind (readi dp ToLocal (of_nat (DIRENT_SIZE * k)) (of_nat DIRENT_SIZE)) (\<lambda>(r, de).
    if r \<noteq> int DIRENT_SIZE then panic msg else m de))) Q (e_cut e)"
proof (rule runs_to_get_inode, rule runs_to_if)
  assume "\<not> of_nat (DIRENT_SIZE * k) < i_size (I dp)"
  then show "runs_to (ftx e sb I Y C L H) x Q (e_cut e)" using dir_end [OF d k] k x by simp
next
  assume "\<not> \<not> of_nat (DIRENT_SIZE * k) < i_size (I dp)"
  then have k: "k < dir_len (dir_of C I dp)" using dir_end [OF d k] by simp
  show "runs_to (ftx e sb I Y C L H) (bind (readi dp ToLocal (of_nat (DIRENT_SIZE * k)) (of_nat DIRENT_SIZE)) (\<lambda>(r, de).
    if r \<noteq> int DIRENT_SIZE then panic msg else m de)) Q (e_cut e)"
    by (rule runs_to_bind_value [OF read_dirent [of e sb C L H I dp k Y, OF d k]]) (simp add: m [OF k])
qed

lemma find_upt_rec: "k < n \<Longrightarrow> List.find P [k..<n] = (if P k then Some k else List.find P [Suc k..<n])"
  by (simp add: upt_conv_Cons)

lemma Suc_zero: "(Suc n = 0) = False"
  by simp

lemma dirlookup_loop_spec:
  assumes d: "dir_ok e sb C L H (I dp)"
  shows "k \<le> dir_len (dir_of C I dp) \<Longrightarrow> dir_len (dir_of C I dp) - k < fuel \<Longrightarrow>
    runs_to (ftx e sb I Y C L H) (dirlookup_loop fuel dp name (of_nat (DIRENT_SIZE * k)))
    (\<lambda>r s. r = map_option (\<lambda>j. (of_nat (DIRENT_SIZE * j), de_inum (dirent_at (dir_of C I dp) j)))
         (List.find (names (dir_of C I dp) (cname name)) [k..<dir_len (dir_of C I dp)]) \<and> ftx e sb I Y C L H s) (e_cut e)"
proof (induction fuel arbitrary: k)
  case (Suc fuel)
  have nm: "(de_inum de \<noteq> 0 \<and> namecmp name (de_name de) = 0) = names (dir_of C I dp) (cname name) k" if "de = dirent_at (dir_of C I dp) k" for de
    using that by (auto simp: names_def namecmp_zero)
  show ?case
    unfolding dirlookup_loop.simps [of "Suc fuel"] Suc_zero if_False diff_Suc_1 next_dirent
  proof (rule dir_round [of e sb C L H I dp, OF d Suc(2)])
    assume k: "k < dir_len (dir_of C I dp)"
    show "runs_to (ftx e sb I Y C L H) (if de_inum (dirent_at (dir_of C I dp) k) \<noteq> 0 \<and> namecmp name (de_name (dirent_at (dir_of C I dp) k)) = 0
        then return (Some (of_nat (DIRENT_SIZE * k), de_inum (dirent_at (dir_of C I dp) k))) else dirlookup_loop fuel dp name (of_nat (DIRENT_SIZE * Suc k)))
      (\<lambda>r s. r = map_option (\<lambda>j. (of_nat (DIRENT_SIZE * j), de_inum (dirent_at (dir_of C I dp) j)))
         (List.find (names (dir_of C I dp) (cname name)) [k..<dir_len (dir_of C I dp)]) \<and> ftx e sb I Y C L H s) (e_cut e)"
      unfolding nm [OF refl] find_upt_rec [OF k] using Suc.IH [of "Suc k"] Suc.prems k by (auto intro: runs_to_return)
  qed (auto intro: runs_to_return)
qed simp

lemma dirlink_slot_spec:
  assumes d: "dir_ok e sb C L H (I dp)"
  shows "k \<le> dir_len (dir_of C I dp) \<Longrightarrow> dir_len (dir_of C I dp) - k < fuel \<Longrightarrow>
    runs_to (ftx e sb I Y C L H) (dirlink_slot fuel dp (of_nat (DIRENT_SIZE * k)))
    (\<lambda>r s. r = of_nat (DIRENT_SIZE * (case List.find (\<lambda>k. de_inum (dirent_at (dir_of C I dp) k) = 0) [k..<dir_len (dir_of C I dp)] of
         None \<Rightarrow> dir_len (dir_of C I dp) | Some j \<Rightarrow> j)) \<and> ftx e sb I Y C L H s) (e_cut e)"
proof (induction fuel arbitrary: k)
  case (Suc fuel)
  show ?case
    unfolding dirlink_slot.simps [of "Suc fuel"] Suc_zero if_False diff_Suc_1 next_dirent
  proof (rule dir_round [of e sb C L H I dp, OF d Suc(2)])
    assume k: "k < dir_len (dir_of C I dp)"
    show "runs_to (ftx e sb I Y C L H) (if de_inum (dirent_at (dir_of C I dp) k) = 0
        then return (of_nat (DIRENT_SIZE * k)) else dirlink_slot fuel dp (of_nat (DIRENT_SIZE * Suc k)))
      (\<lambda>r s. r = of_nat (DIRENT_SIZE * (case List.find (\<lambda>k. de_inum (dirent_at (dir_of C I dp) k) = 0) [k..<dir_len (dir_of C I dp)] of
         None \<Rightarrow> dir_len (dir_of C I dp) | Some j \<Rightarrow> j)) \<and> ftx e sb I Y C L H s) (e_cut e)"
      unfolding find_upt_rec [OF k] using Suc.IH [of "Suc k"] Suc.prems k by (auto intro: runs_to_return)
  qed (auto intro: runs_to_return)
qed simp

section \<open>References to inodes\<close>

text \<open>
  What \<open>iget\<close> does to the table of inodes: one more reference to the entry that has the inode,
  or a first reference in an unused entry.
\<close>

definition cached :: "(nat \<Rightarrow> inode) \<Rightarrow> u32 \<Rightarrow> u32 \<Rightarrow> nat \<Rightarrow> bool" where
  "cached I dev inum i \<longleftrightarrow> i < NINODE \<and> 0 < i_ref (I i) \<and> i_dev (I i) = dev \<and> i_inum (I i) = inum"

definition referenced :: "(nat \<Rightarrow> inode) \<Rightarrow> u32 \<Rightarrow> u32 \<Rightarrow> nat \<Rightarrow> inode \<Rightarrow> bool" where
  "referenced I dev inum ip i' \<longleftrightarrow>
     (if \<exists>j. cached I dev inum j then cached I dev inum ip \<and> i' = (I ip)\<lparr>i_ref := i_ref (I ip) + 1\<rparr>
      else ip < NINODE \<and> i_ref (I ip) = 0 \<and> i' = (I ip)\<lparr>i_dev := dev, i_inum := inum, i_ref := 1, i_valid := False\<rparr>)"

lemma iget_scan_hit:
  "iget_scan ins dev inum xs e = (Some i, r) \<Longrightarrow> i \<in> set xs \<and> i_ref (ins i) > 0 \<and> i_dev (ins i) = dev \<and> i_inum (ins i) = inum"
  by (induction xs arbitrary: e) (auto split: if_splits)

lemma iget_scan_miss:
  "iget_scan ins dev inum xs e = (None, r) \<Longrightarrow> i \<in> set xs \<Longrightarrow> \<not> (i_ref (ins i) > 0 \<and> i_dev (ins i) = dev \<and> i_inum (ins i) = inum)"
  by (induction xs arbitrary: e) (auto split: if_splits)

lemma iget_scan_full: "iget_scan ins dev inum xs e = (None, None) \<Longrightarrow> e = None \<and> (\<forall>i \<in> set xs. i_ref (ins i) \<noteq> 0)"
  by (induction xs arbitrary: e) (auto split: if_splits)

lemma iget_scan_empty: "iget_scan ins dev inum xs e = (None, Some i) \<Longrightarrow> e = Some i \<or> i \<in> set xs \<and> i_ref (ins i) = 0"
proof (induction xs arbitrary: e)
  case (Cons x xs)
  then have "iget_scan ins dev inum xs (if e = None \<and> i_ref (ins x) = 0 then Some x else e) = (None, Some i)" by (auto split: if_splits)
  from Cons.IH [OF this] show ?case by (auto split: if_splits)
qed simp

lemma kfs_held [simp]:
  "inodes (held lk s) = inodes s" "inodes_update h (held lk s) = held lk (inodes_update h s)"
  by (simp_all add: held_def)

lemma iget_run:
  assumes "running p s" "\<exists>i < NINODE. i_ref (inodes s i) = 0"
  obtains ip i' where "referenced (inodes s) dev inum ip i'" "iget dev inum s = Ok ip (s\<lparr>inodes := (inodes s)(ip := i')\<rparr>)"
proof (cases "iget_scan (inodes s) dev inum [0..<NINODE] None")
  case (Pair f r)
  show ?thesis
  proof (cases f)
    case (Some ip)
    then have "cached (inodes s) dev inum ip" using iget_scan_hit Pair by (fastforce simp: cached_def)
    moreover have "iget dev inum s = Ok ip (s\<lparr>inodes := (inodes s)(ip := (inodes s ip)\<lparr>i_ref := i_ref (inodes s ip) + 1\<rparr>)\<rparr>)"
      using running_cpu [OF assms(1)] Pair Some by (simp add: iget_def modify_inode_def)
    ultimately show ?thesis by (intro that [of ip]) (auto simp: referenced_def)
  next
    case None
    then obtain ip where r: "r = Some ip" using iget_scan_full [of "inodes s" dev inum "[0..<NINODE]" None] Pair assms(2) by (cases r) auto
    have "\<not> cached (inodes s) dev inum j" for j using iget_scan_miss [OF Pair [unfolded None], of j] by (auto simp: cached_def)
    moreover have "ip < NINODE" "i_ref (inodes s ip) = 0" using iget_scan_empty [OF Pair [unfolded None r]] by auto
    moreover have "iget dev inum s = Ok ip (s\<lparr>inodes := (inodes s)(ip := (inodes s ip)\<lparr>i_dev := dev, i_inum := inum, i_ref := 1, i_valid := False\<rparr>)\<rparr>)"
      using running_cpu [OF assms(1)] Pair None r by (simp add: iget_def modify_inode_def)
    ultimately show ?thesis by (intro that [of ip]) (auto simp: referenced_def)
  qed
qed

lemma ftx_running: "ftx e sb I Y C L H s \<Longrightarrow> running (e_proc e) s"
  by (auto simp: ftx_def tx_def dest: lstate_running)

lemma ftx_inode: "ftx e sb I Y C L H s \<Longrightarrow> ftx e sb (I(ip := i')) Y C L H (s\<lparr>inodes := (inodes s)(ip := i')\<rparr>)"
  using runs_toD [OF modify_inode_f [of e sb I Y C L H ip "\<lambda>_. i'" "\<lambda>_. False"], of s] by (simp add: modify_inode_def)

lemma f_iget:
  assumes "\<exists>i < NINODE. i_ref (I i) = 0"
  shows "runs_to (ftx e sb I Y C L H) (iget dev inum) (\<lambda>ip t. \<exists>i'. referenced I dev inum ip i' \<and> ftx e sb (I(ip := i')) Y C L H t) E"
proof (rule runs_toI, rule disjI1)
  fix s assume s: "ftx e sb I Y C L H s"
  have I: "inodes s = I" using s by (simp add: ftx_def)
  then obtain ip i' where "referenced I dev inum ip i'" "iget dev inum s = Ok ip (s\<lparr>inodes := (inodes s)(ip := i')\<rparr>)"
    using iget_run [OF ftx_running [OF s], of dev inum] assms by metis
  then show "\<exists>x t. iget dev inum s = Ok x t \<and> (\<exists>i'. referenced I dev inum x i' \<and> ftx e sb (I(x := i')) Y C L H t)"
    using ftx_inode [OF s] by metis
qed

text \<open>\<open>iput\<close> of such a reference takes it back and frees nothing.\<close>

lemma f_iput:
  assumes "\<not> (i_ref (I ip) = 1 \<and> i_valid (I ip))"
  shows "runs_to (ftx e sb I Y C L H) (iput ip) (\<lambda>_. ftx e sb (I(ip := (I ip)\<lparr>i_ref := i_ref (I ip) - 1\<rparr>)) Y C L H) E"
proof (rule runs_toI, rule disjI1)
  fix s assume s: "ftx e sb I Y C L H s"
  have I: "inodes s = I" using s by (simp add: ftx_def)
  have w: "(i_ref (I ip) = 1 \<and> i_valid (I ip) \<and> i_nlink (I ip) = 0) = False" using assms by auto
  have "iput ip s = Ok () (s\<lparr>inodes := (inodes s)(ip := (I ip)\<lparr>i_ref := i_ref (I ip) - 1\<rparr>)\<rparr>)"
    using running_cpu [OF ftx_running [OF s]] I by (simp add: iput_def get_inode_def modify_inode_def w)
  then show "\<exists>x t. iput ip s = Ok x t \<and> ftx e sb (I(ip := (I ip)\<lparr>i_ref := i_ref (I ip) - 1\<rparr>)) Y C L H t" using ftx_inode [OF s] by simp
qed

section \<open>Looking up and linking\<close>

lemma dirlookup_spec:
  assumes d: "dir_ok e sb C L H (I dp)" and ty: "i_type (I dp) = T_DIR" and free: "\<exists>i < NINODE. i_ref (I i) = 0"
  shows "runs_to (ftx e sb I Y C L H) (dirlookup dp name)
    (\<lambda>r t. case dir_find (dir_of C I dp) (cname name) of
        None \<Rightarrow> r = None \<and> ftx e sb I Y C L H t
      | Some k \<Rightarrow> \<exists>ip i'. (r = Some (ip, of_nat (DIRENT_SIZE * k)) \<and>
          referenced I (e_devno e) (ucast (de_inum (dirent_at (dir_of C I dp) k))) ip i') \<and> ftx e sb (I(ip := i')) Y C L H t) (e_cut e)"
    (is "runs_to _ _ ?Q _")
proof -
  let ?find = "dir_find (dir_of C I dp) (cname name)"
  have "length (dir_of C I dp) \<le> MAXFILE * BSIZE" using d file_size [of sb C "I dp"] by (simp add: dir_ok_def length_file_bytes)
  then have "dir_len (dir_of C I dp) - 0 < 2 ^ 29" using dir_len_bound by fastforce
  from dirlookup_loop_spec [of e sb C L H I dp 0 "2 ^ 29" Y name, OF d _ this]
  have lp: "runs_to (ftx e sb I Y C L H) (dirlookup_loop (2 ^ 29) dp name 0)
    (\<lambda>r s. r = map_option (\<lambda>j. (of_nat (DIRENT_SIZE * j), de_inum (dirent_at (dir_of C I dp) j))) ?find \<and> ftx e sb I Y C L H s) (e_cut e)"
    by (simp add: dir_find_def)
  have dev: "i_dev (I dp) = e_devno e" using d by (simp add: dir_ok_def)
  show ?thesis
    unfolding dirlookup_def
  proof (rule runs_to_get_inode, subst ty, simp only: if_False simp_thms, rule runs_to_bind_value [OF lp])
    show "runs_to (ftx e sb I Y C L H)
      (case map_option (\<lambda>j. (of_nat (DIRENT_SIZE * j), de_inum (dirent_at (dir_of C I dp) j))) ?find of
        None \<Rightarrow> return None | Some (off, inum) \<Rightarrow> bind (iget (i_dev (I dp)) (ucast inum)) (\<lambda>ip. return (Some (ip, off)))) ?Q (e_cut e)"
    proof (cases ?find)
      case None
      then show ?thesis by (simp add: runs_to_return)
    next
      case (Some k)
      then show ?thesis
        by (simp add: dev) (rule runs_to_bind [OF f_iget [of I e sb Y C L H, OF free]], rule runs_to_return, auto)
    qed
  qed
qed

lemma referenced_dropped:
  assumes "referenced I dev inum ip i'"
  shows "\<not> (i_ref i' = 1 \<and> i_valid i')" "0 < i_ref (I j) \<Longrightarrow> (I(ip := i'\<lparr>i_ref := i_ref i' - 1\<rparr>)) j = I j"
  using assms by (auto simp: referenced_def cached_def split: if_splits)

lemma runs_to_ex2: "(\<And>a b. A a b \<Longrightarrow> runs_to (P a b) m Q E) \<Longrightarrow> runs_to (\<lambda>s. \<exists>a b. A a b \<and> P a b s) m Q E"
  by (fastforce simp: runs_to_def)

lemma dirlink_old:
  assumes d: "dir_ok e sb C L H (I dp)" and ty: "i_type (I dp) = T_DIR" and free: "\<exists>i < NINODE. i_ref (I i) = 0"
    and old: "dir_map (dir_of C I dp) (cname name) \<noteq> None"
  shows "runs_to (ftx e sb I Y C L H) (dirlink dp name inum)
    (\<lambda>r t. r = - 1 \<and> (\<exists>J. (\<forall>j. 0 < i_ref (I j) \<longrightarrow> J j = I j) \<and> ftx e sb J Y C L H t)) (e_cut e)"
    (is "runs_to _ _ ?Q _")
proof -
  obtain k where k: "dir_find (dir_of C I dp) (cname name) = Some k" using old by (auto simp: dir_map_def)
  show ?thesis
    unfolding dirlink_def
  proof (rule runs_to_bind [OF dirlookup_spec [of e sb C L H I dp Y name, OF d ty free]], unfold k option.case)
    fix r :: "(nat \<times> u32) option"
    let ?m = "case r of Some (ip, _) \<Rightarrow> seq (iput ip) (return (- 1)) | None \<Rightarrow>
        bind (dirlink_slot (2 ^ 29) dp 0) (\<lambda>off. let de = dirent_bytes (ucast inum) (strncpy (\<lambda>_. 0) name (int DIRSIZ)) in
        bind (writei dp (FromLocal de) off (of_nat DIRENT_SIZE)) (\<lambda>r. if r \<noteq> int DIRENT_SIZE then panic ''dirlink'' else return 0))"
    show "runs_to (\<lambda>t. \<exists>ip i'. (r = Some (ip, of_nat (DIRENT_SIZE * k)) \<and>
          referenced I (e_devno e) (ucast (de_inum (dirent_at (dir_of C I dp) k))) ip i') \<and> ftx e sb (I(ip := i')) Y C L H t) ?m ?Q (e_cut e)"
    proof (rule runs_to_ex2, elim conjE)
      fix ip i'
      assume r: "r = Some (ip, of_nat (DIRENT_SIZE * k))" and i: "referenced I (e_devno e) (ucast (de_inum (dirent_at (dir_of C I dp) k))) ip i'"
      have "\<not> (i_ref ((I(ip := i')) ip) = 1 \<and> i_valid ((I(ip := i')) ip))" using referenced_dropped(1) [OF i] by simp
      note p = f_iput [of "I(ip := i')" ip e sb Y C L H, OF this]
      let ?J = "I(ip := i'\<lparr>i_ref := i_ref i' - 1\<rparr>)"
      have "runs_to (ftx e sb ?J Y C L H) (return (- 1)) ?Q (e_cut e)"
        using referenced_dropped(2) [OF i] by (intro runs_to_return) (blast intro: exI [of _ ?J])
      then show "runs_to (ftx e sb (I(ip := i')) Y C L H) ?m ?Q (e_cut e)"
        unfolding r option.case prod.case using p by (intro runs_to_seq [of _ _ "ftx e sb ?J Y C L H"]) simp_all
    qed
  qed
qed

lemma rounds_dirent: "rounds (DIRENT_SIZE * k) DIRENT_SIZE = 1"
  unfolding rounds_def nblocks_def DIRENT_SIZE_def BSIZE_nat by simp

text \<open>A new entry.\<close>

definition new_dirent :: "view \<Rightarrow> u32 \<Rightarrow> byte list" where
  "new_dirent name inum = dirent_bytes (ucast inum) (strncpy (\<lambda>_. 0) name (int DIRSIZ))"

lemma new_dirent_fields:
  "length (new_dirent name inum) = DIRENT_SIZE" "de_inum (new_dirent name inum) = ucast inum" "cname (de_name (new_dirent name inum)) = cname name"
  by (simp_all add: new_dirent_def dirent_bytes_fields cname_strncpy)

definition dir_wf :: "env \<Rightarrow> superblock \<Rightarrow> (nat \<Rightarrow> byte list) \<Rightarrow> inode \<Rightarrow> bool" where
  "dir_wf e sb C i \<longleftrightarrow>
     fs_layout e sb \<and> meta_used sb C \<and> file_ok sb C i \<and> i_dev i = e_devno e \<and> i_type i = T_DIR \<and> unat (i_inum i) < unat (sb_ninodes sb) \<and>
     DIRENT_SIZE dvd length (file_bytes C i)"

definition dir_room :: "env \<Rightarrow> superblock \<Rightarrow> (nat \<Rightarrow> byte list) \<Rightarrow> nat list \<Rightarrow> (nat \<Rightarrow> nat option) \<Rightarrow> inode \<Rightarrow> bool" where
  "dir_room e sb C L H i \<longleftrightarrow>
     quiet_data sb H \<and> H (inode_block sb (unat (i_inum i))) = None \<and> log_room e L H 8 \<and> 2 \<le> card (free_blocks sb C) \<and>
     DIRENT_SIZE * dir_slot (file_bytes C i) + DIRENT_SIZE \<le> MAXFILE * BSIZE"

lemma dir_wf_ok: "dir_wf e sb C i \<Longrightarrow> dir_room e sb C L H i \<Longrightarrow> dir_ok e sb C L H i"
  using quiet_dataD(3) [of sb H]
  by (auto simp: dir_wf_def dir_room_def dir_ok_def file_free_def file_ok_def inode_ok_def log_room_def)

lemma dirlink_new:
  assumes d: "dir_wf e sb C (I dp)" and r: "dir_room e sb C L H (I dp)" and free: "\<exists>i < NINODE. i_ref (I i) = 0"
    and new: "dir_map (dir_of C I dp) (cname name) = None"
  shows "runs_to (ftx e sb I Y C L H) (dirlink dp name inum)
    (\<lambda>r t. \<exists>C' i' L'. (r = 0 \<and> file_written sb C (I dp) (DIRENT_SIZE * dir_slot (dir_of C I dp)) (new_dirent name inum) C' i') \<and>
      ftx e sb (I(dp := i')) Y C' L' H t) (e_cut e)"
    (is "runs_to _ _ ?Q _")
proof -
  let ?bs = "dir_of C I dp"
  note ok = dir_wf_ok [OF d r]
  have ty: "i_type (I dp) = T_DIR" using d by (simp add: dir_wf_def)
  have f: "dir_find ?bs (cname name) = None" using new by (simp add: dir_map_def)
  have len: "length ?bs = unat (i_size (I dp))" by (rule length_file_bytes)
  have "length ?bs \<le> MAXFILE * BSIZE" using d file_size [of sb C "I dp"] by (simp add: dir_wf_def length_file_bytes)
  then have "dir_len ?bs - 0 < 2 ^ 29" using dir_len_bound by fastforce
  from dirlink_slot_spec [of e sb C L H I dp 0 "2 ^ 29" Y, OF ok _ this]
  have sl: "runs_to (ftx e sb I Y C L H) (dirlink_slot (2 ^ 29) dp 0) (\<lambda>r s. r = of_nat (DIRENT_SIZE * dir_slot ?bs) \<and> ftx e sb I Y C L H s) (e_cut e)"
    by (simp add: dir_slot_def)
  have "DIRENT_SIZE * dir_len ?bs \<le> length ?bs" by (simp add: dir_len_def)
  then have le: "DIRENT_SIZE * dir_slot ?bs \<le> unat (i_size (I dp))" using dir_slot_bound(1) [of ?bs] len by (metis le_trans mult_le_mono2)
  have w: "runs_to (ftx e sb I Y C L H) (writei dp (FromLocal (new_dirent name inum)) (of_nat (DIRENT_SIZE * dir_slot ?bs)) (of_nat DIRENT_SIZE))
    (\<lambda>r s. r = int DIRENT_SIZE \<and> (\<exists>C' i' L'. file_written sb C (I dp) (DIRENT_SIZE * dir_slot ?bs) (new_dirent name inum) C' i' \<and>
      ftx e sb (I(dp := i')) Y C' L' H s)) (e_cut e)"
  proof -
    have n: "new_dirent name inum \<noteq> []" using new_dirent_fields(1) [of name inum] by (auto simp: DIRENT_SIZE_def)
    have "runs_to (ftx e sb I Y C L H) (writei dp (FromLocal (new_dirent name inum)) (of_nat (DIRENT_SIZE * dir_slot ?bs)) (of_nat (length (new_dirent name inum))))
      (\<lambda>r s. r = int (length (new_dirent name inum)) \<and> (\<exists>C' i' L'. (file_written sb C (I dp) (DIRENT_SIZE * dir_slot ?bs) (new_dirent name inum) C' i' \<and>
        length L' \<le> length L + 6 * rounds (DIRENT_SIZE * dir_slot ?bs) (length (new_dirent name inum)) + 1) \<and> ftx e sb (I(dp := i')) Y C' L' H s)) (e_cut e)"
      using d r le n by (intro writei_spec) (simp_all add: dir_wf_def dir_room_def new_dirent_fields(1) rounds_dirent)
    then show ?thesis unfolding new_dirent_fields(1) by (rule runs_to_conseq) auto
  qed
  show ?thesis
    unfolding dirlink_def
  proof (rule runs_to_bind_value [where v = None and R = "ftx e sb I Y C L H"])
    show "runs_to (ftx e sb I Y C L H) (dirlookup dp name) (\<lambda>r s. r = None \<and> ftx e sb I Y C L H s) (e_cut e)"
      using dirlookup_spec [of e sb C L H I dp Y name, OF ok ty free] unfolding f by simp
    have "runs_to (ftx e sb I Y C L H) (bind (dirlink_slot (2 ^ 29) dp 0) (\<lambda>off.
        bind (writei dp (FromLocal (new_dirent name inum)) off (of_nat DIRENT_SIZE)) (\<lambda>r. if r \<noteq> int DIRENT_SIZE then panic ''dirlink'' else return 0))) ?Q (e_cut e)"
      by (rule runs_to_bind_value [OF sl], rule runs_to_bind_value [OF w]) (simp add: runs_to_return)
    then show "runs_to (ftx e sb I Y C L H) (case None of Some (ip, _) \<Rightarrow> seq (iput ip) (return (- 1)) | None \<Rightarrow>
        bind (dirlink_slot (2 ^ 29) dp 0) (\<lambda>off. let de = dirent_bytes (ucast inum) (strncpy (\<lambda>_. 0) name (int DIRSIZ)) in
        bind (writei dp (FromLocal de) off (of_nat DIRENT_SIZE)) (\<lambda>r. if r \<noteq> int DIRENT_SIZE then panic ''dirlink'' else return 0))) ?Q (e_cut e)"
      by (simp add: Let_def new_dirent_def)
  qed
qed

section \<open>What directories promise\<close>

text \<open>The directory with a new entry: its map has the name, and nothing else has changed.\<close>

definition dir_linked :: "superblock \<Rightarrow> (nat \<Rightarrow> byte list) \<Rightarrow> inode \<Rightarrow> byte list \<Rightarrow> u16 \<Rightarrow> (nat \<Rightarrow> byte list) \<Rightarrow> inode \<Rightarrow> bool" where
  "dir_linked sb C i nm inum C' i' \<longleftrightarrow>
     file_ok sb C' i' \<and> DIRENT_SIZE dvd length (file_bytes C' i') \<and> dir_map (file_bytes C' i') = (dir_map (file_bytes C i))(nm \<mapsto> inum) \<and>
     (\<forall>m < unat (sb_ninodes sb). dinode_at sb C' m = (if m = unat (i_inum i) then inode_dinode i' else dinode_at sb C m)) \<and>
     (\<forall>j. file_ok sb C j \<and> blocks_of C j \<inter> blocks_of C i = {} \<longrightarrow> file_bytes C' j = file_bytes C j)"

lemma written_linked:
  assumes w: "file_written sb C i (DIRENT_SIZE * dir_slot (file_bytes C i)) (new_dirent name inum) C' i'"
    and d: "DIRENT_SIZE dvd length (file_bytes C i)" and new: "dir_map (file_bytes C i) (cname name) = None" and inum: "(ucast inum :: u16) \<noteq> 0"
  shows "dir_linked sb C i (cname name) (ucast inum) C' i'"
proof -
  let ?de = "new_dirent name inum"
  have b: "file_bytes C' i' = put_bytes (file_bytes C i) (DIRENT_SIZE * dir_slot (file_bytes C i)) ?de" using w by (simp add: file_written_def)
  have "dir_map (file_bytes C' i') = (dir_map (file_bytes C i))(cname name \<mapsto> ucast inum)"
    using dir_map_put [OF d, of ?de] new inum unfolding b by (simp add: new_dirent_fields)
  moreover have "DIRENT_SIZE dvd length (file_bytes C' i')" unfolding b using d dir_slot_bound(1) by (intro dir_put(2)) (simp_all add: new_dirent_fields)
  ultimately show ?thesis using w file_written_other(2) [OF w] by (auto simp: dir_linked_def file_written_def)
qed

text \<open>
  C12: \<open>dirlookup\<close> finds a name in a directory exactly when the directory has it. It then returns an
  entry of the inode table with one more reference to the inode of that name, and the offset of
  the name; the blocks do not change.
\<close>

theorem dirlookup_finds:
  assumes s: "ftx e sb I Y C L H s" and d: "dir_ok e sb C L H (I dp)" and ty: "i_type (I dp) = T_DIR" and free: "\<exists>i < NINODE. i_ref (I i) = 0"
  shows "case dirlookup dp name s of
      Ok None t \<Rightarrow> dir_map (file_bytes C (I dp)) (cname name) = None \<and> ftx e sb I Y C L H t
    | Ok (Some (ip, off)) t \<Rightarrow> \<exists>inum i' k. dir_map (file_bytes C (I dp)) (cname name) = Some inum \<and> off = of_nat (DIRENT_SIZE * k) \<and>
        names (file_bytes C (I dp)) (cname name) k \<and> referenced I (e_devno e) (ucast inum) ip i' \<and> ftx e sb (I(ip := i')) Y C L H t
    | Stop x t \<Rightarrow> x = Switched \<and> e_cut e t"
proof -
  note r = runs_toD [OF dirlookup_spec [of e sb C L H I dp Y name, OF d ty free] s]
  show ?thesis
  proof (cases "dir_find (dir_of C I dp) (cname name)")
    case None
    then show ?thesis using r by (auto simp: dir_map_def)
  next
    case (Some k)
    then have "names (file_bytes C (I dp)) (cname name) k" using find_upt_Some by (auto simp: dir_find_def)
    with r [unfolded Some option.case] Some show ?thesis
      unfolding dir_map_def by (elim disjE exE conjE) (simp_all del: of_nat_mult, blast)
  qed
qed

text \<open>
  C11: \<open>dirlink\<close> adds a name to a directory. A name that the directory has is refused with -1, and
  neither the blocks nor any inode in use change. A new name is added to the map of the directory,
  in the first empty entry or at the end; the other names, inodes and files stay as they are.
\<close>

theorem dirlink_links:
  assumes s: "ftx e sb I Y C L H s" and d: "dir_wf e sb C (I dp)" and r: "dir_room e sb C L H (I dp)" and free: "\<exists>i < NINODE. i_ref (I i) = 0"
    and inum: "(ucast inum :: u16) \<noteq> 0"
  shows "case dirlink dp name inum s of
      Ok r t \<Rightarrow>
        if dir_map (file_bytes C (I dp)) (cname name) = None then
          r = 0 \<and> (\<exists>C' i' L'. dir_linked sb C (I dp) (cname name) (ucast inum) C' i' \<and> ftx e sb (I(dp := i')) Y C' L' H t)
        else r = - 1 \<and> (\<exists>J. (\<forall>j. 0 < i_ref (I j) \<longrightarrow> J j = I j) \<and> ftx e sb J Y C L H t)
    | Stop x t \<Rightarrow> x = Switched \<and> e_cut e t"
proof (cases "dir_map (file_bytes C (I dp)) (cname name) = None")
  case True
  have dv: "DIRENT_SIZE dvd length (file_bytes C (I dp))" using d by (simp add: dir_wf_def)
  from runs_toD [OF dirlink_new [of e sb C I dp L H name Y inum, OF d r free True] s]
  show ?thesis using True written_linked [OF _ dv True inum, of sb] by (elim disjE exE conjE) (simp_all, blast)
next
  case False
  have ty: "i_type (I dp) = T_DIR" using d by (simp add: dir_wf_def)
  from runs_toD [OF dirlink_old [of e sb C L H I dp name Y inum, OF dir_wf_ok [OF d r] ty free False] s]
  show ?thesis using False by (elim disjE exE conjE) (simp_all, blast)
qed

lemma reboots_mono: "reboots_to e sb d P TYPE('y) \<Longrightarrow> (\<And>v. P v \<Longrightarrow> Q v) \<Longrightarrow> reboots_to e sb d Q TYPE('y)"
  unfolding reboots_to_def by blast

text \<open>
  C3: a new name in a directory is atomic. Between \<open>begin_op\<close> and \<open>end_op\<close>, \<open>dirlink\<close> of a new name
  returns 0 with the name on the disk; or the disk stops answering, and after the reboot \<open>initlog\<close>
  returns and the directory has its old names, or has the new one as well, and nothing else has changed.
\<close>

theorem dirlink_atomic:
  assumes s: "idle e sb I Y s" and d: "dir_wf e sb (e_disk e) (I dp)" and r: "dir_room e sb (e_disk e) [] (\<lambda>_. None) (I dp)"
    and free: "\<exists>i < NINODE. i_ref (I i) = 0" and inum: "(ucast inum :: u16) \<noteq> 0" and new: "dir_map (file_bytes (e_disk e) (I dp)) (cname name) = None"
    and st: "sint (sb_logstart sb) = int (e_st e)"
  shows "case seq begin_op (bind (dirlink dp name inum) (\<lambda>r. seq end_op (return r))) s of
      Ok r t \<Rightarrow> r = 0 \<and> (\<exists>i'. dir_linked sb (e_disk e) (I dp) (cname name) (ucast inum) (disk_of t) i' \<and>
        idle (e\<lparr>e_disk := disk_of t\<rparr>) sb (I(dp := i')) Y t)
    | Stop x t \<Rightarrow> x = Switched \<and> e_fail e \<and> reboots_to e sb (disk_of t)
        (\<lambda>d. same_home (e_sz e) (e_st e) d (e_disk e) \<or> (\<exists>i'. dir_linked sb (e_disk e) (I dp) (cname name) (ucast inum) d i')) TYPE('y)"
proof -
  have lay: "fs_layout e sb" and dv: "DIRENT_SIZE dvd length (file_bytes (e_disk e) (I dp))" using d by (simp_all add: dir_wf_def)
  note a = file_op_atomic [OF s lay st dirlink_new [of e sb "e_disk e" I dp "[]" "\<lambda>_. None" name Y inum, OF d r free new], where 'y = 'y]
  note w = written_linked [OF _ dv new inum, of sb]
  show ?thesis
  proof (cases "seq begin_op (bind (dirlink dp name inum) (\<lambda>r. seq end_op (return r))) s")
    case (Ok r t)
    then show ?thesis using a w by auto
  next
    case (Stop x t)
    with a have t: "x = Switched" "e_fail e" and b: "reboots_to e sb (disk_of t) (\<lambda>d. same_home (e_sz e) (e_st e) d (e_disk e) \<or>
        (\<exists>i'. file_written sb (e_disk e) (I dp) (DIRENT_SIZE * dir_slot (dir_of (e_disk e) I dp)) (new_dirent name inum) d i')) TYPE('y)" by simp_all
    have "reboots_to e sb (disk_of t) (\<lambda>d. same_home (e_sz e) (e_st e) d (e_disk e) \<or> (\<exists>i'. dir_linked sb (e_disk e) (I dp) (cname name) (ucast inum) d i')) TYPE('y)"
      by (rule reboots_mono [OF b]) (use w in blast)
    then show ?thesis using Stop t by simp
  qed
qed

section \<open>A machine with a directory\<close>

text \<open>An empty directory, and one with a name of 14 bytes.\<close>

definition new_dir :: inode where
  "new_dir = new_file\<lparr>i_type := T_DIR, i_ref := 1\<rparr>"

definition small_dir :: inode where
  "small_dir = small_file\<lparr>i_type := T_DIR, i_ref := 1, i_size := 16\<rparr>"

definition one_inode :: "inode \<Rightarrow> nat \<Rightarrow> inode" where
  "one_inode i j = (if j = 0 then i else empty_inode)"

lemma one_inode_free: "\<exists>j < NINODE. i_ref (one_inode i j) = 0"
  by (rule exI [of _ 1]) (simp add: one_inode_def NINODE_def empty_inode_def)

lemma one_inode_0 [simp]: "one_inode i 0 = i"
  by (simp add: one_inode_def)

lemma new_dir_facts: "file_bytes C new_dir = []" "dir_slot [] = 0" "dir_map [] nm = None" "blocks_of C new_dir = {}" "file_ok sb C new_dir"
  by (simp_all add: new_dir_def new_file_def empty_inode_def file_ok_def inode_ok_def nblocks_def BSIZE_nat blocks_of_def owned_def file_bytes_def
    dir_slot_def dir_map_def dir_find_def dir_len_def)

lemma new_dir_wf: "dir_wf (op_env bitmap_medium) (fsb kernel_example) (disk_block bitmap_medium) new_dir"
  "dir_room (op_env bitmap_medium) (fsb kernel_example) (disk_block bitmap_medium) [] (\<lambda>_. None) new_dir"
  using fs_layout_example bitmap_meta write_example
  by (simp_all add: dir_wf_def dir_room_def new_dir_facts) (simp_all add: new_dir_def new_file_def MAXFILE_nat BSIZE_nat DIRENT_SIZE_def)

lemma small_dir_facts:
  "file_bytes (disk_block file_medium) small_dir = map of_nat [0..<16]" "file_ok (fsb kernel_example) (disk_block file_medium) small_dir"
proof -
  have b: "faddr C small_dir 0 = 46" "unat (i_size small_dir) = 16" "nblocks 16 = 1" for C
    by (simp_all add: faddr_def small_dir_def small_file_def MAXFILE_nat nblocks_def BSIZE_nat)
  have "fbyte (disk_block file_medium) small_dir j = of_nat j" if "j < 16" for j
    using that b(1) by (simp add: fbyte_def BSIZE_nat disk_block_two file_medium_def nth_append)
  then show "file_bytes (disk_block file_medium) small_dir = map of_nat [0..<16]" unfolding file_bytes_def b(2) by (intro map_cong) auto
  show "file_ok (fsb kernel_example) (disk_block file_medium) small_dir"
    using file_medium_block b
    by (simp add: file_ok_def inode_ok_def MAXFILE_nat lessThan_Suc) (simp add: small_dir_def small_file_def new_file_def empty_inode_def)
qed

lemma small_dir_map: "dir_map (map of_nat [0..<16]) (map of_nat [2..<16]) = Some 256"
  by code_simp

theorem dirlookup_finds_witness:
  "\<exists>ip off t. dirlookup 0 (view_of (map of_nat [2..<16])) (op_example file_medium (one_inode small_dir)) = Ok (Some (ip, off)) t \<and>
     i_inum (inodes t ip) = 256 \<and> 0 < i_ref (inodes t ip)"
proof -
  let ?nm = "view_of (map of_nat [2..<16])" and ?s = "op_example file_medium (one_inode small_dir)"
  have d: "dir_ok (op_env file_medium) (fsb kernel_example) (disk_block file_medium) [] (\<lambda>_. None) (one_inode small_dir 0)" "i_type (one_inode small_dir 0) = T_DIR"
    using fs_layout_example [of file_medium] small_dir_facts log_room_le [OF write_example(4) [of file_medium], of 0]
    by (simp_all add: dir_ok_def file_free_def DIRENT_SIZE_def) (simp_all add: small_dir_def small_file_def new_file_def u32_of_int_def)
  have "cname ?nm = map of_nat [2..<16]" by code_simp
  then have m: "dir_map (file_bytes (disk_block file_medium) (one_inode small_dir 0)) (cname ?nm) = Some 256" by (simp only: one_inode_0 small_dir_facts(1) small_dir_map)
  note r = dirlookup_finds [OF file_medium_ftx d one_inode_free, of ?nm, unfolded m]
  show ?thesis
  proof (cases "dirlookup 0 ?nm ?s")
    case (Ok x t)
    with r obtain ip off i' where "x = Some (ip, off)" "referenced (one_inode small_dir) (e_devno (op_env file_medium)) 256 ip i'" "inodes t ip = i'"
      by (cases x) (auto simp: ftx_def)
    then show ?thesis using Ok by (auto simp: referenced_def cached_def split: if_splits)
  next
    case (Stop x t)
    then show ?thesis using r by (simp add: crash_def)
  qed
qed

theorem dirlink_links_witness:
  "\<exists>t C i. dirlink 0 (view_of [97]) 5 (op_example bitmap_medium (one_inode new_dir)) = Ok 0 t \<and>
     dir_linked (fsb kernel_example) (disk_block bitmap_medium) new_dir [97] 5 C i \<and> inodes t 0 = i"
proof -
  have n: "cname (view_of [97]) = [97]" "(ucast (5 :: u32) :: u16) = 5" by code_simp+
  have d: "dir_wf (op_env bitmap_medium) (fsb kernel_example) (disk_block bitmap_medium) (one_inode new_dir 0)"
    "dir_room (op_env bitmap_medium) (fsb kernel_example) (disk_block bitmap_medium) [] (\<lambda>_. None) (one_inode new_dir 0)" "(ucast (5 :: u32) :: u16) \<noteq> 0"
    using new_dir_wf by simp_all
  note r = dirlink_links [OF bitmap_ftx d(1,2) one_inode_free d(3), of "view_of [97]", unfolded n]
  show ?thesis
  proof (cases "dirlink 0 (view_of [97]) 5 (op_example bitmap_medium (one_inode new_dir))")
    case (Ok x t)
    then show ?thesis using r by (auto simp: new_dir_facts ftx_def)
  next
    case (Stop x t)
    then show ?thesis using r by (simp add: crash_def)
  qed
qed

theorem dirlink_atomic_witness:
  "\<exists>t i. seq begin_op (bind (dirlink 0 (view_of [97]) 5) (\<lambda>r. seq end_op (return r))) (machine_at 0 bitmap_medium (one_inode new_dir)) = Ok 0 t \<and>
     dir_map (file_bytes (disk_of t) i) = [[97] \<mapsto> 5] \<and> dinode_at (fsb kernel_example) (disk_of t) 1 = inode_dinode i"
proof -
  let ?sb = "fsb kernel_example" and ?e = "op_env bitmap_medium"
  have n: "cname (view_of [97]) = [97]" "(ucast (5 :: u32) :: u16) = 5" by code_simp+
  have d: "dir_wf ?e ?sb (e_disk ?e) (one_inode new_dir 0)" "dir_room ?e ?sb (e_disk ?e) [] (\<lambda>_. None) (one_inode new_dir 0)" "(ucast (5 :: u32) :: u16) \<noteq> 0"
    "dir_map (file_bytes (e_disk ?e) (one_inode new_dir 0)) (cname (view_of [97])) = None" "sint (sb_logstart ?sb) = int (e_st ?e)"
    using new_dir_wf by (simp_all add: new_dir_facts kernel_example_def)
  note r = dirlink_atomic [OF bitmap_idle d(1,2) one_inode_free d(3-5), unfolded n]
  have i: "unat (i_inum new_dir) = 1" "1 < unat (sb_ninodes ?sb)" by (simp_all add: new_dir_def new_file_def kernel_example_def)
  show ?thesis
  proof (cases "seq begin_op (bind (dirlink 0 (view_of [97]) 5) (\<lambda>r. seq end_op (return r))) (machine_at 0 bitmap_medium (one_inode new_dir))")
    case (Ok x t)
    then obtain j where j: "x = 0" "dir_linked ?sb (disk_block bitmap_medium) new_dir [97] 5 (disk_of t) j" using r by auto
    have "dir_map (file_bytes (disk_block bitmap_medium) new_dir) = Map.empty" by (simp add: new_dir_facts fun_eq_iff)
    then show ?thesis using Ok j i by (auto simp: dir_linked_def)
  next
    case (Stop x t)
    then show ?thesis using r by simp
  qed
qed

end
