(* ===== verification/Ulib.thy ===== *)
theory Ulib
  imports Cstring Digits
begin

text \<open>
  The user library: \<open>src/user/ulib.c\<close> and \<open>src/user/printf.c\<close>. A C string is the list of its bytes
  before the NUL. Names that the kernel's library also has carry the prefix \<open>u_\<close>. Output to a file
  descriptor is the list of the bytes written. Signed overflow in \<open>atoi\<close> is undefined, which the
  model shows as \<open>None\<close>. The wrapper \<open>stat\<close> only makes three system calls.
\<close>

section \<open>Strings\<close>

fun strcpy_from :: "view \<Rightarrow> nat \<Rightarrow> byte list \<Rightarrow> view" where
  "strcpy_from s i [] = s(i := 0)"
| "strcpy_from s i (c # t) = strcpy_from (s(i := c)) (Suc i) t"

definition strcpy :: "view \<Rightarrow> byte list \<Rightarrow> view" where
  "strcpy s t = strcpy_from s 0 t"

fun strcmp :: "byte list \<Rightarrow> byte list \<Rightarrow> int" where
  "strcmp (c # p) (d # q) = (if c = d then strcmp p q else uint c - uint d)"
| "strcmp (c # p) [] = uint c"
| "strcmp [] (d # q) = - uint d"
| "strcmp [] [] = 0"

text \<open>The result is the string from the first occurrence on.\<close>

fun strchr :: "byte list \<Rightarrow> byte \<Rightarrow> byte list option" where
  "strchr [] c = None"
| "strchr (d # s) c = (if d = c then Some (d # s) else strchr s c)"

text \<open>\<open>gets\<close> reads one byte at a time; what is left to read is the second result.\<close>

fun gets_loop :: "nat \<Rightarrow> byte list \<Rightarrow> byte list \<Rightarrow> byte list \<times> byte list" where
  "gets_loop 0 inp buf = (buf, inp)"
| "gets_loop (Suc k) [] buf = (buf, [])"
| "gets_loop (Suc k) (c # inp) buf =
     (if c = 10 \<or> c = 13 then (buf @ [c], inp) else gets_loop k inp (buf @ [c]))"

definition u_gets :: "byte list \<Rightarrow> nat \<Rightarrow> byte list \<times> byte list" where
  "u_gets inp maxlen = gets_loop (maxlen - 1) inp []"

fun atoi_loop :: "int \<Rightarrow> byte list \<Rightarrow> int option" where
  "atoi_loop n [] = Some n"
| "atoi_loop n (c # s) =
     (if 48 \<le> unat c \<and> unat c \<le> 57 then
        let m = n * 10 + uint c in
        if m \<ge> 2 ^ 31 then None else atoi_loop (m - 48) s
      else Some n)"

definition atoi :: "byte list \<Rightarrow> int option" where
  "atoi s = atoi_loop 0 s"

definition u_memmove :: "memory \<Rightarrow> u64 \<Rightarrow> u64 \<Rightarrow> nat \<Rightarrow> memory" where
  "u_memmove m dst src n =
     (if src > dst then copy_up m dst src n
      else copy_down m (dst + of_nat n) (src + of_nat n) n)"

definition u_memcmp :: "memory \<Rightarrow> u64 \<Rightarrow> u64 \<Rightarrow> u32 \<Rightarrow> int" where
  "u_memcmp m s1 s2 n = memcmp_loop m s1 s2 (unat n)"

section \<open>printf\<close>

definition udigits :: "byte list" where
  "udigits = map of_nat [48, 49, 50, 51, 52, 53, 54, 55, 56, 57, 65, 66, 67, 68, 69, 70]"

definition printint :: "int \<Rightarrow> nat \<Rightarrow> bool \<Rightarrow> byte list" where
  "printint = int_text udigits"

definition u_printptr :: "u64 \<Rightarrow> byte list" where
  "u_printptr x = [48, 120] @ map (\<lambda>i. udigits ! unat (drop_bit 60 (push_bit (4 * i) x))) [0..<16]"

datatype uarg = UInt int | ULong u64 | UStr "byte list option" | UChar u32

text \<open>
  The conversion of one argument, or None if the argument list does not match the format. A
  \<open>uint64\<close> for \<open>%l\<close> is cut down to the \<open>int\<close> parameter of \<open>printint\<close>.
\<close>

fun convert :: "byte \<Rightarrow> uarg list \<Rightarrow> (byte list \<times> uarg list) option" where
  "convert c ap =
     (if c = 100 then (case ap of UInt n # ap \<Rightarrow> Some (printint n 10 True, ap) | _ \<Rightarrow> None)
      else if c = 108 then (case ap of ULong n # ap \<Rightarrow> Some (printint (sint (ucast n :: u32)) 10 False, ap) | _ \<Rightarrow> None)
      else if c = 120 then (case ap of UInt n # ap \<Rightarrow> Some (printint n 16 False, ap) | _ \<Rightarrow> None)
      else if c = 112 then (case ap of ULong x # ap \<Rightarrow> Some (u_printptr x, ap) | _ \<Rightarrow> None)
      else if c = 115 then
        (case ap of UStr s # ap \<Rightarrow> Some (case s of None \<Rightarrow> [40, 110, 117, 108, 108, 41] | Some s \<Rightarrow> s, ap) | _ \<Rightarrow> None)
      else if c = 99 then (case ap of UChar x # ap \<Rightarrow> Some ([ucast x], ap) | _ \<Rightarrow> None)
      else if c = 37 then Some ([c], ap)
      else Some ([37, c], ap))"

fun vprintf_loop :: "bool \<Rightarrow> byte list \<Rightarrow> uarg list \<Rightarrow> byte list option" where
  "vprintf_loop state [] ap = Some []"
| "vprintf_loop False (c # fmt) ap =
     (if c = 37 then vprintf_loop True fmt ap
      else map_option (\<lambda>out. c # out) (vprintf_loop False fmt ap))"
| "vprintf_loop True (c # fmt) ap =
     (case convert c ap of
        None \<Rightarrow> None
      | Some (s, ap) \<Rightarrow> map_option (\<lambda>out. s @ out) (vprintf_loop False fmt ap))"

definition vprintf :: "byte list \<Rightarrow> uarg list \<Rightarrow> byte list option" where
  "vprintf fmt ap = vprintf_loop False fmt ap"

section \<open>Facts\<close>

lemma strcpy_from_result:
  "strcpy_from s i t = (\<lambda>j. if i \<le> j \<and> j < i + length t then t ! (j - i) else if j = i + length t then 0 else s j)"
proof (induction t arbitrary: s i)
  case Nil
  show ?case by (rule ext) auto
next
  case (Cons c t)
  show ?case by (rule ext) (auto simp: Cons nth_Cons split: nat.splits intro!: arg_cong [where f = "(!) t"])
qed

lemma strcmp_zero_iff: "strcmp p q = 0 \<longleftrightarrow> p = q" if "0 \<notin> set p" "0 \<notin> set q"
  using that by (induction p q rule: strcmp.induct) (auto simp: uint_0_iff dest: unsigned_word_eqI)

lemma strchr_split:
  "strchr s c = (if c \<in> set s then Some (dropWhile (\<lambda>d. d \<noteq> c) s) else None)"
  by (induction s) auto

lemma gets_loop_result:
  "gets_loop k inp buf = (buf @ take n inp, drop n inp)"
  if "n = min k (let l = takeWhile (\<lambda>c. c \<noteq> 10 \<and> c \<noteq> 13) inp in if length l < length inp then Suc (length l) else length l)"
  using that
  by (induction k inp buf arbitrary: n rule: gets_loop.induct) (auto simp: Let_def split: if_splits)

lemma u_memmove_write:
  assumes "unat src + n < 2 ^ 64" and "unat dst + n \<le> 2 ^ 64"
  shows "u_memmove m dst src n = write_mem m dst (read_mem m src n)"
proof (cases "src > dst")
  case True
  with assms have "n \<le> unat (dst - src)"
    by (simp add: word_less_nat_alt unat_sub_if_size word_size)
  with True assms show ?thesis by (simp add: u_memmove_def copy_up_write)
next
  case False
  with assms have "dst = src \<or> n \<le> unat (src - dst)"
    by (auto simp: word_less_nat_alt unat_sub_if_size word_size not_less dest: unsigned_word_eqI)
  with False assms show ?thesis by (simp add: u_memmove_def copy_down_write)
qed

lemma decimal_udigits: "decimal_table udigits"
proof -
  have ten: "(\<forall>d < (10 :: nat). P d) \<longleftrightarrow> P 0 \<and> P 1 \<and> P 2 \<and> P 3 \<and> P 4 \<and> P 5 \<and> P 6 \<and> P 7 \<and> P 8 \<and> P 9" for P
    by (simp add: numeral_eq_Suc All_less_Suc conj_ac)
  show ?thesis by (simp only: decimal_table_def ten) (simp add: udigits_def)
qed

lemma digits_value_bound:
  assumes "\<forall>c \<in> set ds. 48 \<le> unat c \<and> unat c \<le> 57"
  shows "digits_value ds < 10 ^ length ds"
  using assms
proof (induction ds)
  case Nil
  then show ?case by simp
next
  case (Cons c ds)
  then have "digits_value ds < 10 ^ length ds" "unat c - 48 \<le> 9" by auto
  then show ?case by simp
qed

text \<open>Reading decimal digits, most significant first, accumulates their value.\<close>

lemma atoi_loop_digits:
  assumes "\<forall>c \<in> set ds. 48 \<le> unat c \<and> unat c \<le> 57"
    and "0 \<le> n" and "n * 10 ^ length ds + int (digits_value (rev ds)) + 48 < 2 ^ 31"
  shows "atoi_loop n ds = Some (n * 10 ^ length ds + int (digits_value (rev ds)))"
  using assms
proof (induction ds arbitrary: n)
  case Nil
  then show ?case by simp
next
  case (Cons c ds)
  let ?m = "n * 10 + uint c"
  obtain e where k: "unat c = 48 + e" "e \<le> 9"
    using Cons.prems(1) le_Suc_ex [of 48 "unat c"] by auto
  then have u: "uint c = 48 + int e" by (simp add: uint_nat)
  have val: "n * 10 ^ length (c # ds) + int (digits_value (rev (c # ds))) =
      (?m - 48) * 10 ^ length ds + int (digits_value (rev ds))"
    using k by (simp add: digits_value_append u of_nat_diff algebra_simps)
  have "?m - 48 \<le> (?m - 48) * 10 ^ length ds"
    using k Cons.prems(2) by (simp add: u mult_le_cancel_left1)
  then have "?m < 2 ^ 31" using Cons.prems(3) unfolding val by simp
  moreover have "0 \<le> ?m - 48" using k Cons.prems(2) by (simp add: u)
  ultimately show ?case
    using k Cons.prems(1,3) Cons.IH [of "?m - 48"] unfolding val by (simp add: Let_def)
qed

section \<open>Properties\<close>



end
