(* ===== verification/Uprogs.thy ===== *)
theory Uprogs
  imports Ulib
begin

text \<open>
  The small user programs of \<open>src/user\<close> as trees of the calls that they make. \<open>init\<close> does not end, so that
  the trees are a codatatype. A call's continuation takes what the call returns; \<open>fork\<close> is followed
  in the process that the theorem is about, by the number it returns there. \<open>fprintf\<close> counts as
  one call, with the format and its arguments.
\<close>

section \<open>Programs as trees\<close>

datatype ucall =
    UOpen string nat
  | UMknod string nat nat
  | UDup nat
  | UFork
  | UExec string "string list"
  | UWait
  | UKill int
  | ULink "byte list" "byte list"
  | UMkdir "byte list"
  | UUnlink "byte list"
  | USleep nat
  | UWrite nat string
  | UPrint nat string "byte list list"

codatatype prog = PExit int | PUndef | PCall ucall "int \<Rightarrow> prog"

section \<open>init\<close>

text \<open>The mode 2 is \<open>O_RDWR\<close> and the device 1 \<open>CONSOLE\<close>. The loop is before \<open>fork\<close>, or waiting for the shell with the given number.\<close>

primcorec init_loop :: "int option \<Rightarrow> prog" where
  "init_loop st =
     (case st of
        None \<Rightarrow> PCall UFork (\<lambda>pid.
          if pid < 0 then PExit 1 else
          if pid = 0 then PCall (UExec ''sh'' [''sh'']) (\<lambda>_. PExit 1)
          else init_loop (Some pid))
      | Some pid \<Rightarrow> PCall UWait (\<lambda>wpid.
          if wpid = pid then init_loop None else
          if wpid < 0 then PExit 1
          else init_loop (Some pid)))"

definition init_main :: prog where
  "init_main =
     (let rest = PCall (UDup 0) (\<lambda>_. PCall (UDup 0) (\<lambda>_. init_loop None)) in
      PCall (UOpen ''console'' 2) (\<lambda>fd.
      if fd < 0 then PCall (UMknod ''console'' 1 0) (\<lambda>_. PCall (UOpen ''console'' 2) (\<lambda>_. rest))
      else rest))"

section \<open>Programs with arguments\<close>

text \<open>\<open>argv\<close> with the name of the program first; the loops go over the rest.\<close>

definition kill_main :: "byte list list \<Rightarrow> prog" where
  "kill_main argv =
     (if length argv < 2 then PCall (UPrint 2 ''usage: kill pid...\<newline>'' []) (\<lambda>_. PExit 1) else
      foldr (\<lambda>a k. case atoi a of None \<Rightarrow> PUndef | Some pid \<Rightarrow> PCall (UKill pid) (\<lambda>_. k)) (tl argv) (PExit 0))"

definition ln_main :: "byte list list \<Rightarrow> prog" where
  "ln_main argv =
     (if length argv \<noteq> 3 then PCall (UPrint 2 ''Usage: ln old new\<newline>'' []) (\<lambda>_. PExit 1) else
      PCall (ULink (argv ! 1) (argv ! 2)) (\<lambda>r.
      if r < 0 then PCall (UPrint 2 ''link %s %s: failed\<newline>'' [argv ! 1, argv ! 2]) (\<lambda>_. PExit 0)
      else PExit 0))"

definition mkdir_main :: "byte list list \<Rightarrow> prog" where
  "mkdir_main argv =
     (if length argv < 2 then PCall (UPrint 2 ''Usage: mkdir files...\<newline>'' []) (\<lambda>_. PExit 1) else
      foldr (\<lambda>a k. PCall (UMkdir a) (\<lambda>r.
        if r < 0 then PCall (UPrint 2 ''mkdir: %s failed to create\<newline>'' [a]) (\<lambda>_. PExit 0) else k)) (tl argv) (PExit 0))"

definition rm_main :: "byte list list \<Rightarrow> prog" where
  "rm_main argv =
     (if length argv < 2 then PCall (UPrint 2 ''Usage: rm files...\<newline>'' []) (\<lambda>_. PExit 1) else
      foldr (\<lambda>a k. PCall (UUnlink a) (\<lambda>r.
        if r < 0 then PCall (UPrint 2 ''rm: %s failed to delete\<newline>'' [a]) (\<lambda>_. PExit 0) else k)) (tl argv) (PExit 0))"

section \<open>zombie and forktest\<close>

definition zombie_main :: prog where
  "zombie_main = PCall UFork (\<lambda>pid. if pid > 0 then PCall (USleep 5) (\<lambda>_. PExit 0) else PExit 0)"

text \<open>\<open>forktest\<close> with \<open>m\<close> of the \<open>N\<close> calls of \<open>fork\<close> left, and what follows when \<open>n\<close> have succeeded.\<close>

abbreviation forktest_waits :: "nat \<Rightarrow> prog" where
  "forktest_waits n \<equiv>
     ((\<lambda>k. PCall UWait (\<lambda>r. if r < 0 then PCall (UWrite 1 ''wait stopped early\<newline>'') (\<lambda>_. PExit 1) else k)) ^^ n)
     (PCall UWait (\<lambda>r.
        if r \<noteq> - 1 then PCall (UWrite 1 ''wait got too many\<newline>'') (\<lambda>_. PExit 1)
        else PCall (UWrite 1 ''fork test OK\<newline>'') (\<lambda>_. PExit 0)))"

primrec forktest_forks :: "nat \<Rightarrow> nat \<Rightarrow> prog" where
  "forktest_forks 0 n = PCall (UWrite 1 ''fork claimed to work N times!\<newline>'') (\<lambda>_. PExit 1)"
| "forktest_forks (Suc m) n =
     PCall UFork (\<lambda>pid.
       if pid < 0 then forktest_waits n else
       if pid = 0 then PExit 0
       else forktest_forks m (Suc n))"

definition forktest_main :: prog where
  "forktest_main = PCall (UWrite 1 ''fork test\<newline>'') (\<lambda>_. forktest_forks 1000 0)"

section \<open>Runs\<close>

text \<open>A run for some number of calls, in a world that answers them: the calls and how it ended.\<close>

datatype ending = Exited int | Undefined | Running

type_synonym 'w world = "'w \<Rightarrow> ucall \<Rightarrow> int \<times> 'w"

primrec run_prog :: "nat \<Rightarrow> 'w world \<Rightarrow> 'w \<Rightarrow> prog \<Rightarrow> ucall list \<times> ending" where
  "run_prog 0 f w p = ([], case p of PExit n \<Rightarrow> Exited n | PUndef \<Rightarrow> Undefined | PCall _ _ \<Rightarrow> Running)"
| "run_prog (Suc m) f w p =
     (case p of
        PExit n \<Rightarrow> ([], Exited n)
      | PUndef \<Rightarrow> ([], Undefined)
      | PCall c k \<Rightarrow> (case f w c of (r, w') \<Rightarrow> (case run_prog m f w' (k r) of (cs, e) \<Rightarrow> (c # cs, e))))"

lemma run_call:
  "run_prog (Suc m) f w (PCall c k) = (let r = run_prog m f (snd (f w c)) (k (fst (f w c))) in (c # fst r, snd r))"
  by (simp add: Let_def split: prod.splits)

declare run_prog.simps(2) [simp del]

text \<open>\<open>init\<close> runs for ever when \<open>fork\<close> and \<open>wait\<close> do not fail, and starts a shell again each time one ends.\<close>

definition keeps_up :: "'w world \<Rightarrow> bool" where
  "keeps_up f \<longleftrightarrow> (\<forall>w. 0 < fst (f w UFork) \<and> 0 \<le> fst (f w UWait))"

lemma init_loop_calls:
  "init_loop None = PCall UFork (\<lambda>pid. if pid < 0 then PExit 1 else if pid = 0 then PCall (UExec ''sh'' [''sh'']) (\<lambda>_. PExit 1) else init_loop (Some pid))"
  "init_loop (Some pid) = PCall UWait (\<lambda>wpid. if wpid = pid then init_loop None else if wpid < 0 then PExit 1 else init_loop (Some pid))"
  by (subst init_loop.code, simp)+

lemma init_never_ends: "keeps_up f \<Longrightarrow> snd (run_prog m f w (init_loop st)) = Running"
proof (induction m arbitrary: w st)
  case 0
  then show ?case by (cases st) (simp_all add: init_loop_calls)
next
  case (Suc m)
  have k: "0 < fst (f w UFork)" "0 \<le> fst (f w UWait)" using Suc.prems by (auto simp: keeps_up_def)
  show ?case
  proof (cases st)
    case None
    show ?thesis unfolding None by (subst init_loop_calls(1)) (use k(1) Suc in \<open>simp add: run_call Let_def\<close>)
  next
    case (Some pid)
    show ?thesis unfolding Some by (subst init_loop_calls(2)) (use k(2) Suc in \<open>simp add: run_call Let_def\<close>)
  qed
qed

text \<open>
  The processes as \<open>forktest\<close> sees them: room for \<open>c\<close> children, of which \<open>n\<close> are there. The children exit, and
  \<open>wait\<close> finds one until there are none.
\<close>

definition table_world :: "nat \<Rightarrow> nat world" where
  "table_world c n call =
     (case call of
        UFork \<Rightarrow> if n < c then (int n + 2, Suc n) else (- 1, n)
      | UWait \<Rightarrow> if n = 0 then (- 1, 0) else (2, n - 1)
      | _ \<Rightarrow> (0, n))"

lemma table_world_simps:
  "table_world c n UFork = (if n < c then (int n + 2, Suc n) else (- 1, n))" "table_world c n UWait = (if n = 0 then (- 1, 0) else (2, n - 1))"
  "table_world c n (UWrite fd m) = (0, n)"
  by (simp_all add: table_world_def)

lemma forktest_waits_Suc: "forktest_waits (Suc n) = PCall UWait (\<lambda>r. if r < 0 then PCall (UWrite 1 ''wait stopped early\<newline>'') (\<lambda>_. PExit 1) else forktest_waits n)"
  by (simp only: funpow.simps o_apply)

lemma forktest_waits_run:
  "run_prog (n + 2) (table_world c) n (forktest_waits n) = (replicate (Suc n) UWait @ [UWrite 1 ''fork test OK\<newline>''], Exited 0)"
proof (induction n)
  case 0
  then show ?case by (simp add: numeral_2_eq_2 run_call table_world_simps)
next
  case (Suc n)
  show ?case unfolding forktest_waits_Suc using Suc by (simp add: run_call table_world_simps Let_def)
qed

lemma forktest_forks_run:
  assumes "n \<le> c" "c < n + m"
  shows "run_prog (c - n + 1 + (c + 2)) (table_world c) n (forktest_forks m n) =
    (replicate (c - n + 1) UFork @ replicate (Suc c) UWait @ [UWrite 1 ''fork test OK\<newline>''], Exited 0)"
  using assms
proof (induction m arbitrary: n)
  case (Suc m)
  show ?case
  proof (cases "n = c")
    case True
    then show ?thesis using forktest_waits_run [of c c] by (simp add: run_call table_world_simps Let_def)
  next
    case False
    then have d: "c - n = Suc (c - Suc n)" using Suc.prems by simp
    show ?thesis using Suc.IH [of "Suc n"] Suc.prems False unfolding d by (simp add: run_call table_world_simps Let_def)
  qed
qed simp

text \<open>\<open>forktest\<close> passes when the table has room for fewer than 1000 children, and waits for each of them.\<close>

lemma forktest_passes:
  assumes "c < 1000"
  shows "run_prog (2 * c + 4) (table_world c) 0 forktest_main =
    (UWrite 1 ''fork test\<newline>'' # replicate (Suc c) UFork @ replicate (Suc c) UWait @ [UWrite 1 ''fork test OK\<newline>''], Exited 0)"
proof -
  have "2 * c + 4 = Suc (c - 0 + 1 + (c + 2))" by simp
  then show ?thesis using forktest_forks_run [of 0 c 1000] assms by (simp only: forktest_main_def run_call) (simp add: table_world_simps Let_def)
qed

text \<open>\<open>rm\<close> removes its arguments in order until one cannot be removed.\<close>

lemma rm_removes:
  assumes "length argv \<ge> 2" "\<And>w a. fst (f w (UUnlink a)) = (if bad a then - 1 else 0)"
  shows "run_prog (length argv + 1) f w (rm_main argv) =
    (let done = takeWhile (\<lambda>a. \<not> bad a) (tl argv); rest = dropWhile (\<lambda>a. \<not> bad a) (tl argv) in
     (map UUnlink done @ (if rest = [] then [] else [UUnlink (hd rest), UPrint 2 ''rm: %s failed to delete\<newline>'' [hd rest]]), Exited 0))"
proof -
  let ?p = "\<lambda>as. foldr (\<lambda>a k. PCall (UUnlink a) (\<lambda>r. if r < 0 then PCall (UPrint 2 ''rm: %s failed to delete\<newline>'' [a]) (\<lambda>_. PExit 0) else k)) as (PExit 0)"
  have "run_prog (length as + 2) f w (?p as) =
    (map UUnlink (takeWhile (\<lambda>a. \<not> bad a) as) @ (let rest = dropWhile (\<lambda>a. \<not> bad a) as in
       if rest = [] then [] else [UUnlink (hd rest), UPrint 2 ''rm: %s failed to delete\<newline>'' [hd rest]]), Exited 0)" for as w
  proof (induction as arbitrary: w)
    case Nil
    then show ?case by (simp add: numeral_2_eq_2 run_prog.simps)
  next
    case (Cons a as)
    then show ?case using assms(2) [of w a] by (cases "bad a") (simp_all add: run_call Let_def, simp_all add: numeral_2_eq_2 run_prog.simps split: prod.splits)
  qed
  note run = this [of "tl argv" w]
  have l: "length argv + 1 = length (tl argv) + 2" and m: "rm_main argv = ?p (tl argv)" using assms(1) by (simp_all add: rm_main_def)
  show ?thesis unfolding l m run by (simp only: Let_def)
qed

end
