(* ===== verification/Grep.thy ===== *)
theory Grep
  imports Ulib
begin

text \<open>
  The program \<open>src/user/grep.c\<close>: the matcher for the operators \<open>^ . * $\<close> and the loop that reads a
  file through a buffer of 1024 bytes. A reference semantics says which texts a pattern denotes;
  the matcher is proved to agree with it, and the loop to print exactly the lines that match.
\<close>

section \<open>The matcher\<close>

abbreviation (input) STAR :: byte where "STAR \<equiv> 42"
abbreviation (input) DOT :: byte where "DOT \<equiv> 46"
abbreviation (input) DOLLAR :: byte where "DOLLAR \<equiv> 36"
abbreviation (input) CARET :: byte where "CARET \<equiv> 94"
abbreviation (input) NEWLINE :: byte where "NEWLINE \<equiv> 10"

function matchhere :: "byte list \<Rightarrow> byte list \<Rightarrow> bool"
  and matchstar :: "byte \<Rightarrow> byte list \<Rightarrow> byte list \<Rightarrow> bool" where
  "matchhere [] str = True"
| "matchhere (c # re) str =
     (if re \<noteq> [] \<and> hd re = STAR then matchstar c (tl re) str
      else if c = DOLLAR \<and> re = [] then str = []
      else case str of [] \<Rightarrow> False | t # ts \<Rightarrow> (c = DOT \<or> c = t) \<and> matchhere re ts)"
| "matchstar c re str =
     (matchhere re str \<or>
      (case str of [] \<Rightarrow> False | t # ts \<Rightarrow> (t = c \<or> c = DOT) \<and> matchstar c re ts))"
  by pat_completeness auto
termination
  by (relation "measure (case_sum (\<lambda>(re, str). 2 * (length re + length str))
        (\<lambda>(c, re, str). 2 * (length re + length str) + 1))") auto

declare matchhere.simps(2) [simp del] matchstar.simps [simp del]

fun match_from :: "byte list \<Rightarrow> byte list \<Rightarrow> bool" where
  "match_from re [] = matchhere re []"
| "match_from re (t # str) = (matchhere re (t # str) \<or> match_from re str)"

definition match :: "byte list \<Rightarrow> byte list \<Rightarrow> bool" where
  "match re str =
     (if re \<noteq> [] \<and> hd re = CARET then matchhere (tl re) str else match_from re str)"

section \<open>The loop\<close>

text \<open>
  What \<open>read\<close> gives: one piece per call, at most as long as asked for, and nothing at the end of the
  file. A piece that does not fit is continued in the next call.
\<close>

fun u_read :: "nat \<Rightarrow> byte list list \<Rightarrow> byte list \<times> byte list list" where
  "u_read n [] = ([], [])"
| "u_read n (c # cs) = (take n c, if drop n c = [] then cs else drop n c # cs)"

lemma u_read_smaller:
  "u_read n cs = (d, cs') \<Longrightarrow> d \<noteq> [] \<Longrightarrow> length (concat cs') < length (concat cs)"
  by (cases cs) (auto split: if_splits)

lemma tl_dropWhile_smaller: "dropWhile P xs \<noteq> [] \<Longrightarrow> length (dropWhile P xs) - Suc 0 < length xs"
  using length_dropWhile_le [of P xs] by (cases "dropWhile P xs") simp_all

text \<open>
  The inner loop on the bytes in the buffer: what it prints and what is left. \<open>strchr\<close> does not look
  past a NUL.
\<close>

function scan_lines :: "byte list \<Rightarrow> byte list \<Rightarrow> byte list \<times> byte list" where
  "scan_lines pattern p =
     (let line = takeWhile (\<lambda>c. c \<noteq> NEWLINE \<and> c \<noteq> 0) p; rest = dropWhile (\<lambda>c. c \<noteq> NEWLINE \<and> c \<noteq> 0) p in
      if rest = [] \<or> hd rest = 0 then ([], p)
      else case scan_lines pattern (tl rest) of (out, left) \<Rightarrow>
        ((if match pattern line then line @ [NEWLINE] else []) @ out, left))"
  by auto
termination
  by (relation "measure (\<lambda>(_, p). length p)") (auto intro: tl_dropWhile_smaller simp del: dropWhile_eq_Nil_conv)

declare scan_lines.simps [simp del]

definition GREPBUF :: nat where "GREPBUF = 1024"

function grep_loop :: "byte list \<Rightarrow> byte list \<Rightarrow> byte list list \<Rightarrow> byte list" where
  "grep_loop pattern buf cs =
     (case u_read (GREPBUF - length buf - 1) cs of (d, cs') \<Rightarrow>
      if d = [] then []
      else case scan_lines pattern (buf @ d) of (out, left) \<Rightarrow> out @ grep_loop pattern left cs')"
  by auto
termination
  by (relation "measure (\<lambda>(_, _, cs). length (concat cs))") (auto dest: u_read_smaller [OF sym])

declare grep_loop.simps [simp del]

definition grep :: "byte list \<Rightarrow> byte list list \<Rightarrow> byte list" where
  "grep pattern cs = grep_loop pattern [] cs"

section \<open>What a pattern denotes\<close>

text \<open>
  A pattern is a sequence of items, a character with or without a star, that may end with the
  anchor \<open>$\<close>. A text starts with a match if it starts with a concatenation of texts of the items,
  which is all of the text under the anchor.
\<close>

datatype item = One byte | Many byte

fun items :: "byte list \<Rightarrow> item list \<times> bool" where
  "items [] = ([], False)"
| "items [c] = (if c = DOLLAR then ([], True) else ([One c], False))"
| "items (c # d # re) =
     (if d = STAR then (case items re of (its, e) \<Rightarrow> (Many c # its, e))
      else case items (d # re) of (its, e) \<Rightarrow> (One c # its, e))"

definition admits :: "byte \<Rightarrow> byte \<Rightarrow> bool" where
  "admits c t \<longleftrightarrow> c = DOT \<or> c = t"

fun denotes :: "item \<Rightarrow> byte list \<Rightarrow> bool" where
  "denotes (One c) u = (\<exists>t. u = [t] \<and> admits c t)"
| "denotes (Many c) u = list_all (admits c) u"

definition starts_match :: "item list \<Rightarrow> bool \<Rightarrow> byte list \<Rightarrow> bool" where
  "starts_match its anchored str \<longleftrightarrow>
     (\<exists>us v. str = concat us @ v \<and> list_all2 denotes its us \<and> (anchored \<longrightarrow> v = []))"

lemma starts_match_Nil: "starts_match [] e str \<longleftrightarrow> (e \<longrightarrow> str = [])"
  by (auto simp: starts_match_def)

lemma starts_match_Cons:
  "starts_match (i # its) e str \<longleftrightarrow> (\<exists>u v. str = u @ v \<and> denotes i u \<and> starts_match its e v)"
  (is "?l \<longleftrightarrow> ?r")
proof
  assume ?l
  then obtain us v where "str = concat us @ v" "list_all2 denotes (i # its) us" "e \<longrightarrow> v = []"
    by (auto simp: starts_match_def)
  then show ?r unfolding starts_match_def by (cases us) auto
next
  assume ?r
  then obtain u us v where "str = u @ concat us @ v" "denotes i u" "list_all2 denotes its us" "e \<longrightarrow> v = []"
    by (auto simp: starts_match_def)
  then show ?l unfolding starts_match_def by (intro exI [of _ "u # us"]) auto
qed

lemma starts_match_One:
  "starts_match (One c # its) e str \<longleftrightarrow> str \<noteq> [] \<and> admits c (hd str) \<and> starts_match its e (tl str)"
proof (cases str)
  case (Cons t ts)
  have "(\<exists>u v. t # ts = u @ v \<and> (\<exists>t. u = [t] \<and> admits c t) \<and> P v) \<longleftrightarrow> admits c t \<and> P ts" for P
    by (rule iffI) (auto intro: exI [of _ "[t]"])
  with Cons show ?thesis by (simp add: starts_match_Cons)
qed (simp add: starts_match_Cons)

lemma starts_match_Many:
  "starts_match (Many c # its) e str \<longleftrightarrow>
     starts_match its e str \<or> str \<noteq> [] \<and> admits c (hd str) \<and> starts_match (Many c # its) e (tl str)"
  (is "?l \<longleftrightarrow> ?r")
proof
  assume ?l
  then obtain u v where "str = u @ v" "list_all (admits c) u" "starts_match its e v"
    by (auto simp: starts_match_Cons)
  then show ?r by (cases u) (auto simp: starts_match_Cons)
next
  assume ?r
  then show ?l
  proof
    assume "starts_match its e str"
    then show ?l unfolding starts_match_Cons by (intro exI [of _ "[]"] exI [of _ str]) simp
  next
    assume "str \<noteq> [] \<and> admits c (hd str) \<and> starts_match (Many c # its) e (tl str)"
    then obtain u v where "str = (hd str # u) @ v" "list_all (admits c) (hd str # u)" "starts_match its e v"
      unfolding starts_match_Cons by (cases str) auto
    then show ?l unfolding starts_match_Cons denotes.simps by blast
  qed
qed

lemma matcher_correct:
  "matchhere re str = (case items re of (its, e) \<Rightarrow> starts_match its e str)"
  "matchstar c re str = (case items re of (its, e) \<Rightarrow> starts_match (Many c # its) e str)"
proof (induction re str and c re str rule: matchhere_matchstar.induct)
  case (1 str)
  then show ?case by (simp add: starts_match_Nil)
next
  case (2 c re str)
  show ?case
  proof (cases re)
    case Nil
    with 2 show ?thesis
      by (simp add: matchhere.simps(2) starts_match_Nil starts_match_One admits_def split: list.splits)
  next
    case (Cons d re')
    with 2 show ?thesis
      by (auto simp: matchhere.simps(2) starts_match_One admits_def split: prod.splits list.splits)
  qed
next
  case (3 c re str)
  then show ?case
    by (subst matchstar.simps, subst starts_match_Many) (auto simp: admits_def split: prod.splits list.splits)
qed

lemma match_from_suffix: "match_from re str \<longleftrightarrow> (\<exists>u v. str = u @ v \<and> matchhere re v)"
proof (induction str)
  case Nil
  then show ?case by simp
next
  case (Cons t str)
  then show ?case by (auto simp: Cons_eq_append_conv)
qed

section \<open>What the loop prints\<close>

text \<open>The lines of a file that end with a newline, and what follows the last newline.\<close>

fun lines_of :: "byte list \<Rightarrow> byte list \<Rightarrow> byte list list \<times> byte list" where
  "lines_of acc [] = ([], acc)"
| "lines_of acc (c # cs) =
     (if c = NEWLINE then (case lines_of [] cs of (ls, r) \<Rightarrow> (acc # ls, r)) else lines_of (acc @ [c]) cs)"

definition print_lines :: "byte list \<Rightarrow> byte list list \<Rightarrow> byte list" where
  "print_lines pattern ls = concat (map (\<lambda>l. l @ [NEWLINE]) (filter (match pattern) ls))"

lemma print_lines_append [simp]: "print_lines pattern (xs @ ys) = print_lines pattern xs @ print_lines pattern ys"
  by (simp add: print_lines_def)

lemma lines_of_no_newline: "NEWLINE \<notin> set xs \<Longrightarrow> lines_of acc (xs @ ys) = lines_of (acc @ xs) ys"
  by (induction xs arbitrary: acc) auto

lemma lines_of_rest: "NEWLINE \<notin> set acc \<Longrightarrow> NEWLINE \<notin> set (snd (lines_of acc xs))"
  by (induction acc xs rule: lines_of.induct) (auto split: prod.splits)

lemma lines_of_append:
  "lines_of acc (xs @ ys) =
     (case lines_of acc xs of (ls, r) \<Rightarrow> case lines_of r ys of (ls', r') \<Rightarrow> (ls @ ls', r'))"
  by (induction acc xs rule: lines_of.induct) (auto split: prod.splits)

lemma scan_lines_correct:
  assumes "0 \<notin> set p"
  shows "scan_lines pattern p = (case lines_of [] p of (ls, r) \<Rightarrow> (print_lines pattern ls, r))"
  using assms
proof (induction pattern p rule: scan_lines.induct)
  case (1 pattern p)
  let ?P = "\<lambda>c :: byte. c \<noteq> NEWLINE \<and> c \<noteq> 0"
  let ?line = "takeWhile ?P p" and ?rest = "dropWhile ?P p"
  have line: "NEWLINE \<notin> set ?line" by (auto dest: set_takeWhileD)
  have split: "p = ?line @ ?rest" by simp
  show ?case
  proof (cases ?rest)
    case Nil
    then have "NEWLINE \<notin> set p" by auto
    with lines_of_no_newline [of p "[]" "[]"] Nil show ?thesis
      by (subst scan_lines.simps) (simp add: print_lines_def)
  next
    case (Cons c rest)
    then have sub: "set (c # rest) \<subseteq> set p" using set_dropWhileD [of _ ?P p] by (metis subsetI)
    with 1(2) have "c \<noteq> 0" by auto
    moreover have "\<not> ?P c" using hd_dropWhile [of ?P p] Cons by simp
    ultimately have c: "c = NEWLINE" by simp
    from sub have "0 \<notin> set rest" using 1(2) by auto
    with 1(1) [OF refl refl] Cons c
    have IH: "scan_lines pattern rest = (case lines_of [] rest of (ls, r) \<Rightarrow> (print_lines pattern ls, r))"
      by simp
    have "lines_of [] p = lines_of ?line ?rest"
      using lines_of_no_newline [OF line, of "[]" ?rest] by simp
    then show ?thesis using Cons c IH
      by (subst scan_lines.simps) (simp add: print_lines_def split: prod.splits)
  qed
qed

text \<open>Every line fits the buffer: no run of 1023 bytes without a newline.\<close>

definition short_lines :: "byte list \<Rightarrow> bool" where
  "short_lines xs \<longleftrightarrow> (\<forall>u v w. xs = u @ v @ w \<longrightarrow> NEWLINE \<notin> set v \<longrightarrow> Suc (length v) < GREPBUF)"

lemma short_linesD: "short_lines (u @ v @ w) \<Longrightarrow> NEWLINE \<notin> set v \<Longrightarrow> Suc (length v) < GREPBUF"
  unfolding short_lines_def by blast

lemma u_read_concat:
  "u_read n cs = (d, cs') \<Longrightarrow> [] \<notin> set cs \<Longrightarrow> concat cs = d @ concat cs' \<and> [] \<notin> set cs' \<and> (d = [] \<longrightarrow> n = 0 \<or> cs = [])"
  by (cases cs) (auto split: if_splits)

lemma lines_of_suffix: "\<exists>u. acc @ xs = u @ snd (lines_of acc xs)"
proof (induction acc xs rule: lines_of.induct)
  case (2 acc c cs)
  then show ?case by (cases "c = NEWLINE") (force split: prod.splits)+
qed simp

lemma grep_loop_correct:
  assumes "0 \<notin> set buf" and "0 \<notin> set (concat cs)" and "[] \<notin> set cs"
    and "NEWLINE \<notin> set buf" and "short_lines (buf @ concat cs)"
  shows "grep_loop pattern buf cs = print_lines pattern (fst (lines_of buf (concat cs)))"
  using assms
proof (induction pattern buf cs rule: grep_loop.induct)
  case (1 pattern buf cs)
  obtain d cs' where rd: "u_read (GREPBUF - length buf - 1) cs = (d, cs')" by fastforce
  note rdc = u_read_concat [OF rd 1(4)]
  have room: "Suc (length buf) < GREPBUF" using short_linesD [of "[]" buf "concat cs"] 1(5,6) by simp
  show ?case
  proof (cases "d = []")
    case True
    with rdc room have "cs = []" by simp
    with True rd show ?thesis by (subst grep_loop.simps) (simp add: print_lines_def)
  next
    case False
    obtain ls r where lr: "lines_of buf d = (ls, r)" by fastforce
    have bd: "lines_of [] (buf @ d) = (ls, r)" using lines_of_no_newline [OF 1(5), of "[]" d] lr by simp
    have z: "0 \<notin> set (buf @ d)" using 1(2,3) rdc by auto
    have sc: "scan_lines pattern (buf @ d) = (print_lines pattern ls, r)"
      using scan_lines_correct [OF z] bd by simp
    obtain u where u: "buf @ d = u @ r" using lines_of_suffix [of buf d] lr by auto
    have "short_lines (r @ concat cs')"
      unfolding short_lines_def
    proof (intro allI impI)
      fix a v w assume "r @ concat cs' = a @ v @ w" "NEWLINE \<notin> set v"
      then show "Suc (length v) < GREPBUF" using u rdc 1(6) short_linesD [of "u @ a" v w]
        by (metis append.assoc)
    qed
    moreover have "0 \<notin> set r" using z u by auto
    moreover have "NEWLINE \<notin> set r" using lines_of_rest [OF 1(5), of d] lr by simp
    moreover have "0 \<notin> set (concat cs')" using 1(3) rdc by auto
    ultimately have "grep_loop pattern r cs' = print_lines pattern (fst (lines_of r (concat cs')))"
      using 1(1) [OF rd [symmetric] False sc [symmetric]] rdc by blast
    then show ?thesis using rd False sc rdc lr
      by (subst grep_loop.simps) (simp add: lines_of_append split: prod.splits)
  qed
qed

section \<open>Properties\<close>

text \<open>
  C35: The matcher is correct: \<open>match\<close> accepts a text exactly when the text, or for a pattern without
  \<open>^\<close> some suffix of it, starts with a match of the pattern's items, and is one under \<open>$\<close>.
\<close>

theorem match_correct:
  "match re str \<longleftrightarrow>
     (if re \<noteq> [] \<and> hd re = CARET then (case items (tl re) of (its, e) \<Rightarrow> starts_match its e str)
      else \<exists>u v. str = u @ v \<and> (case items re of (its, e) \<Rightarrow> starts_match its e v))"
  by (simp add: match_def match_from_suffix matcher_correct)

text \<open>
  C36: For a file without NUL bytes whose lines fit the buffer, \<open>grep\<close> prints exactly the
  newline-terminated lines that match, in order, however \<open>read\<close> cuts the file into pieces.
\<close>

theorem grep_prints_matching_lines:
  assumes "0 \<notin> set (concat cs)" and "[] \<notin> set cs" and "short_lines (concat cs)"
  shows "grep pattern cs = print_lines pattern (fst (lines_of [] (concat cs)))"
  using assms by (simp add: grep_def grep_loop_correct)

theorem grep_prints_matching_lines_witness:
  "grep [98] [[97, 98], [10, 99], [10]] = [97, 98, 10]"
proof -
  have "short_lines (concat [[97, 98], [10, 99], [10 :: byte]])"
    by (auto simp: short_lines_def GREPBUF_def dest: arg_cong [where f = length])
  from grep_prints_matching_lines [OF _ _ this, of "[98]"]
  show ?thesis by (simp add: print_lines_def match_def matchhere.simps)
qed

end
