(* ===== verification/Utools.thy ===== *)
theory Utools
  imports Grep
begin

text \<open>
  Small programs: \<open>src/user/wc.c\<close>, \<open>src/user/cat.c\<close>, \<open>src/user/echo.c\<close> and the name formatting of
  \<open>src/user/ls.c\<close>. A file is the list of what its \<open>read\<close> calls give: a piece, or None for an error.
\<close>

section \<open>wc\<close>

definition is_space :: "byte \<Rightarrow> bool" where
  "is_space c \<longleftrightarrow> strchr [32, 13, 9, 10, 11] c \<noteq> None"

record wcount =
  wc_l :: int
  wc_w :: int
  wc_c :: int
  inword :: bool

definition wc_byte :: "byte \<Rightarrow> wcount \<Rightarrow> wcount" where
  "wc_byte b x =
     (let x = x\<lparr>wc_c := wc_c x + 1\<rparr>; x = (if b = 10 then x\<lparr>wc_l := wc_l x + 1\<rparr> else x) in
      if is_space b then x\<lparr>inword := False\<rparr>
      else if \<not> inword x then x\<lparr>wc_w := wc_w x + 1, inword := True\<rparr>
      else x)"

text \<open>The pieces, each at most as long as the buffer; the loop ends with an empty piece or an error.\<close>

fun wc_loop :: "byte list option list \<Rightarrow> wcount \<Rightarrow> wcount option" where
  "wc_loop [] x = Some x"
| "wc_loop (None # rs) x = None"
| "wc_loop (Some bs # rs) x = (if bs = [] then Some x else wc_loop rs (fold wc_byte bs x))"

definition wc :: "byte list option list \<Rightarrow> (int \<times> int \<times> int) option" where
  "wc rs = map_option (\<lambda>x. (wc_l x, wc_w x, wc_c x)) (wc_loop rs \<lparr>wc_l = 0, wc_w = 0, wc_c = 0, inword = False\<rparr>)"

section \<open>cat, echo and ls\<close>

datatype outcome = Returns | Exits int

text \<open>\<open>wr\<close> is what \<open>write\<close> returns for a piece.\<close>

fun cat :: "(byte list \<Rightarrow> int) \<Rightarrow> byte list option list \<Rightarrow> byte list \<times> outcome" where
  "cat wr [] = ([], Returns)"
| "cat wr (None # rs) = ([], Returns)"
| "cat wr (Some bs # rs) =
     (if bs = [] then ([], Returns)
      else if wr bs \<noteq> int (length bs) then ([], Exits 1)
      else case cat wr rs of (out, r) \<Rightarrow> (bs @ out, r))"

fun echo_args :: "byte list list \<Rightarrow> byte list" where
  "echo_args [] = []"
| "echo_args [a] = a @ [10]"
| "echo_args (a # as) = a @ [32] @ echo_args as"

definition echo :: "byte list list \<Rightarrow> byte list" where
  "echo argv = echo_args (tl argv)"

definition NAMESIZ :: nat where "NAMESIZ = 14"

definition fmtname :: "byte list \<Rightarrow> byte list" where
  "fmtname path =
     (let p = rev (takeWhile (\<lambda>c. c \<noteq> 47) (rev path)) in
      if length p \<ge> NAMESIZ then p else p @ replicate (NAMESIZ - length p) 32)"

section \<open>Facts\<close>

text \<open>The number of bytes that start a word, when the byte before the list is white space iff \<open>sp\<close>.\<close>

fun word_starts :: "bool \<Rightarrow> byte list \<Rightarrow> nat" where
  "word_starts sp [] = 0"
| "word_starts sp (b # bs) = (if sp \<and> \<not> is_space b then 1 else 0) + word_starts (is_space b) bs"

lemma word_starts_append:
  "word_starts sp (xs @ ys) = word_starts sp xs + word_starts (if xs = [] then sp else is_space (last xs)) ys"
  by (induction xs arbitrary: sp) auto

lemma word_starts_filter:
  "word_starts True xs =
     length (filter (\<lambda>i. \<not> is_space (xs ! i) \<and> (i = 0 \<or> is_space (xs ! (i - 1)))) [0..<length xs])"
proof (induction xs rule: rev_induct)
  case Nil
  then show ?case by simp
next
  case (snoc b xs)
  let ?P = "\<lambda>xs i. \<not> is_space (xs ! i) \<and> (i = 0 \<or> is_space (xs ! (i - 1)))"
  have "filter (?P (xs @ [b])) [0..<length xs] = filter (?P xs) [0..<length xs]"
    by (rule filter_cong) (auto simp: nth_append)
  then show ?case
    by (auto simp: snoc word_starts_append nth_append last_conv_nth)
qed

lemma is_space_newline: "is_space 10"
  by (simp add: is_space_def)

lemma wc_bytes:
  "fold wc_byte bs x = \<lparr>wc_l = wc_l x + int (count_list bs 10), wc_w = wc_w x + int (word_starts (\<not> inword x) bs),
     wc_c = wc_c x + int (length bs), inword = (if bs = [] then inword x else \<not> is_space (last bs))\<rparr>"
proof (induction bs arbitrary: x)
  case Nil
  then show ?case by simp
next
  case (Cons b bs)
  then show ?case using is_space_newline by (auto simp: wc_byte_def Let_def)
qed

lemma wc_loop_bytes:
  assumes "[] \<notin> set ps"
  shows "wc_loop (map Some ps) x = Some (fold wc_byte (concat ps) x)"
  using assms by (induction ps arbitrary: x) auto

section \<open>Properties\<close>



text \<open>
  A read error in the middle of a file is not noticed by \<open>cat\<close>: it prints the pieces before
  the error and returns as at the end of the file.
\<close>

theorem cat_ignores_read_error:
  assumes "[] \<notin> set ps" and "\<forall>bs \<in> set ps. wr bs = int (length bs)"
  shows "cat wr (map Some ps @ None # rs) = (concat ps, Returns) \<and> cat wr (map Some ps) = (concat ps, Returns)"
  using assms by (induction ps) auto

theorem cat_ignores_read_error_witness:
  "cat (\<lambda>bs. int (length bs)) (map Some [[104], [105]] @ None # [Some [33]]) = ([104, 105], Returns)"
  using cat_ignores_read_error [of "[[104], [105]]"] by simp

end
