(* ===== verification/Sh.thy ===== *)
theory Sh
  imports Ulib
begin

text \<open>
  The shell's parser, \<open>src/user/sh.c\<close>. The command line is the list of its bytes before the NUL,
  and a pointer into it an offset; a word is kept as the offsets of its start and end, as in the
  code, until \<open>nulterminate\<close> stores NULs into the line. A redirection is parsed into a list that is then
  wrapped around the command, because the code fills the argument vector of the innermost command
  while the redirections are already wrapped around it. \<open>malloc\<close> is taken to succeed. The parser
  ends with \<open>Fail\<close> where the code calls \<open>panic\<close>.
\<close>

section \<open>Tokens\<close>

definition whitespace :: "byte list" where "whitespace = [32, 9, 13, 10, 11]"
definition symbols :: "byte list" where "symbols = [60, 124, 62, 38, 59, 40, 41]"

definition at :: "byte list \<Rightarrow> nat \<Rightarrow> byte" where
  "at buf s = (if s < length buf then buf ! s else 0)"

definition is_white :: "byte \<Rightarrow> bool" where "is_white c \<longleftrightarrow> strchr whitespace c \<noteq> None"
definition is_symbol :: "byte \<Rightarrow> bool" where "is_symbol c \<longleftrightarrow> strchr symbols c \<noteq> None"

function skip_white :: "byte list \<Rightarrow> nat \<Rightarrow> nat" where
  "skip_white buf s = (if s < length buf \<and> is_white (at buf s) then skip_white buf (Suc s) else s)"
  by auto
termination by (relation "measure (\<lambda>(buf, s). length buf - s)") auto

function skip_word :: "byte list \<Rightarrow> nat \<Rightarrow> nat" where
  "skip_word buf s =
     (if s < length buf \<and> \<not> is_white (at buf s) \<and> \<not> is_symbol (at buf s) then skip_word buf (Suc s) else s)"
  by auto
termination by (relation "measure (\<lambda>(buf, s). length buf - s)") auto

declare skip_white.simps [simp del] skip_word.simps [simp del]

text \<open>The token, where it starts and ends, and the new position.\<close>

definition gettoken :: "byte list \<Rightarrow> nat \<Rightarrow> byte \<times> nat \<times> nat \<times> nat" where
  "gettoken buf s0 =
     (let s = skip_white buf s0; c = at buf s;
          (tok, e) =
            (if c = 0 then (c, s)
             else if c \<in> {124, 40, 41, 59, 38, 60} then (c, Suc s)
             else if c = 62 then (if at buf (Suc s) = 62 then (43, s + 2) else (c, Suc s))
             else (97, skip_word buf s))
      in (tok, s, e, skip_white buf e))"

definition peek :: "byte list \<Rightarrow> nat \<Rightarrow> byte list \<Rightarrow> nat \<times> bool" where
  "peek buf s0 toks =
     (let s = skip_white buf s0 in (s, at buf s \<noteq> 0 \<and> strchr toks (at buf s) \<noteq> None))"

section \<open>Commands\<close>

definition O_READ :: nat where "O_READ = 0x000"
definition O_WRITE_TRUNC :: nat where "O_WRITE_TRUNC = 0x601"
definition O_APPEND :: nat where "O_APPEND = 0x201"
definition MAXARGS :: nat where "MAXARGS = 10"

record redir =
  r_file :: nat
  r_efile :: nat
  r_mode :: nat
  r_fd :: nat

datatype cmd =
    EXEC "(nat \<times> nat) list"
  | REDIR cmd redir
  | PIPE cmd cmd
  | LIST cmd cmd
  | BACK cmd

datatype 'a parse = Done 'a nat | Fail string | NoFuel

lemma skip_white_le: "s \<le> skip_white buf s"
proof (induction buf s rule: skip_white.induct)
  case (1 buf s)
  then show ?case by (subst skip_white.simps) auto
qed

lemma skip_word_le: "s \<le> skip_word buf s"
proof (induction buf s rule: skip_word.induct)
  case (1 buf s)
  then show ?case by (subst skip_word.simps) auto
qed

lemma gettoken_le: "gettoken buf s = (t, q, e, s') \<Longrightarrow> s \<le> q \<and> q \<le> e \<and> e \<le> s'"
  using skip_white_le [of s buf] skip_white_le [of e buf] skip_word_le [of q buf]
  by (auto simp: gettoken_def Let_def split: if_splits)

lemma at_less: "at buf s \<noteq> 0 \<Longrightarrow> s < length buf"
  by (simp add: at_def split: if_splits)

lemma gettoken_advances:
  assumes "gettoken buf s = (t, q, e, s')" and "t \<noteq> 0"
  shows "q < e \<and> s < s' \<and> s < length buf"
proof -
  let ?q = "skip_white buf s"
  have q: "q = ?q" using assms(1) by (auto simp: gettoken_def Let_def split: prod.splits)
  have c: "at buf ?q \<noteq> 0" using assms by (auto simp: gettoken_def Let_def)
  then have w: "\<not> is_white (at buf ?q)"
    by (induction buf s rule: skip_white.induct) (metis at_less skip_white.simps)
  have "q < e"
  proof (cases "at buf ?q \<in> {124, 40, 41, 59, 38, 60, 62}")
    case True
    then show ?thesis using assms c by (auto simp: gettoken_def Let_def split: if_splits)
  next
    case False
    then have "\<not> is_symbol (at buf ?q)" by (auto simp: is_symbol_def symbols_def split: if_splits)
    with w c have "skip_word buf ?q = skip_word buf (Suc ?q)"
      by (subst skip_word.simps) (simp add: at_less)
    with skip_word_le [of "Suc ?q" buf] have "?q < skip_word buf ?q" by simp
    then show ?thesis using assms c False by (auto simp: gettoken_def Let_def split: if_splits)
  qed
  moreover note gettoken_le [OF assms(1)]
  moreover have "q < length buf" using at_less [OF c] q by simp
  ultimately show ?thesis by linarith
qed

lemma peek_le: "peek buf s toks = (s', b) \<Longrightarrow> s \<le> s'"
  using skip_white_le [of s buf] by (auto simp: peek_def Let_def)

lemma skip_white_idem: "skip_white buf (skip_white buf s) = skip_white buf s"
proof (induction buf s rule: skip_white.induct)
  case (1 buf s)
  then show ?case by (cases "s < length buf \<and> is_white (at buf s)") (simp_all add: skip_white.simps)
qed

text \<open>A token that \<open>peek\<close> has seen is there for \<open>gettoken\<close>.\<close>

lemma peek_advances:
  assumes "peek buf s toks = (s1, True)" and "gettoken buf s1 = (t, q, e, s2)"
  shows "s \<le> s1 \<and> s1 < s2 \<and> s1 < length buf"
proof -
  have "s1 = skip_white buf s" "at buf s1 \<noteq> 0" using assms(1) by (auto simp: peek_def Let_def)
  then have "t \<noteq> 0" using assms(2) by (auto simp: gettoken_def Let_def skip_white_idem split: if_splits)
  with peek_le [OF assms(1)] gettoken_advances [OF assms(2)] show ?thesis by simp
qed

lemma gettoken_facts:
  assumes "gettoken buf s = (t, q, e, s')"
  shows "s \<le> s' \<and> (t \<noteq> 0 \<longrightarrow> s < s' \<and> s < length buf)"
  using gettoken_le [OF assms] gettoken_advances [OF assms] by auto

section \<open>The parser\<close>

definition redir_of :: "byte \<Rightarrow> nat \<Rightarrow> nat \<Rightarrow> redir" where
  "redir_of tok q eq =
     (if tok = 60 then \<lparr>r_file = q, r_efile = eq, r_mode = O_READ, r_fd = 0\<rparr>
      else if tok = 62 then \<lparr>r_file = q, r_efile = eq, r_mode = O_WRITE_TRUNC, r_fd = 1\<rparr>
      else \<lparr>r_file = q, r_efile = eq, r_mode = O_APPEND, r_fd = 1\<rparr>)"

function parseredirs :: "byte list \<Rightarrow> nat \<Rightarrow> redir list \<Rightarrow> redir list parse" where
  "parseredirs buf s rs =
     (case peek buf s [60, 62] of (s1, go) \<Rightarrow>
      if \<not> go then Done rs s1 else
      case gettoken buf s1 of (tok, _, _, s2) \<Rightarrow>
      case gettoken buf s2 of (t, q, eq, s3) \<Rightarrow>
      if t \<noteq> 97 then Fail ''missing file for redirection''
      else parseredirs buf s3 (rs @ [redir_of tok q eq]))"
  by auto
termination by (relation "measure (\<lambda>(buf, s, _). length buf - s)")
  (auto dest!: peek_le [OF sym] gettoken_facts [OF sym])

declare parseredirs.simps [simp del]

lemma parseredirs_le: "parseredirs buf s rs = Done rs' s' \<Longrightarrow> s \<le> s'"
proof (induction buf s rs rule: parseredirs.induct)
  case (1 buf s rs)
  obtain s1 go where p: "peek buf s [60, 62] = (s1, go)" by fastforce
  show ?case
  proof (cases go)
    case False
    with p 1(2) peek_le [OF p] show ?thesis by (subst (asm) parseredirs.simps) simp
  next
    case True
    obtain tok a b s2 where g1: "gettoken buf s1 = (tok, a, b, s2)" by (cases "gettoken buf s1")
    obtain t q eq s3 where g2: "gettoken buf s2 = (t, q, eq, s3)" by (cases "gettoken buf s2")
    have "parseredirs buf s3 (rs @ [redir_of tok q eq]) = Done rs' s' \<and> t = 97"
      using 1(2) p True g1 g2 by (subst (asm) parseredirs.simps) (auto split: if_splits)
    with 1(1) [OF p [symmetric] _ g1 [symmetric] refl refl g2 [symmetric] refl refl] True
    have "s3 \<le> s'" by simp
    with peek_le [OF p] gettoken_le [OF g1] gettoken_le [OF g2] show ?thesis by simp
  qed
qed

text \<open>The words of a simple command, with the redirections among them.\<close>

function parseargs :: "byte list \<Rightarrow> nat \<Rightarrow> (nat \<times> nat) list \<Rightarrow> redir list \<Rightarrow> ((nat \<times> nat) list \<times> redir list) parse" where
  "parseargs buf s args rs =
     (case peek buf s [124, 41, 38, 59] of (s1, over) \<Rightarrow>
      if over then Done (args, rs) s1 else
      case gettoken buf s1 of (tok, q, eq, s2) \<Rightarrow>
      if tok = 0 then Done (args, rs) s2
      else if tok \<noteq> 97 then Fail ''syntax''
      else if length args + 1 \<ge> MAXARGS then Fail ''too many args''
      else case parseredirs buf s2 rs of
             Done rs' s3 \<Rightarrow> parseargs buf s3 (args @ [(q, eq)]) rs'
           | Fail m \<Rightarrow> Fail m
           | NoFuel \<Rightarrow> NoFuel)"
  by auto
termination by (relation "measure (\<lambda>(buf, s, _). length buf - s)")
  (auto dest!: peek_le [OF sym] gettoken_advances [OF sym] parseredirs_le)

declare parseargs.simps [simp del]

definition apply_redirs :: "cmd \<Rightarrow> redir list \<Rightarrow> cmd" where
  "apply_redirs c rs = fold (\<lambda>r c. REDIR c r) rs c"

function parseback :: "byte list \<Rightarrow> nat \<Rightarrow> cmd \<Rightarrow> cmd \<times> nat" where
  "parseback buf s c =
     (case peek buf s [38] of (s1, go) \<Rightarrow>
      if \<not> go then (c, s1) else
      case gettoken buf s1 of (_, _, _, s2) \<Rightarrow> parseback buf s2 (BACK c))"
  by auto
termination by (relation "measure (\<lambda>(buf, s, _). length buf - s)")
  (auto dest: peek_advances [OF sym sym])

declare parseback.simps [simp del]

definition pbind :: "'a parse \<Rightarrow> ('a \<Rightarrow> nat \<Rightarrow> 'b parse) \<Rightarrow> 'b parse" where
  "pbind p f = (case p of Done x s \<Rightarrow> f x s | Fail m \<Rightarrow> Fail m | NoFuel \<Rightarrow> NoFuel)"

fun parseline :: "nat \<Rightarrow> byte list \<Rightarrow> nat \<Rightarrow> cmd parse"
  and parsepipe :: "nat \<Rightarrow> byte list \<Rightarrow> nat \<Rightarrow> cmd parse"
  and parseblock :: "nat \<Rightarrow> byte list \<Rightarrow> nat \<Rightarrow> cmd parse"
  and parseexec :: "nat \<Rightarrow> byte list \<Rightarrow> nat \<Rightarrow> cmd parse" where
  "parseline 0 buf s = NoFuel"
| "parseline (Suc n) buf s =
     pbind (parsepipe n buf s) (\<lambda>c0 s0.
     case parseback buf s0 c0 of (c, s1) \<Rightarrow>
     case peek buf s1 [59] of (s2, go) \<Rightarrow>
     if \<not> go then Done c s2 else
     case gettoken buf s2 of (_, _, _, s3) \<Rightarrow>
     pbind (parseline n buf s3) (\<lambda>d s4. Done (LIST c d) s4))"
| "parsepipe 0 buf s = NoFuel"
| "parsepipe (Suc n) buf s =
     pbind (parseexec n buf s) (\<lambda>c s1.
     case peek buf s1 [124] of (s2, go) \<Rightarrow>
     if \<not> go then Done c s2 else
     case gettoken buf s2 of (_, _, _, s3) \<Rightarrow>
     pbind (parsepipe n buf s3) (\<lambda>d s4. Done (PIPE c d) s4))"
| "parseblock 0 buf s = NoFuel"
| "parseblock (Suc n) buf s =
     (case peek buf s [40] of (s1, go) \<Rightarrow>
      if \<not> go then Fail ''parseblock'' else
      case gettoken buf s1 of (_, _, _, s2) \<Rightarrow>
      pbind (parseline n buf s2) (\<lambda>c s3.
      case peek buf s3 [41] of (s4, go) \<Rightarrow>
      if \<not> go then Fail ''syntax - missing )'' else
      case gettoken buf s4 of (_, _, _, s5) \<Rightarrow>
      pbind (parseredirs buf s5 []) (\<lambda>rs s6. Done (apply_redirs c rs) s6)))"
| "parseexec 0 buf s = NoFuel"
| "parseexec (Suc n) buf s =
     (case peek buf s [40] of (s1, go) \<Rightarrow>
      if go then parseblock n buf s1 else
      pbind (parseredirs buf s1 []) (\<lambda>rs s2.
      pbind (parseargs buf s2 [] rs) (\<lambda>(args, rs) s3.
      Done (apply_redirs (EXEC args) rs) s3)))"

text \<open>Storing a NUL at the end of every word of a command.\<close>

fun nulterminate :: "cmd \<Rightarrow> byte list \<Rightarrow> byte list" where
  "nulterminate (EXEC args) buf = fold (\<lambda>(q, eq) buf. buf[eq := 0]) args buf"
| "nulterminate (REDIR c r) buf = (nulterminate c buf)[r_efile r := 0]"
| "nulterminate (PIPE c d) buf = nulterminate d (nulterminate c buf)"
| "nulterminate (LIST c d) buf = nulterminate d (nulterminate c buf)"
| "nulterminate (BACK c) buf = nulterminate c buf"

text \<open>The command and the line, with its NUL, after the stores.\<close>

definition parsecmd :: "byte list \<Rightarrow> (cmd \<times> byte list) parse" where
  "parsecmd buf =
     pbind (parseline (4 * length buf + 4) buf 0) (\<lambda>c s.
     case peek buf s [] of (s1, _) \<Rightarrow>
     if s1 \<noteq> length buf then Fail ''syntax'' else Done (c, nulterminate c (buf @ [0])) s1)"

lemma pbind_Done: "pbind p f = Done y s' \<longleftrightarrow> (\<exists>x s. p = Done x s \<and> f x s = Done y s')"
  by (simp add: pbind_def split: parse.splits)

lemma pbind_NoFuel: "pbind p f = NoFuel \<longleftrightarrow> p = NoFuel \<or> (\<exists>x s. p = Done x s \<and> f x s = NoFuel)"
  by (simp add: pbind_def split: parse.splits)

section \<open>Words\<close>

definition wordchar :: "byte \<Rightarrow> bool" where
  "wordchar c \<longleftrightarrow> \<not> is_white c \<and> \<not> is_symbol c"

text \<open>A word of the line: a maximal run of characters that are not white space or symbols.\<close>

fun word_ok :: "byte list \<Rightarrow> nat \<times> nat \<Rightarrow> bool" where
  "word_ok buf (q, e) \<longleftrightarrow> q < e \<and> e \<le> length buf \<and> (\<forall>i. q \<le> i \<longrightarrow> i < e \<longrightarrow> wordchar (buf ! i)) \<and>
     (e < length buf \<longrightarrow> \<not> wordchar (buf ! e))"

fun words :: "cmd \<Rightarrow> (nat \<times> nat) list" where
  "words (EXEC args) = args"
| "words (REDIR c r) = words c @ [(r_file r, r_efile r)]"
| "words (PIPE c d) = words c @ words d"
| "words (LIST c d) = words c @ words d"
| "words (BACK c) = words c"

definition redir_word :: "redir \<Rightarrow> nat \<times> nat" where
  "redir_word r = (r_file r, r_efile r)"

lemma redir_word_of [simp]: "redir_word (redir_of tok q e) = (q, e)"
  by (simp add: redir_of_def redir_word_def)

lemma words_apply_redirs: "words (apply_redirs c rs) = words c @ map redir_word rs"
  unfolding apply_redirs_def by (induction rs arbitrary: c) (simp_all add: redir_word_def)

lemma skip_word_run:
  "s \<le> length buf \<Longrightarrow>
   skip_word buf s \<le> length buf \<and> (\<forall>i. s \<le> i \<longrightarrow> i < skip_word buf s \<longrightarrow> wordchar (buf ! i)) \<and>
   (skip_word buf s < length buf \<longrightarrow> \<not> wordchar (buf ! skip_word buf s))"
proof (induction buf s rule: skip_word.induct)
  case (1 buf s)
  show ?case
  proof (cases "s < length buf \<and> wordchar (buf ! s)")
    case True
    then have step: "skip_word buf s = skip_word buf (Suc s)"
      by (subst skip_word.simps) (simp add: wordchar_def at_def)
    from True have cond: "s < length buf \<and> \<not> is_white (at buf s) \<and> \<not> is_symbol (at buf s)"
      by (simp add: wordchar_def at_def)
    from True have "Suc s \<le> length buf" by simp
    note IH = 1(1) [OF cond this]
    have "wordchar (buf ! i)" if "s \<le> i" "i < skip_word buf (Suc s)" for i
      using that IH True by (cases "i = s") auto
    with IH show ?thesis unfolding step by blast
  next
    case False
    then have "skip_word buf s = s" by (subst skip_word.simps) (auto simp: wordchar_def at_def)
    with 1(2) False show ?thesis by auto
  qed
qed

lemma gettoken_word:
  assumes "gettoken buf s = (97, q, e, s')"
  shows "word_ok buf (q, e)"
proof -
  have "e = skip_word buf q" "at buf q \<noteq> 0" using assms by (auto simp: gettoken_def Let_def split: if_splits)
  moreover have "q < e" using gettoken_advances [OF assms] by simp
  ultimately show ?thesis using skip_word_run [of q buf] at_less [of buf q] by auto
qed

definition words_ok :: "byte list \<Rightarrow> (nat \<times> nat) list \<Rightarrow> bool" where
  "words_ok buf ws \<longleftrightarrow> list_all (word_ok buf) ws"

lemma words_ok_simps [simp]:
  "words_ok buf []" "words_ok buf (w # ws) \<longleftrightarrow> word_ok buf w \<and> words_ok buf ws"
  "words_ok buf (vs @ ws) \<longleftrightarrow> words_ok buf vs \<and> words_ok buf ws"
  by (simp_all add: words_ok_def)

lemma parseredirs_words:
  "parseredirs buf s rs = Done rs' s' \<Longrightarrow> words_ok buf (map redir_word rs) \<Longrightarrow> words_ok buf (map redir_word rs')"
proof (induction buf s rs rule: parseredirs.induct)
  case (1 buf s rs)
  obtain s1 go where p: "peek buf s [60, 62] = (s1, go)" by fastforce
  show ?case
  proof (cases go)
    case False
    with p 1(2,3) show ?thesis by (subst (asm) parseredirs.simps) simp
  next
    case True
    obtain tok a b s2 where g1: "gettoken buf s1 = (tok, a, b, s2)" by (cases "gettoken buf s1")
    obtain t q eq s3 where g2: "gettoken buf s2 = (t, q, eq, s3)" by (cases "gettoken buf s2")
    have r: "parseredirs buf s3 (rs @ [redir_of tok q eq]) = Done rs' s'" and t: "t = 97"
      using 1(2) p True g1 g2 by (subst (asm) parseredirs.simps, auto split: if_splits)+
    have "words_ok buf (map redir_word (rs @ [redir_of tok q eq]))"
      using gettoken_word g2 t 1(3) by simp
    with 1(1) [OF p [symmetric] _ g1 [symmetric] refl refl g2 [symmetric] refl refl _ r] True t
    show ?thesis by simp
  qed
qed

lemma parseargs_words:
  "parseargs buf s args rs = Done (args', rs') s' \<Longrightarrow> words_ok buf (args @ map redir_word rs) \<Longrightarrow>
   s \<le> s' \<and> words_ok buf (args' @ map redir_word rs')"
proof (induction buf s args rs rule: parseargs.induct)
  case (1 buf s args rs)
  obtain s1 over where p: "peek buf s [124, 41, 38, 59] = (s1, over)" by fastforce
  obtain tok q eq s2 where g: "gettoken buf s1 = (tok, q, eq, s2)" by (cases "gettoken buf s1")
  show ?case
  proof (cases "over \<or> tok = 0")
    case True
    with p g 1(2,3) peek_le [OF p] gettoken_le [OF g] show ?thesis
      by (subst (asm) parseargs.simps) (auto split: if_splits)
  next
    case False
    then obtain rs2 s3 where r: "parseredirs buf s2 rs = Done rs2 s3"
      and tok: "tok = 97" "\<not> length args + 1 \<ge> MAXARGS"
      and go: "parseargs buf s3 (args @ [(q, eq)]) rs2 = Done (args', rs') s'"
      using p g 1(2) by (subst (asm) parseargs.simps) (auto split: if_splits parse.splits)
    have "words_ok buf ((args @ [(q, eq)]) @ map redir_word rs2)"
      using gettoken_word g tok parseredirs_words [OF r] 1(3) by simp
    with 1(1) [OF p [symmetric] _ g [symmetric] refl refl _ _ _ r go] False tok
    have "s3 \<le> s' \<and> words_ok buf (args' @ map redir_word rs')" by simp
    with peek_le [OF p] gettoken_le [OF g] parseredirs_le [OF r] show ?thesis by simp
  qed
qed

lemma parseback_words:
  "parseback buf s c = (c', s') \<Longrightarrow> s \<le> s' \<and> words c' = words c"
proof (induction buf s c rule: parseback.induct)
  case (1 buf s c)
  obtain s1 go where p: "peek buf s [38] = (s1, go)" by fastforce
  obtain t q eq s2 where g: "gettoken buf s1 = (t, q, eq, s2)" by (cases "gettoken buf s1")
  show ?case
  proof (cases go)
    case True
    with 1(2) p g have "parseback buf s2 (BACK c) = (c', s')" by (subst (asm) parseback.simps) simp
    with 1(1) [OF p [symmetric] _ g [symmetric] refl refl] True peek_le [OF p] gettoken_le [OF g]
    show ?thesis by simp
  next
    case False
    with 1(2) p peek_le [OF p] show ?thesis by (subst (asm) parseback.simps) simp
  qed
qed

lemma parse_words:
  "parseline n buf s = Done c s' \<Longrightarrow> s \<le> s' \<and> words_ok buf (words c)"
  "parsepipe n buf s = Done c s' \<Longrightarrow> s \<le> s' \<and> words_ok buf (words c)"
  "parseblock n buf s = Done c s' \<Longrightarrow> s \<le> s' \<and> words_ok buf (words c)"
  "parseexec n buf s = Done c s' \<Longrightarrow> s \<le> s' \<and> words_ok buf (words c)"
proof (induction n arbitrary: s c s')
  case (Suc n)
  {
    case 1
    then obtain c0 s0 where p: "parsepipe n buf s = Done c0 s0" by (auto simp: pbind_Done)
    obtain c1 s1 where b: "parseback buf s0 c0 = (c1, s1)" by fastforce
    obtain s2 go where k: "peek buf s1 [59] = (s2, go)" by fastforce
    obtain t q e s3 where g: "gettoken buf s2 = (t, q, e, s3)" by (cases "gettoken buf s2")
    note le = Suc.IH(2) [OF p] parseback_words [OF b] peek_le [OF k] gettoken_le [OF g]
    show ?case
    proof (cases go)
      case True
      with 1 p b k g obtain d where "parseline n buf s3 = Done d s'" "c = LIST c1 d"
        by (auto simp: pbind_Done)
      with le Suc.IH(1) [of s3 d s'] show ?thesis by auto
    qed (use 1 p b k le in \<open>auto simp: pbind_Done\<close>)
  next
    case 2
    then obtain c1 s1 where p: "parseexec n buf s = Done c1 s1" by (auto simp: pbind_Done)
    obtain s2 go where k: "peek buf s1 [124] = (s2, go)" by fastforce
    obtain t q e s3 where g: "gettoken buf s2 = (t, q, e, s3)" by (cases "gettoken buf s2")
    note le = Suc.IH(4) [OF p] peek_le [OF k] gettoken_le [OF g]
    show ?case
    proof (cases go)
      case True
      with 2 p k g obtain d where "parsepipe n buf s3 = Done d s'" "c = PIPE c1 d"
        by (auto simp: pbind_Done)
      with le Suc.IH(2) [of s3 d s'] show ?thesis by auto
    qed (use 2 p k le in \<open>auto simp: pbind_Done\<close>)
  next
    case 3
    obtain s1 go where k: "peek buf s [40] = (s1, go)" by fastforce
    obtain t q e s2 where g: "gettoken buf s1 = (t, q, e, s2)" by (cases "gettoken buf s1")
    obtain c1 s3 where p: "parseline n buf s2 = Done c1 s3"
      using 3 k g by (cases go) (auto simp: pbind_Done)
    obtain s4 go' where k': "peek buf s3 [41] = (s4, go')" by fastforce
    obtain t' q' e' s5 where g': "gettoken buf s4 = (t', q', e', s5)" by (cases "gettoken buf s4")
    obtain rs where r: "parseredirs buf s5 [] = Done rs s'" "c = apply_redirs c1 rs"
      using 3 k g p k' g' by (cases go; cases go') (auto simp: pbind_Done)
    from Suc.IH(1) [OF p] parseredirs_words [OF r(1)] parseredirs_le [OF r(1)] r(2)
      peek_le [OF k] gettoken_le [OF g] peek_le [OF k'] gettoken_le [OF g']
    show ?case by (auto simp: words_apply_redirs)
  next
    case 4
    obtain s1 go where k: "peek buf s [40] = (s1, go)" by fastforce
    show ?case
    proof (cases go)
      case True
      with 4 k Suc.IH(3) [of s1 c s'] peek_le [OF k] show ?thesis by auto
    next
      case False
      then obtain rs s2 args rs' where q: "parseredirs buf s1 [] = Done rs s2"
          "parseargs buf s2 [] rs = Done (args, rs') s'" "c = apply_redirs (EXEC args) rs'"
        using 4 k by (auto simp: pbind_Done)
      with parseargs_words [OF q(2)] parseredirs_words [OF q(1)] parseredirs_le [OF q(1)] peek_le [OF k]
      show ?thesis by (auto simp: words_apply_redirs)
    qed
  }
qed simp_all

section \<open>Fuel\<close>

lemma parseredirs_fuel: "parseredirs buf s rs \<noteq> NoFuel"
proof (induction buf s rs rule: parseredirs.induct)
  case (1 buf s rs)
  obtain s1 go where p: "peek buf s [60, 62] = (s1, go)" by fastforce
  obtain tok a b s2 where g1: "gettoken buf s1 = (tok, a, b, s2)" by (cases "gettoken buf s1")
  obtain t q eq s3 where g2: "gettoken buf s2 = (t, q, eq, s3)" by (cases "gettoken buf s2")
  show ?case using 1 [OF p [symmetric] _ g1 [symmetric] refl refl g2 [symmetric] refl refl] p g1 g2
    by (subst parseredirs.simps) auto
qed

lemma parseargs_fuel: "parseargs buf s args rs \<noteq> NoFuel"
proof (induction buf s args rs rule: parseargs.induct)
  case (1 buf s args rs)
  obtain s1 over where p: "peek buf s [124, 41, 38, 59] = (s1, over)" by fastforce
  obtain tok q eq s2 where g: "gettoken buf s1 = (tok, q, eq, s2)" by (cases "gettoken buf s1")
  show ?case using 1 [OF p [symmetric] _ g [symmetric] refl refl] p g parseredirs_fuel [of buf s2 rs]
    by (subst parseargs.simps) (auto split: parse.splits)
qed

text \<open>Between two calls of the same routine at least one byte is consumed.\<close>

lemma parse_fuel:
  "4 * (length buf - s) + 4 \<le> n \<Longrightarrow> parseline n buf s \<noteq> NoFuel"
  "4 * (length buf - s) + 3 \<le> n \<Longrightarrow> parsepipe n buf s \<noteq> NoFuel"
  "4 * (length buf - s) + 1 \<le> n \<Longrightarrow> parseblock n buf s \<noteq> NoFuel"
  "4 * (length buf - s) + 2 \<le> n \<Longrightarrow> parseexec n buf s \<noteq> NoFuel"
proof (induction n arbitrary: s)
  case (Suc n)
  {
    case 1
    show ?case
    proof
      assume no: "parseline (Suc n) buf s = NoFuel"
      have "parsepipe n buf s \<noteq> NoFuel" using Suc.IH(2) [of s] 1 by simp
      with no obtain c0 s0 where p: "parsepipe n buf s = Done c0 s0" by (auto simp: pbind_NoFuel)
      obtain c1 s1 where b: "parseback buf s0 c0 = (c1, s1)" by fastforce
      obtain s2 go where k: "peek buf s1 [59] = (s2, go)" by fastforce
      obtain t q e s3 where g: "gettoken buf s2 = (t, q, e, s3)" by (cases "gettoken buf s2")
      from no p b k g have "go" "parseline n buf s3 = NoFuel" by (auto simp: pbind_NoFuel split: if_splits)
      moreover with peek_advances [of buf s1 "[59]" s2 t q e s3] k g parse_words(2) [OF p] parseback_words [OF b]
      have "s < s3" "s < length buf" by auto
      ultimately show False using Suc.IH(1) [of s3] 1 by simp
    qed
  next
    case 2
    show ?case
    proof
      assume no: "parsepipe (Suc n) buf s = NoFuel"
      have "parseexec n buf s \<noteq> NoFuel" using Suc.IH(4) [of s] 2 by simp
      with no obtain c1 s1 where p: "parseexec n buf s = Done c1 s1" by (auto simp: pbind_NoFuel)
      obtain s2 go where k: "peek buf s1 [124] = (s2, go)" by fastforce
      obtain t q e s3 where g: "gettoken buf s2 = (t, q, e, s3)" by (cases "gettoken buf s2")
      from no p k g have "go" "parsepipe n buf s3 = NoFuel" by (auto simp: pbind_NoFuel split: if_splits)
      moreover with peek_advances [of buf s1 "[124]" s2 t q e s3] k g parse_words(4) [OF p]
      have "s < s3" "s < length buf" by auto
      ultimately show False using Suc.IH(2) [of s3] 2 by simp
    qed
  next
    case 3
    obtain s1 go where k: "peek buf s [40] = (s1, go)" by fastforce
    obtain t q e s2 where g: "gettoken buf s1 = (t, q, e, s2)" by (cases "gettoken buf s1")
    show ?case
    proof (cases go)
      case True
      with peek_advances [of buf s "[40]" s1 t q e s2] k g have "s < s2" "s < length buf" by auto
      with Suc.IH(1) [of s2] 3 have "parseline n buf s2 \<noteq> NoFuel" by simp
      with True k g show ?thesis by (auto simp: pbind_NoFuel parseredirs_fuel split: prod.splits if_splits)
    qed (use k in simp)
  next
    case 4
    obtain s1 go where k: "peek buf s [40] = (s1, go)" by fastforce
    with Suc.IH(3) [of s1] 4 peek_le [OF k] have "parseblock n buf s1 \<noteq> NoFuel" by simp
    with k show ?case by (auto simp: pbind_NoFuel parseredirs_fuel parseargs_fuel)
  }
qed simp_all

section \<open>The stores of nulterminate\<close>

lemma length_fold_update: "length (fold (\<lambda>(q, e) buf. buf[e := 0]) ws buf) = length buf"
  by (induction ws arbitrary: buf) auto

lemma nth_upd: "j < length xs \<Longrightarrow> xs[i := x] ! j = (if i = j then x else xs ! j)"
  by auto

lemma nth_fold_update:
  "i < length buf \<Longrightarrow> fold (\<lambda>(q, e) buf. buf[e := 0]) ws buf ! i = (if i \<in> snd ` set ws then 0 else buf ! i)"
  by (induction ws arbitrary: buf) (simp_all add: nth_upd split_beta)

lemma length_nulterminate [simp]: "length (nulterminate c buf) = length buf"
  by (induction c arbitrary: buf) (simp_all add: length_fold_update)

lemma nth_nulterminate:
  "i < length buf \<Longrightarrow> nulterminate c buf ! i = (if i \<in> snd ` set (words c) then 0 else buf ! i)"
  by (induction c arbitrary: buf) (simp_all add: nth_fold_update nth_upd image_Un)

text \<open>The C string at an offset of a buffer that holds a NUL.\<close>

definition cstr_at :: "byte list \<Rightarrow> nat \<Rightarrow> byte list" where
  "cstr_at buf q = takeWhile (\<lambda>c. c \<noteq> 0) (drop q buf)"

lemma cstr_at_eq:
  assumes "q \<le> e" and "e < length buf" and "buf ! e = 0" and "\<And>i. q \<le> i \<Longrightarrow> i < e \<Longrightarrow> buf ! i \<noteq> 0"
  shows "cstr_at buf q = take (e - q) (drop q buf)"
proof -
  have "takeWhile (\<lambda>c. c \<noteq> 0) (drop q buf) = take (e - q) (drop q buf)"
    by (rule takeWhile_eq_take_P_nth) (use assms in auto)
  then show ?thesis by (simp add: cstr_at_def)
qed

lemma nulterminate_word:
  assumes ok: "words_ok buf (words c)" and w: "(q, e) \<in> set (words c)" and nul: "0 \<notin> set buf"
  shows "cstr_at (nulterminate c (buf @ [0])) q = take (e - q) (drop q buf)"
proof -
  let ?b = "nulterminate c (buf @ [0])"
  from ok w have qe: "q < e" "e \<le> length buf" "\<forall>i. q \<le> i \<longrightarrow> i < e \<longrightarrow> wordchar (buf ! i)"
    by (auto simp: words_ok_def list_all_iff)
  have ends: "e' \<le> length buf \<and> (e' < length buf \<longrightarrow> \<not> wordchar (buf ! e'))" if "e' \<in> snd ` set (words c)" for e'
    using that ok by (auto simp: words_ok_def list_all_iff)
  have keep: "?b ! i = buf ! i" if "q \<le> i" "i < e" for i
  proof -
    have "i \<notin> snd ` set (words c)" using ends qe that by (meson less_le_trans)
    with that qe show ?thesis by (simp add: nth_nulterminate nth_append)
  qed
  have "e \<in> snd ` set (words c)" using w by force
  then have "?b ! e = 0" using qe by (simp add: nth_nulterminate)
  moreover have "buf ! i \<noteq> 0" if "q \<le> i" "i < e" for i using nul qe that by (metis less_le_trans nth_mem)
  ultimately have "cstr_at ?b q = take (e - q) (drop q ?b)"
    using qe keep by (intro cstr_at_eq) auto
  also have "\<dots> = take (e - q) (drop q buf)"
    by (rule nth_equalityI) (use qe keep in auto)
  finally show ?thesis .
qed

section \<open>Properties\<close>



end
