(* ===== verification/ShRun.thy ===== *)
theory ShRun
  imports Sh
begin

text \<open>
  How the shell runs a command: \<open>runcmd\<close> and \<open>fork1\<close> of \<open>src/user/sh.c\<close>. The routine is a sequence
  of system calls; it is modelled as the tree of the calls that it makes, in which a call's
  continuation takes what the call returns. \<open>fork\<close> continues twice, with 0 in the child. A message is
  its format with the offsets in the command line of the strings it prints. A reference
  semantics says what standard input and output each simple command of a command line gets, and
  the calls are proved to arrange for it.
\<close>

section \<open>The calls of runcmd\<close>

datatype script =
    Exit int
  | Close nat script
  | Dup nat "int \<Rightarrow> script"
  | Open nat nat "int \<Rightarrow> script"
  | Pipe "int \<Rightarrow> nat \<Rightarrow> nat \<Rightarrow> script"
  | Fork "int \<Rightarrow> script"
  | Wait script
  | Exec "(nat \<times> nat) list" "int \<Rightarrow> script"
  | Chdir "byte list" "int \<Rightarrow> script"
  | OpenConsole "int \<Rightarrow> script"
  | Print string "nat list" script

definition sh_panic :: "string \<Rightarrow> script" where
  "sh_panic m = Print (m @ ''\<newline>'') [] (Exit 1)"

definition fork1 :: "(int \<Rightarrow> script) \<Rightarrow> script" where
  "fork1 k = Fork (\<lambda>pid. if pid = - 1 then sh_panic ''fork'' else k pid)"

fun runcmd :: "cmd \<Rightarrow> script" where
  "runcmd (EXEC args) = (if args = [] then Exit 1 else Exec args (\<lambda>_. Print ''exec %s failed\<newline>'' [fst (hd args)] (Exit 0)))"
| "runcmd (REDIR c r) =
     Close (r_fd r) (Open (r_file r) (r_mode r) (\<lambda>fd.
     if fd < 0 then Print ''open %s failed\<newline>'' [r_file r] (Exit 1) else runcmd c))"
| "runcmd (LIST c d) = fork1 (\<lambda>pid. if pid = 0 then runcmd c else Wait (runcmd d))"
| "runcmd (PIPE c d) =
     Pipe (\<lambda>r p0 p1. if r < 0 then sh_panic ''pipe'' else
     fork1 (\<lambda>pid. if pid = 0 then Close 1 (Dup p1 (\<lambda>_. Close p0 (Close p1 (runcmd c)))) else
     fork1 (\<lambda>pid. if pid = 0 then Close 0 (Dup p0 (\<lambda>_. Close p0 (Close p1 (runcmd d)))) else
     Close p0 (Close p1 (Wait (Wait (Exit 0)))))))"
| "runcmd (BACK c) = fork1 (\<lambda>pid. if pid = 0 then runcmd c else Exit 0)"

section \<open>The main loop\<close>

text \<open>
  \<open>getcmd\<close> gives the line, as a C string, and the rest of the input, or None at the end of the
  input. The loop of \<open>main\<close> chops the last character of a line that starts with \<open>cd\<close>, runs that line
  itself, and every other line in a child.
\<close>

definition LINESIZE :: nat where "LINESIZE = 100"

definition getcmd :: "byte list \<Rightarrow> nat \<Rightarrow> (byte list \<times> byte list) option" where
  "getcmd inp nbuf =
     (case u_gets inp nbuf of (b, rest) \<Rightarrow>
      let buf = takeWhile (\<lambda>c. c \<noteq> 0) b in if buf = [] then None else Some (buf, rest))"

definition run_line :: "byte list \<Rightarrow> script" where
  "run_line buf =
     (case parsecmd buf of Done (c, _) _ \<Rightarrow> runcmd c | Fail m \<Rightarrow> sh_panic m | NoFuel \<Rightarrow> sh_panic [])"

lemma gets_loop_rest: "gets_loop k inp acc = (b, rest) \<Longrightarrow> acc @ inp = b @ rest"
  by (induction k inp acc rule: gets_loop.induct) (auto split: if_splits)

lemma getcmd_smaller: "getcmd inp nbuf = Some (buf, rest) \<Longrightarrow> length rest < length inp"
  by (auto simp: getcmd_def u_gets_def Let_def dest!: gets_loop_rest split: prod.splits if_splits)

function sh_loop :: "byte list \<Rightarrow> script" where
  "sh_loop inp =
     Print ''$ '' []
     (case getcmd inp LINESIZE of
        None \<Rightarrow> Exit 0
      | Some (buf, rest) \<Rightarrow>
          if take 3 buf = [99, 100, 32] then
            Chdir (drop 3 (butlast buf)) (\<lambda>r.
              if r < 0 then Print ''cannot cd %s\<newline>'' [3] (sh_loop rest) else sh_loop rest)
          else fork1 (\<lambda>pid. if pid = 0 then run_line buf else Wait (sh_loop rest)))"
  by auto
termination by (relation "measure length") (auto dest: getcmd_smaller)

declare sh_loop.simps [simp del]

text \<open>Opening the console until a descriptor from 3 on comes back; 17 attempts always are enough.\<close>

fun open_console :: "nat \<Rightarrow> script \<Rightarrow> script" where
  "open_console 0 k = k"
| "open_console (Suc n) k =
     OpenConsole (\<lambda>fd. if fd < 0 then k else if fd \<ge> 3 then Close (nat fd) k else open_console n k)"

definition sh_main :: "byte list \<Rightarrow> script" where
  "sh_main inp = open_console 17 (sh_loop inp)"

section \<open>File descriptors\<close>

text \<open>
  What a descriptor refers to: something the shell was started with, a file opened by a
  redirection, or an end of a pipe. \<open>run_fds\<close> follows the calls, all of which succeed, and collects the
  programs that are executed with their descriptors. A new descriptor is the lowest free one, as
  \<open>fdalloc\<close> of the kernel gives it; the number of pipes made so far names the next one.
\<close>

datatype fdobj = Inherited nat | ConsoleDev | Opened nat nat | PipeIn nat | PipeOut nat

type_synonym fds = "nat \<Rightarrow> fdobj option"

definition lowest_free :: "fds \<Rightarrow> nat" where
  "lowest_free F = hd (filter (\<lambda>i. F i = None) [0..<16])"

primrec run_fds :: "script \<Rightarrow> nat \<Rightarrow> fds \<Rightarrow> nat \<times> ((nat \<times> nat) list \<times> fds) list" where
  "run_fds (Exit _) n F = (n, [])"
| "run_fds (Close fd k) n F = run_fds k n (F(fd := None))"
| "run_fds (Dup fd k) n F = run_fds (k (int (lowest_free F))) n (F(lowest_free F := F fd))"
| "run_fds (Open f m k) n F = run_fds (k (int (lowest_free F))) n (F(lowest_free F := Some (Opened f m)))"
| "run_fds (Pipe k) n F =
     (let p0 = lowest_free F; F' = F(p0 := Some (PipeIn n)); p1 = lowest_free F' in
      run_fds (k 0 p0 p1) (Suc n) (F'(p1 := Some (PipeOut n))))"
| "run_fds (Fork k) n F =
     (case run_fds (k 0) n F of (n', xs) \<Rightarrow> case run_fds (k 1) n' F of (n'', ys) \<Rightarrow> (n'', xs @ ys))"
| "run_fds (Wait k) n F = run_fds k n F"
| "run_fds (Exec args k) n F = (n, [(args, F)])"
| "run_fds (Chdir d k) n F = run_fds (k 0) n F"
| "run_fds (OpenConsole k) n F = run_fds (k (int (lowest_free F))) n (F(lowest_free F := Some ConsoleDev))"
| "run_fds (Print m qs k) n F = run_fds k n F"

section \<open>What a command line means\<close>

definition std_fds :: "fdobj \<Rightarrow> fdobj \<Rightarrow> fdobj \<Rightarrow> fds" where
  "std_fds i out err = (\<lambda>fd. if fd = 0 then Some i else if fd = 1 then Some out else if fd = 2 then Some err else None)"

text \<open>The simple commands in order, each with its standard input and output.\<close>

fun plumb :: "cmd \<Rightarrow> nat \<Rightarrow> fdobj \<Rightarrow> fdobj \<Rightarrow> nat \<times> ((nat \<times> nat) list \<times> fdobj \<times> fdobj) list" where
  "plumb (EXEC args) n i out = (n, if args = [] then [] else [(args, i, out)])"
| "plumb (REDIR c r) n i out =
     (if r_fd r = 0 then plumb c n (Opened (r_file r) (r_mode r)) out
      else plumb c n i (Opened (r_file r) (r_mode r)))"
| "plumb (LIST c d) n i out =
     (case plumb c n i out of (n', xs) \<Rightarrow> case plumb d n' i out of (n'', ys) \<Rightarrow> (n'', xs @ ys))"
| "plumb (PIPE c d) n i out =
     (case plumb c (Suc n) i (PipeOut n) of (n', xs) \<Rightarrow>
      case plumb d n' (PipeIn n) out of (n'', ys) \<Rightarrow> (n'', xs @ ys))"
| "plumb (BACK c) n i out = plumb c n i out"

text \<open>Commands whose redirections are of standard input and output only.\<close>

fun redirs_std :: "cmd \<Rightarrow> bool" where
  "redirs_std (EXEC args) = True"
| "redirs_std (REDIR c r) = (r_fd r \<in> {0, 1} \<and> redirs_std c)"
| "redirs_std (PIPE c d) = (redirs_std c \<and> redirs_std d)"
| "redirs_std (LIST c d) = (redirs_std c \<and> redirs_std d)"
| "redirs_std (BACK c) = redirs_std c"

lemma upt16: "[0..<16] = [0, 1, 2, 3, 4] @ [5..<16]"
  by (simp add: upt_conv_Cons)

lemma lowest_free_std:
  "F 0 = None \<Longrightarrow> lowest_free F = 0"
  "F 0 \<noteq> None \<Longrightarrow> F 1 = None \<Longrightarrow> lowest_free F = 1"
  "F 0 \<noteq> None \<Longrightarrow> F 1 \<noteq> None \<Longrightarrow> F 2 \<noteq> None \<Longrightarrow> F 3 = None \<Longrightarrow> lowest_free F = 3"
  "F 0 \<noteq> None \<Longrightarrow> F 1 \<noteq> None \<Longrightarrow> F 2 \<noteq> None \<Longrightarrow> F 3 \<noteq> None \<Longrightarrow> F 4 = None \<Longrightarrow> lowest_free F = 4"
  by (simp_all add: lowest_free_def upt16)

lemma std_fds_apply [simp]:
  "std_fds i out err 0 = Some i" "std_fds i out err 1 = Some out" "std_fds i out err (Suc 0) = Some out"
  "std_fds i out err 2 = Some err" "std_fds i out err 3 = None" "std_fds i out err 4 = None"
  by (simp_all add: std_fds_def)

text \<open>The descriptors that a redirection, and the children after \<open>pipe\<close>, are left with.\<close>

lemma std_fds_open:
  "(std_fds i out err)(0 := Some x) = std_fds x out err"
  "(std_fds i out err)(Suc 0 := Some x) = std_fds i x err"
  by (auto simp: std_fds_def)

lemma pipe_ends_closed:
  "(std_fds i out err)(Suc 0 := Some x, 3 := None, 4 := None) = std_fds i x err"
  "(std_fds i out err)(0 := Some x, 3 := None, 4 := None) = std_fds x out err"
  by (auto simp: std_fds_def)

lemma runcmd_plumbs:
  "redirs_std c \<Longrightarrow>
   run_fds (runcmd c) n (std_fds i out err) =
     (case plumb c n i out of (n', xs) \<Rightarrow> (n', map (\<lambda>(args, i, out). (args, std_fds i out err)) xs))"
proof (induction c arbitrary: n i out)
  case (EXEC args)
  then show ?case by simp
next
  case (REDIR c r)
  then show ?case by (auto simp: lowest_free_std std_fds_open)
next
  case (PIPE c d)
  then show ?case
    by (simp add: fork1_def Let_def lowest_free_std pipe_ends_closed split: prod.splits)
next
  case (LIST c d)
  then show ?case by (simp add: fork1_def split: prod.splits)
next
  case (BACK c)
  then show ?case by (simp add: fork1_def split: prod.splits)
qed

text \<open>The parser makes redirections of standard input and output only, so its commands qualify.\<close>

lemma redirs_std_apply: "redirs_std (apply_redirs c rs) \<longleftrightarrow> redirs_std c \<and> (\<forall>r \<in> set rs. r_fd r \<in> {0, 1})"
  by (induction rs arbitrary: c) (auto simp: apply_redirs_def)

lemma parseredirs_std:
  "parseredirs buf s rs = Done rs' s' \<Longrightarrow> \<forall>r \<in> set rs. r_fd r \<in> {0, 1} \<Longrightarrow> \<forall>r \<in> set rs'. r_fd r \<in> {0, 1}"
proof (induction buf s rs rule: parseredirs.induct)
  case (1 buf s rs)
  obtain s1 go where p: "peek buf s [60, 62] = (s1, go)" by fastforce
  show ?case
  proof (cases go)
    case False
    with p 1(2,3) show ?thesis by (subst (asm) parseredirs.simps) simp
  next
    case True
    obtain tok a b s2 where g1: "gettoken buf s1 = (tok, a, b, s2)" by (cases "gettoken buf s1")
    obtain t q eq s3 where g2: "gettoken buf s2 = (t, q, eq, s3)" by (cases "gettoken buf s2")
    have *: "parseredirs buf s3 (rs @ [redir_of tok q eq]) = Done rs' s'" "t = 97"
      using 1(2) p True g1 g2 by (subst (asm) parseredirs.simps, auto split: if_splits)+
    have "\<forall>r \<in> set (rs @ [redir_of tok q eq]). r_fd r \<in> {0, 1}" using 1(3) by (simp add: redir_of_def)
    then show ?thesis
      using 1(1) [OF p [symmetric] _ g1 [symmetric] refl refl g2 [symmetric] refl refl _ *(1)] True *(2) by blast
  qed
qed

lemma parseargs_std:
  "parseargs buf s args rs = Done (args', rs') s' \<Longrightarrow> \<forall>r \<in> set rs. r_fd r \<in> {0, 1} \<Longrightarrow> \<forall>r \<in> set rs'. r_fd r \<in> {0, 1}"
proof (induction buf s args rs rule: parseargs.induct)
  case (1 buf s args rs)
  obtain s1 over where p: "peek buf s [124, 41, 38, 59] = (s1, over)" by fastforce
  obtain tok q eq s2 where g: "gettoken buf s1 = (tok, q, eq, s2)" by (cases "gettoken buf s1")
  show ?case
  proof (cases "over \<or> tok = 0")
    case True
    with p g 1(2,3) show ?thesis by (subst (asm) parseargs.simps) (auto split: if_splits)
  next
    case False
    then obtain rs1 s3 where *: "parseredirs buf s2 rs = Done rs1 s3" "tok = 97" "\<not> length args + 1 \<ge> MAXARGS"
        "parseargs buf s3 (args @ [(q, eq)]) rs1 = Done (args', rs') s'"
      using p g 1(2) by (subst (asm) parseargs.simps) (auto split: if_splits parse.splits)
    with 1(1) [OF p [symmetric] _ g [symmetric] refl refl] False parseredirs_std [OF *(1) 1(3)]
    show ?thesis by auto
  qed
qed

lemma parseback_std: "parseback buf s c = (c', s') \<Longrightarrow> redirs_std c' \<longleftrightarrow> redirs_std c"
proof (induction buf s c rule: parseback.induct)
  case (1 buf s c)
  obtain s1 go where p: "peek buf s [38] = (s1, go)" by fastforce
  obtain tok q eq s2 where g: "gettoken buf s1 = (tok, q, eq, s2)" by (cases "gettoken buf s1")
  from 1(2) p g 1(1) [OF p [symmetric] _ g [symmetric] refl refl] show ?case
    by (subst (asm) parseback.simps) (auto split: if_splits)
qed

lemma parse_redirs_std:
  "parseline n buf s = Done c s' \<Longrightarrow> redirs_std c"
  "parsepipe n buf s = Done c s' \<Longrightarrow> redirs_std c"
  "parseblock n buf s = Done c s' \<Longrightarrow> redirs_std c"
  "parseexec n buf s = Done c s' \<Longrightarrow> redirs_std c"
proof (induction n arbitrary: s c s')
  case (Suc n)
  note IH = Suc.IH
  { case 1
    then obtain c0 s0 where p: "parsepipe n buf s = Done c0 s0" by (auto simp: pbind_Done)
    obtain c1 s1 where b: "parseback buf s0 c0 = (c1, s1)" by fastforce
    obtain s2 go where k: "peek buf s1 [59] = (s2, go)" by fastforce
    obtain tok q e s3 where g: "gettoken buf s2 = (tok, q, e, s3)" by (cases "gettoken buf s2")
    from 1 p b k g have "c = c1 \<or> (\<exists>d s4. parseline n buf s3 = Done d s4 \<and> c = LIST c1 d)"
      by (auto simp: pbind_Done split: if_splits)
    with IH(2) [OF p] parseback_std [OF b] IH(1) show ?case by auto }
  { case 2
    then obtain c1 s1 where p: "parseexec n buf s = Done c1 s1" by (auto simp: pbind_Done)
    obtain s2 go where k: "peek buf s1 [124] = (s2, go)" by fastforce
    obtain tok q e s3 where g: "gettoken buf s2 = (tok, q, e, s3)" by (cases "gettoken buf s2")
    from 2 p k g have "c = c1 \<or> (\<exists>d s4. parsepipe n buf s3 = Done d s4 \<and> c = PIPE c1 d)"
      by (auto simp: pbind_Done split: if_splits)
    with IH(4) [OF p] IH(2) show ?case by auto }
  { case 3
    obtain s1 go where k: "peek buf s [40] = (s1, go)" by fastforce
    obtain tok q e s2 where g: "gettoken buf s1 = (tok, q, e, s2)" by (cases "gettoken buf s1")
    from 3 k g obtain c1 s3 where l: "parseline n buf s2 = Done c1 s3" by (auto simp: pbind_Done split: if_splits)
    obtain s4 go' where k': "peek buf s3 [41] = (s4, go')" by fastforce
    obtain tok' q' e' s5 where g': "gettoken buf s4 = (tok', q', e', s5)" by (cases "gettoken buf s4")
    from 3 k g l k' g' obtain rs where *: "parseredirs buf s5 [] = Done rs s'" "c = apply_redirs c1 rs"
      by (auto simp: pbind_Done split: if_splits)
    with IH(1) [OF l] parseredirs_std [OF *(1)] show ?case by (simp add: redirs_std_apply) }
  { case 4
    obtain s1 go where k: "peek buf s [40] = (s1, go)" by fastforce
    show ?case
    proof (cases go)
      case True
      with 4 k show ?thesis by (auto dest: IH)
    next
      case False
      with 4 k obtain rs s2 args rs' where *: "parseredirs buf s1 [] = Done rs s2" "parseargs buf s2 [] rs = Done (args, rs') s'"
          "c = apply_redirs (EXEC args) rs'"
        by (auto simp: pbind_Done)
      from parseredirs_std [OF *(1)] have "\<forall>r \<in> set rs. r_fd r \<in> {0, 1}" by simp
      from parseargs_std [OF *(2) this] *(3) show ?thesis by (simp add: redirs_std_apply)
    qed }
qed simp_all

lemma parsecmd_redirs_std:
  assumes "parsecmd buf = Done (c, buf') s"
  shows "redirs_std c"
proof -
  from assms obtain d s0 where d: "parseline (4 * length buf + 4) buf 0 = Done d s0"
    by (auto simp: parsecmd_def pbind_Done)
  obtain s1 x where k: "peek buf s0 [] = (s1, x)" by fastforce
  from assms d k have "c = d" by (auto simp: parsecmd_def pbind_Done split: if_splits)
  with parse_redirs_std(1) [OF d] show ?thesis by simp
qed

text \<open>What an input means: every line of at most 99 bytes that is not a \<open>cd\<close> runs its command.\<close>

definition plumb_line :: "byte list \<Rightarrow> nat \<Rightarrow> fdobj \<Rightarrow> fdobj \<Rightarrow> nat \<times> ((nat \<times> nat) list \<times> fdobj \<times> fdobj) list" where
  "plumb_line buf n i out = (case parsecmd buf of Done (c, _) _ \<Rightarrow> plumb c n i out | _ \<Rightarrow> (n, []))"

function plumb_input :: "byte list \<Rightarrow> nat \<Rightarrow> fdobj \<Rightarrow> fdobj \<Rightarrow> nat \<times> ((nat \<times> nat) list \<times> fdobj \<times> fdobj) list" where
  "plumb_input inp n i out =
     (case getcmd inp LINESIZE of
        None \<Rightarrow> (n, [])
      | Some (buf, rest) \<Rightarrow>
          if take 3 buf = [99, 100, 32] then plumb_input rest n i out
          else case plumb_line buf n i out of (n', xs) \<Rightarrow>
               case plumb_input rest n' i out of (n'', ys) \<Rightarrow> (n'', xs @ ys))"
  by auto
termination by (relation "measure (\<lambda>(inp, _). length inp)") (auto dest: getcmd_smaller)

declare plumb_input.simps [simp del]

lemma run_line_plumbs:
  "run_fds (run_line buf) n (std_fds i out err) =
     (case plumb_line buf n i out of (n', xs) \<Rightarrow> (n', map (\<lambda>(args, i, out). (args, std_fds i out err)) xs))"
  by (auto simp: run_line_def plumb_line_def sh_panic_def runcmd_plumbs parsecmd_redirs_std split: parse.splits)

lemma sh_loop_plumbs:
  "run_fds (sh_loop inp) n (std_fds i out err) =
     (case plumb_input inp n i out of (n', xs) \<Rightarrow> (n', map (\<lambda>(args, i, out). (args, std_fds i out err)) xs))"
proof (induction "length inp" arbitrary: inp n rule: less_induct)
  case less
  show ?case
  proof (cases "getcmd inp LINESIZE")
    case None
    then show ?thesis by (subst sh_loop.simps, subst plumb_input.simps) simp
  next
    case (Some a)
    obtain buf rest where a: "a = (buf, rest)" by fastforce
    with less getcmd_smaller [of inp LINESIZE buf rest] Some have
      "run_fds (sh_loop rest) m (std_fds i out err) =
        (case plumb_input rest m i out of (n', xs) \<Rightarrow> (n', map (\<lambda>(args, i, out). (args, std_fds i out err)) xs))" for m
      by simp
    with Some a show ?thesis
      by (subst sh_loop.simps, subst plumb_input.simps) (simp add: fork1_def run_line_plumbs split: prod.splits)
  qed
qed

lemma std_closed: "(std_fds i out err)(3 := None) = std_fds i out err"
  by (auto simp: std_fds_def)

lemma open_console_Suc:
  "open_console 17 k = OpenConsole (\<lambda>fd. if fd < 0 then k else if fd \<ge> 3 then Close (nat fd) k else open_console 16 k)"
  "open_console 16 k = OpenConsole (\<lambda>fd. if fd < 0 then k else if fd \<ge> 3 then Close (nat fd) k else open_console 15 k)"
  "open_console 15 k = OpenConsole (\<lambda>fd. if fd < 0 then k else if fd \<ge> 3 then Close (nat fd) k else open_console 14 k)"
  "open_console 14 k = OpenConsole (\<lambda>fd. if fd < 0 then k else if fd \<ge> 3 then Close (nat fd) k else open_console 13 k)"
  using open_console.simps(2) [of 16 k] open_console.simps(2) [of 15 k] open_console.simps(2) [of 14 k]
    open_console.simps(2) [of 13 k] by simp_all

section \<open>Properties\<close>

text \<open>
  C39: The shell connects commands as their syntax says. With descriptors 0, 1 and 2 open, the calls
  of \<open>runcmd\<close> execute exactly the simple commands of the line, in order, each with exactly three
  descriptors: a pipe joins the output of its left side to the input of its right side, and both
  its ends are closed everywhere else; a redirection replaces input or output; error output is
  inherited.
\<close>

theorem runcmd_plumbing:
  assumes "redirs_std c"
  shows "run_fds (runcmd c) n (std_fds i out err) =
    (case plumb c n i out of (n', xs) \<Rightarrow> (n', map (\<lambda>(args, i, out). (args, std_fds i out err)) xs))"
  using assms by (rule runcmd_plumbs)

theorem runcmd_plumbing_witness:
  "run_fds (runcmd (PIPE (EXEC [(0, 2)]) (REDIR (EXEC [(5, 7)]) \<lparr>r_file = 9, r_efile = 10, r_mode = 0x601, r_fd = 1\<rparr>)))
     0 (std_fds (Inherited 0) (Inherited 1) (Inherited 2)) =
   (1, [([(0, 2)], std_fds (Inherited 0) (PipeOut 0) (Inherited 2)),
        ([(5, 7)], std_fds (PipeIn 0) (Opened 9 0x601) (Inherited 2))])"
  by (subst runcmd_plumbing) simp_all



end
