(* ===== verification/Spec2Isabelle.thy ===== *)
theory Spec2Isabelle
  imports Boot Umalloc UserMem SchedInv PipeSpec DirSpec Uprogs Utools ShRun
begin

text \<open>
  \<^bold>\<open>xv6 on ARMv8: a verification development\<close>

  The program is a port of the teaching kernel xv6 to 64-bit ARM (\<open>src/kernel\<close>) with its user
  programs (\<open>src/user\<close>). This library is a shallow embedding of the C code and the theorems that
  make its parts correct.

  \<^bold>\<open>How code becomes definitions.\<close> A kernel routine is a function from the state to a result
  (theory \<open>Prelude\<close>): \<open>Ok x s\<close> when it returns, \<open>Stop e s\<close> when it does not. The reasons are a panic
  with its message, behaviour that C leaves undefined, a spin lock that another CPU holds, a loop
  that uses up its fuel (\<open>Hang\<close>), and \<open>Switched\<close>: the process has given up the CPU in \<open>sched\<close>. Where
  the code goes on after a sleep there is a definition of its own, named \<open>_resume\<close> or \<open>_finish\<close>. The
  state is one record, extended by each component with the fields that its C globals need; a
  routine is polymorphic in the rest, so that its frame is what it cannot mention. Integers keep
  their width: \<open>uint64\<close> is \<open>64 word\<close>, and \<open>int\<close> is \<open>int\<close> with the conversions of C written out. Memory
  is a function from 64-bit addresses to bytes. User programs are functions on byte lists, or
  trees of the system calls that they make.

  \<^bold>\<open>The kernel.\<close>
  \<^item> \<open>Cstring\<close>: \<open>string.c\<close>. \<open>Spinlock\<close>: \<open>spinlock.c\<close>, the CPU structure and the interrupt mask; one CPU's
    view, and the step relation \<open>lock_step\<close> of any number of CPUs. \<open>Layout\<close>: the constants of
    \<open>param.h\<close>, \<open>mmu.h\<close>, \<open>memlayout.h\<close>.
  \<^item> \<open>Kalloc\<close>: \<open>kalloc.c\<close>, the free list being threaded through the free pages. \<open>Vm\<close>: \<open>vm.c\<close>, page tables
    as tables in memory. \<open>UserMem\<close>: what copying to and from user memory means.
  \<^item> \<open>Sched\<close> and \<open>Proc\<close>: \<open>proc.c\<close>. \<open>SchedInv\<close>: the scheduling operations of all CPUs as a step relation.
    \<open>Sleeplock\<close>: \<open>sleeplock.c\<close>.
  \<^item> \<open>Virtio\<close>: \<open>virtio_disk.c\<close>, with the device as a parameter in the state. \<open>Bio\<close>: \<open>bio.c\<close>. \<open>Log\<close>: \<open>log.c\<close>.
    \<open>Fs\<close>: \<open>fs.c\<close>.
  \<^item> \<open>Crash\<close>: triples for routines that return or are cut off when the disk stops answering. \<open>DiskSpec\<close>,
    \<open>BioSpec\<close>, \<open>LogSpec\<close>: the triples of the disk driver, the buffer cache and the log; each rests on the
    one below. \<open>Recovery\<close>: recovery and the atomicity of commits. \<open>TxSpec\<close>: operations between
    \<open>begin_op\<close> and \<open>end_op\<close>. \<open>FsSpec\<close>: the free bit map. \<open>InodeSpec\<close>, \<open>WriteSpec\<close>, \<open>FileSpec\<close>: inodes and their blocks, and
    files as lists of bytes. \<open>DirSpec\<close>: directories as maps from names to inode numbers.
  \<^item> \<open>Uart\<close>, \<open>Console\<close>: \<open>uart.c\<close>, \<open>console.c\<close>, \<open>printf.c\<close>. \<open>Pipe\<close>, \<open>File\<close>: \<open>pipe.c\<close>, \<open>file.c\<close>. \<open>Exec\<close>: \<open>exec.c\<close>.
  \<^item> \<open>Gic\<close>: \<open>gic.c\<close> and \<open>timer.c\<close>. \<open>Syscall\<close>: \<open>syscall.c\<close>, \<open>sysfile.c\<close>, \<open>sysproc.c\<close>. \<open>Trap\<close>: \<open>trap.c\<close> and
    \<open>main.c\<close>.
  \<^item> \<open>Boot\<close>: \<open>start.c\<close>, which builds the first page tables, with their places in \<open>kernel.ld\<close> and \<open>jump_stack\<close> of \<open>entry.S\<close>.
  \<^item> \<open>Ring\<close>: a locale for ring buffers with free-running counters, interpreted in \<open>PipeSpec\<close>.
    \<open>Example\<close>: a kernel state at which properties are instantiated.

  \<^bold>\<open>User programs.\<close> \<open>Digits\<close> is the digit loop of both formatting routines. \<open>Ulib\<close>: \<open>ulib.c\<close> and
  \<open>printf.c\<close>. \<open>Grep\<close>: \<open>grep.c\<close>. \<open>Utools\<close>: \<open>wc.c\<close>, \<open>cat.c\<close>, \<open>echo.c\<close>, \<open>ls.c\<close>. \<open>Sh\<close> and \<open>ShRun\<close>: \<open>sh.c\<close>.
  \<open>Umalloc\<close>: \<open>umalloc.c\<close>, the kernel's answer to \<open>sbrk\<close> being a parameter in the state. \<open>Uprogs\<close>: \<open>init.c\<close>, \<open>kill.c\<close>, \<open>ln.c\<close>,
  \<open>mkdir.c\<close>, \<open>rm.c\<close>, \<open>zombie.c\<close> and \<open>forktest.c\<close>; \<open>init\<close> is an infinite tree.

  \<^bold>\<open>What is shown.\<close> An operation on the file system is atomic although the disk may stop at any request, and
  recovery may itself be cut off and repeated. A write changes the list of bytes that a file is, through its direct and
  indirect blocks, and nothing else, and a new name the map that a directory is; both are atomic, and reads and
  lookups see what was written. The page tables of the boot code map what the MMU needs. Mutual exclusion of the spin lock and balance of interrupt masking; a process
  runs on at most one CPU, and sleep and wakeup do not lose each other; the page allocator is a
  stack of cleared pages; a mapping is found again and disturbs no other; copying to user memory
  and back gives the same bytes across pages; strings stay in their bounds; the allocator of user programs hands out
  blocks that do not overlap and merges the free ones; a pipe is a queue of
  at most 512 bytes, with its blocking and error cases; the matcher of \<open>grep\<close> decides the language of
  its patterns, and \<open>grep\<close> and \<open>wc\<close> do not depend on how \<open>read\<close> cuts a file up; numbers that are
  printed are read back; the shell's parser ends, its words are those of the line, and the shell
  gives every command the descriptors that its syntax asks for.

  \<^bold>\<open>Fuel.\<close> A C loop that is bounded by its data is structural recursion. Other loops have fuel: the
  copying loops one round per byte and one more; page loops \<open>2 ^ 52\<close>, as many as there are page
  addresses; the lists of the buffer cache one round per buffer and one for the head; the entries of a directory \<open>2 ^ 29\<close>, more
  than a file of 268 blocks has; the blocks of \<open>bvmmap\<close> \<open>2 ^ 43\<close>, as many as there are of 2 MB; the ring of the user
  allocator \<open>2 ^ 32\<close>, twice around a ring of blocks of at least 16 bytes; the parser of
  the shell four calls per byte of the line, proved to be enough in \<open>Sh\<close>. Running out of it is
  \<open>Hang\<close> (or \<open>NoFuel\<close>), never a normal result.

  \<^bold>\<open>Not modelled.\<close> Assembly (\<open>entry.S\<close> but for \<open>jump_stack\<close>, \<open>swtch.S\<close>, \<open>trap_asm.S\<close>, \<open>initcode.S\<close>), which moves
  registers; the effect of \<open>swtch\<close> is in the definitions of the scheduler. Memory barriers and weak memory, caches and
  the TLB. \<open>picirq.c\<close>, which is not linked, \<open>debug.c\<close>, and \<open>buddy.c\<close>, which is empty. The test programs \<open>usertests.c\<close>,
  \<open>grind.c\<close> and \<open>stressfs.c\<close>: sequences of system calls that try the kernel out, without operations or state of their
  own. The stubs of the system calls are generated by the build.
\<close>

end
